(* ===== verification/Prelude.thy ===== *)
theory Prelude
  imports Main "HOL-Library.Word" "HOL-Library.Monad_Syntax" "HOL-Library.Multiset"
begin

text \<open>
  The shared vocabulary of the development: the machine types of
  \<^verbatim>\<open>sqlite3.c\<close>, bounds-checked memory reads, the memory-allocation oracle, and the
  generic lemmas on words, lists and options that the component theories use.

  \<^item> Bytes and C integers are words of their width: \<open>u8\<close>, \<open>u16\<close>, \<open>u32\<close>, \<open>u64\<close>; a
    signed C integer is read off such a word with \<open>sint\<close> or is an \<open>int\<close> with its
    bounds written out.
  \<^item> A read through a pointer is \<open>rd\<close>: \<open>None\<close> is a read outside the object.
  \<^item> Each call of an allocator consumes one bit of an \<open>oom\<close> list: \<open>False\<close> means that
    this allocation fails. Theorems quantify over the whole list, so they hold for
    every pattern of allocation failures.
\<close>

unbundle bit_operations_syntax

type_synonym u8 = "8 word"
type_synonym u16 = "16 word"
type_synonym u32 = "32 word"
type_synonym u64 = "64 word"

named_theorems word_bits \<open>facts that decide single bits of machine words\<close>
named_theorems rd_simps \<open>evaluation of bounds-checked reads\<close>

section \<open>Result codes\<close>

text \<open>The integer result codes of \<^verbatim>\<open>sqlite3.h\<close> that the modelled routines return.\<close>

datatype result_code =
    SQLITE_OK
  | SQLITE_NOMEM
  | SQLITE_IOERR_SHORT_READ
  | SQLITE_CORRUPT
  | SQLITE_IOERR_NOMEM
  | SQLITE_IOERR_WRITE
  | SQLITE_CANTOPEN
  | SQLITE_TOOBIG
  | SQLITE_DONE

section \<open>Reads through pointers\<close>

definition rd :: "'a list \<Rightarrow> nat \<Rightarrow> 'a option" where
  "rd p i = (if i < length p then Some (p ! i) else None)"

lemma rd_Nil [simp, rd_simps]: "rd [] i = None"
  by (simp add: rd_def)

lemma rd_Cons_0 [simp, rd_simps]: "rd (x # xs) 0 = Some x"
  by (simp add: rd_def)

lemma rd_Cons_Suc [simp, rd_simps]: "rd (x # xs) (Suc i) = rd xs i"
  by (simp add: rd_def)

lemma rd_Cons_numeral [simp, rd_simps]: "rd (x # xs) (numeral k) = rd xs (pred_numeral k)"
  by (simp add: numeral_eq_Suc)

lemma rd_Cons_1 [simp, rd_simps]: "rd (x # xs) 1 = rd xs 0"
  by (simp add: rd_def)

lemma rd_append [simp]: "rd (xs @ ys) i = (if i < length xs then Some (xs ! i) else rd ys (i - length xs))"
  by (auto simp: rd_def nth_append)

text \<open>A write through a pointer; \<open>None\<close> is a write outside the object.\<close>

definition wr :: "'a list \<Rightarrow> nat \<Rightarrow> 'a \<Rightarrow> 'a list option" where
  "wr p i v = (if i < length p then Some (p[i := v]) else None)"

lemma wr_append [simp]: "i = length xs \<Longrightarrow> wr (xs @ y # ys) i v = Some (xs @ v # ys)"
  by (simp add: wr_def)

lemma wr_length: "wr p i v = Some p' \<Longrightarrow> length p' = length p"
  by (auto simp: wr_def split: if_splits)

section \<open>The allocation oracle\<close>

type_synonym oom = "bool list"

text \<open>One allocation: whether it succeeds, and the outcomes of the later ones. A list
  that has run out stands for an allocator that does not fail any more.\<close>

fun alloc :: "oom \<Rightarrow> bool \<times> oom" where
  "alloc [] = (True, [])"
| "alloc (b # bs) = (b, bs)"

section \<open>Words\<close>

lemma bit_u8_high [word_bits]: "8 \<le> n \<Longrightarrow> \<not> bit (p :: u8) n"
  using bit_imp_le_length [of p n] by auto

lemma and_0x80_iff [word_bits]: "(a :: 'a::len word) AND 0x80 = 0 \<longleftrightarrow> \<not> bit a 7"
  using and_exp_eq_0_iff_not_bit [of a 7] by simp

lemma and_push_bit_1_iff [word_bits]: "(a :: 'a::len word) AND push_bit n 1 = 0 \<longleftrightarrow> \<not> bit a n"
  using and_exp_eq_0_iff_not_bit [of a n] by (simp only: push_bit_of_1)

lemma unat_u8_less [simp]: "unat (p :: u8) < 256"
  using unsigned_less [of p, where ?'a = nat] by simp

lemma u8_ge_0x80 [word_bits]: "0x80 \<le> (p :: u8) \<longleftrightarrow> bit p 7"
proof -
  have "bit p 7 \<longleftrightarrow> odd (unat p div 128)"
    using bit_iff_odd [of "unat p" 7] by (simp add: bit_unsigned_iff)
  also have "\<dots> \<longleftrightarrow> 128 \<le> unat p"
  proof (cases "128 \<le> unat p")
    case True
    then have "unat p div 128 = 1"
      using unat_u8_less [of p] by (intro div_nat_eqI) simp_all
    with True show ?thesis by simp
  qed simp
  finally show ?thesis by (simp add: word_le_nat_alt)
qed

lemma bit_0x7f [word_bits]: "bit (0x7f :: int) n \<longleftrightarrow> n < 7"
proof -
  have "(0x7f :: int) = mask 7" by (simp add: mask_eq_exp_minus_1)
  then show ?thesis by (simp only: bit_mask_iff) (simp add: possible_bit_def)
qed

lemma ucast_ucast_u8: "ucast (ucast (p :: u8) :: u32) = (ucast p :: u64)"
  by (rule bit_word_eqI) (auto simp: bit_simps dest: bit_imp_le_length)

lemma unat_ucast_u32 [simp]: "unat (ucast (v :: u32) :: u64) = unat v"
  using unsigned_less [of v, where ?'a = nat]
  by (simp add: unsigned_ucast_eq take_bit_nat_eq_self)

lemma u8_7f_to_u32: "ucast (p AND 0x7f :: u8) = (ucast p AND 0x7f :: u32)"
  by (rule bit_word_eqI) (auto simp: bit_simps word_bits)

lemma u64_split_7: "push_bit 7 (drop_bit 7 v) OR (v AND 0x7f) = (v :: u64)"
  by (rule bit_word_eqI) (auto simp: bit_simps word_bits)

lemma upt_8: "[0..<8] = [0, 1, 2, 3, 4, 5, 6, 7]"
  by (simp add: upt_rec)

lemma upt_32: "[0..<32] =
   [0, 1, 2, 3, 4, 5, 6, 7, 8, 9, 10, 11, 12, 13, 14, 15,
    16, 17, 18, 19, 20, 21, 22, 23, 24, 25, 26, 27, 28, 29, 30, 31]"
  by (simp add: upt_rec)

lemma upt_64: "[0..<64] =
   [0, 1, 2, 3, 4, 5, 6, 7, 8, 9, 10, 11, 12, 13, 14, 15,
    16, 17, 18, 19, 20, 21, 22, 23, 24, 25, 26, 27, 28, 29, 30, 31,
    32, 33, 34, 35, 36, 37, 38, 39, 40, 41, 42, 43, 44, 45, 46, 47,
    48, 49, 50, 51, 52, 53, 54, 55, 56, 57, 58, 59, 60, 61, 62, 63]"
  by (simp add: upt_rec)

lemma word_eq_bitsI:
  "list_all (\<lambda>n. bit a n = bit b n) [0..<LENGTH('a)] \<Longrightarrow> a = (b :: 'a::len word)"
  by (rule bit_word_eqI) (auto simp: list_all_iff)

lemma u8_eq_bitsI: "list_all (\<lambda>n. bit a n = bit b n) [0..<8] \<Longrightarrow> a = (b :: u8)"
  by (rule word_eq_bitsI) simp

lemma u32_eq_bitsI: "list_all (\<lambda>n. bit a n = bit b n) [0..<32] \<Longrightarrow> a = (b :: u32)"
  by (rule word_eq_bitsI) simp

lemma u64_eq_bitsI: "list_all (\<lambda>n. bit a n = bit b n) [0..<64] \<Longrightarrow> a = (b :: u64)"
  by (rule word_eq_bitsI) simp

lemmas u8_bit_split = u8_eq_bitsI [unfolded upt_8 list.pred_inject]
lemmas u32_bit_split = u32_eq_bitsI [unfolded upt_32 list.pred_inject]
lemmas u64_bit_split = u64_eq_bitsI [unfolded upt_64 list.pred_inject]

end
