(* ===== verification/Varint.thy ===== *)
theory Varint
  imports Prelude
begin

text \<open>
  The variable-length integer codec: \<^verbatim>\<open>util.c\<close> (\<^verbatim>\<open>sqlite3PutVarint\<close>,
  \<^verbatim>\<open>sqlite3GetVarint\<close>, \<^verbatim>\<open>sqlite3GetVarint32\<close>, \<^verbatim>\<open>sqlite3VarintLen\<close>), FTS5's own
  copy of it (\<^verbatim>\<open>sqlite3Fts5PutVarint\<close>, \<dots>) and the four-byte big-endian integers.
  A writer returns the bytes it stores at \<^verbatim>\<open>p[0..]\<close>; a reader takes the bytes
  that start at \<^verbatim>\<open>p\<close> and returns \<open>None\<close> if it reads past them.
\<close>

section \<open>Writers\<close>

text \<open>The loop \<^verbatim>\<open>for(i=7; i>=0; i--)\<close> of the nine-byte case: it stores
  \<^verbatim>\<open>p[i]\<close> for \<open>i\<close> from \<open>k - 1\<close> down to 0, so the bytes it leaves are in increasing
  order of \<open>i\<close>.\<close>

fun putVarint9Loop :: "nat \<Rightarrow> u64 \<Rightarrow> u8 list" where
  "putVarint9Loop 0 v = []"
| "putVarint9Loop (Suc k) v =
     putVarint9Loop k (drop_bit 7 v) @ [ucast ((v AND 0x7f) OR 0x80)]"

text \<open>The loop \<^verbatim>\<open>do{ buf[n++] = ...; v >>= 7; }while( v!=0 )\<close>: the contents of \<^verbatim>\<open>buf\<close>.\<close>

lemma unat_drop_bit_7: "unat (drop_bit 7 (v :: u64)) = unat v div 128"
  by (simp add: drop_bit_eq_div unat_div_distrib)

function putVarintBuf :: "u64 \<Rightarrow> u8 list" where
  "putVarintBuf v =
     ucast ((v AND 0x7f) OR 0x80) #
     (let v' = drop_bit 7 v in if v' \<noteq> 0 then putVarintBuf v' else [])"
  by pat_completeness auto
termination
  by (relation "measure unat")
    (auto simp: unat_drop_bit_7 unat_eq_zero word_less_nat_alt intro!: div_less_dividend gr0I
      simp flip: unat_0_iff)

declare putVarintBuf.simps [simp del]

definition putVarint64 :: "u64 \<Rightarrow> nat \<times> u8 list" where
  "putVarint64 v =
     (if v AND (push_bit 32 0xff000000) \<noteq> 0 then
        (let p8 = ucast v; v = drop_bit 8 v in (9, putVarint9Loop 8 v @ [p8]))
      else
        (let buf = putVarintBuf v; n = length buf; buf = buf[0 := buf ! 0 AND 0x7f]
         in (n, rev buf)))"

definition sqlite3PutVarint :: "u64 \<Rightarrow> nat \<times> u8 list" where
  "sqlite3PutVarint v =
     (if v \<le> 0x7f then (1, [ucast (v AND 0x7f)])
      else if v \<le> 0x3fff then
        (2, [ucast ((drop_bit 7 v AND 0x7f) OR 0x80), ucast (v AND 0x7f)])
      else putVarint64 v)"

text \<open>\<^verbatim>\<open>for(i=1; (v >>= 7)!=0; i++)\<close>\<close>

function varintLenLoop :: "nat \<Rightarrow> u64 \<Rightarrow> nat" where
  "varintLenLoop i v =
     (let v' = drop_bit 7 v in if v' \<noteq> 0 then varintLenLoop (i + 1) v' else i)"
  by pat_completeness auto
termination
  by (relation "measure (\<lambda>(i, v). unat v)")
    (auto simp: unat_drop_bit_7 unat_eq_zero word_less_nat_alt intro!: div_less_dividend gr0I
      simp flip: unat_0_iff)

declare varintLenLoop.simps [simp del]

definition sqlite3VarintLen :: "u64 \<Rightarrow> nat" where
  "sqlite3VarintLen v = varintLenLoop 1 v"

section \<open>Readers\<close>

abbreviation SLOT_2_0 :: u32 where "SLOT_2_0 \<equiv> 0x001fc07f"
abbreviation SLOT_4_2_0 :: u32 where "SLOT_4_2_0 \<equiv> 0xf01fc07f"

text \<open>\<^verbatim>\<open>*v = ((u64)s)<<32 | a\<close>\<close>

definition join32 :: "u32 \<Rightarrow> u32 \<Rightarrow> u64" where
  "join32 s a = push_bit 32 (ucast s) OR ucast a"

definition sqlite3GetVarint :: "u8 list \<Rightarrow> (nat \<times> u64) option" where
  "sqlite3GetVarint p = do {
     p0 \<leftarrow> rd p 0;
     if p0 AND 0x80 = 0 then Some (1, ucast p0) else do {
     p1 \<leftarrow> rd p 1;
     if p1 AND 0x80 = 0 then
       Some (2, ucast (push_bit 7 (ucast (p0 AND 0x7f) :: u32) OR ucast p1)) else do {
     let a = push_bit 14 (ucast p0 :: u32);
     let b = (ucast p1 :: u32);
     p2 \<leftarrow> rd p 2;
     let a = a OR ucast p2;
     if a AND 0x80 = 0 then
       (let a = a AND SLOT_2_0; b = push_bit 7 (b AND 0x7f); a = a OR b
        in Some (3, ucast a)) else do {
     let a = a AND SLOT_2_0;
     p3 \<leftarrow> rd p 3;
     let b = push_bit 14 b OR ucast p3;
     if b AND 0x80 = 0 then
       (let b = b AND SLOT_2_0; a = push_bit 7 a; a = a OR b in Some (4, ucast a)) else do {
     let b = b AND SLOT_2_0;
     let s = a;
     p4 \<leftarrow> rd p 4;
     let a = push_bit 14 a OR ucast p4;
     if a AND 0x80 = 0 then
       (let b = push_bit 7 b; a = a OR b; s = drop_bit 18 s in Some (5, join32 s a)) else do {
     let s = push_bit 7 s OR b;
     p5 \<leftarrow> rd p 5;
     let b = push_bit 14 b OR ucast p5;
     if b AND 0x80 = 0 then
       (let a = a AND SLOT_2_0; a = push_bit 7 a; a = a OR b; s = drop_bit 18 s
        in Some (6, join32 s a)) else do {
     p6 \<leftarrow> rd p 6;
     let a = push_bit 14 a OR ucast p6;
     if a AND 0x80 = 0 then
       (let a = a AND SLOT_4_2_0; b = b AND SLOT_2_0; b = push_bit 7 b; a = a OR b;
            s = drop_bit 11 s in Some (7, join32 s a)) else do {
     let a = a AND SLOT_2_0;
     p7 \<leftarrow> rd p 7;
     let b = push_bit 14 b OR ucast p7;
     if b AND 0x80 = 0 then
       (let b = b AND SLOT_4_2_0; a = push_bit 7 a; a = a OR b; s = drop_bit 4 s
        in Some (8, join32 s a)) else do {
     p8 \<leftarrow> rd p 8;
     let a = push_bit 15 a OR ucast p8;
     let b = b AND SLOT_2_0;
     let b = push_bit 8 b;
     let a = a OR b;
     let s = push_bit 4 s;
     let b = (ucast p4 :: u32) AND 0x7f;
     let b = drop_bit 3 b;
     let s = s OR b;
     Some (9, join32 s a) }}}}}}}}}"

text \<open>The macro \<^verbatim>\<open>getVarint32\<close> is defined, so the one-byte case of the function is
  compiled out: it is only called through the macro below.\<close>

definition sqlite3GetVarint32 :: "u8 list \<Rightarrow> (nat \<times> u32) option" where
  "sqlite3GetVarint32 p = do {
     p0 \<leftarrow> rd p 0;
     let a = (ucast p0 :: u32);
     p1 \<leftarrow> rd p 1;
     let b = (ucast p1 :: u32);
     if b AND 0x80 = 0 then
       (let a = a AND 0x7f; a = push_bit 7 a in Some (2, a OR b)) else do {
     p2 \<leftarrow> rd p 2;
     let a = push_bit 14 a OR ucast p2;
     if a AND 0x80 = 0 then
       (let a = a AND (push_bit 14 0x7f OR 0x7f); b = b AND 0x7f; b = push_bit 7 b
        in Some (3, a OR b)) else do {
     (n, v64) \<leftarrow> sqlite3GetVarint p;
     if v64 AND 0xffffffff \<noteq> v64 then Some (n, 0xffffffff) else Some (n, ucast v64) }}}"

definition getVarint32 :: "u8 list \<Rightarrow> (nat \<times> u32) option" where
  "getVarint32 p = do {
     p0 \<leftarrow> rd p 0;
     if p0 < 0x80 then Some (1, ucast p0) else sqlite3GetVarint32 p }"

definition putVarint32 :: "u32 \<Rightarrow> nat \<times> u8 list" where
  "putVarint32 v = (if v < 0x80 then (1, [ucast v]) else sqlite3PutVarint (ucast v))"

section \<open>The copy of FTS5\<close>

definition fts5PutVarint64 :: "u64 \<Rightarrow> nat \<times> u8 list" where
  "fts5PutVarint64 v =
     (if v AND (push_bit 32 0xff000000) \<noteq> 0 then
        (let p8 = ucast v; v = drop_bit 8 v in (9, putVarint9Loop 8 v @ [p8]))
      else
        (let buf = putVarintBuf v; n = length buf; buf = buf[0 := buf ! 0 AND 0x7f]
         in (n, rev buf)))"

definition sqlite3Fts5PutVarint :: "u64 \<Rightarrow> nat \<times> u8 list" where
  "sqlite3Fts5PutVarint v =
     (if v \<le> 0x7f then (1, [ucast (v AND 0x7f)])
      else if v \<le> 0x3fff then
        (2, [ucast ((drop_bit 7 v AND 0x7f) OR 0x80), ucast (v AND 0x7f)])
      else fts5PutVarint64 v)"

definition sqlite3Fts5GetVarintLen :: "u32 \<Rightarrow> nat" where
  "sqlite3Fts5GetVarintLen iVal =
     (if iVal < push_bit 14 1 then 2
      else if iVal < push_bit 21 1 then 3
      else if iVal < push_bit 28 1 then 4
      else 5)"

definition sqlite3Fts5GetVarint :: "u8 list \<Rightarrow> (nat \<times> u64) option" where
  "sqlite3Fts5GetVarint p = do {
     p0 \<leftarrow> rd p 0;
     let a = (ucast p0 :: u32);
     if a AND 0x80 = 0 then Some (1, ucast a) else do {
     p1 \<leftarrow> rd p 1;
     let b = (ucast p1 :: u32);
     if b AND 0x80 = 0 then
       (let a = a AND 0x7f; a = push_bit 7 a; a = a OR b in Some (2, ucast a)) else do {
     p2 \<leftarrow> rd p 2;
     let a = push_bit 14 a OR ucast p2;
     if a AND 0x80 = 0 then
       (let a = a AND SLOT_2_0; b = b AND 0x7f; b = push_bit 7 b; a = a OR b
        in Some (3, ucast a)) else do {
     let a = a AND SLOT_2_0;
     p3 \<leftarrow> rd p 3;
     let b = push_bit 14 b OR ucast p3;
     if b AND 0x80 = 0 then
       (let b = b AND SLOT_2_0; a = push_bit 7 a; a = a OR b in Some (4, ucast a)) else do {
     let b = b AND SLOT_2_0;
     let s = a;
     p4 \<leftarrow> rd p 4;
     let a = push_bit 14 a OR ucast p4;
     if a AND 0x80 = 0 then
       (let b = push_bit 7 b; a = a OR b; s = drop_bit 18 s in Some (5, join32 s a)) else do {
     let s = push_bit 7 s OR b;
     p5 \<leftarrow> rd p 5;
     let b = push_bit 14 b OR ucast p5;
     if b AND 0x80 = 0 then
       (let a = a AND SLOT_2_0; a = push_bit 7 a; a = a OR b; s = drop_bit 18 s
        in Some (6, join32 s a)) else do {
     p6 \<leftarrow> rd p 6;
     let a = push_bit 14 a OR ucast p6;
     if a AND 0x80 = 0 then
       (let a = a AND SLOT_4_2_0; b = b AND SLOT_2_0; b = push_bit 7 b; a = a OR b;
            s = drop_bit 11 s in Some (7, join32 s a)) else do {
     let a = a AND SLOT_2_0;
     p7 \<leftarrow> rd p 7;
     let b = push_bit 14 b OR ucast p7;
     if b AND 0x80 = 0 then
       (let b = b AND SLOT_4_2_0; a = push_bit 7 a; a = a OR b; s = drop_bit 4 s
        in Some (8, join32 s a)) else do {
     p8 \<leftarrow> rd p 8;
     let a = push_bit 15 a OR ucast p8;
     let b = b AND SLOT_2_0;
     let b = push_bit 8 b;
     let a = a OR b;
     let s = push_bit 4 s;
     let b = (ucast p4 :: u32) AND 0x7f;
     let b = drop_bit 3 b;
     let s = s OR b;
     Some (9, join32 s a) }}}}}}}}}"

definition sqlite3Fts5GetVarint32 :: "u8 list \<Rightarrow> (nat \<times> u32) option" where
  "sqlite3Fts5GetVarint32 p = do {
     p0 \<leftarrow> rd p 0;
     let a = (ucast p0 :: u32);
     if a AND 0x80 = 0 then Some (1, a) else do {
     p1 \<leftarrow> rd p 1;
     let b = (ucast p1 :: u32);
     if b AND 0x80 = 0 then
       (let a = a AND 0x7f; a = push_bit 7 a in Some (2, a OR b)) else do {
     p2 \<leftarrow> rd p 2;
     let a = push_bit 14 a OR ucast p2;
     if a AND 0x80 = 0 then
       (let a = a AND (push_bit 14 0x7f OR 0x7f); b = b AND 0x7f; b = push_bit 7 b
        in Some (3, a OR b)) else do {
     (n, v64) \<leftarrow> sqlite3Fts5GetVarint p;
     Some (n, ucast v64 AND 0x7fffffff) }}}}"

section \<open>Fixed-width big-endian integers\<close>

definition sqlite3Get4byte :: "u8 list \<Rightarrow> u32 option" where
  "sqlite3Get4byte p = do {
     p0 \<leftarrow> rd p 0; p1 \<leftarrow> rd p 1; p2 \<leftarrow> rd p 2; p3 \<leftarrow> rd p 3;
     Some (push_bit 24 (ucast p0) OR push_bit 16 (ucast p1) OR push_bit 8 (ucast p2) OR ucast p3) }"

definition sqlite3Put4byte :: "u32 \<Rightarrow> u8 list" where
  "sqlite3Put4byte v =
     [ucast (drop_bit 24 v), ucast (drop_bit 16 v), ucast (drop_bit 8 v), ucast v]"

section \<open>The encoding, as the comment before \<^verbatim>\<open>putVarint64\<close> describes it\<close>

text \<open>Seven bits a byte, most significant group first, the high bit set on every byte
  but the last; a ninth byte carries eight bits and is always the last. \<open>k\<close> is the
  number of bytes read so far, \<open>acc\<close> the value they carry.\<close>

fun varint_ref :: "nat \<Rightarrow> u64 \<Rightarrow> u8 list \<Rightarrow> (nat \<times> u64) option" where
  "varint_ref k acc [] = None"
| "varint_ref k acc (b # bs) =
     (if k = 8 then Some (9, push_bit 8 acc OR ucast b)
      else if bit b 7 then varint_ref (Suc k) (push_bit 7 acc OR (ucast b AND 0x7f)) bs
      else Some (Suc k, push_bit 7 acc OR ucast b))"

text \<open>Reading \<open>n\<close> varints one after the other.\<close>

fun get_seq :: "(u8 list \<Rightarrow> (nat \<times> 'v) option) \<Rightarrow> nat \<Rightarrow> u8 list \<Rightarrow> ('v list \<times> u8 list) option" where
  "get_seq get 0 p = Some ([], p)"
| "get_seq get (Suc n) p =
     (case get p of None \<Rightarrow> None
      | Some (k, v) \<Rightarrow>
          (case get_seq get n (drop k p) of None \<Rightarrow> None | Some (vs, r) \<Rightarrow> Some (v # vs, r)))"

section \<open>The unrolled readers decode the encoding\<close>

lemmas getVarint_eval = sqlite3GetVarint_def and_0x80_iff join32_def Let_def
  bit_or_iff bit_push_bit_iff bit_ucast_iff

lemma list9_cases:
  obtains "xs = []" | a where "xs = [a]" | a b where "xs = [a, b]"
  | a b c where "xs = [a, b, c]" | a b c d where "xs = [a, b, c, d]"
  | a b c d e where "xs = [a, b, c, d, e]" | a b c d e f where "xs = [a, b, c, d, e, f]"
  | a b c d e f g where "xs = [a, b, c, d, e, f, g]"
  | a b c d e f g h where "xs = [a, b, c, d, e, f, g, h]"
  | a b c d e f g h i r where "xs = a # b # c # d # e # f # g # h # i # r"
  by (metis list.exhaust)

lemma getVarint_1: "\<not> bit p0 7 \<Longrightarrow> sqlite3GetVarint (p0 # r) = varint_ref 0 0 (p0 # r)"
  by (simp add: getVarint_eval)

lemma getVarint_2:
  "bit p0 7 \<Longrightarrow> \<not> bit p1 7 \<Longrightarrow> sqlite3GetVarint (p0 # p1 # r) = varint_ref 0 0 (p0 # p1 # r)"
  by (simp add: getVarint_eval, rule u64_bit_split) (simp add: bit_simps word_bits)

lemma getVarint_3:
  "bit p0 7 \<Longrightarrow> bit p1 7 \<Longrightarrow> \<not> bit p2 7 \<Longrightarrow>
   sqlite3GetVarint (p0 # p1 # p2 # r) = varint_ref 0 0 (p0 # p1 # p2 # r)"
  by (simp add: getVarint_eval, rule u64_bit_split) (simp add: bit_simps word_bits)

lemma getVarint_4:
  "bit p0 7 \<Longrightarrow> bit p1 7 \<Longrightarrow> bit p2 7 \<Longrightarrow> \<not> bit p3 7 \<Longrightarrow>
   sqlite3GetVarint (p0 # p1 # p2 # p3 # r) = varint_ref 0 0 (p0 # p1 # p2 # p3 # r)"
  by (simp add: getVarint_eval, rule u64_bit_split) (simp add: bit_simps word_bits)

lemma getVarint_5:
  "bit p0 7 \<Longrightarrow> bit p1 7 \<Longrightarrow> bit p2 7 \<Longrightarrow> bit p3 7 \<Longrightarrow> \<not> bit p4 7 \<Longrightarrow>
   sqlite3GetVarint (p0 # p1 # p2 # p3 # p4 # r) = varint_ref 0 0 (p0 # p1 # p2 # p3 # p4 # r)"
  by (simp add: getVarint_eval, rule u64_bit_split) (simp add: bit_simps word_bits)

lemma getVarint_6:
  "bit p0 7 \<Longrightarrow> bit p1 7 \<Longrightarrow> bit p2 7 \<Longrightarrow> bit p3 7 \<Longrightarrow> bit p4 7 \<Longrightarrow> \<not> bit p5 7 \<Longrightarrow>
   sqlite3GetVarint (p0 # p1 # p2 # p3 # p4 # p5 # r) =
     varint_ref 0 0 (p0 # p1 # p2 # p3 # p4 # p5 # r)"
  by (simp add: getVarint_eval, rule u64_bit_split) (simp add: bit_simps word_bits)

lemma getVarint_7:
  "bit p0 7 \<Longrightarrow> bit p1 7 \<Longrightarrow> bit p2 7 \<Longrightarrow> bit p3 7 \<Longrightarrow> bit p4 7 \<Longrightarrow> bit p5 7 \<Longrightarrow> \<not> bit p6 7 \<Longrightarrow>
   sqlite3GetVarint (p0 # p1 # p2 # p3 # p4 # p5 # p6 # r) =
     varint_ref 0 0 (p0 # p1 # p2 # p3 # p4 # p5 # p6 # r)"
  by (simp add: getVarint_eval, rule u64_bit_split) (simp add: bit_simps word_bits)

lemma getVarint_8:
  "bit p0 7 \<Longrightarrow> bit p1 7 \<Longrightarrow> bit p2 7 \<Longrightarrow> bit p3 7 \<Longrightarrow> bit p4 7 \<Longrightarrow> bit p5 7 \<Longrightarrow> bit p6 7 \<Longrightarrow>
   \<not> bit p7 7 \<Longrightarrow>
   sqlite3GetVarint (p0 # p1 # p2 # p3 # p4 # p5 # p6 # p7 # r) =
     varint_ref 0 0 (p0 # p1 # p2 # p3 # p4 # p5 # p6 # p7 # r)"
  by (simp add: getVarint_eval, rule u64_bit_split) (simp add: bit_simps word_bits)

lemma getVarint_9:
  "bit p0 7 \<Longrightarrow> bit p1 7 \<Longrightarrow> bit p2 7 \<Longrightarrow> bit p3 7 \<Longrightarrow> bit p4 7 \<Longrightarrow> bit p5 7 \<Longrightarrow> bit p6 7 \<Longrightarrow>
   bit p7 7 \<Longrightarrow>
   sqlite3GetVarint (p0 # p1 # p2 # p3 # p4 # p5 # p6 # p7 # p8 # r) =
     varint_ref 0 0 (p0 # p1 # p2 # p3 # p4 # p5 # p6 # p7 # p8 # r)"
  by (simp add: getVarint_eval, rule u64_bit_split) (simp add: bit_simps word_bits)

lemma getVarint_short:
  "\<forall>b \<in> set p. bit b 7 \<Longrightarrow> length p < 9 \<Longrightarrow> sqlite3GetVarint p = varint_ref 0 0 p"
  by (cases p rule: list9_cases) (simp_all add: getVarint_eval)

lemmas getVarint_steps = getVarint_1 getVarint_2 getVarint_3 getVarint_4 getVarint_5
  getVarint_6 getVarint_7 getVarint_8 getVarint_9

lemma getVarint_ref: "sqlite3GetVarint p = varint_ref 0 0 p"
proof (cases "\<exists>b \<in> set (take 8 p). \<not> bit b 7")
  case True
  then show ?thesis
    by (cases p rule: list9_cases)
      (simp_all del: varint_ref.simps, (metis getVarint_steps)+)
next
  case False
  show ?thesis
  proof (cases "length p < 9")
    case True
    with False show ?thesis by (intro getVarint_short) auto
  next
    case long: False
    with False show ?thesis
      by (cases p rule: list9_cases) (simp_all add: getVarint_9 del: varint_ref.simps)
  qed
qed

lemma fts5GetVarint_core: "sqlite3Fts5GetVarint p = sqlite3GetVarint p"
proof (cases p)
  case (Cons p0 r)
  then show ?thesis
    unfolding sqlite3Fts5GetVarint_def sqlite3GetVarint_def Let_def
    by (cases r) (simp_all add: and_0x80_iff bit_ucast_iff ucast_ucast_u8 u8_7f_to_u32)
qed (simp add: sqlite3Fts5GetVarint_def sqlite3GetVarint_def)

section \<open>Round trips\<close>

lemma varint_ref_run:
  assumes "\<forall>b \<in> set hs. bit b 7" and "k + length hs \<le> 8"
  shows "varint_ref k acc (hs @ r) =
    varint_ref (k + length hs) (foldl (\<lambda>a b. push_bit 7 a OR (ucast b AND 0x7f)) acc hs) r"
  using assms by (induction hs arbitrary: k acc) auto

lemma putVarintBuf_unfold:
  "putVarintBuf v = ucast ((v AND 0x7f) OR 0x80) #
     (if drop_bit 7 v = 0 then [] else putVarintBuf (drop_bit 7 v))"
  by (subst putVarintBuf.simps) (simp add: Let_def)

lemma putVarintBuf_bits: "\<forall>b \<in> set (putVarintBuf v). bit b 7"
proof (induction v rule: putVarintBuf.induct)
  case (1 v)
  then show ?case
    by (subst putVarintBuf_unfold) (auto simp: bit_simps word_bits)
qed

lemma putVarintBuf_value:
  "foldl (\<lambda>a b. push_bit 7 a OR (ucast b AND 0x7f)) 0 (rev (putVarintBuf v)) = v"
proof (induction v rule: putVarintBuf.induct)
  case (1 v)
  have b: "ucast (ucast ((v AND 0x7f) OR 0x80) :: u8) AND 0x7f = v AND (0x7f :: u64)"
    by (rule u64_bit_split) (simp add: bit_simps)
  show ?case
    using "1.IH" [OF refl] u64_split_7 [of v]
    by (subst putVarintBuf_unfold) (auto simp: b)
qed

lemma putVarintBuf_length: "unat v < 128 ^ Suc k \<Longrightarrow> length (putVarintBuf v) \<le> Suc k"
proof (induction k arbitrary: v)
  case 0
  then have "drop_bit 7 v = 0" by (simp add: unat_drop_bit_7 flip: unat_eq_zero)
  then show ?case by (subst putVarintBuf_unfold) simp
next
  case (Suc k)
  then have "unat (drop_bit 7 v) < 128 ^ Suc k"
    by (simp add: unat_drop_bit_7 less_mult_imp_div_less mult.commute)
  with Suc.IH show ?case by (subst putVarintBuf_unfold) simp
qed

lemma take_bit_u64_iff: "take_bit n v = v \<longleftrightarrow> unat (v :: u64) < 2 ^ n"
proof -
  have "take_bit n v = v \<longleftrightarrow> unat (take_bit n v) = unat v" by (rule word_unat_eq_iff)
  also have "\<dots> \<longleftrightarrow> take_bit n (unat v) = unat v" by (simp only: unsigned_take_bit_eq)
  finally show ?thesis by (simp only: take_bit_nat_eq_self_iff)
qed

lemma top_byte: "v AND push_bit 32 0xff000000 = (0 :: u64) \<longleftrightarrow> unat v < 2 ^ 56"
proof
  assume "v AND push_bit 32 0xff000000 = (0 :: u64)"
  then have "bit (v AND push_bit 32 0xff000000) n = False" for n by simp
  note this [of 56] this [of 57] this [of 58] this [of 59] this [of 60] this [of 61]
    this [of 62] this [of 63]
  then have "take_bit 56 v = v"
    by (intro u64_bit_split) (simp add: bit_simps)
  then show "unat v < 2 ^ 56" by (simp only: take_bit_u64_iff)
next
  assume "unat v < 2 ^ 56"
  then have "take_bit 56 v = v" by (simp only: take_bit_u64_iff)
  moreover have "take_bit 56 v AND push_bit 32 0xff000000 = 0"
    by (rule u64_bit_split) (simp add: bit_simps)
  ultimately show "v AND push_bit 32 0xff000000 = 0" by metis
qed

lemma putVarint64_small:
  assumes "v AND push_bit 32 0xff000000 = 0"
  shows "sqlite3GetVarint (snd (putVarint64 v) @ r) = Some (fst (putVarint64 v), v)"
    and "fst (putVarint64 v) = length (snd (putVarint64 v))" and "fst (putVarint64 v) \<le> 8"
proof -
  define tl where "tl = (if drop_bit 7 v = 0 then [] else putVarintBuf (drop_bit 7 v))"
  define b where "b = ((ucast ((v AND 0x7f) OR 0x80) :: u8) AND 0x7f)"
  have buf: "putVarintBuf v = ucast ((v AND 0x7f) OR 0x80) # tl"
    unfolding tl_def by (rule putVarintBuf_unfold)
  then have put: "putVarint64 v = (Suc (length tl), rev tl @ [b])"
    using assms by (simp add: putVarint64_def b_def)
  have len: "length tl \<le> 7"
    using putVarintBuf_length [of v 7] assms [unfolded top_byte] by (simp add: buf)
  have b: "\<not> bit b 7" "ucast b = v AND (0x7f :: u64)"
     apply (simp add: b_def bit_simps)
    unfolding b_def by (rule u64_bit_split) (simp add: bit_simps)
  have tl_v: "foldl (\<lambda>a b. push_bit 7 a OR (ucast b AND 0x7f)) 0 (rev tl) = drop_bit 7 v"
    using putVarintBuf_value [of "drop_bit 7 v"] by (simp add: tl_def)
  have bits: "\<forall>b \<in> set (rev tl). bit b 7"
    using putVarintBuf_bits by (simp add: tl_def)
  show "sqlite3GetVarint (snd (putVarint64 v) @ r) = Some (fst (putVarint64 v), v)"
    using varint_ref_run [OF bits, of 0 0 "b # r"] len
    by (simp add: getVarint_ref put tl_v b u64_split_7)
  show "fst (putVarint64 v) = length (snd (putVarint64 v))" "fst (putVarint64 v) \<le> 8"
    using len by (simp_all add: put)
qed

lemma putVarint9Loop_8:
  "putVarint9Loop 8 v =
     [ucast ((drop_bit 49 v AND 0x7f) OR 0x80), ucast ((drop_bit 42 v AND 0x7f) OR 0x80),
      ucast ((drop_bit 35 v AND 0x7f) OR 0x80), ucast ((drop_bit 28 v AND 0x7f) OR 0x80),
      ucast ((drop_bit 21 v AND 0x7f) OR 0x80), ucast ((drop_bit 14 v AND 0x7f) OR 0x80),
      ucast ((drop_bit 7 v AND 0x7f) OR 0x80), ucast ((v AND 0x7f) OR 0x80)]"
proof -
  have "(8 :: nat) = Suc (Suc (Suc (Suc (Suc (Suc (Suc (Suc 0)))))))" by simp
  then show ?thesis by (simp only: putVarint9Loop.simps drop_bit_drop_bit) simp
qed

lemma putVarint64_9:
  assumes "v AND push_bit 32 0xff000000 \<noteq> 0"
  shows "sqlite3GetVarint (snd (putVarint64 v) @ r) = Some (9, v)"
    and "fst (putVarint64 v) = 9" and "length (snd (putVarint64 v)) = 9"
proof -
  have put: "putVarint64 v = (9, putVarint9Loop 8 (drop_bit 8 v) @ [ucast v])"
    using assms by (simp add: putVarint64_def Let_def)
  show "fst (putVarint64 v) = 9" "length (snd (putVarint64 v)) = 9"
    by (simp_all add: put putVarint9Loop_8)
  show "sqlite3GetVarint (snd (putVarint64 v) @ r) = Some (9, v)"
    by (simp add: getVarint_ref put putVarint9Loop_8 bit_or_iff bit_and_iff bit_ucast_iff,
        rule u64_bit_split) (simp add: bit_simps)
qed

lemma u64_le_7f: "v \<le> 0x7f \<longleftrightarrow> v AND 0x7f = (v :: u64)"
  and u64_le_3fff: "v \<le> 0x3fff \<longleftrightarrow> v AND 0x3fff = (v :: u64)"
  and u64_le_u32: "v \<le> 0xffffffff \<longleftrightarrow> v AND 0xffffffff = (v :: u64)"
  using take_bit_u64_iff [of 7 v] take_bit_u64_iff [of 14 v] take_bit_u64_iff [of 32 v]
  by (auto simp: mask_eq_exp_minus_1 take_bit_eq_mask word_le_nat_alt)

lemma putVarint_getVarint:
  "sqlite3GetVarint (snd (sqlite3PutVarint v) @ rest) = Some (fst (sqlite3PutVarint v), v)"
proof -
  consider "v \<le> 0x7f" | "\<not> v \<le> 0x7f" "v \<le> 0x3fff" | "\<not> v \<le> 0x7f" "\<not> v \<le> 0x3fff" by blast
  then show ?thesis
  proof cases
    case 1
    then have *: "v AND 0x7f = v" by (simp only: u64_le_7f)
    have "ucast (ucast (v AND 0x7f) :: u8) = v AND 0x7f"
      by (rule u64_bit_split) (simp add: bit_simps)
    moreover have "\<not> bit (ucast (v AND 0x7f) :: u8) 7" by (simp add: bit_simps)
    ultimately show ?thesis using 1 * by (simp add: sqlite3PutVarint_def getVarint_ref)
  next
    case 2
    have "push_bit 7 (ucast (ucast ((drop_bit 7 v AND 0x7f) OR 0x80) :: u8) AND 0x7f)
        OR ucast (ucast (v AND 0x7f) :: u8) = v AND 0x3fff"
      by (rule u64_bit_split) (simp add: bit_simps)
    also have "v AND 0x3fff = v" using 2 by (simp only: u64_le_3fff)
    finally show ?thesis
      using 2 by (simp add: sqlite3PutVarint_def getVarint_ref bit_or_iff bit_and_iff bit_ucast_iff)
  next
    case 3
    then have "sqlite3PutVarint v = putVarint64 v" by (simp add: sqlite3PutVarint_def)
    then show ?thesis
      using putVarint64_9(1,2) [of v] putVarint64_small(1) [of v rest]
      by (cases "v AND push_bit 32 0xff000000 = 0") simp_all
  qed
qed

lemma putVarint_length: "length (snd (sqlite3PutVarint v)) = fst (sqlite3PutVarint v)"
  using putVarint64_9(2,3) [of v] putVarint64_small(2) [of v]
  by (cases "v AND push_bit 32 0xff000000 = 0") (simp_all add: sqlite3PutVarint_def)

lemma fts5PutVarint_core: "sqlite3Fts5PutVarint v = sqlite3PutVarint v"
  by (simp add: sqlite3Fts5PutVarint_def sqlite3PutVarint_def fts5PutVarint64_def putVarint64_def)

section \<open>Lengths\<close>

lemma putVarintBuf_length_ge: "128 ^ k \<le> unat v \<Longrightarrow> Suc k \<le> length (putVarintBuf v)"
proof (induction k arbitrary: v)
  case 0
  show ?case by (subst putVarintBuf_unfold) simp
next
  case (Suc k)
  then have *: "128 ^ k \<le> unat (drop_bit 7 v)"
    by (simp add: unat_drop_bit_7 less_eq_div_iff_mult_less_eq mult.commute)
  then have "drop_bit 7 v \<noteq> 0" by (auto simp: not_le)
  with Suc.IH [OF *] show ?case by (subst putVarintBuf_unfold) simp
qed

lemma putVarintBuf_length_eq:
  "128 ^ k \<le> unat v \<Longrightarrow> unat v < 128 ^ Suc k \<Longrightarrow> length (putVarintBuf v) = Suc k"
  using putVarintBuf_length_ge putVarintBuf_length by (simp add: le_antisym)

lemma varintLen_buf: "varintLenLoop i v = i + length (putVarintBuf v) - 1"
proof (induction i v rule: varintLenLoop.induct)
  case (1 i v)
  have "0 < length (putVarintBuf w)" for w by (subst putVarintBuf_unfold) simp
  with "1.IH" [OF refl] show ?case
    by (subst varintLenLoop.simps, subst putVarintBuf_unfold) (simp add: Let_def)
qed

lemma putVarint_fst:
  "fst (sqlite3PutVarint v) = (if unat v < 2 ^ 56 then length (putVarintBuf v) else 9)"
proof -
  have "length (putVarintBuf v) = 1" if "v \<le> 0x7f"
    using that putVarintBuf_length [of v 0] putVarintBuf_unfold [of v]
    by (simp add: word_le_nat_alt split: if_splits)
  moreover have "length (putVarintBuf v) = 2" if "\<not> v \<le> 0x7f" "v \<le> 0x3fff"
    using that putVarintBuf_length_eq [of 1 v] by (simp add: word_le_nat_alt)
  moreover have "unat v < 2 ^ 56" if "v \<le> 0x3fff \<or> v \<le> 0x7f"
    using that by (auto simp: word_le_nat_alt)
  ultimately show ?thesis
    using top_byte [of v]
    by (auto simp: sqlite3PutVarint_def putVarint64_def Let_def)
qed

lemma varintLen_cases:
  "sqlite3VarintLen v = (if unat v < 2 ^ 63 then fst (sqlite3PutVarint v) else 10)"
proof -
  have "sqlite3VarintLen v = length (putVarintBuf v)"
    by (simp add: sqlite3VarintLen_def varintLen_buf)
  moreover have "length (putVarintBuf v) = 9" if "\<not> unat v < 2 ^ 56" "unat v < 2 ^ 63"
    using that putVarintBuf_length_eq [of 8 v] by simp
  moreover have "length (putVarintBuf v) = 10" if "\<not> unat v < 2 ^ 63"
    using that unsigned_less [of v, where ?'a = nat] putVarintBuf_length_eq [of 9 v] by simp
  moreover have "unat v < 2 ^ 63" if "unat v < 2 ^ 56" using that by simp
  ultimately show ?thesis by (auto simp: putVarint_fst)
qed

lemma putVarint_bounds: "1 \<le> fst (sqlite3PutVarint v) \<and> fst (sqlite3PutVarint v) \<le> 9"
  using putVarintBuf_length [of v 7] putVarintBuf_unfold [of v]
  by (auto simp: putVarint_fst)

section \<open>The 32-bit readers\<close>

lemma u8_less_0x80: "(p :: u8) < 0x80 \<longleftrightarrow> \<not> bit p 7"
  by (simp add: u8_ge_0x80 flip: not_le)

lemma u64_of_bytes:
  fixes p0 p1 p2 :: u8
  assumes "\<not> bit p2 7"
  shows "ucast p0 AND 0xffffffff = (ucast p0 :: u64)"
    and "(push_bit 7 (ucast p0 AND 0x7f) OR ucast p1) AND 0xffffffff
       = (push_bit 7 (ucast p0 AND 0x7f) OR ucast p1 :: u64)"
    and "(push_bit 7 (push_bit 7 (ucast p0 AND 0x7f) OR (ucast p1 AND 0x7f)) OR ucast p2)
         AND 0xffffffff
       = (push_bit 7 (push_bit 7 (ucast p0 AND 0x7f) OR (ucast p1 AND 0x7f)) OR ucast p2 :: u64)"
    and "ucast (ucast p0 :: u64) = (ucast p0 :: u32)"
    and "ucast (push_bit 7 (ucast p0 AND 0x7f) OR ucast p1 :: u64)
       = (push_bit 7 (ucast p0 AND 0x7f) OR ucast p1 :: u32)"
    and "ucast (push_bit 7 (push_bit 7 (ucast p0 AND 0x7f) OR (ucast p1 AND 0x7f)) OR ucast p2 :: u64)
       = (((push_bit 14 (ucast p0) OR ucast p2) AND (push_bit 14 0x7f OR 0x7f))
          OR push_bit 7 (ucast p1 AND 0x7f) :: u32)"
  by (rule u64_bit_split u32_bit_split, simp add: bit_simps word_bits assms)+

text \<open>What all four readers do with the first bytes of a varint.\<close>

lemma varint_cases:
  obtains "p = []" | p0 r where "p = p0 # r" "\<not> bit p0 7"
  | p0 where "p = [p0]" "bit p0 7" | p0 p1 r where "p = p0 # p1 # r" "bit p0 7" "\<not> bit p1 7"
  | p0 p1 where "p = [p0, p1]" "bit p0 7" "bit p1 7"
  | p0 p1 p2 r where "p = p0 # p1 # p2 # r" "bit p0 7" "bit p1 7" "\<not> bit p2 7"
  | p0 p1 p2 r where "p = p0 # p1 # p2 # r" "bit p0 7" "bit p1 7" "bit p2 7"
  by (metis list.exhaust)

lemmas getVarint32_eval = sqlite3GetVarint32_def getVarint32_def u8_less_0x80 and_0x80_iff
  bit_or_iff bit_push_bit_iff bit_ucast_iff u64_le_u32

lemma getVarint32_core:
  "getVarint32 p = map_option (\<lambda>(n, v). (n, if v \<le> 0xffffffff then ucast v else 0xffffffff))
     (sqlite3GetVarint p)"
proof (cases p rule: varint_cases)
  case (2 p0 r)
  then show ?thesis
    using u64_of_bytes(1,4) [of p0 p0] by (simp add: getVarint32_eval getVarint_ref)
next
  case (4 p0 p1 r)
  then show ?thesis
    using u64_of_bytes(2,5) [of p1 p0 p1] by (simp add: getVarint32_eval getVarint_ref)
next
  case (6 p0 p1 p2 r)
  then show ?thesis
    using u64_of_bytes(3,6) [of p2 p0 p1] by (simp add: getVarint32_eval getVarint_ref)
next
  case (7 p0 p1 p2 r)
  then show ?thesis
    by (cases "sqlite3GetVarint p") (auto simp: getVarint32_eval)
qed (simp_all add: getVarint32_eval getVarint_ref)

lemma fts5GetVarint32_core:
  "sqlite3Fts5GetVarint32 p = map_option (\<lambda>(n, v). (n, ucast v AND 0x7fffffff))
     (sqlite3GetVarint p)"
proof (cases p rule: varint_cases)
  case (7 p0 p1 p2 r)
  then show ?thesis
    by (cases "sqlite3GetVarint p")
      (auto simp: sqlite3Fts5GetVarint32_def getVarint32_eval fts5GetVarint_core)
next
  case (2 p0 r)
  have "(ucast p0 :: u32) AND 0x7fffffff = ucast p0"
    by (rule u32_bit_split) (simp add: bit_simps word_bits)
  with u64_of_bytes(1,4) [of p0 p0] 2 show ?thesis by (simp add: sqlite3Fts5GetVarint32_def getVarint32_eval getVarint_ref)
next
  case (4 p0 p1 r)
  have "(push_bit 7 (ucast p0 AND 0x7f) OR ucast p1 :: u32) AND 0x7fffffff
    = push_bit 7 (ucast p0 AND 0x7f) OR ucast p1"
    by (rule u32_bit_split) (simp add: bit_simps word_bits)
  with u64_of_bytes(2,5) [of p1 p0 p1] 4 show ?thesis by (simp add: sqlite3Fts5GetVarint32_def getVarint32_eval getVarint_ref)
next
  case (6 p0 p1 p2 r)
  have "(((push_bit 14 (ucast p0) OR ucast p2) AND (push_bit 14 0x7f OR 0x7f))
          OR push_bit 7 (ucast p1 AND 0x7f) :: u32) AND 0x7fffffff
    = ((push_bit 14 (ucast p0) OR ucast p2) AND (push_bit 14 0x7f OR 0x7f))
          OR push_bit 7 (ucast p1 AND 0x7f)"
    by (rule u32_bit_split) (simp add: bit_simps word_bits)
  with u64_of_bytes(3,6) [of p2 p0 p1] 6 show ?thesis by (simp add: sqlite3Fts5GetVarint32_def getVarint32_eval getVarint_ref)
qed (simp_all add: sqlite3Fts5GetVarint32_def getVarint32_eval getVarint_ref)

lemma putVarint32_core: "putVarint32 v = sqlite3PutVarint (ucast v)"
proof -
  have "v < 0x80 \<longleftrightarrow> ucast v \<le> (0x7f :: u64)"
    by (simp add: word_less_nat_alt word_le_nat_alt) arith
  moreover have "ucast (ucast v AND 0x7f :: u64) = (ucast v :: u8)" if "ucast v \<le> (0x7f :: u64)"
    using that by (simp only: u64_le_7f) (rule bit_word_eqI, auto simp: bit_simps word_bits)
  ultimately show ?thesis
    by (simp add: putVarint32_def sqlite3PutVarint_def)
qed

lemma get4byte_put4byte: "sqlite3Get4byte (sqlite3Put4byte v @ r) = Some v"
  by (simp add: sqlite3Get4byte_def sqlite3Put4byte_def, rule u32_bit_split) (simp add: bit_simps)

lemma put4byte_get4byte:
  assumes "sqlite3Get4byte p = Some v"
  shows "sqlite3Put4byte v = take 4 p"
proof -
  obtain p0 p1 p2 p3 r where p: "p = p0 # p1 # p2 # p3 # r"
    using assms by (cases p rule: list9_cases) (auto simp: sqlite3Get4byte_def)
  have v: "v = push_bit 24 (ucast p0) OR push_bit 16 (ucast p1) OR push_bit 8 (ucast p2) OR ucast p3"
    using assms by (simp add: p sqlite3Get4byte_def)
  have "ucast (drop_bit 24 v) = p0" "ucast (drop_bit 16 v) = p1"
    "ucast (drop_bit 8 v) = p2" "ucast v = p3"
    unfolding v by (rule u8_bit_split, simp add: bit_simps word_bits)+
  then show ?thesis by (simp add: sqlite3Put4byte_def p)
qed

section \<open>The interface of a varint codec\<close>

text \<open>What the record, cell and index formats rely on: a value written is the value
  read back, whatever bytes follow, and the reader advances by exactly the bytes written.\<close>

locale varint_codec =
  fixes put :: "'v \<Rightarrow> nat \<times> u8 list"
    and get :: "u8 list \<Rightarrow> (nat \<times> 'v) option"
    and ok :: "'v \<Rightarrow> bool"
  assumes get_put: "ok v \<Longrightarrow> get (snd (put v) @ rest) = Some (fst (put v), v)"
    and put_length: "length (snd (put v)) = fst (put v)"
begin

lemma put_inj: "ok v \<Longrightarrow> ok w \<Longrightarrow> snd (put v) = snd (put w) \<Longrightarrow> v = w"
  using get_put [of v "[]"] get_put [of w "[]"] by simp

text \<open>No encoding is a proper prefix of another one: a reader never has to look ahead.\<close>

lemma prefix_free: "ok v \<Longrightarrow> ok w \<Longrightarrow> snd (put w) = snd (put v) @ r \<Longrightarrow> v = w \<and> r = []"
proof -
  assume ok: "ok v" "ok w" and w: "snd (put w) = snd (put v) @ r"
  have "get (snd (put w)) = Some (fst (put v), v)"
    using get_put [OF ok(1), of r] by (simp only: w)
  moreover have "get (snd (put w)) = Some (fst (put w), w)"
    using get_put [OF ok(2), of "[]"] by simp
  ultimately have "v = w" by simp
  with w show ?thesis by simp
qed

lemma get_seq_put_seq:
  "list_all ok vs \<Longrightarrow>
   get_seq get (length vs) (concat (map (\<lambda>v. snd (put v)) vs) @ rest) = Some (vs, rest)"
  by (induction vs) (simp_all add: get_put put_length)

end

interpretation core: varint_codec sqlite3PutVarint sqlite3GetVarint "\<lambda>_. True"
  by unfold_locales (simp_all add: putVarint_getVarint putVarint_length)

interpretation core32: varint_codec putVarint32 getVarint32 "\<lambda>_. True"
proof unfold_locales
  fix v :: u32 and rest
  have "unat (ucast v :: u64) \<le> 0xffffffff"
    using unsigned_less [of v, where ?'a = nat] by simp
  then have "ucast v \<le> (0xffffffff :: u64)" by (simp add: word_le_nat_alt)
  moreover have "ucast (ucast v :: u64) = v"
    by (rule bit_word_eqI) (auto simp: bit_simps)
  ultimately show "getVarint32 (snd (putVarint32 v) @ rest) = Some (fst (putVarint32 v), v)"
    by (simp add: putVarint32_core getVarint32_core putVarint_getVarint)
qed (simp add: putVarint32_core putVarint_length)

interpretation fts5: varint_codec sqlite3Fts5PutVarint sqlite3Fts5GetVarint "\<lambda>_. True"
  by unfold_locales
    (simp_all add: fts5PutVarint_core fts5GetVarint_core putVarint_getVarint putVarint_length)

interpretation fts5_32: varint_codec "\<lambda>v :: u32. sqlite3Fts5PutVarint (ucast v)"
  sqlite3Fts5GetVarint32 "\<lambda>v. v AND 0x7fffffff = v"
proof unfold_locales
  fix v :: u32 and rest
  assume ok: "v AND 0x7fffffff = v"
  have "ucast (ucast v :: u64) = v"
    by (rule bit_word_eqI) (auto simp: bit_simps)
  with ok show "sqlite3Fts5GetVarint32 (snd (sqlite3Fts5PutVarint (ucast v)) @ rest)
      = Some (fst (sqlite3Fts5PutVarint (ucast v)), v)"
    by (simp add: fts5PutVarint_core fts5GetVarint32_core putVarint_getVarint)
qed (simp add: fts5PutVarint_core putVarint_length)

section \<open>Properties\<close>

text \<open>C5: The unrolled varint readers of the core and of FTS5, with their 32-bit
  partial sums and precomputed masks, decode every byte string exactly as the
  byte-by-byte description of the format does, and read past the end of the buffer
  only if that description does.\<close>

theorem varint_readers_decode_format:
  "sqlite3GetVarint p = varint_ref 0 0 p \<and> sqlite3Fts5GetVarint p = varint_ref 0 0 p"
  by (simp add: getVarint_ref fts5GetVarint_core)

text \<open>C25: A sequence of 64-bit values written one after the other with
  \<^verbatim>\<open>sqlite3PutVarint\<close> is read back by \<^verbatim>\<open>sqlite3GetVarint\<close>, advancing by the returned
  lengths, whatever bytes follow; FTS5's reader reads the core's bytes as well.\<close>

theorem varint_sequence_roundtrip:
  "get_seq sqlite3GetVarint (length vs)
     (concat (map (\<lambda>v. snd (sqlite3PutVarint v)) vs) @ rest) = Some (vs, rest)
   \<and> get_seq sqlite3Fts5GetVarint (length vs)
     (concat (map (\<lambda>v. snd (sqlite3PutVarint v)) vs) @ rest) = Some (vs, rest)"
  using core.get_seq_put_seq [of vs rest] fts5.get_seq_put_seq [of vs rest]
  by (simp add: fts5PutVarint_core list_all_iff)

text \<open>C26: \<^verbatim>\<open>sqlite3PutVarint\<close> writes between one and nine bytes, as many as it
  returns. \<^verbatim>\<open>sqlite3VarintLen\<close> predicts that number for every value below \<open>2^63\<close>;
  for the values with the top bit set it answers 10 although nine bytes are written.\<close>

theorem varint_lengths:
  "length (snd (sqlite3PutVarint v)) = fst (sqlite3PutVarint v)
   \<and> fst (sqlite3PutVarint v) \<in> {1..9}
   \<and> sqlite3VarintLen v = (if unat v < 2 ^ 63 then fst (sqlite3PutVarint v) else 10)"
  using putVarint_length [of v] putVarint_bounds [of v] varintLen_cases [of v]
  by (simp only: atLeastAtMost_iff simp_thms)

text \<open>C27: The 32-bit readers against the 64-bit one: \<^verbatim>\<open>getVarint32\<close> saturates a larger
  value to \<open>0xffffffff\<close>, whereas FTS5's copy keeps the low 31 bits; both return the
  64-bit reader's length.\<close>

theorem varint32_readers:
  "getVarint32 p = map_option (\<lambda>(n, v). (n, if v \<le> 0xffffffff then ucast v else 0xffffffff))
     (sqlite3GetVarint p)
   \<and> sqlite3Fts5GetVarint32 p = map_option (\<lambda>(n, v). (n, ucast v AND 0x7fffffff))
     (sqlite3GetVarint p)"
  using getVarint32_core fts5GetVarint32_core by blast

end
