(* ===== verification/RowSet.thy ===== *)
theory RowSet
  imports Prelude "HOL-Library.Tree"
begin

text \<open>
  \<^verbatim>\<open>rowset.c\<close>: a set of rowids used in two ways. A client inserts rowids and then
  drains them in increasing order (\<^verbatim>\<open>sqlite3RowSetNext\<close>), or it interleaves inserts
  with membership tests against the earlier batches (\<^verbatim>\<open>sqlite3RowSetTest\<close>).

  The chain of \<^verbatim>\<open>RowSetEntry\<close> objects linked by \<^verbatim>\<open>pRight\<close> is the list of their values,
  a tree of them is a binary tree of values; \<^verbatim>\<open>pLast\<close> is the last cell of the \<^verbatim>\<open>pEntry\<close>
  list, and the two flag bits of \<^verbatim>\<open>rsFlags\<close> are the fields \<open>ROWSET_SORTED\<close> and
  \<open>ROWSET_NEXT\<close>. Rowids are only compared, so they are \<open>int\<close>. The field
  \<open>mallocFailed\<close> is the flag of the database connection that \<^verbatim>\<open>sqlite3DbMallocRawNN\<close>
  sets when it fails, \<open>pChunk\<close> counts the chunks on the allocation list.
\<close>

section \<open>State\<close>

record rowset =
  pChunk :: nat
  pEntry :: "int list"
  pForest :: "int tree list"
  nFresh :: nat
  ROWSET_SORTED :: bool
  ROWSET_NEXT :: bool
  iBatch :: int
  mallocFailed :: bool

definition ROWSET_ENTRY_PER_CHUNK :: nat where
  "ROWSET_ENTRY_PER_CHUNK = (1024 - 8) div 24"

text \<open>The allocation size is what the allocator grants, at least the size of the
  object (56 bytes): the excess is used for fresh entries.\<close>

definition sqlite3RowSetInit :: "oom \<Rightarrow> nat \<Rightarrow> rowset option \<times> oom" where
  "sqlite3RowSetInit w N =
     (case alloc w of
        (False, w) \<Rightarrow> (None, w)
      | (True, w) \<Rightarrow>
          (Some \<lparr>pChunk = 0, pEntry = [], pForest = [], nFresh = ((N - 56) div 24) mod 2 ^ 16,
                 ROWSET_SORTED = True, ROWSET_NEXT = False, iBatch = 0, mallocFailed = False\<rparr>, w))"

definition sqlite3RowSetClear :: "rowset \<Rightarrow> rowset" where
  "sqlite3RowSetClear p =
     p\<lparr>pChunk := 0, nFresh := 0, pEntry := [], pForest := [], ROWSET_SORTED := True,
       ROWSET_NEXT := False\<rparr>"

text \<open>The destructor clears the set and frees the object: nothing is left of it.\<close>

definition sqlite3RowSetDelete :: "rowset \<Rightarrow> rowset option" where
  "sqlite3RowSetDelete p = (let p = sqlite3RowSetClear p in None)"

text \<open>A fresh entry: \<open>False\<close> is the NULL return.\<close>

definition rowSetEntryAlloc :: "oom \<Rightarrow> rowset \<Rightarrow> bool \<times> rowset \<times> oom" where
  "rowSetEntryAlloc w p =
     (if nFresh p = 0 then
        (case alloc w of
           (False, w) \<Rightarrow> (False, p\<lparr>mallocFailed := True\<rparr>, w)
         | (True, w) \<Rightarrow>
             (True, p\<lparr>pChunk := pChunk p + 1, nFresh := ROWSET_ENTRY_PER_CHUNK - 1\<rparr>, w))
      else (True, p\<lparr>nFresh := nFresh p - 1\<rparr>, w))"

definition sqlite3RowSetInsert :: "oom \<Rightarrow> rowset \<Rightarrow> int \<Rightarrow> rowset \<times> oom" where
  "sqlite3RowSetInsert w p rowid =
     (case rowSetEntryAlloc w p of
        (False, p, w) \<Rightarrow> (p, w)
      | (True, p, w) \<Rightarrow>
          (if pEntry p \<noteq> [] then
             (let p = (if rowid \<le> last (pEntry p) then p\<lparr>ROWSET_SORTED := False\<rparr> else p)
              in p\<lparr>pEntry := pEntry p @ [rowid]\<rparr>)
           else p\<lparr>pEntry := [rowid]\<rparr>, w))"

section \<open>Sorting\<close>

text \<open>The source asserts that both lists are not empty; the first two equations are
  what its loop does when one runs out.\<close>

fun rowSetEntryMerge :: "int list \<Rightarrow> int list \<Rightarrow> int list" where
  "rowSetEntryMerge [] B = B"
| "rowSetEntryMerge A [] = A"
| "rowSetEntryMerge (a # A) (b # B) =
     (if a \<le> b then
        (if a < b then a # rowSetEntryMerge A (b # B) else rowSetEntryMerge A (b # B))
      else b # rowSetEntryMerge (a # A) B)"

text \<open>The loop \<^verbatim>\<open>for(i=0; aBucket[i]; i++)\<close> on the buckets from \<open>i\<close> on; an empty list is a
  NULL bucket. \<open>None\<close>: the loop leaves the array.\<close>

fun rowSetBucketAdd :: "int list list \<Rightarrow> int list \<Rightarrow> int list list option" where
  "rowSetBucketAdd [] pIn = None"
| "rowSetBucketAdd (b # bs) pIn =
     (if b \<noteq> [] then map_option ((#) []) (rowSetBucketAdd bs (rowSetEntryMerge b pIn))
      else Some (pIn # bs))"

fun rowSetFillBuckets :: "int list list \<Rightarrow> int list \<Rightarrow> int list list option" where
  "rowSetFillBuckets aBucket [] = Some aBucket"
| "rowSetFillBuckets aBucket (v # pNext) =
     (case rowSetBucketAdd aBucket [v] of
        None \<Rightarrow> None
      | Some aBucket \<Rightarrow> rowSetFillBuckets aBucket pNext)"

fun rowSetJoinBuckets :: "int list \<Rightarrow> int list list \<Rightarrow> int list" where
  "rowSetJoinBuckets pIn [] = pIn"
| "rowSetJoinBuckets pIn (b # bs) =
     (if b = [] then rowSetJoinBuckets pIn bs
      else rowSetJoinBuckets (if pIn \<noteq> [] then rowSetEntryMerge pIn b else b) bs)"

definition rowSetEntrySort :: "int list \<Rightarrow> int list option" where
  "rowSetEntrySort pIn =
     (case rowSetFillBuckets (replicate 40 []) pIn of
        None \<Rightarrow> None
      | Some aBucket \<Rightarrow> Some (rowSetJoinBuckets (hd aBucket) (tl aBucket)))"

section \<open>Trees\<close>

fun rowSetTreeToList :: "int tree \<Rightarrow> int list" where
  "rowSetTreeToList \<langle>\<rangle> = []"
| "rowSetTreeToList \<langle>pLeft, v, pRight\<rangle> =
     (if pLeft \<noteq> \<langle>\<rangle> then rowSetTreeToList pLeft @ [v] else [v]) @
     (if pRight \<noteq> \<langle>\<rangle> then rowSetTreeToList pRight else [])"

fun rowSetNDeepTree :: "int list \<Rightarrow> nat \<Rightarrow> int tree \<times> int list" where
  "rowSetNDeepTree ppList iDepth =
     (if ppList = [] then (\<langle>\<rangle>, [])
      else if iDepth > 1 then
        (case rowSetNDeepTree ppList (iDepth - 1) of
           (pLeft, []) \<Rightarrow> (pLeft, [])
         | (pLeft, p # ppList) \<Rightarrow>
             (case rowSetNDeepTree ppList (iDepth - 1) of
                (pRight, ppList) \<Rightarrow> (\<langle>pLeft, p, pRight\<rangle>, ppList)))
      else (\<langle>\<langle>\<rangle>, hd ppList, \<langle>\<rangle>\<rangle>, tl ppList))"

declare rowSetNDeepTree.simps [simp del]

lemma rowSetNDeepTree_cases:
  obtains (nil) "xs = []" "rowSetNDeepTree xs d = (\<langle>\<rangle>, [])"
  | (single) v ys where "d \<le> 1" "xs = v # ys" "rowSetNDeepTree xs d = (\<langle>\<langle>\<rangle>, v, \<langle>\<rangle>\<rangle>, ys)"
  | (short) l where "d > 1" "xs \<noteq> []" "rowSetNDeepTree xs (d - 1) = (l, [])"
      "rowSetNDeepTree xs d = (l, [])"
  | (deep) l v ys r zs where "d > 1" "xs \<noteq> []" "rowSetNDeepTree xs (d - 1) = (l, v # ys)"
      "rowSetNDeepTree ys (d - 1) = (r, zs)" "rowSetNDeepTree xs d = (\<langle>l, v, r\<rangle>, zs)"
proof (cases xs)
  case Nil
  then show thesis by (intro nil) (simp_all add: rowSetNDeepTree.simps)
next
  case (Cons v ys)
  show thesis
  proof (cases "d > 1")
    case False
    with Cons show thesis by (intro single) (simp_all add: rowSetNDeepTree.simps)
  next
    case d: True
    obtain l r where l: "rowSetNDeepTree xs (d - 1) = (l, r)" by fastforce
    show thesis
    proof (cases r)
      case Nil
      with l d Cons show thesis by (intro short) (simp_all add: rowSetNDeepTree.simps [of "v # ys" d])
    next
      case (Cons w zs)
      with l d \<open>xs = v # ys\<close> show thesis
        by (cases "rowSetNDeepTree zs (d - 1)")
          (rule deep, simp_all add: rowSetNDeepTree.simps [of "v # ys" d])
    qed
  qed
qed

lemma rowSetNDeepTree_inorder: "inorder (fst (rowSetNDeepTree xs d)) @ snd (rowSetNDeepTree xs d) = xs"
proof (induction d arbitrary: xs rule: less_induct)
  case (less d)
  show ?case
  proof (cases xs d rule: rowSetNDeepTree_cases)
    case (short l)
    then show ?thesis using less.IH [of "d - 1" xs] by simp
  next
    case (deep l v ys r zs)
    then show ?thesis using less.IH [of "d - 1" xs] less.IH [of "d - 1" ys] by simp
  qed simp_all
qed

lemma rowSetNDeepTree_length: "length (snd (rowSetNDeepTree xs d)) \<le> length xs"
  using arg_cong [OF rowSetNDeepTree_inorder [of xs d], of length] by simp

function rowSetListToTreeLoop :: "int tree \<Rightarrow> nat \<Rightarrow> int list \<Rightarrow> int tree" where
  "rowSetListToTreeLoop p iDepth [] = p"
| "rowSetListToTreeLoop p iDepth (v # pList) =
     (case rowSetNDeepTree pList iDepth of
        (pRight, pList) \<Rightarrow> rowSetListToTreeLoop \<langle>p, v, pRight\<rangle> (iDepth + 1) pList)"
  by pat_completeness auto
termination
proof (relation "measure (\<lambda>(p, d, xs). length xs)")
  fix p :: "int tree" and d :: nat and v xs r ys
  assume "(r, ys) = rowSetNDeepTree xs d"
  then have "ys = snd (rowSetNDeepTree xs d)" by (metis snd_conv)
  then show "((\<langle>p, v, r\<rangle>, d + 1, ys), p, d, v # xs) \<in> measure (\<lambda>(p, d, xs). length xs)"
    using rowSetNDeepTree_length [of xs d] by simp
qed simp

definition rowSetListToTree :: "int list \<Rightarrow> int tree" where
  "rowSetListToTree pList =
     (case pList of
        [] \<Rightarrow> \<langle>\<rangle>
      | v # pList \<Rightarrow> rowSetListToTreeLoop \<langle>\<langle>\<rangle>, v, \<langle>\<rangle>\<rangle> 1 pList)"

section \<open>Draining\<close>

definition sqlite3RowSetNext :: "rowset \<Rightarrow> (int option \<times> rowset) option" where
  "sqlite3RowSetNext p = do {
     p \<leftarrow> (if \<not> ROWSET_NEXT p then do {
             p \<leftarrow> (if \<not> ROWSET_SORTED p then do {
                     l \<leftarrow> rowSetEntrySort (pEntry p);
                     Some (p\<lparr>pEntry := l\<rparr>) }
                   else Some p);
             Some (p\<lparr>ROWSET_SORTED := True, ROWSET_NEXT := True\<rparr>) }
           else Some p);
     (case pEntry p of
        v # rest \<Rightarrow>
          (let p = p\<lparr>pEntry := rest\<rparr>;
               p = (if pEntry p = [] then sqlite3RowSetClear p else p)
           in Some (Some v, p))
      | [] \<Rightarrow> Some (None, p)) }"

section \<open>Testing\<close>

text \<open>The loop over the forest: the new forest and, if no empty slot was found, the list
  that is still to be stored.\<close>

fun rowSetForestAdd :: "int tree list \<Rightarrow> int list \<Rightarrow> int tree list \<times> int list option" where
  "rowSetForestAdd [] p = ([], Some p)"
| "rowSetForestAdd (pLeft # rest) p =
     (if pLeft = \<langle>\<rangle> then (rowSetListToTree p # rest, None)
      else
        (case rowSetForestAdd rest (rowSetEntryMerge (rowSetTreeToList pLeft) p) of
           (rest, r) \<Rightarrow> (\<langle>\<rangle> # rest, r)))"

fun rowSetSearch :: "int tree \<Rightarrow> int \<Rightarrow> bool" where
  "rowSetSearch \<langle>\<rangle> iRowid = False"
| "rowSetSearch \<langle>pLeft, v, pRight\<rangle> iRowid =
     (if v < iRowid then rowSetSearch pRight iRowid
      else if v > iRowid then rowSetSearch pLeft iRowid
      else True)"

definition sqlite3RowSetTest ::
  "oom \<Rightarrow> rowset \<Rightarrow> int \<Rightarrow> int \<Rightarrow> (bool \<times> rowset \<times> oom) option" where
  "sqlite3RowSetTest w p iBatch' iRowid = do {
     (p, w) \<leftarrow>
       (if iBatch' \<noteq> iBatch p then do {
          (p, w) \<leftarrow>
            (if pEntry p \<noteq> [] then do {
               l \<leftarrow> (if \<not> ROWSET_SORTED p then rowSetEntrySort (pEntry p) else Some (pEntry p));
               (case rowSetForestAdd (pForest p) l of
                  (forest, None) \<Rightarrow>
                    Some (p\<lparr>pForest := forest, pEntry := [], ROWSET_SORTED := True\<rparr>, w)
                | (forest, Some l) \<Rightarrow>
                    (case rowSetEntryAlloc w (p\<lparr>pForest := forest\<rparr>) of
                       (ok, p, w) \<Rightarrow>
                         Some ((if ok then p\<lparr>pForest := pForest p @ [rowSetListToTree l]\<rparr> else p)
                                 \<lparr>pEntry := [], ROWSET_SORTED := True\<rparr>, w))) }
             else Some (p, w));
          Some (p\<lparr>iBatch := iBatch'\<rparr>, w) }
        else Some (p, w));
     Some (list_ex (\<lambda>t. rowSetSearch t iRowid) (pForest p), p, w) }"

section \<open>Sorting is correct\<close>

lemma set_merge: "set (rowSetEntryMerge A B) = set A \<union> set B"
  by (induction A B rule: rowSetEntryMerge.induct) auto

lemma merge_Nil_iff [simp]: "rowSetEntryMerge A B = [] \<longleftrightarrow> A = [] \<and> B = []"
  using set_merge [of A B] by (metis set_empty Un_empty)

lemma sorted_merge:
  "sorted_wrt (<) A \<Longrightarrow> sorted_wrt (<) B \<Longrightarrow> sorted_wrt (<) (rowSetEntryMerge A B)"
proof (induction A B rule: rowSetEntryMerge.induct)
  case (3 a A b B)
  consider "a < b" | "a = b" | "b < a" by linarith
  then show ?case
    by cases (use 3 in \<open>auto simp: set_merge\<close>)
qed simp_all

text \<open>The buckets as the binary counter they are: bucket \<open>i\<close> is occupied exactly if bit
  \<open>i\<close> of the number of entries merged in so far is set.\<close>

fun bucket_count :: "int list list \<Rightarrow> nat" where
  "bucket_count [] = 0"
| "bucket_count (b # bs) = (if b \<noteq> [] then 1 else 0) + 2 * bucket_count bs"

definition buckets_ok :: "int list list \<Rightarrow> bool" where
  "buckets_ok bs \<longleftrightarrow> (\<forall>b \<in> set bs. sorted_wrt (<) b)"

lemma bucketAdd:
  assumes "Suc (bucket_count bs) < 2 ^ length bs" "buckets_ok bs" "l \<noteq> []" "sorted_wrt (<) l"
  shows "\<exists>bs'. rowSetBucketAdd bs l = Some bs' \<and> length bs' = length bs \<and> buckets_ok bs'
    \<and> bucket_count bs' = Suc (bucket_count bs)
    \<and> \<Union> (set ` set bs') = \<Union> (set ` set bs) \<union> set l"
  using assms
proof (induction bs arbitrary: l)
  case (Cons b bs)
  show ?case
  proof (cases "b = []")
    case True
    with Cons.prems show ?thesis by (auto simp: buckets_ok_def)
  next
    case False
    let ?m = "rowSetEntryMerge b l"
    have "sorted_wrt (<) ?m" using Cons.prems by (intro sorted_merge) (simp_all add: buckets_ok_def)
    with Cons.IH [of ?m] Cons.prems False obtain bs' where
      "rowSetBucketAdd bs ?m = Some bs'" "length bs' = length bs" "buckets_ok bs'"
      "bucket_count bs' = Suc (bucket_count bs)"
      "\<Union> (set ` set bs') = \<Union> (set ` set bs) \<union> set ?m"
      by (auto simp: buckets_ok_def)
    with False show ?thesis by (auto simp: buckets_ok_def set_merge)
  qed
qed simp

lemma fillBuckets:
  assumes "bucket_count bs + length xs < 2 ^ length bs" "buckets_ok bs"
  shows "\<exists>bs'. rowSetFillBuckets bs xs = Some bs' \<and> length bs' = length bs \<and> buckets_ok bs'
    \<and> \<Union> (set ` set bs') = \<Union> (set ` set bs) \<union> set xs"
  using assms
proof (induction xs arbitrary: bs)
  case (Cons v xs)
  then obtain bs' where "rowSetBucketAdd bs [v] = Some bs'" "length bs' = length bs"
    "buckets_ok bs'" "bucket_count bs' = Suc (bucket_count bs)"
    "\<Union> (set ` set bs') = \<Union> (set ` set bs) \<union> {v}"
    using bucketAdd [of bs "[v]"] by auto
  with Cons.IH [of bs'] Cons.prems show ?case by auto
qed simp

lemma joinBuckets:
  assumes "buckets_ok bs" "sorted_wrt (<) l"
  shows "sorted_wrt (<) (rowSetJoinBuckets l bs)"
    and "set (rowSetJoinBuckets l bs) = set l \<union> \<Union> (set ` set bs)"
proof -
  have "sorted_wrt (<) (rowSetJoinBuckets l bs) \<and>
    set (rowSetJoinBuckets l bs) = set l \<union> \<Union> (set ` set bs)"
    using assms
    by (induction bs arbitrary: l) (auto simp: buckets_ok_def sorted_merge set_merge)
  then show "sorted_wrt (<) (rowSetJoinBuckets l bs)"
    and "set (rowSetJoinBuckets l bs) = set l \<union> \<Union> (set ` set bs)" by auto
qed

lemma strict_sorted_unique:
  "sorted_wrt (<) xs \<Longrightarrow> set xs = A \<Longrightarrow> xs = sorted_list_of_set (A :: int set)"
  by (metis sorted_list_of_set.idem_if_sorted_distinct strict_sorted_iff)

lemma entrySort:
  assumes "length xs < 2 ^ 40"
  shows "rowSetEntrySort xs = Some (sorted_list_of_set (set xs))"
proof -
  have e: "bucket_count (replicate n []) = 0" for n by (induction n) simp_all
  have ok: "buckets_ok (replicate 40 [])" by (simp add: buckets_ok_def)
  obtain bs where bs: "rowSetFillBuckets (replicate 40 []) xs = Some bs" "length bs = 40"
    "buckets_ok bs" "\<Union> (set ` set bs) = set xs"
    using fillBuckets [of "replicate 40 []" xs] assms ok by (auto simp: e)
  then obtain b bs' where b: "bs = b # bs'" by (cases bs) auto
  have "sorted_wrt (<) b" "buckets_ok bs'" using bs b by (simp_all add: buckets_ok_def)
  from joinBuckets [OF this(2,1)] have "rowSetJoinBuckets b bs' = sorted_list_of_set (set xs)"
    using bs(4) by (intro strict_sorted_unique) (auto simp: b)
  with bs b show ?thesis by (simp add: rowSetEntrySort_def)
qed

section \<open>Trees\<close>

lemma treeToList_inorder: "rowSetTreeToList t = inorder t"
  by (induction t) auto

lemma NDeep_height: "d \<ge> 1 \<Longrightarrow> height (fst (rowSetNDeepTree xs d)) \<le> d"
proof (induction d arbitrary: xs rule: less_induct)
  case (less d)
  show ?case
  proof (cases xs d rule: rowSetNDeepTree_cases)
    case (short l)
    then have "height l \<le> d - 1" using less.IH [of "d - 1" xs] by simp
    with short show ?thesis by simp
  next
    case (deep l v ys r zs)
    then have "height l \<le> d - 1" "height r \<le> d - 1"
      using less.IH [of "d - 1" xs] less.IH [of "d - 1" ys] by simp_all
    with deep show ?thesis by simp
  qed (use less.prems in simp_all)
qed

lemma NDeep_full:
  "d \<ge> 1 \<Longrightarrow> snd (rowSetNDeepTree xs d) \<noteq> [] \<Longrightarrow>
   size1 (fst (rowSetNDeepTree xs d)) = 2 ^ d"
proof (induction d arbitrary: xs rule: less_induct)
  case (less d)
  show ?case
  proof (cases xs d rule: rowSetNDeepTree_cases)
    case (single v ys)
    with less.prems show ?thesis by (simp add: le_antisym)
  next
    case (deep l v ys r zs)
    have "size1 l = 2 ^ (d - 1)" using less.IH [of "d - 1" xs] deep by simp
    moreover have "size1 r = 2 ^ (d - 1)" using less.IH [of "d - 1" ys] less.prems deep by simp
    ultimately show ?thesis using deep by (cases d) simp_all
  qed (use less.prems in simp_all)
qed

lemma listToTreeLoop_inorder: "inorder (rowSetListToTreeLoop p d xs) = inorder p @ xs"
proof (induction p d xs rule: rowSetListToTreeLoop.induct)
  case (2 p d v xs)
  then show ?case
    using rowSetNDeepTree_inorder [of xs d] by (auto split: prod.splits)
qed simp

lemma listToTreeLoop_height:
  "d \<ge> 1 \<Longrightarrow> height p = d \<Longrightarrow> size1 p = 2 ^ d \<Longrightarrow>
   2 ^ height (rowSetListToTreeLoop p d xs) \<le> 2 * size (rowSetListToTreeLoop p d xs)"
proof (induction p d xs rule: rowSetListToTreeLoop.induct)
  case (1 p d)
  then have "2 ^ 1 \<le> size1 p" by (metis one_le_numeral power_increasing)
  with 1 show ?case by (simp add: size1_size)
next
  case (2 p d v xs)
  obtain r ys where r: "rowSetNDeepTree xs d = (r, ys)" by fastforce
  have h: "height \<langle>p, v, r\<rangle> = d + 1" using NDeep_height [of d xs] 2 by (simp add: r)
  show ?case
  proof (cases ys)
    case Nil
    with r h 2 show ?thesis by (simp add: size1_size)
  next
    case Cons
    then have "size1 \<langle>p, v, r\<rangle> = 2 ^ (d + 1)" using NDeep_full [of d xs] 2 by (simp add: r)
    with "2.IH" [OF r [symmetric]] h 2 r show ?thesis by simp
  qed
qed

lemma listToTree_inorder: "inorder (rowSetListToTree xs) = xs"
  by (cases xs) (simp_all add: rowSetListToTree_def listToTreeLoop_inorder)

lemma search_iff: "bst t \<Longrightarrow> rowSetSearch t x \<longleftrightarrow> x \<in> set_tree t"
  by (induction t) auto

section \<open>The state invariant\<close>

definition rowset_inv :: "rowset \<Rightarrow> bool" where
  "rowset_inv p \<longleftrightarrow>
     (ROWSET_SORTED p \<longrightarrow> sorted_wrt (<) (pEntry p)) \<and> (\<forall>t \<in> set (pForest p). bst t)"

definition prior_of :: "rowset \<Rightarrow> int set" where
  "prior_of p = (\<Union>t \<in> set (pForest p). set_tree t)"

lemma alloc_cases:
  obtains (ok) p' w' where "rowSetEntryAlloc w p = (True, p', w')" "pEntry p' = pEntry p"
      "pForest p' = pForest p" "ROWSET_SORTED p' = ROWSET_SORTED p" "ROWSET_NEXT p' = ROWSET_NEXT p"
      "iBatch p' = iBatch p" "mallocFailed p' = mallocFailed p"
  | (oom) w' where "rowSetEntryAlloc w p = (False, p\<lparr>mallocFailed := True\<rparr>, w')"
proof (cases "nFresh p = 0")
  case True
  obtain b w' where b: "alloc w = (b, w')" by fastforce
  show thesis
  proof (cases b)
    case True
    with b \<open>nFresh p = 0\<close> show thesis
      by (intro ok [of "p\<lparr>pChunk := pChunk p + 1, nFresh := ROWSET_ENTRY_PER_CHUNK - 1\<rparr>" w'])
        (simp_all add: rowSetEntryAlloc_def)
  next
    case False
    with b \<open>nFresh p = 0\<close> show thesis by (intro oom) (simp add: rowSetEntryAlloc_def)
  qed
next
  case False
  then show thesis
    by (intro ok [of "p\<lparr>nFresh := nFresh p - 1\<rparr>" w]) (simp_all add: rowSetEntryAlloc_def)
qed

lemma sorted_snoc:
  "sorted_wrt (<) xs \<Longrightarrow> xs \<noteq> [] \<Longrightarrow> last xs < (v :: int) \<Longrightarrow> sorted_wrt (<) (xs @ [v])"
  by (cases xs rule: rev_cases) (auto simp: sorted_wrt_append)

lemma insert_ok:
  assumes "rowset_inv p" "sqlite3RowSetInsert w p v = (p', w')"
  shows "rowset_inv p' \<and> length (pEntry p') \<le> Suc (length (pEntry p)) \<and>
    (mallocFailed p \<longrightarrow> mallocFailed p') \<and> prior_of p' = prior_of p \<and> iBatch p' = iBatch p \<and>
    ROWSET_NEXT p' = ROWSET_NEXT p \<and>
    (\<not> mallocFailed p' \<longrightarrow> set (pEntry p') = insert v (set (pEntry p)))"
proof (cases w p rule: alloc_cases)
  case (ok q w1)
  have "ROWSET_SORTED p \<longrightarrow> sorted_wrt (<) (pEntry p)" "\<forall>t \<in> set (pForest p). bst t"
    using assms(1) by (simp_all add: rowset_inv_def)
  then show ?thesis
    using assms(2) [symmetric] ok sorted_snoc [of "pEntry p" v]
    by (cases "pEntry p = []"; cases "v \<le> last (pEntry p)")
      (simp_all add: sqlite3RowSetInsert_def rowset_inv_def prior_of_def)
next
  case (oom w1)
  with assms show ?thesis by (auto simp: sqlite3RowSetInsert_def rowset_inv_def prior_of_def)
qed

lemma bst_listToTree: "sorted_wrt (<) l \<Longrightarrow> bst (rowSetListToTree l)"
  by (simp add: bst_iff_sorted_wrt_less listToTree_inorder)

lemma set_listToTree: "set_tree (rowSetListToTree l) = set l"
  by (simp add: listToTree_inorder flip: set_inorder)

lemma forestAdd:
  assumes "\<forall>t \<in> set f. bst t" "sorted_wrt (<) l" "rowSetForestAdd f l = (f', r)"
  shows "(\<forall>t \<in> set f'. bst t) \<and>
    (case r of
       None \<Rightarrow> (\<Union>t \<in> set f'. set_tree t) = (\<Union>t \<in> set f. set_tree t) \<union> set l
     | Some l' \<Rightarrow> (\<Union>t \<in> set f'. set_tree t) = {} \<and> sorted_wrt (<) l'
         \<and> set l' = (\<Union>t \<in> set f. set_tree t) \<union> set l)"
  using assms
proof (induction f arbitrary: l f' r)
  case (Cons t f)
  show ?case
  proof (cases "t = \<langle>\<rangle>")
    case True
    with Cons.prems show ?thesis
      by (auto simp: bst_listToTree set_listToTree)
  next
    case False
    let ?l = "rowSetEntryMerge (inorder t) l"
    obtain g where g: "rowSetForestAdd f ?l = (g, r)" "f' = \<langle>\<rangle> # g"
      using Cons.prems(3) False by (auto simp: treeToList_inorder split: prod.splits)
    have "sorted_wrt (<) ?l"
      using Cons.prems by (intro sorted_merge) (simp_all add: bst_iff_sorted_wrt_less)
    from Cons.IH [OF _ this g(1)] Cons.prems(1) g(2) show ?thesis
      by (auto simp: set_merge split: option.splits)
  qed
qed simp

lemma test_ok:
  assumes inv: "rowset_inv p" and len: "length (pEntry p) < 2 ^ 40"
  obtains b p' w' where "sqlite3RowSetTest w p n x = Some (b, p', w')" "rowset_inv p'"
    "iBatch p' = n" "ROWSET_NEXT p' = ROWSET_NEXT p" "b \<longleftrightarrow> x \<in> prior_of p'"
    "mallocFailed p \<longrightarrow> mallocFailed p'" "length (pEntry p') \<le> length (pEntry p)"
    "\<not> mallocFailed p' \<longrightarrow>
       (if n = iBatch p then prior_of p' = prior_of p \<and> pEntry p' = pEntry p
        else prior_of p' = prior_of p \<union> set (pEntry p) \<and> pEntry p' = [])"
proof -
  have search: "list_ex (\<lambda>t. rowSetSearch t x) (pForest q) \<longleftrightarrow> x \<in> prior_of q" if "rowset_inv q" for q
    using that by (auto simp: rowset_inv_def prior_of_def list_ex_iff search_iff)
  show thesis
  proof (cases "n = iBatch p \<or> pEntry p = []")
    case True
    then show thesis
      by (intro that [of _ "p\<lparr>iBatch := n\<rparr>" w])
        (use inv search [of p] in \<open>auto simp: sqlite3RowSetTest_def rowset_inv_def prior_of_def\<close>)
  next
    case False
    obtain l where l: "(if \<not> ROWSET_SORTED p then rowSetEntrySort (pEntry p) else Some (pEntry p)) = Some l"
      "sorted_wrt (<) l" "set l = set (pEntry p)"
      using entrySort [OF len] inv by (cases "ROWSET_SORTED p") (auto simp: rowset_inv_def)
    obtain f r where f: "rowSetForestAdd (pForest p) l = (f, r)" by fastforce
    have fa: "\<forall>t \<in> set f. bst t"
      "r = None \<Longrightarrow> (\<Union>t \<in> set f. set_tree t) = prior_of p \<union> set (pEntry p)"
      "\<And>l'. r = Some l' \<Longrightarrow> (\<Union>t \<in> set f. set_tree t) = {} \<and> sorted_wrt (<) l'
         \<and> set l' = prior_of p \<union> set (pEntry p)"
      using forestAdd [OF _ l(2) f] inv l(3) by (auto simp: rowset_inv_def prior_of_def)
    show thesis
    proof (cases r)
      case None
      let ?q = "p\<lparr>pForest := f, pEntry := [], ROWSET_SORTED := True, iBatch := n\<rparr>"
      have q: "rowset_inv ?q" "prior_of ?q = prior_of p \<union> set (pEntry p)"
        using fa None by (simp_all add: rowset_inv_def prior_of_def)
      show thesis
        by (rule that [of _ ?q w]) (use False None l(1) f q search [of ?q] in \<open>simp_all add: sqlite3RowSetTest_def\<close>)
    next
      case (Some l')
      show thesis
      proof (cases w "p\<lparr>pForest := f\<rparr>" rule: alloc_cases)
        case (ok q1 w1)
        let ?q = "q1\<lparr>pForest := f @ [rowSetListToTree l'], pEntry := [], ROWSET_SORTED := True, iBatch := n\<rparr>"
        have q: "rowset_inv ?q" "prior_of ?q = prior_of p \<union> set (pEntry p)"
          using fa(1) fa(3) [OF Some] ok
          by (auto simp: rowset_inv_def prior_of_def bst_listToTree set_listToTree)
        show thesis
          by (rule that [of _ ?q w1]) (use False Some l(1) f ok q search [of ?q] in \<open>simp_all add: sqlite3RowSetTest_def\<close>)
      next
        case (oom w1)
        let ?q = "p\<lparr>pForest := f, mallocFailed := True, pEntry := [], ROWSET_SORTED := True, iBatch := n\<rparr>"
        have q: "rowset_inv ?q"
          using fa by (simp add: rowset_inv_def)
        show thesis
          by (rule that [of _ ?q w1]) (use False Some l(1) f oom q search [of ?q] in \<open>simp_all add: sqlite3RowSetTest_def\<close>)
      qed
    qed
  qed
qed
section \<open>The abstract set and the runs of the two protocols\<close>

text \<open>Insert and test: the abstract state is the batch number, the rowids of the earlier
  batches and those of the current one.\<close>

datatype rowset_op = Insert int | Test int int

fun spec_run :: "int \<Rightarrow> int set \<Rightarrow> int set \<Rightarrow> rowset_op list \<Rightarrow> bool list" where
  "spec_run n old new [] = []"
| "spec_run n old new (Insert x # ops) = spec_run n old (insert x new) ops"
| "spec_run n old new (Test m x # ops) =
     (if m = n then (x \<in> old) # spec_run n old new ops
      else (x \<in> old \<union> new) # spec_run m (old \<union> new) {} ops)"

fun rowset_run :: "oom \<Rightarrow> rowset \<Rightarrow> rowset_op list \<Rightarrow> (bool list \<times> rowset) option" where
  "rowset_run w p [] = Some ([], p)"
| "rowset_run w p (Insert x # ops) =
     (case sqlite3RowSetInsert w p x of (p, w) \<Rightarrow> rowset_run w p ops)"
| "rowset_run w p (Test n x # ops) =
     (case sqlite3RowSetTest w p n x of
        None \<Rightarrow> None
      | Some (b, p, w) \<Rightarrow>
          (case rowset_run w p ops of None \<Rightarrow> None | Some (bs, p) \<Rightarrow> Some (b # bs, p)))"

lemma rowset_run_refines:
  assumes "rowset_inv p" "length (pEntry p) + length ops < 2 ^ 40"
  shows "\<exists>bs p'. rowset_run w p ops = Some (bs, p') \<and> (mallocFailed p \<longrightarrow> mallocFailed p') \<and>
    (\<not> mallocFailed p' \<longrightarrow> bs = spec_run (iBatch p) (prior_of p) (set (pEntry p)) ops)"
  using assms
proof (induction ops arbitrary: w p)
  case (Cons op ops)
  show ?case
  proof (cases op)
    case (Insert x)
    obtain p1 w1 where i: "sqlite3RowSetInsert w p x = (p1, w1)" by fastforce
    from insert_ok [OF Cons.prems(1) i] Cons.IH [of p1 w1] Cons.prems(2) obtain bs p' where
      "rowset_run w1 p1 ops = Some (bs, p')" "mallocFailed p1 \<longrightarrow> mallocFailed p'"
      "\<not> mallocFailed p' \<longrightarrow> bs = spec_run (iBatch p1) (prior_of p1) (set (pEntry p1)) ops"
      by auto
    with insert_ok [OF Cons.prems(1) i] Insert i show ?thesis by auto
  next
    case (Test n x)
    have len: "length (pEntry p) < 2 ^ 40" using Cons.prems(2) by simp
    obtain b p1 w1 where t: "sqlite3RowSetTest w p n x = Some (b, p1, w1)" "rowset_inv p1"
      "iBatch p1 = n" "b \<longleftrightarrow> x \<in> prior_of p1" "mallocFailed p \<longrightarrow> mallocFailed p1"
      "length (pEntry p1) \<le> length (pEntry p)"
      "\<not> mallocFailed p1 \<longrightarrow>
         (if n = iBatch p then prior_of p1 = prior_of p \<and> pEntry p1 = pEntry p
          else prior_of p1 = prior_of p \<union> set (pEntry p) \<and> pEntry p1 = [])"
      by (rule test_ok [OF Cons.prems(1) len])
    from t(2,6) Cons.IH [of p1 w1] Cons.prems(2) obtain bs p' where
      "rowset_run w1 p1 ops = Some (bs, p')" "mallocFailed p1 \<longrightarrow> mallocFailed p'"
      "\<not> mallocFailed p' \<longrightarrow> bs = spec_run (iBatch p1) (prior_of p1) (set (pEntry p1)) ops"
      by auto
    with t Test show ?thesis
      by (cases "n = iBatch p"; cases "mallocFailed p1"; cases "mallocFailed p'") simp_all
  qed
qed simp

text \<open>Insert and drain: the values that \<open>k\<close> calls of \<^verbatim>\<open>sqlite3RowSetNext\<close> deliver.\<close>

fun next_run :: "nat \<Rightarrow> rowset \<Rightarrow> int option list option" where
  "next_run 0 p = Some []"
| "next_run (Suc k) p =
     (case sqlite3RowSetNext p of
        None \<Rightarrow> None
      | Some (r, p) \<Rightarrow> map_option ((#) r) (next_run k p))"

fun insert_run :: "oom \<Rightarrow> rowset \<Rightarrow> int list \<Rightarrow> rowset \<times> oom" where
  "insert_run w p [] = (p, w)"
| "insert_run w p (x # xs) = (case sqlite3RowSetInsert w p x of (p, w) \<Rightarrow> insert_run w p xs)"

definition pending :: "rowset \<Rightarrow> int list" where
  "pending p = sorted_list_of_set (set (pEntry p))"

definition drain_inv :: "rowset \<Rightarrow> bool" where
  "drain_inv p \<longleftrightarrow> rowset_inv p \<and> (ROWSET_NEXT p \<longrightarrow> ROWSET_SORTED p) \<and> length (pEntry p) < 2 ^ 40"

lemma next_step:
  assumes "drain_inv p"
  obtains p' where "sqlite3RowSetNext p = Some (case pending p of [] \<Rightarrow> None | v # _ \<Rightarrow> Some v, p')"
    "drain_inv p'" "pending p' = tl (pending p)"
proof -
  define q where "q = p\<lparr>pEntry := pending p, ROWSET_SORTED := True, ROWSET_NEXT := True\<rparr>"
  have srt: "ROWSET_SORTED p \<Longrightarrow> pEntry p = pending p"
    using assms by (simp add: drain_inv_def rowset_inv_def pending_def strict_sorted_unique)
  have same: "p\<lparr>pEntry := pending p\<rparr> = p" if "ROWSET_SORTED p"
    using srt [OF that] by (cases p) simp
  have prep: "(if \<not> ROWSET_NEXT p then do {
             p \<leftarrow> (if \<not> ROWSET_SORTED p then do {
                     l \<leftarrow> rowSetEntrySort (pEntry p);
                     Some (p\<lparr>pEntry := l\<rparr>) }
                   else Some p);
             Some (p\<lparr>ROWSET_SORTED := True, ROWSET_NEXT := True\<rparr>) }
           else Some p) = Some q"
  proof (cases "ROWSET_SORTED p")
    case True
    then show ?thesis using assms same by (cases p) (simp add: q_def drain_inv_def)
  next
    case False
    then show ?thesis
      using assms by (simp add: q_def drain_inv_def entrySort flip: pending_def)
  qed
  have nxt: "sqlite3RowSetNext p =
      (case pending p of
         [] \<Rightarrow> Some (None, q)
       | v # rest \<Rightarrow> Some (Some v, if rest = [] then sqlite3RowSetClear (q\<lparr>pEntry := rest\<rparr>)
                                 else q\<lparr>pEntry := rest\<rparr>))"
    unfolding sqlite3RowSetNext_def prep by (simp add: q_def split: list.splits)
  have srt': "sorted_wrt (<) (pending p)" by (simp add: pending_def)
  have len: "length (pending p) < 2 ^ 40"
    using assms card_length [of "pEntry p"] by (simp add: pending_def drain_inv_def)
  have bst: "\<forall>t \<in> set (pForest p). bst t" using assms by (simp add: drain_inv_def rowset_inv_def)
  show thesis
  proof (cases "pending p")
    case Nil
    show thesis
      by (rule that [of q])
        (use Nil nxt bst in \<open>simp_all add: q_def drain_inv_def rowset_inv_def pending_def\<close>)
  next
    case (Cons v rest)
    have r: "sorted_wrt (<) rest" "length rest < 2 ^ 40" using srt' len Cons by simp_all
    then have "sorted_list_of_set (set rest) = rest" by (metis strict_sorted_unique)
    with r show thesis
      by (intro that [of "if rest = [] then sqlite3RowSetClear (q\<lparr>pEntry := rest\<rparr>) else q\<lparr>pEntry := rest\<rparr>"])
        (use Cons nxt bst in \<open>auto simp: q_def drain_inv_def rowset_inv_def pending_def sqlite3RowSetClear_def\<close>)
  qed
qed

lemma next_run_pending:
  "drain_inv p \<Longrightarrow>
   next_run k p = Some (map Some (take k (pending p)) @ replicate (k - length (pending p)) None)"
proof (induction k arbitrary: p)
  case (Suc k)
  obtain p' where p': "sqlite3RowSetNext p = Some (case pending p of [] \<Rightarrow> None | v # _ \<Rightarrow> Some v, p')"
    "drain_inv p'" "pending p' = tl (pending p)"
    by (rule next_step [OF Suc.prems])
  then show ?case using Suc.IH [OF p'(2)] by (cases "pending p") simp_all
qed simp

lemma insert_run_ok:
  assumes "rowset_inv p" "insert_run w p xs = (p', w')" "\<not> mallocFailed p'"
  shows "rowset_inv p' \<and> length (pEntry p') \<le> length (pEntry p) + length xs \<and> \<not> mallocFailed p \<and>
    ROWSET_NEXT p' = ROWSET_NEXT p \<and> set (pEntry p') = set (pEntry p) \<union> set xs"
  using assms
proof (induction xs arbitrary: p w)
  case (Cons x xs)
  obtain p1 w1 where i: "sqlite3RowSetInsert w p x = (p1, w1)" by fastforce
  note ok = insert_ok [OF Cons.prems(1) i]
  from Cons.IH [of p1 w1] ok Cons.prems i show ?case by auto
qed simp

text \<open>An allocator that never fails leaves the flag down.\<close>

lemma alloc_never_fails:
  obtains p' where "rowSetEntryAlloc [] p = (True, p', [])" "mallocFailed p' = mallocFailed p"
  by (cases "nFresh p = 0") (simp_all add: rowSetEntryAlloc_def)

lemma insert_never_fails:
  "\<exists>p'. sqlite3RowSetInsert [] p x = (p', []) \<and> mallocFailed p' = mallocFailed p"
  by (rule alloc_never_fails [of p]) (simp add: sqlite3RowSetInsert_def Let_def)

lemma test_never_fails:
  assumes "sqlite3RowSetTest [] p n x = Some (b, p', w')"
  shows "w' = [] \<and> mallocFailed p' = mallocFailed p"
proof -
  have "w' = [] \<and> mallocFailed p' = mallocFailed p"
    if "rowSetForestAdd (pForest p) l = (f, Some l')"
      "l = (if \<not> ROWSET_SORTED p then the (rowSetEntrySort (pEntry p)) else pEntry p)" for l l' f
    using assms that
    by (cases rule: alloc_never_fails [of "p\<lparr>pForest := f\<rparr>"])
      (auto simp: sqlite3RowSetTest_def split: if_splits option.splits bind_splits)
  with assms show ?thesis
    by (auto simp: sqlite3RowSetTest_def split: if_splits option.splits bind_splits prod.splits)
qed

lemma run_never_fails: "rowset_run [] p ops = Some (bs, p') \<Longrightarrow> mallocFailed p' = mallocFailed p"
proof (induction ops arbitrary: p bs)
  case (Cons op ops)
  show ?case
  proof (cases op)
    case (Insert x)
    with Cons insert_never_fails [of p x] show ?thesis by auto
  next
    case (Test n x)
    with Cons.prems obtain b p1 w1 bs1 where t: "sqlite3RowSetTest [] p n x = Some (b, p1, w1)"
      "rowset_run w1 p1 ops = Some (bs1, p')" by (auto split: option.splits)
    with test_never_fails [OF t(1)] Cons.IH show ?thesis by simp
  qed
qed simp

lemma insert_run_never_fails:
  "insert_run [] p xs = (p', w') \<Longrightarrow> mallocFailed p' = mallocFailed p"
proof (induction xs arbitrary: p)
  case (Cons x xs)
  with insert_never_fails [of p x] show ?case by auto
qed simp

section \<open>Properties\<close>

text \<open>C28: \<^verbatim>\<open>rowSetEntrySort\<close>, the bucketed bottom-up merge sort over an array of 40
  buckets, never leaves its array for lists shorter than \<open>2^40\<close> and returns the distinct
  values of its input in increasing order.\<close>

theorem rowset_sort_correct:
  assumes "length xs < 2 ^ 40"
  shows "rowSetEntrySort xs = Some (sorted_list_of_set (set xs))"
  using assms by (rule entrySort)

theorem rowset_sort_correct_witness:
  "rowSetEntrySort [3, 1, 2, 1] = Some (sorted_list_of_set (set [3, 1, 2, 1]))"
  by (rule rowset_sort_correct) simp

text \<open>C29: The search tree built from a list holds exactly that list in order, converting
  it back gives the list again, and its height is at most one more than the binary
  logarithm of its size.\<close>

theorem rowset_tree_roundtrip_balanced:
  assumes "xs \<noteq> []"
  shows "rowSetTreeToList (rowSetListToTree xs) = xs
    \<and> 2 ^ height (rowSetListToTree xs) \<le> 2 * length xs"
proof -
  obtain v ys where xs: "xs = v # ys" using assms by (cases xs) auto
  have "size (rowSetListToTree xs) = length xs"
    using listToTree_inorder [of xs] by (metis length_inorder)
  then show ?thesis
    using listToTreeLoop_height [of 1 "\<langle>\<langle>\<rangle>, v, \<langle>\<rangle>\<rangle>" ys] xs
    by (simp add: treeToList_inorder listToTree_inorder) (simp add: rowSetListToTree_def)
qed

theorem rowset_tree_roundtrip_balanced_witness:
  "rowSetTreeToList (rowSetListToTree [1, 2, 5]) = [1, 2, 5]
    \<and> 2 ^ height (rowSetListToTree [1, 2, 5]) \<le> 2 * length [1, 2, 5 :: int]"
  by (rule rowset_tree_roundtrip_balanced) simp

text \<open>C3: Refinement of the insert/test protocol. Starting from an initialised RowSet,
  any sequence of fewer than \<open>2^40\<close> inserts and tests returns, and unless an allocation
  failed (in which case the connection's \<^verbatim>\<open>mallocFailed\<close> flag is up) every test answers
  whether its rowid was inserted before the current batch began.\<close>

theorem rowset_test_refines:
  assumes "sqlite3RowSetInit w N = (Some p, w')" and "length ops < 2 ^ 40"
  shows "\<exists>bs p'. rowset_run w' p ops = Some (bs, p') \<and>
    (\<not> mallocFailed p' \<longrightarrow> bs = spec_run 0 {} {} ops)"
proof -
  have p: "rowset_inv p" "prior_of p = {}" "pEntry p = []" "iBatch p = 0"
    using assms(1) by (auto simp: sqlite3RowSetInit_def rowset_inv_def prior_of_def
        split: prod.splits bool.splits)
  with rowset_run_refines [of p ops w'] assms(2) show ?thesis by auto
qed

theorem rowset_test_refines_witness:
  "fst (the (rowset_run [] (the (fst (sqlite3RowSetInit [] 56)))
     [Insert 5, Test 1 5, Insert 7, Test 1 7, Test 2 7])) = [True, False, True]"
proof -
  let ?p = "the (fst (sqlite3RowSetInit [] 56))"
  let ?ops = "[Insert 5, Test 1 5, Insert 7, Test 1 7, Test 2 7]"
  have init: "sqlite3RowSetInit [] 56 = (Some ?p, [])" by (simp add: sqlite3RowSetInit_def)
  obtain bs p' where run: "rowset_run [] ?p ?ops = Some (bs, p')"
    "\<not> mallocFailed p' \<longrightarrow> bs = spec_run 0 {} {} ?ops"
    using rowset_test_refines [OF init, of ?ops] by auto
  have "\<not> mallocFailed p'"
    using run_never_fails [OF run(1)] by (simp add: sqlite3RowSetInit_def)
  with run show ?thesis by simp
qed

text \<open>C22: Insert, then drain. After inserting any list of fewer than \<open>2^40\<close> rowids without
  an allocation failure, successive calls of \<^verbatim>\<open>sqlite3RowSetNext\<close> return each distinct
  rowid once, in increasing order, and then report that the set is empty.\<close>

theorem rowset_drain_sorted:
  assumes "sqlite3RowSetInit w N = (Some p, w')" and "insert_run w' p xs = (q, w'')"
    and "\<not> mallocFailed q" and "length xs < 2 ^ 40"
  shows "next_run (card (set xs) + k) q =
    Some (map Some (sorted_list_of_set (set xs)) @ replicate k None)"
proof -
  have p: "rowset_inv p" "pEntry p = []" "\<not> ROWSET_NEXT p"
    using assms(1) by (auto simp: sqlite3RowSetInit_def rowset_inv_def prior_of_def
        split: prod.splits bool.splits)
  with insert_run_ok [OF p(1) assms(2,3)] assms(4)
  have "drain_inv q" "pending q = sorted_list_of_set (set xs)"
    by (simp_all add: drain_inv_def pending_def)
  then show ?thesis using next_run_pending [of q "card (set xs) + k"] by simp
qed

theorem rowset_drain_sorted_witness:
  "next_run (card (set [3, 1, 3 :: int]) + 1)
     (fst (insert_run [] (the (fst (sqlite3RowSetInit [] 56))) [3, 1, 3])) =
   Some (map Some (sorted_list_of_set (set [3, 1, 3])) @ replicate 1 None)"
proof -
  let ?p = "the (fst (sqlite3RowSetInit [] 56))"
  let ?q = "fst (insert_run [] ?p [3, 1, 3])"
  let ?w = "snd (insert_run [] ?p [3, 1, 3])"
  have init: "sqlite3RowSetInit [] 56 = (Some ?p, [])" by (simp add: sqlite3RowSetInit_def)
  have ins: "insert_run [] ?p [3, 1, 3] = (?q, ?w)" by simp
  have ok: "\<not> mallocFailed ?q"
    using insert_run_never_fails [OF ins] by (simp add: sqlite3RowSetInit_def)
  show ?thesis by (rule rowset_drain_sorted [OF init ins ok]) simp
qed

end
