(* ===== verification/Bitvec.thy ===== *)
theory Bitvec
  imports Prelude
begin

text \<open>
  \<^verbatim>\<open>bitvec.c\<close>: a sparse set of page numbers. The comment on \<^verbatim>\<open>struct Bitvec\<close> names its
  three representations, told apart by \<^verbatim>\<open>iSize\<close> and \<^verbatim>\<open>iDivisor\<close>; they are the three
  constructors here. The constants are those of a build with eight-byte pointers.
  \<^verbatim>\<open>u32\<close> values that only index or count are natural numbers: the one addition that could
  exceed 32 bits is to \<^verbatim>\<open>BITVEC_NPTR\<close>, which is a \<^verbatim>\<open>size_t\<close> of 64 bits; the public operations take
  the \<^verbatim>\<open>u32\<close> argument itself, so that \<^verbatim>\<open>i--\<close> wraps. \<open>None\<close> stands for behaviour the
  source leaves undefined: an array index out of range or a probe that never ends.
\<close>

section \<open>State\<close>

definition BITVEC_NELEM :: nat where "BITVEC_NELEM = ((512 - 3 * 4) div 8) * 8"
definition BITVEC_NBIT :: nat where "BITVEC_NBIT = BITVEC_NELEM * 8"
definition BITVEC_NINT :: nat where "BITVEC_NINT = ((512 - 3 * 4) div 8) * 8 div 4"
definition BITVEC_MXHASH :: nat where "BITVEC_MXHASH = BITVEC_NINT div 2"
definition BITVEC_NPTR :: nat where "BITVEC_NPTR = ((512 - 3 * 4) div 8) * 8 div 8"

lemma bitvec_consts [simp]:
  "BITVEC_NELEM = 496" "BITVEC_NBIT = 3968" "BITVEC_NINT = 124" "BITVEC_MXHASH = 62"
  "BITVEC_NPTR = 62"
  by (simp_all add: BITVEC_NELEM_def BITVEC_NBIT_def BITVEC_NINT_def BITVEC_MXHASH_def
      BITVEC_NPTR_def)

datatype bitvec =
    Bitmap (iSize: nat) (aBitmap: "u8 list")
  | Hash (iSize: nat) (nSet: nat) (aHash: "nat list")
  | Sub (iSize: nat) (nSet: nat) (iDivisor: nat) (apSub: "bitvec option list")

definition BITVEC_HASH :: "nat \<Rightarrow> nat" where
  "BITVEC_HASH X = (X * 1) mod BITVEC_NINT"

definition sqlite3BitvecCreate :: "oom \<Rightarrow> nat \<Rightarrow> bitvec option \<times> oom" where
  "sqlite3BitvecCreate w sz =
     (case alloc w of
        (False, w) \<Rightarrow> (None, w)
      | (True, w) \<Rightarrow>
          (Some (if sz \<le> BITVEC_NBIT then Bitmap sz (replicate BITVEC_NELEM 0)
                 else Hash sz 0 (replicate BITVEC_NINT 0)), w))"

definition sqlite3BitvecSize :: "bitvec \<Rightarrow> nat" where
  "sqlite3BitvecSize p = iSize p"

section \<open>Test\<close>

text \<open>The probe \<^verbatim>\<open>while( p->u.aHash[h] )\<close> for the value \<open>i\<close>: whether it was found, and the slot
  where the probe stopped. \<open>fuel\<close> bounds the number of slots looked at; after
  \<^verbatim>\<open>BITVEC_NINT\<close> of them the loop would go round for ever.\<close>

fun bitvecProbe :: "nat \<Rightarrow> nat list \<Rightarrow> nat \<Rightarrow> nat \<Rightarrow> (bool \<times> nat) option" where
  "bitvecProbe 0 a h i = None"
| "bitvecProbe (Suc fuel) a h i =
     (case rd a h of
        None \<Rightarrow> None
      | Some v \<Rightarrow>
          if v = 0 then Some (False, h)
          else if v = i then Some (True, h)
          else bitvecProbe fuel a ((h + 1) mod BITVEC_NINT) i)"

lemma size_apSub:
  "rd xs n = Some (Some p) \<Longrightarrow> size p < size_list (size_option size) (xs :: bitvec option list)"
proof -
  assume "rd xs n = Some (Some p)"
  then have "Some p \<in> set xs" by (auto simp: rd_def split: if_splits) (metis nth_mem)
  then have "size_option size (Some p) \<le> size_list (size_option size) xs"
    by (rule size_list_estimation') simp
  then show ?thesis by simp
qed

text \<open>\<^verbatim>\<open>i\<close> counts from zero, as it does after \<^verbatim>\<open>i--\<close>.\<close>

function (sequential) bitvecTest :: "bitvec \<Rightarrow> nat \<Rightarrow> bool option" where
  "bitvecTest (Sub sz n d subs) i =
     (case rd subs (i div d) of
        None \<Rightarrow> None
      | Some None \<Rightarrow> Some False
      | Some (Some p) \<Rightarrow> bitvecTest p (i mod d))"
| "bitvecTest (Bitmap sz bm) i =
     (case rd bm (i div 8) of
        None \<Rightarrow> None
      | Some b \<Rightarrow> Some (b AND push_bit (i mod 8) 1 \<noteq> 0))"
| "bitvecTest (Hash sz n a) i =
     map_option fst (bitvecProbe BITVEC_NINT a (BITVEC_HASH i) (i + 1))"
  by pat_completeness auto
termination
  by (relation "measure (\<lambda>(p, i). size p)") (auto dest: size_apSub)

definition sqlite3BitvecTestNotNull :: "bitvec \<Rightarrow> u32 \<Rightarrow> bool option" where
  "sqlite3BitvecTestNotNull p i =
     (let i = unat (i - 1) in if i \<ge> iSize p then Some False else bitvecTest p i)"

definition sqlite3BitvecTest :: "bitvec option \<Rightarrow> u32 \<Rightarrow> bool option" where
  "sqlite3BitvecTest p i = (case p of None \<Rightarrow> Some False | Some p \<Rightarrow> sqlite3BitvecTestNotNull p i)"

section \<open>Set\<close>

definition rc_or :: "result_code \<Rightarrow> result_code \<Rightarrow> result_code" where
  "rc_or a b = (if a = SQLITE_OK then b else a)"

text \<open>\<^verbatim>\<open>for(j=0; j<BITVEC_NINT; j++) if( aiValues[j] ) rc |= sqlite3BitvecSet(p, aiValues[j])\<close>\<close>

fun bitvecRehash ::
  "(oom \<Rightarrow> bitvec \<Rightarrow> nat \<Rightarrow> (result_code \<times> bitvec \<times> oom) option) \<Rightarrow> result_code \<Rightarrow> oom \<Rightarrow> bitvec \<Rightarrow>
   nat list \<Rightarrow> (result_code \<times> bitvec \<times> oom) option" where
  "bitvecRehash setf rc w p [] = Some (rc, p, w)"
| "bitvecRehash setf rc w p (v # vs) =
     (if v \<noteq> 0 then
        (case setf w p (v - 1) of
           None \<Rightarrow> None
         | Some (rc', p, w) \<Rightarrow> bitvecRehash setf (rc_or rc rc') w p vs)
      else bitvecRehash setf rc w p vs)"

text \<open>The body of \<^verbatim>\<open>sqlite3BitvecSet\<close> after \<^verbatim>\<open>i--\<close>; the loop that descends to the sub-bitmap
  and the calls that refill a subdivided bitmap both go one level down. The first
  argument bounds the number of levels.\<close>

primrec bitvecSet :: "nat \<Rightarrow> oom \<Rightarrow> bitvec \<Rightarrow> nat \<Rightarrow> (result_code \<times> bitvec \<times> oom) option" where
  "bitvecSet 0 = (\<lambda>w p i. None)"
| "bitvecSet (Suc level) = (\<lambda>w p i.
     case p of
       Sub sz n d subs \<Rightarrow>
         (let bin = i div d;
              down = (\<lambda>w q.
                (case bitvecSet level w q (i mod d) of
                   None \<Rightarrow> None
                 | Some (rc, q, w) \<Rightarrow> Some (rc, Sub sz n d (subs[bin := Some q]), w)))
          in
          (case rd subs bin of
             None \<Rightarrow> None
           | Some None \<Rightarrow>
               (case sqlite3BitvecCreate w d of
                  (None, w) \<Rightarrow> Some (SQLITE_NOMEM, p, w)
                | (Some q, w) \<Rightarrow> down w q)
           | Some (Some q) \<Rightarrow> down w q))
     | Bitmap sz bm \<Rightarrow>
         (case rd bm (i div 8) of
            None \<Rightarrow> None
          | Some b \<Rightarrow> Some (SQLITE_OK, Bitmap sz (bm[i div 8 := b OR push_bit (i mod 8) 1]), w))
     | Hash sz n a \<Rightarrow>
         (let set_end = (\<lambda>h. Some (SQLITE_OK, Hash sz (n + 1) (a[h := i + 1]), w));
              set_rehash = (\<lambda>h.
                if n \<ge> BITVEC_MXHASH then
                  (case alloc w of
                     (False, w) \<Rightarrow> Some (SQLITE_NOMEM, p, w)
                   | (True, w) \<Rightarrow>
                       (let q = Sub sz n ((sz + BITVEC_NPTR - 1) div BITVEC_NPTR)
                                  (replicate BITVEC_NPTR None)
                        in case bitvecSet level w q i of
                             None \<Rightarrow> None
                           | Some (rc, q, w) \<Rightarrow> bitvecRehash (bitvecSet level) rc w q a))
                else set_end h);
              h = BITVEC_HASH i
          in
          (case rd a h of
             None \<Rightarrow> None
           | Some v \<Rightarrow>
               if v = 0 then (if n < BITVEC_NINT - 1 then set_end h else set_rehash h)
               else
                 (case bitvecProbe BITVEC_NINT a h (i + 1) of
                    None \<Rightarrow> None
                  | Some (True, h) \<Rightarrow> Some (SQLITE_OK, p, w)
                  | Some (False, h) \<Rightarrow> set_rehash h))))"

text \<open>Nine levels are enough for every \<^verbatim>\<open>u32\<close> size, as the theorems below show.\<close>

definition sqlite3BitvecSet ::
  "oom \<Rightarrow> bitvec option \<Rightarrow> u32 \<Rightarrow> (result_code \<times> bitvec option \<times> oom) option" where
  "sqlite3BitvecSet w p i =
     (case p of
        None \<Rightarrow> Some (SQLITE_OK, None, w)
      | Some p \<Rightarrow>
          (case bitvecSet 9 w p (unat (i - 1)) of
             None \<Rightarrow> None
           | Some (rc, p, w) \<Rightarrow> Some (rc, Some p, w)))"

section \<open>Clear\<close>

text \<open>\<^verbatim>\<open>while( p->u.aHash[h] ){ h++; if( h>=BITVEC_NINT ) h = 0; }\<close>\<close>

fun bitvecFree :: "nat \<Rightarrow> nat list \<Rightarrow> nat \<Rightarrow> nat option" where
  "bitvecFree 0 a h = None"
| "bitvecFree (Suc fuel) a h =
     (case rd a h of
        None \<Rightarrow> None
      | Some v \<Rightarrow>
          if v = 0 then Some h
          else bitvecFree fuel a (if h + 1 \<ge> BITVEC_NINT then 0 else h + 1))"

text \<open>The loop that rebuilds the hash table from \<^verbatim>\<open>aiValues\<close> without the value \<open>i + 1\<close>.\<close>

fun bitvecRefill :: "nat \<Rightarrow> nat \<Rightarrow> nat list \<Rightarrow> nat list \<Rightarrow> (nat \<times> nat list) option" where
  "bitvecRefill i n a [] = Some (n, a)"
| "bitvecRefill i n a (v # vs) =
     (if v \<noteq> 0 \<and> v \<noteq> i + 1 then
        (case bitvecFree BITVEC_NINT a (BITVEC_HASH (v - 1)) of
           None \<Rightarrow> None
         | Some h \<Rightarrow> bitvecRefill i (n + 1) (a[h := v]) vs)
      else bitvecRefill i n a vs)"

function (sequential) bitvecClear :: "bitvec \<Rightarrow> nat \<Rightarrow> bitvec option" where
  "bitvecClear (Sub sz n d subs) i =
     (case rd subs (i div d) of
        None \<Rightarrow> None
      | Some None \<Rightarrow> Some (Sub sz n d subs)
      | Some (Some p) \<Rightarrow>
          (case bitvecClear p (i mod d) of
             None \<Rightarrow> None
           | Some p \<Rightarrow> Some (Sub sz n d (subs[i div d := Some p]))))"
| "bitvecClear (Bitmap sz bm) i =
     (case rd bm (i div 8) of
        None \<Rightarrow> None
      | Some b \<Rightarrow> Some (Bitmap sz (bm[i div 8 := b AND NOT (push_bit (i mod 8) 1)])))"
| "bitvecClear (Hash sz n a) i =
     (case bitvecRefill i 0 (replicate BITVEC_NINT 0) a of
        None \<Rightarrow> None
      | Some (n, a) \<Rightarrow> Some (Hash sz n a))"
  by pat_completeness auto
termination
  by (relation "measure (\<lambda>(p, i). size p)") (auto dest: size_apSub)

definition sqlite3BitvecClear :: "bitvec option \<Rightarrow> u32 \<Rightarrow> bitvec option option" where
  "sqlite3BitvecClear p i =
     (case p of
        None \<Rightarrow> Some None
      | Some p \<Rightarrow> map_option Some (bitvecClear p (unat (i - 1))))"

section \<open>Destroy\<close>

text \<open>The number of objects that \<^verbatim>\<open>sqlite3BitvecDestroy\<close> passes to \<^verbatim>\<open>sqlite3_free\<close>.\<close>

function (sequential) sqlite3BitvecDestroy :: "bitvec option \<Rightarrow> nat" where
  "sqlite3BitvecDestroy None = 0"
| "sqlite3BitvecDestroy (Some (Sub sz n d subs)) = sum_list (map sqlite3BitvecDestroy subs) + 1"
| "sqlite3BitvecDestroy (Some p) = 1"
  by pat_completeness auto
termination
proof (relation "measure (size_option size)")
  fix sz n d :: nat and subs and q :: "bitvec option"
  assume "q \<in> set subs"
  then have "size_option size q \<le> size_list (size_option size) subs"
    by (auto intro: size_list_estimation')
  then show "(q, Some (Sub sz n d subs)) \<in> measure (size_option size)" by simp
qed simp

section \<open>Open addressing with linear probing\<close>

text \<open>Slot \<open>j\<close> of the probe sequence that starts at \<open>h\<close>, and the position of slot \<open>k\<close> in it.\<close>

abbreviation slot :: "nat \<Rightarrow> nat \<Rightarrow> nat" where "slot h j \<equiv> (h + j) mod 124"
abbreviation dist :: "nat \<Rightarrow> nat \<Rightarrow> nat" where "dist h k \<equiv> (k + 124 - h) mod 124"

lemma slot_dist: "h < 124 \<Longrightarrow> k < 124 \<Longrightarrow> slot h (dist h k) = k"
  by (cases "h \<le> k") (auto simp: mod_if)

lemma dist_slot: "h < 124 \<Longrightarrow> j < 124 \<Longrightarrow> dist h (slot h j) = j"
  by (cases "h + j < 124") (auto simp: mod_if)

lemma slot_Suc: "slot ((h + 1) mod 124) j = slot h (Suc j)"
  by (simp add: mod_add_left_eq)

lemma hash_less [simp]: "BITVEC_HASH x < 124"
  by (simp add: BITVEC_HASH_def)

definition nz :: "nat list \<Rightarrow> nat set" where "nz a = set a - {0}"
definition cnt :: "nat list \<Rightarrow> nat" where "cnt a = length (filter (\<lambda>v. v \<noteq> 0) a)"

text \<open>Every value can be reached from its home slot over occupied slots.\<close>

definition chain :: "nat list \<Rightarrow> bool" where
  "chain a \<longleftrightarrow> length a = 124 \<and>
     (\<forall>k < 124. a ! k \<noteq> 0 \<longrightarrow>
        (\<forall>j < dist (BITVEC_HASH (a ! k - 1)) k. a ! slot (BITVEC_HASH (a ! k - 1)) j \<noteq> 0))"

lemma cnt_less_ex_zero: "cnt a < length a \<Longrightarrow> \<exists>z < length a. a ! z = 0"
  by (metis (mono_tags, lifting) cnt_def filter_True in_set_conv_nth less_irrefl)

lemma cnt_update: "k < length a \<Longrightarrow> a ! k = 0 \<Longrightarrow> v \<noteq> 0 \<Longrightarrow> cnt (a[k := v]) = Suc (cnt a)"
proof -
  assume k: "k < length a" "a ! k = 0" "v \<noteq> 0"
  have "cnt a = cnt (take k a @ a ! k # drop (Suc k) a)" using id_take_nth_drop [OF k(1)] by simp
  with k show ?thesis by (simp add: cnt_def upd_conv_take_nth_drop)
qed

lemma nz_update: "k < length a \<Longrightarrow> a ! k = 0 \<Longrightarrow> v \<noteq> 0 \<Longrightarrow> nz (a[k := v]) = insert v (nz a)"
proof -
  assume k: "k < length a" "a ! k = 0" "v \<noteq> 0"
  have "nz a = nz (take k a @ a ! k # drop (Suc k) a)" using id_take_nth_drop [OF k(1)] by simp
  with k show ?thesis by (auto simp: nz_def upd_conv_take_nth_drop)
qed

lemma chain_update:
  assumes "chain a" "k < 124" "v \<noteq> 0"
    and "\<forall>j < dist (BITVEC_HASH (v - 1)) k. a ! slot (BITVEC_HASH (v - 1)) j \<noteq> 0"
  shows "chain (a[k := v])"
proof -
  have len: "length a = 124" using assms by (simp add: chain_def)
  have up: "0 < a ! x \<Longrightarrow> 0 < a[k := v] ! x" if "x < 124" for x
    using that assms(3) len by (cases "x = k") simp_all
  have "a[k := v] ! slot (BITVEC_HASH (a[k := v] ! m - 1)) j \<noteq> 0"
    if "m < 124" "a[k := v] ! m \<noteq> 0" "j < dist (BITVEC_HASH (a[k := v] ! m - 1)) m" for m j
    using that assms len by (cases "m = k") (auto simp: chain_def intro!: up)
  then show ?thesis using len by (simp add: chain_def)
qed

lemma probe_stop:
  assumes "length a = 124" "j < fuel" "h < 124" "i \<noteq> 0"
    and "\<forall>j' < j. a ! slot h j' \<noteq> 0 \<and> a ! slot h j' \<noteq> i"
    and "a ! slot h j = 0 \<or> a ! slot h j = i"
  shows "bitvecProbe fuel a h i = Some (a ! slot h j = i, slot h j)"
  using assms
proof (induction j arbitrary: fuel h)
  case 0
  then show ?case by (cases fuel) (auto simp: rd_def)
next
  case (Suc j)
  obtain f where f: "fuel = Suc f" "j < f" using Suc.prems(2) by (cases fuel) auto
  have step: "a ! h \<noteq> 0" "a ! h \<noteq> i" using Suc.prems(3,5) by force+
  have "bitvecProbe f a ((h + 1) mod 124) i =
    Some (a ! slot ((h + 1) mod 124) j = i, slot ((h + 1) mod 124) j)"
    using Suc.prems f by (intro Suc.IH) (simp_all only: slot_Suc, auto)
  then show ?case using step f Suc.prems(1,3) by (simp add: rd_def slot_Suc del: One_nat_def)
qed

lemma probe_finds:
  assumes "length a = 124" "z < 124" "a ! z = 0" "h < 124" "i \<noteq> 0"
  obtains j where "j < 124" "\<forall>j' < j. a ! slot h j' \<noteq> 0 \<and> a ! slot h j' \<noteq> i"
    "a ! slot h j = 0 \<or> a ! slot h j = i"
    "bitvecProbe 124 a h i = Some (a ! slot h j = i, slot h j)"
proof -
  let ?P = "\<lambda>j. a ! slot h j = 0 \<or> a ! slot h j = i"
  define j where "j = (LEAST j. ?P j)"
  have P: "?P (dist h z)" using assms slot_dist by simp
  have j: "?P j" "j < 124"
    using LeastI [of ?P, OF P] Least_le [of ?P, OF P] unfolding j_def by (auto intro: le_less_trans)
  have "\<forall>j' < j. \<not> ?P j'" unfolding j_def using not_less_Least by blast
  with j assms show thesis by (intro that [of j] probe_stop) auto
qed

lemma probe_mem:
  assumes "chain a" "cnt a < 124" "i \<noteq> 0"
  obtains k where "k < 124" "bitvecProbe 124 a (BITVEC_HASH (i - 1)) i = Some (i \<in> set a, k)"
    "i \<notin> set a \<Longrightarrow> a ! k = 0"
    "i \<notin> set a \<Longrightarrow> \<forall>j < dist (BITVEC_HASH (i - 1)) k. a ! slot (BITVEC_HASH (i - 1)) j \<noteq> 0"
proof -
  let ?h = "BITVEC_HASH (i - 1)"
  have len: "length a = 124" using assms by (simp add: chain_def)
  obtain z where "z < 124" "a ! z = 0" using cnt_less_ex_zero [of a] assms(2) len by auto
  then obtain j where j: "j < 124" "\<forall>j' < j. a ! slot ?h j' \<noteq> 0 \<and> a ! slot ?h j' \<noteq> i"
    "a ! slot ?h j = 0 \<or> a ! slot ?h j = i"
    "bitvecProbe 124 a ?h i = Some (a ! slot ?h j = i, slot ?h j)"
    using probe_finds [OF len _ _ hash_less assms(3)] by blast
  have "a ! slot ?h j = i" if i: "i \<in> set a"
  proof -
    obtain m where m: "m < 124" "a ! m = i" using i len by (auto simp: in_set_conv_nth)
    have nonzero: "\<forall>j' < dist ?h m. a ! slot ?h j' \<noteq> 0" using assms(1,3) m by (auto simp: chain_def)
    have "j \<le> dist ?h m"
      using j(2) m slot_dist [OF hash_less m(1), of "i - 1"] by (metis not_le)
    then show ?thesis
      using j(3) nonzero m slot_dist [OF hash_less m(1), of "i - 1"] by (metis le_neq_implies_less)
  qed
  moreover have "a ! slot ?h j \<noteq> i" if "i \<notin> set a"
    using that len by (metis mod_less_divisor nth_mem zero_less_numeral)
  moreover have "dist ?h (slot ?h j) = j" using dist_slot [OF hash_less j(1)] .
  ultimately show thesis using j by (intro that [of "slot ?h j"]) auto
qed

lemma free_slot:
  assumes "length a = 124" "cnt a < 124" "h < 124"
  obtains k where "bitvecFree 124 a h = Some k" "k < 124" "a ! k = 0"
    "\<forall>j < dist h k. a ! slot h j \<noteq> 0"
proof -
  obtain i where i: "i \<notin> insert 0 (set a)" using ex_new_if_finite
    by (metis finite.insertI finite_set infinite_UNIV_nat)
  have eq: "bitvecFree f a h = map_option snd (bitvecProbe f a h i)" if "h < 124" for f h
    using that i assms(1)
  proof (induction f arbitrary: h)
    case (Suc f)
    have "(if h + 1 \<ge> 124 then 0 else h + 1) = (h + 1) mod 124" using Suc.prems by (auto simp: mod_if)
    with Suc show ?case by (auto simp: rd_def split: if_splits)
  qed simp
  obtain z where "z < 124" "a ! z = 0" using cnt_less_ex_zero [of a] assms by auto
  then obtain j where j: "j < 124" "\<forall>j' < j. a ! slot h j' \<noteq> 0 \<and> a ! slot h j' \<noteq> i"
    "a ! slot h j = 0 \<or> a ! slot h j = i"
    "bitvecProbe 124 a h i = Some (a ! slot h j = i, slot h j)"
    using probe_finds [OF assms(1) _ _ assms(3), of z i] i by blast
  have "a ! slot h j \<noteq> i" using i assms(1) by (metis insertCI mod_less_divisor nth_mem zero_less_numeral)
  with j eq [OF assms(3)] dist_slot [OF assms(3) j(1)] show thesis
    by (intro that [of "slot h j"]) auto
qed

lemma refill:
  assumes "chain a" "cnt a + cnt vs \<le> 123" "n = cnt a"
  shows "\<exists>a'. bitvecRefill i n a vs = Some (cnt a', a') \<and> chain a' \<and> cnt a' \<le> cnt a + cnt vs \<and>
    nz a' = nz a \<union> (nz vs - {i + 1})"
  using assms
proof (induction vs arbitrary: a n)
  case (Cons v vs)
  show ?case
  proof (cases "v \<noteq> 0 \<and> v \<noteq> i + 1")
    case True
    have len: "length a = 124" using Cons.prems by (simp add: chain_def)
    have c: "cnt (v # vs) = Suc (cnt vs)" using True by (simp add: cnt_def)
    obtain k where k: "bitvecFree 124 a (BITVEC_HASH (v - 1)) = Some k" "k < 124" "a ! k = 0"
      "\<forall>j < dist (BITVEC_HASH (v - 1)) k. a ! slot (BITVEC_HASH (v - 1)) j \<noteq> 0"
      using free_slot [OF len _ hash_less, of "v - 1"] Cons.prems c by auto
    have u: "chain (a[k := v])" "cnt (a[k := v]) = Suc (cnt a)" "nz (a[k := v]) = insert v (nz a)"
      using chain_update [OF Cons.prems(1) k(2) _ k(4)] cnt_update nz_update True k len by auto
    with Cons.IH [of "a[k := v]" "n + 1"] Cons.prems c obtain a' where
      "bitvecRefill i (n + 1) (a[k := v]) vs = Some (cnt a', a')" "chain a'"
      "cnt a' \<le> Suc (cnt a) + cnt vs" "nz a' = insert v (nz a) \<union> (nz vs - {i + 1})"
      by auto
    with True k c show ?thesis by (auto simp: nz_def)
  next
    case False
    then have "cnt vs \<le> cnt (v # vs)" "nz (v # vs) - {i + 1} = nz vs - {i + 1}"
      by (auto simp: cnt_def nz_def)
    with False Cons.IH [of a n] Cons.prems show ?thesis by fastforce
  qed
qed (simp add: cnt_def nz_def)

section \<open>The representation invariant\<close>

function (sequential) bv_ok :: "bitvec \<Rightarrow> bool" where
  "bv_ok (Bitmap sz bm) \<longleftrightarrow> sz \<le> 3968 \<and> length bm = 496"
| "bv_ok (Hash sz n a) \<longleftrightarrow> 3968 < sz \<and> sz < 2 ^ 32 \<and> chain a \<and> n = cnt a \<and> n \<le> 123 \<and> (\<forall>v \<in> set a. v \<le> sz)"
| "bv_ok (Sub sz n d subs) \<longleftrightarrow> 3968 < sz \<and> sz < 2 ^ 32 \<and> d = (sz + 61) div 62 \<and> length subs = 62 \<and>
     list_all (\<lambda>q. case q of None \<Rightarrow> True | Some p \<Rightarrow> bv_ok p \<and> iSize p = d) subs"
  by pat_completeness auto
termination
proof (relation "measure size")
  fix sz n d :: nat and subs :: "bitvec option list" and q p
  assume "q \<in> set subs" "q = Some p"
  then have "size_option size (Some p) \<le> size_list (size_option size) subs"
    by (auto intro: size_list_estimation')
  then show "(p, Sub sz n d subs) \<in> measure size" by simp
qed simp

declare bv_ok.simps(3) [simp del]

definition bv_mem :: "bitvec \<Rightarrow> nat \<Rightarrow> bool" where
  "bv_mem p i \<longleftrightarrow> bitvecTest p i = Some True"

lemma sub_ok:
  assumes "bv_ok (Sub sz n d subs)" "i < sz"
  shows "i div d < 62" "i mod d < d" "rd subs (i div d) = Some (subs ! (i div d))"
    "subs ! (i div d) = Some q \<Longrightarrow> bv_ok q \<and> iSize q = d"
proof -
  have d: "d = (sz + 61) div 62" "3968 < sz" "length subs = 62"
    using assms by (simp_all add: bv_ok.simps(3))
  then have "sz \<le> d * 62" by simp
  then show bin: "i div d < 62" using assms(2) d by (simp add: div_less_iff_less_mult)
  show "i mod d < d" using d by simp
  show "rd subs (i div d) = Some (subs ! (i div d))" using bin d by (simp add: rd_def)
  show "bv_ok q \<and> iSize q = d" if "subs ! (i div d) = Some q"
    using assms(1) bin that by (auto simp: bv_ok.simps(3) list_all_length)
qed

lemma bit_test_set:
  fixes b :: u8
  assumes "m < 8" "n < 8"
  shows "(b OR push_bit m 1) AND push_bit n 1 \<noteq> 0 \<longleftrightarrow> n = m \<or> b AND push_bit n 1 \<noteq> 0"
    and "(b AND NOT (push_bit m 1)) AND push_bit n 1 \<noteq> 0 \<longleftrightarrow> n \<noteq> m \<and> b AND push_bit n 1 \<noteq> 0"
  using assms by (auto simp: and_exp_eq_0_iff_not_bit bit_simps)

lemma test_total: "bv_ok p \<Longrightarrow> i < iSize p \<Longrightarrow> bitvecTest p i \<noteq> None"
proof (induction p i rule: bitvecTest.induct)
  case (1 sz n d subs i)
  then show ?case
    using sub_ok [of sz n d subs i] by (cases "subs ! (i div d)") auto
next
  case (2 sz bm i)
  then have "i div 8 < 496" by (simp add: div_less_iff_less_mult)
  with 2 show ?case by (simp add: rd_def)
next
  case (3 sz n a i)
  then show ?case by (auto intro: probe_mem [of a "i + 1"])
qed

lemma mem_Bitmap: "i < 3968 \<Longrightarrow> length bm = 496 \<Longrightarrow> bv_mem (Bitmap sz bm) i \<longleftrightarrow> bit (bm ! (i div 8)) (i mod 8)"
  by (simp add: bv_mem_def rd_def div_less_iff_less_mult and_exp_eq_0_iff_not_bit)

lemma mem_Hash: "chain a \<Longrightarrow> cnt a < 124 \<Longrightarrow> bv_mem (Hash sz n a) i \<longleftrightarrow> i + 1 \<in> set a"
  by (rule probe_mem [of a "i + 1"]) (simp_all add: bv_mem_def)

lemma mem_Sub:
  "bv_ok (Sub sz n d subs) \<Longrightarrow> i < sz \<Longrightarrow>
   bv_mem (Sub sz n d subs) i \<longleftrightarrow> (\<exists>q. subs ! (i div d) = Some q \<and> bv_mem q (i mod d))"
  using sub_ok(3) [of sz n d subs i] by (simp add: bv_mem_def split: option.split)

lemma create_ok:
  assumes "sqlite3BitvecCreate w sz = (Some p, w')" "sz < 2 ^ 32"
  shows "bv_ok p \<and> iSize p = sz \<and> (\<forall>i < sz. \<not> bv_mem p i)"
proof -
  have "chain (replicate 124 0)" "cnt (replicate 124 0) = 0" by (simp_all add: chain_def cnt_def)
  moreover have "\<not> bv_mem (Bitmap sz (replicate 496 0)) i" if "i < sz" "sz \<le> 3968" for i
    using that by (simp add: mem_Bitmap div_less_iff_less_mult)
  ultimately show ?thesis
    using assms by (auto simp: sqlite3BitvecCreate_def mem_Hash split: prod.splits bool.splits if_splits)
qed

lemma bv_ok_update:
  "bv_ok (Sub sz n d subs) \<Longrightarrow> bv_ok q \<Longrightarrow> iSize q = d \<Longrightarrow> bv_ok (Sub sz n d (subs[k := Some q]))"
  by (auto simp: bv_ok.simps(3) list_all_iff dest!: set_update_subset_insert [THEN subsetD])

section \<open>Set is correct\<close>

text \<open>The level bound: a bitmap of size at most \<open>3968 * 62^k\<close> has at most \<open>k\<close> levels of
  subdivision, and each may cost two levels of the recursion.\<close>

definition enough :: "nat \<Rightarrow> bitvec \<Rightarrow> bool" where
  "enough level p \<longleftrightarrow>
     (\<exists>k. iSize p \<le> 3968 * 62 ^ k \<and> 2 * k + (case p of Sub _ _ _ _ \<Rightarrow> 0 | _ \<Rightarrow> 1) \<le> level)"

definition set_post :: "bitvec \<Rightarrow> nat \<Rightarrow> result_code \<times> bitvec \<times> oom \<Rightarrow> bool" where
  "set_post p i r = (case r of (rc, p', w') \<Rightarrow>
     bv_ok p' \<and> iSize p' = iSize p \<and> (is_Sub p \<longrightarrow> is_Sub p') \<and>
     (rc = SQLITE_OK \<longrightarrow> (\<forall>j < iSize p. bv_mem p' j \<longleftrightarrow> j = i \<or> bv_mem p j)))"

lemma set_Bitmap:
  assumes "bv_ok (Bitmap sz bm)" "i < sz"
  shows "\<exists>r. bitvecSet (Suc l) w (Bitmap sz bm) i = Some r \<and> set_post (Bitmap sz bm) i r"
proof -
  have i: "i div 8 < 496" "i < 3968" using assms by (simp_all add: div_less_iff_less_mult)
  have eq: "j = i \<longleftrightarrow> j div 8 = i div 8 \<and> j mod 8 = i mod 8" for j
    by (metis div_mult_mod_eq)
  show ?thesis
    using assms i
    by (auto simp: set_post_def rd_def mem_Bitmap nth_list_update bit_simps eq div_less_iff_less_mult)
qed

lemma set_Sub:
  assumes ok: "bv_ok (Sub sz n d subs)" "i < sz"
    and rec: "\<And>w q. bv_ok q \<Longrightarrow> iSize q = d \<Longrightarrow>
        \<exists>r. bitvecSet l w q (i mod d) = Some r \<and> set_post q (i mod d) r"
  shows "\<exists>r. bitvecSet (Suc l) w (Sub sz n d subs) i = Some r \<and> set_post (Sub sz n d subs) i r"
proof -
  note bin = sub_ok [OF ok]
  have len: "length subs = 62" using ok by (simp add: bv_ok.simps(3))
  have eq: "j = i \<longleftrightarrow> j div d = i div d \<and> j mod d = i mod d" for j
    by (metis div_mult_mod_eq)
  have down: "set_post (Sub sz n d subs) i (rc, Sub sz n d (subs[i div d := Some q']), w')"
    if q: "set_post q (i mod d) (rc, q', w')" "iSize q = d"
      "\<forall>m < d. bv_mem q m \<longleftrightarrow> (\<exists>p. subs ! (i div d) = Some p \<and> bv_mem p m)" for q q' rc w'
  proof -
    let ?s = "Sub sz n d (subs[i div d := Some q'])"
    have q': "bv_ok q'" "iSize q' = d" using q by (simp_all add: set_post_def)
    have ok': "bv_ok ?s"
      using bv_ok_update [OF ok(1) q'] .
    have "bv_mem ?s j \<longleftrightarrow> j = i \<or> bv_mem (Sub sz n d subs) j" if "rc = SQLITE_OK" "j < sz" for j
    proof -
      note binj = sub_ok [OF ok(1) that(2)]
      show ?thesis
      proof (cases "j div d = i div d")
        case True
        then have "bv_mem ?s j \<longleftrightarrow> bv_mem q' (j mod d)"
          using mem_Sub [OF ok' that(2)] bin(1) len by simp
        also have "\<dots> \<longleftrightarrow> j mod d = i mod d \<or> bv_mem q (j mod d)"
          using q(1,2) that binj(2) by (simp add: set_post_def)
        finally show ?thesis
          using True q(3) binj(2) mem_Sub [OF ok(1) that(2)] eq by auto
      next
        case False
        then show ?thesis
          using mem_Sub [OF ok' that(2)] mem_Sub [OF ok(1) that(2)] bin(1) len by auto
      qed
    qed
    with ok' show ?thesis by (simp add: set_post_def)
  qed
  show ?thesis
  proof (cases "subs ! (i div d)")
    case (Some q)
    then have q: "bv_ok q" "iSize q = d" using bin(4) by auto
    from rec [OF this, of w] obtain rc q' w' where
      r: "bitvecSet l w q (i mod d) = Some (rc, q', w')" "set_post q (i mod d) (rc, q', w')"
      by (metis prod_cases3)
    with down [OF r(2) q(2)] Some bin(3) show ?thesis by (simp add: Let_def)
  next
    case None
    obtain c w1 where c: "sqlite3BitvecCreate w d = (c, w1)" by fastforce
    show ?thesis
    proof (cases c)
      case None': None
      with None c bin(3) ok show ?thesis by (auto simp: set_post_def Let_def)
    next
      case (Some q)
      moreover have "d < 2 ^ 32" using ok(1) by (auto simp: bv_ok.simps(3))
      ultimately have q: "bv_ok q" "iSize q = d" "\<forall>m < d. \<not> bv_mem q m" using create_ok c by auto
      from rec [OF q(1,2), of w1] obtain rc q' w' where
        r: "bitvecSet l w1 q (i mod d) = Some (rc, q', w')" "set_post q (i mod d) (rc, q', w')"
        by (metis prod_cases3)
      with down [OF r(2) q(2)] q(3) None Some c bin(3) show ?thesis by (simp add: Let_def)
    qed
  qed
qed

lemma rehash_ok:
  assumes rec: "\<And>w p i. bv_ok p \<Longrightarrow> is_Sub p \<Longrightarrow> iSize p = sz \<Longrightarrow> i < sz \<Longrightarrow>
      \<exists>r. setf w p i = Some r \<and> set_post p i r"
    and "bv_ok p" "is_Sub p" "iSize p = sz" "\<forall>v \<in> set vs. v \<le> sz"
  shows "\<exists>rc' p' w'. bitvecRehash setf rc w p vs = Some (rc', p', w') \<and>
    bv_ok p' \<and> is_Sub p' \<and> iSize p' = sz \<and>
    (rc' = SQLITE_OK \<longrightarrow> rc = SQLITE_OK \<and> (\<forall>j < sz. bv_mem p' j \<longleftrightarrow> Suc j \<in> set vs \<or> bv_mem p j))"
  using assms(2-)
proof (induction vs arbitrary: rc w p)
  case (Cons v vs)
  show ?case
  proof (cases v)
    case 0
    with Cons.IH [of p rc w] Cons.prems show ?thesis by auto
  next
    case (Suc u)
    then have u: "u < sz" using Cons.prems by simp
    obtain rc1 p1 w1 where s: "setf w p u = Some (rc1, p1, w1)" "set_post p u (rc1, p1, w1)"
      using rec [OF Cons.prems(1-3) u] by (metis prod_cases3)
    then have p1: "bv_ok p1" "is_Sub p1" "iSize p1 = sz" using Cons.prems by (simp_all add: set_post_def)
    obtain rc' p' w' where r: "bitvecRehash setf (rc_or rc rc1) w1 p1 vs = Some (rc', p', w')"
      "bv_ok p'" "is_Sub p'" "iSize p' = sz"
      "rc' = SQLITE_OK \<longrightarrow> rc_or rc rc1 = SQLITE_OK \<and>
         (\<forall>j < sz. bv_mem p' j \<longleftrightarrow> Suc j \<in> set vs \<or> bv_mem p1 j)"
      using Cons.IH [OF p1, of "rc_or rc rc1" w1] Cons.prems(4) by auto
    then show ?thesis
      using Suc s Cons.prems(3) by (auto simp: rc_or_def set_post_def split: if_splits)
  qed
qed simp

lemma probe_home:
  "length a = 124 \<Longrightarrow> h < 124 \<Longrightarrow> a ! h = 0 \<Longrightarrow> bitvecProbe 124 a h v = Some (False, h)"
  using bitvecProbe.simps(2) [of 123 a h v] by (simp add: rd_def)

lemma set_Hash:
  assumes ok: "bv_ok (Hash sz n a)" "i < sz"
    and rec: "\<And>w p i. bv_ok p \<Longrightarrow> is_Sub p \<Longrightarrow> iSize p = sz \<Longrightarrow> i < sz \<Longrightarrow>
        \<exists>r. bitvecSet l w p i = Some r \<and> set_post p i r"
  shows "\<exists>r. bitvecSet (Suc l) w (Hash sz n a) i = Some r \<and> set_post (Hash sz n a) i r"
proof -
  have a: "chain a" "cnt a < 124" "n = cnt a" "length a = 124" "\<forall>v \<in> set a. v \<le> sz" "3968 < sz"
    "sz < 2 ^ 32"
    using ok by (auto simp: chain_def)
  let ?h = "BITVEC_HASH i"
  obtain k where k: "k < 124" "bitvecProbe 124 a ?h (i + 1) = Some (i + 1 \<in> set a, k)"
    "i + 1 \<notin> set a \<Longrightarrow> a ! k = 0"
    "i + 1 \<notin> set a \<Longrightarrow> \<forall>j < dist ?h k. a ! slot ?h j \<noteq> 0"
    using probe_mem [OF a(1,2), of "i + 1"] by auto
  have set_end: "set_post (Hash sz n a) i (SQLITE_OK, Hash sz (n + 1) (a[k := i + 1]), w)"
    if "i + 1 \<notin> set a" "n < 123"
  proof -
    have "chain (a[k := i + 1])" "cnt (a[k := i + 1]) = Suc (cnt a)" "nz (a[k := i + 1]) = insert (i + 1) (nz a)"
      using chain_update [OF a(1) k(1), of "i + 1"] cnt_update [of k a "i + 1"] nz_update [of k a "i + 1"]
        that k a by auto
    moreover have "\<forall>v \<in> set (a[k := i + 1]). v \<le> sz"
      using a(5) ok(2) by (auto dest!: set_update_subset_insert [THEN subsetD])
    ultimately show ?thesis
      using that a by (auto simp: set_post_def mem_Hash nz_def)
  qed
  have set_rehash: "\<exists>r. (case bitvecSet l w1 (Sub sz n ((sz + 61) div 62) (replicate 62 None)) i of
        None \<Rightarrow> None | Some (rc, q, w) \<Rightarrow> bitvecRehash (bitvecSet l) rc w q a) = Some r
      \<and> set_post (Hash sz n a) i r" for w1
  proof -
    let ?q = "Sub sz n ((sz + 61) div 62) (replicate 62 None)"
    have q: "bv_ok ?q" "is_Sub ?q" "iSize ?q = sz" using a(6,7) by (simp_all add: bv_ok.simps(3) list_all_iff)
    have empty: "\<not> bv_mem ?q j" if "j < sz" for j
      using mem_Sub [OF q(1) that] sub_ok(1) [OF q(1) that] by simp
    obtain rc q1 w2 where s: "bitvecSet l w1 ?q i = Some (rc, q1, w2)" "set_post ?q i (rc, q1, w2)"
      using rec [OF q ok(2)] by (metis prod_cases3)
    then have q1: "bv_ok q1" "is_Sub q1" "iSize q1 = sz" by (simp_all add: set_post_def)
    obtain rc' q' w' where "bitvecRehash (bitvecSet l) rc w2 q1 a = Some (rc', q', w')"
      "bv_ok q'" "iSize q' = sz" "rc' = SQLITE_OK \<longrightarrow> rc = SQLITE_OK \<and>
        (\<forall>j < sz. bv_mem q' j \<longleftrightarrow> Suc j \<in> set a \<or> bv_mem q1 j)"
      using rehash_ok [where setf = "bitvecSet l" and rc = rc and w = w2, OF rec q1 a(5)] by blast
    then show ?thesis using s a empty by (auto simp: set_post_def mem_Hash)
  qed
  show ?thesis
  proof (cases "i + 1 \<in> set a")
    case True
    have "a ! ?h \<noteq> 0"
    proof
      assume "a ! ?h = 0"
      then have "bitvecProbe 124 a ?h (i + 1) = Some (False, ?h)"
        using a(4) by (simp add: probe_home)
      with k True show False by simp
    qed
    with True k a show ?thesis
      by (auto simp: rd_def Let_def set_post_def mem_Hash)
  next
    case False
    define R where "R = (case alloc w of
        (False, w) \<Rightarrow> Some (SQLITE_NOMEM, Hash sz n a, w)
      | (True, w) \<Rightarrow>
          (let q = Sub sz n ((sz + BITVEC_NPTR - 1) div BITVEC_NPTR) (replicate BITVEC_NPTR None)
           in case bitvecSet l w q i of
                None \<Rightarrow> None
              | Some (rc, q, w) \<Rightarrow> bitvecRehash (bitvecSet l) rc w q a))"
    have R: "\<exists>r. R = Some r \<and> set_post (Hash sz n a) i r"
      unfolding R_def using set_rehash ok a(7)
      by (auto simp: set_post_def Let_def add.commute [of 61] split: prod.split bool.split)
    have home: "a ! ?h = 0 \<Longrightarrow> k = ?h"
      using k(2) a(4) False by (simp add: probe_home)
    have "bitvecSet (Suc l) w (Hash sz n a) i =
      (if a ! ?h = 0 \<and> n < 123 \<or> n < 62 then Some (SQLITE_OK, Hash sz (n + 1) (a[k := i + 1]), w)
       else R)"
      using k False a(4) home by (auto simp: rd_def Let_def R_def)
    with R set_end [OF False] show ?thesis by (cases "a ! ?h = 0 \<and> n < 123 \<or> n < 62") auto
  qed
qed

lemma set_ok:
  assumes "bv_ok p" "i < iSize p" "enough level p"
  shows "\<exists>r. bitvecSet level w p i = Some r \<and> set_post p i r"
  using assms
proof (induction level arbitrary: w p i)
  case 0
  then show ?case
    by (cases p) (auto simp: enough_def bv_ok.simps(3))
next
  case (Suc level)
  show ?case
  proof (cases p)
    case (Bitmap sz bm)
    with Suc.prems show ?thesis using set_Bitmap by simp
  next
    case (Hash sz n a)
    have "enough level q" if "is_Sub q" "iSize q = sz" for q
      using that Suc.prems(3) Hash by (cases q) (auto simp: enough_def)
    with Suc.IH set_Hash [of sz n a i level w] Suc.prems Hash show ?thesis by auto
  next
    case (Sub sz n d subs)
    have d: "d = (sz + 61) div 62" "3968 < sz" using Suc.prems(1) Sub by (simp_all add: bv_ok.simps(3))
    obtain k where k: "sz \<le> 3968 * 62 ^ k" "2 * k \<le> Suc level"
      using Suc.prems(3) Sub by (auto simp: enough_def)
    then obtain m where m: "k = Suc m" using d by (cases k) auto
    have "enough level q" if "iSize q = d" for q
      unfolding enough_def using that k m d by (intro exI [of _ m]) (auto split: bitvec.split)
    with Suc.IH set_Sub [of sz n d subs i level w] sub_ok(2) [of sz n d subs i] Suc.prems Sub
    show ?thesis by auto
  qed
qed

section \<open>Clear is correct\<close>

lemma clear_ok:
  "bv_ok p \<Longrightarrow> i < iSize p \<Longrightarrow>
   \<exists>p'. bitvecClear p i = Some p' \<and> bv_ok p' \<and> iSize p' = iSize p \<and>
     (\<forall>j < iSize p. bv_mem p' j \<longleftrightarrow> j \<noteq> i \<and> bv_mem p j)"
proof (induction p i rule: bitvecClear.induct)
  case (1 sz n d subs i)
  then have i: "i < sz" by simp
  note bin = sub_ok [OF "1.prems"(1) i]
  have len: "length subs = 62" using "1.prems" by (simp add: bv_ok.simps(3))
  have eq: "j = i \<longleftrightarrow> j div d = i div d \<and> j mod d = i mod d" for j
    by (metis div_mult_mod_eq)
  show ?case
  proof (cases "subs ! (i div d)")
    case None
    then have "\<not> bv_mem (Sub sz n d subs) i" using mem_Sub [OF "1.prems"(1) i] by simp
    with None bin "1.prems" show ?thesis by auto
  next
    case (Some q)
    then have q: "bv_ok q" "iSize q = d" using bin by auto
    with "1.IH" [OF bin(3) Some] Some bin obtain q' where q': "bitvecClear q (i mod d) = Some q'"
      "bv_ok q'" "iSize q' = d" "\<forall>j < d. bv_mem q' j \<longleftrightarrow> j \<noteq> i mod d \<and> bv_mem q j" by auto
    let ?s = "Sub sz n d (subs[i div d := Some q'])"
    have ok': "bv_ok ?s" using bv_ok_update [OF "1.prems"(1) q'(2,3)] .
    have "bv_mem ?s j \<longleftrightarrow> j \<noteq> i \<and> bv_mem (Sub sz n d subs) j" if "j < sz" for j
      using mem_Sub [OF ok' that] mem_Sub [OF "1.prems"(1) that] sub_ok(2) [OF ok' that] bin(1) len q'(4)
        Some eq [of j]
      by (cases "j div d = i div d") auto
    with ok' q' Some bin show ?thesis by simp
  qed
next
  case (2 sz bm i)
  have i: "i div 8 < 496" "i < 3968" using 2 by (simp_all add: div_less_iff_less_mult)
  have eq: "j = i \<longleftrightarrow> j div 8 = i div 8 \<and> j mod 8 = i mod 8" for j
    by (metis div_mult_mod_eq)
  show ?case
    using 2 i
    by (auto simp: rd_def mem_Bitmap nth_list_update bit_simps eq div_less_iff_less_mult)
next
  case (3 sz n a i)
  have e: "chain (replicate 124 0)" "cnt (replicate 124 0) = 0" "nz (replicate 124 0) = {}"
    by (simp_all add: chain_def cnt_def nz_def)
  obtain a' where a': "bitvecRefill i 0 (replicate 124 0) a = Some (cnt a', a')" "chain a'"
    "cnt a' \<le> cnt a" "nz a' = nz a - {i + 1}"
    using refill [OF e(1), of a 0 i] 3 e by auto
  have "v \<le> sz" if "v \<in> set a'" for v
    using that a'(4) 3 by (cases "v = 0") (auto simp: nz_def)
  moreover have "Suc j \<in> set a' \<longleftrightarrow> j \<noteq> i \<and> Suc j \<in> set a" for j
    using a'(4) by (auto simp: nz_def)
  ultimately show ?case using a' 3 by (auto simp: mem_Hash)
qed

section \<open>The interface of a bounded index set\<close>

text \<open>What the pager relies on: a set of the numbers \<open>1..bound\<close> whose insertions may
  report that memory ran out, but which stays usable.\<close>

datatype ix_op = IxSet u32 | IxClear u32 | IxTest u32

fun ix_arg :: "ix_op \<Rightarrow> u32" where
  "ix_arg (IxSet i) = i"
| "ix_arg (IxClear i) = i"
| "ix_arg (IxTest i) = i"

text \<open>A run of operations: whether every insertion returned \<^verbatim>\<open>SQLITE_OK\<close>, and the answers
  of the tests.\<close>

fun ix_run ::
  "('s \<Rightarrow> u32 \<Rightarrow> bool option) \<Rightarrow> (oom \<Rightarrow> 's \<Rightarrow> u32 \<Rightarrow> (result_code \<times> 's \<times> oom) option) \<Rightarrow>
   ('s \<Rightarrow> u32 \<Rightarrow> 's option) \<Rightarrow> oom \<Rightarrow> 's \<Rightarrow> ix_op list \<Rightarrow> (bool \<times> bool list) option" where
  "ix_run test ins del w s [] = Some (True, [])"
| "ix_run test ins del w s (IxSet i # ops) =
     (case ins w s i of
        None \<Rightarrow> None
      | Some (rc, s, w) \<Rightarrow>
          map_option (\<lambda>(b, bs). (rc = SQLITE_OK \<and> b, bs)) (ix_run test ins del w s ops))"
| "ix_run test ins del w s (IxClear i # ops) =
     (case del s i of None \<Rightarrow> None | Some s \<Rightarrow> ix_run test ins del w s ops)"
| "ix_run test ins del w s (IxTest i # ops) =
     (case test s i of
        None \<Rightarrow> None
      | Some b \<Rightarrow> map_option (\<lambda>(b', bs). (b', b # bs)) (ix_run test ins del w s ops))"

fun ix_spec :: "u32 set \<Rightarrow> ix_op list \<Rightarrow> bool list" where
  "ix_spec S [] = []"
| "ix_spec S (IxSet i # ops) = ix_spec (insert i S) ops"
| "ix_spec S (IxClear i # ops) = ix_spec (S - {i}) ops"
| "ix_spec S (IxTest i # ops) = (i \<in> S) # ix_spec S ops"

locale index_set =
  fixes ok :: "'s \<Rightarrow> bool" and bound :: "'s \<Rightarrow> nat"
    and test :: "'s \<Rightarrow> u32 \<Rightarrow> bool option"
    and ins :: "oom \<Rightarrow> 's \<Rightarrow> u32 \<Rightarrow> (result_code \<times> 's \<times> oom) option"
    and del :: "'s \<Rightarrow> u32 \<Rightarrow> 's option"
  assumes test_total: "ok s \<Longrightarrow> test s i \<noteq> None"
    and ins_law: "ok s \<Longrightarrow> 1 \<le> unat i \<Longrightarrow> unat i \<le> bound s \<Longrightarrow>
      \<exists>rc s' w'. ins w s i = Some (rc, s', w') \<and> ok s' \<and> bound s' = bound s \<and>
        (rc = SQLITE_OK \<longrightarrow> (\<forall>j. test s' j = (if j = i then Some True else test s j)))"
    and del_law: "ok s \<Longrightarrow> 1 \<le> unat i \<Longrightarrow> unat i \<le> bound s \<Longrightarrow>
      \<exists>s'. del s i = Some s' \<and> ok s' \<and> bound s' = bound s \<and>
        (\<forall>j. test s' j = (if j = i then Some False else test s j))"
begin

lemma run_refines:
  assumes "ok s" "\<forall>op \<in> set ops. 1 \<le> unat (ix_arg op) \<and> unat (ix_arg op) \<le> bound s"
  shows "\<exists>b bs. ix_run test ins del w s ops = Some (b, bs) \<and>
    (b \<longrightarrow> bs = ix_spec {i. test s i = Some True} ops)"
  using assms
proof (induction ops arbitrary: s w)
  case (Cons op ops)
  show ?case
  proof (cases op)
    case (IxSet i)
    obtain rc s' w' where s': "ins w s i = Some (rc, s', w')" "ok s'" "bound s' = bound s"
      "rc = SQLITE_OK \<longrightarrow> (\<forall>j. test s' j = (if j = i then Some True else test s j))"
      using ins_law [of s i w] Cons.prems IxSet by auto
    obtain b bs where run: "ix_run test ins del w' s' ops = Some (b, bs)"
      "b \<longrightarrow> bs = ix_spec {i. test s' i = Some True} ops"
      using Cons.IH [of s' w'] Cons.prems s' by auto
    have "{j. (if j = i then Some True else test s j) = Some True} = insert i {i. test s i = Some True}"
      by auto
    with run s' IxSet show ?thesis by auto
  next
    case (IxClear i)
    obtain s' where s': "del s i = Some s'" "ok s'" "bound s' = bound s"
      "\<forall>j. test s' j = (if j = i then Some False else test s j)"
      using del_law [of s i] Cons.prems IxClear by auto
    have "{i. test s' i = Some True} = {i. test s i = Some True} - {i}" using s'(4) by auto
    with Cons.IH [of s' w] Cons.prems s' IxClear show ?thesis by auto
  next
    case (IxTest i)
    obtain b where b: "test s i = Some b" using test_total [of s i] Cons.prems by auto
    obtain b' bs where "ix_run test ins del w s ops = Some (b', bs)"
      "b' \<longrightarrow> bs = ix_spec {i. test s i = Some True} ops"
      using Cons.IH [of s w] Cons.prems by auto
    with b IxTest show ?thesis by auto
  qed
qed (auto intro: exI [of _ True])

end

text \<open>The operations on a bitmap that exists.\<close>

definition bvOk :: "bitvec option \<Rightarrow> bool" where
  "bvOk p = (case p of None \<Rightarrow> False | Some p \<Rightarrow> bv_ok p \<and> iSize p < 2 ^ 32)"

definition bvBound :: "bitvec option \<Rightarrow> nat" where
  "bvBound p = (case p of None \<Rightarrow> 0 | Some p \<Rightarrow> iSize p)"

lemma unat_minus_1: "1 \<le> unat (i :: u32) \<Longrightarrow> unat (i - 1) = unat i - 1"
  by (metis One_nat_def Suc_le_eq unat_minus_one unat_gt_0)

lemma unat_0_minus_1: "unat (- 1 :: u32) = 2 ^ 32 - 1"
  by (simp add: unsigned_minus_1_eq_mask mask_eq_exp_minus_1)

lemma enough_9: "iSize p < 2 ^ 32 \<Longrightarrow> enough 9 p"
  unfolding enough_def by (intro exI [of _ 4]) (auto split: bitvec.split)

text \<open>A test reads membership for every index in range and answers false outside.\<close>

lemma test_public:
  assumes "bv_ok p" "iSize p < 2 ^ 32"
  shows "sqlite3BitvecTest (Some p) j =
    Some (1 \<le> unat j \<and> unat j \<le> iSize p \<and> bv_mem p (unat j - 1))"
proof (cases "j = 0")
  case True
  with assms show ?thesis by (simp add: sqlite3BitvecTest_def sqlite3BitvecTestNotNull_def unat_0_minus_1 Let_def)
next
  case False
  then have "1 \<le> unat j" by (simp add: Suc_le_eq unat_gt_0)
  moreover from this have "unat j - 1 \<ge> iSize p \<longleftrightarrow> \<not> unat j \<le> iSize p" by linarith
  ultimately show ?thesis
    using test_total [OF assms(1), of "unat j - 1"]
    by (auto simp: sqlite3BitvecTest_def sqlite3BitvecTestNotNull_def unat_minus_1 bv_mem_def Let_def)
qed

lemma set_public:
  assumes "bv_ok p" "iSize p < 2 ^ 32" "1 \<le> unat i" "unat i \<le> iSize p"
  shows "\<exists>rc p' w'. sqlite3BitvecSet w (Some p) i = Some (rc, Some p', w') \<and> bv_ok p' \<and>
    iSize p' = iSize p \<and> (rc = SQLITE_OK \<longrightarrow>
      (\<forall>j. sqlite3BitvecTest (Some p') j = (if j = i then Some True else sqlite3BitvecTest (Some p) j)))"
proof -
  have i: "unat i - 1 < iSize p" using assms by linarith
  obtain rc p' w' where r: "bitvecSet 9 w p (unat i - 1) = Some (rc, p', w')"
    "set_post p (unat i - 1) (rc, p', w')"
    using set_ok [OF assms(1) i enough_9 [OF assms(2)], of w] by auto
  have "unat j - 1 = unat i - 1 \<longleftrightarrow> j = i" if "1 \<le> unat j" for j
    using that assms(3) by (auto simp: word_unat_eq_iff)
  with r assms show ?thesis
    by (auto simp: sqlite3BitvecSet_def set_post_def test_public unat_minus_1)
qed

lemma clear_public:
  assumes "bv_ok p" "iSize p < 2 ^ 32" "1 \<le> unat i" "unat i \<le> iSize p"
  shows "\<exists>p'. sqlite3BitvecClear (Some p) i = Some (Some p') \<and> bv_ok p' \<and> iSize p' = iSize p \<and>
    (\<forall>j. sqlite3BitvecTest (Some p') j = (if j = i then Some False else sqlite3BitvecTest (Some p) j))"
proof -
  have i: "unat i - 1 < iSize p" using assms by linarith
  obtain p' where r: "bitvecClear p (unat i - 1) = Some p'" "bv_ok p'" "iSize p' = iSize p"
     "\<forall>j < iSize p. bv_mem p' j \<longleftrightarrow> j \<noteq> unat i - 1 \<and> bv_mem p j"
    using clear_ok [OF assms(1) i] by auto
  have "unat j - 1 = unat i - 1 \<longleftrightarrow> j = i" if "1 \<le> unat j" for j
    using that assms(3) by (auto simp: word_unat_eq_iff)
  with r assms show ?thesis
    by (auto simp: sqlite3BitvecClear_def test_public unat_minus_1)
qed

interpretation bv: index_set bvOk bvBound sqlite3BitvecTest sqlite3BitvecSet sqlite3BitvecClear
proof unfold_locales
  fix s and i :: u32 assume "bvOk s"
  then show "sqlite3BitvecTest s i \<noteq> None"
    by (auto simp: bvOk_def test_public split: option.splits)
next
  fix s w and i :: u32 assume "bvOk s" "1 \<le> unat i" "unat i \<le> bvBound s"
  then show "\<exists>rc s' w'. sqlite3BitvecSet w s i = Some (rc, s', w') \<and> bvOk s' \<and> bvBound s' = bvBound s \<and>
        (rc = SQLITE_OK \<longrightarrow>
          (\<forall>j. sqlite3BitvecTest s' j = (if j = i then Some True else sqlite3BitvecTest s j)))"
    by (cases s) (use set_public [of "the s" i w] in \<open>auto simp: bvOk_def bvBound_def\<close>)
next
  fix s and i :: u32 assume "bvOk s" "1 \<le> unat i" "unat i \<le> bvBound s"
  then show "\<exists>s'. sqlite3BitvecClear s i = Some s' \<and> bvOk s' \<and> bvBound s' = bvBound s \<and>
        (\<forall>j. sqlite3BitvecTest s' j = (if j = i then Some False else sqlite3BitvecTest s j))"
    by (cases s) (use clear_public [of "the s" i] in \<open>auto simp: bvOk_def bvBound_def\<close>)
qed

section \<open>Properties\<close>

text \<open>C1: Refinement. A bitmap created of any \<^verbatim>\<open>u32\<close> size behaves, in any sequence
  of set, clear and test operations on indices in range, as a set of numbers that starts
  empty: whatever representation each part has come to, every operation returns, no
  array access leaves its array, and unless some set operation reported
  \<^verbatim>\<open>SQLITE_NOMEM\<close> all answers are those of the set.\<close>

theorem bitvec_refines_set:
  assumes "sqlite3BitvecCreate w sz = (Some p, w')" and "sz < 2 ^ 32"
    and "\<forall>op \<in> set ops. 1 \<le> unat (ix_arg op) \<and> unat (ix_arg op) \<le> sz"
  shows "\<exists>b bs. ix_run sqlite3BitvecTest sqlite3BitvecSet sqlite3BitvecClear w' (Some p) ops = Some (b, bs)
    \<and> (b \<longrightarrow> bs = ix_spec {} ops)"
proof -
  note c = create_ok [OF assms(1,2)]
  have "{i. sqlite3BitvecTest (Some p) i = Some True} = {}"
    using c assms(2) by (auto simp: test_public)
  with bv.run_refines [of "Some p" ops w'] c assms show ?thesis
    by (simp add: bvOk_def bvBound_def)
qed

theorem bitvec_refines_set_witness:
  "ix_run sqlite3BitvecTest sqlite3BitvecSet sqlite3BitvecClear []
     (Some (the (fst (sqlite3BitvecCreate [] 10)))) [IxSet 3, IxTest 3, IxClear 3, IxTest 3] = Some (True, [True, False])"
proof -
  let ?p = "the (fst (sqlite3BitvecCreate [] 10))"
  let ?ops = "[IxSet 3, IxTest 3, IxClear 3, IxTest 3]"
  have c: "sqlite3BitvecCreate [] 10 = (Some ?p, [])" by (simp add: sqlite3BitvecCreate_def)
  obtain b bs where r: "ix_run sqlite3BitvecTest sqlite3BitvecSet sqlite3BitvecClear [] (Some ?p) ?ops = Some (b, bs)"
    "b \<longrightarrow> bs = ix_spec {} ?ops"
    using bitvec_refines_set [OF c, of ?ops] by auto
  moreover have b
    using r(1) bitvecSet.simps(2) [of 8]
    by (auto simp: sqlite3BitvecCreate_def sqlite3BitvecSet_def rd_def split: option.splits)
  ultimately show ?thesis by simp
qed

end
