(* ===== verification/Strings.thy ===== *)
theory Strings
  imports Prelude
begin

text \<open>
  Bytes and C strings: the character tables of \<^verbatim>\<open>global.c\<close>, the comparison, dequoting and
  hexadecimal routines of \<^verbatim>\<open>util.c\<close>, and the SQL functions \<^verbatim>\<open>hex()\<close> and \<^verbatim>\<open>quote()\<close> of
  \<^verbatim>\<open>func.c\<close> on text and blobs, which are their inverses.

  A \<^verbatim>\<open>char*\<close> is the list of bytes from the pointer to the end of its object; a string in it
  ends at the first zero byte. Reads and writes outside the object are \<open>None\<close>.
\<close>

section \<open>Character tables\<close>

definition upperToLower :: "u8 list" where
  "upperToLower =
    [  0,   1,   2,   3,   4,   5,   6,   7,   8,   9,  10,  11,  12,  13,  14,  15,
      16,  17,  18,  19,  20,  21,  22,  23,  24,  25,  26,  27,  28,  29,  30,  31,
      32,  33,  34,  35,  36,  37,  38,  39,  40,  41,  42,  43,  44,  45,  46,  47,
      48,  49,  50,  51,  52,  53,  54,  55,  56,  57,  58,  59,  60,  61,  62,  63,
      64,  97,  98,  99, 100, 101, 102, 103, 104, 105, 106, 107, 108, 109, 110, 111,
     112, 113, 114, 115, 116, 117, 118, 119, 120, 121, 122,  91,  92,  93,  94,  95,
      96,  97,  98,  99, 100, 101, 102, 103, 104, 105, 106, 107, 108, 109, 110, 111,
     112, 113, 114, 115, 116, 117, 118, 119, 120, 121, 122, 123, 124, 125, 126, 127,
     128, 129, 130, 131, 132, 133, 134, 135, 136, 137, 138, 139, 140, 141, 142, 143,
     144, 145, 146, 147, 148, 149, 150, 151, 152, 153, 154, 155, 156, 157, 158, 159,
     160, 161, 162, 163, 164, 165, 166, 167, 168, 169, 170, 171, 172, 173, 174, 175,
     176, 177, 178, 179, 180, 181, 182, 183, 184, 185, 186, 187, 188, 189, 190, 191,
     192, 193, 194, 195, 196, 197, 198, 199, 200, 201, 202, 203, 204, 205, 206, 207,
     208, 209, 210, 211, 212, 213, 214, 215, 216, 217, 218, 219, 220, 221, 222, 223,
     224, 225, 226, 227, 228, 229, 230, 231, 232, 233, 234, 235, 236, 237, 238, 239,
     240, 241, 242, 243, 244, 245, 246, 247, 248, 249, 250, 251, 252, 253, 254, 255]"

definition sqlite3CtypeMap :: "u8 list" where
  "sqlite3CtypeMap =
    [0x00, 0x00, 0x00, 0x00, 0x00, 0x00, 0x00, 0x00,
     0x00, 0x01, 0x01, 0x01, 0x01, 0x01, 0x00, 0x00,
     0x00, 0x00, 0x00, 0x00, 0x00, 0x00, 0x00, 0x00,
     0x00, 0x00, 0x00, 0x00, 0x00, 0x00, 0x00, 0x00,
     0x01, 0x00, 0x80, 0x00, 0x40, 0x00, 0x00, 0x80,
     0x00, 0x00, 0x00, 0x00, 0x00, 0x00, 0x00, 0x00,
     0x0c, 0x0c, 0x0c, 0x0c, 0x0c, 0x0c, 0x0c, 0x0c,
     0x0c, 0x0c, 0x00, 0x00, 0x00, 0x00, 0x00, 0x00,
     0x00, 0x0a, 0x0a, 0x0a, 0x0a, 0x0a, 0x0a, 0x02,
     0x02, 0x02, 0x02, 0x02, 0x02, 0x02, 0x02, 0x02,
     0x02, 0x02, 0x02, 0x02, 0x02, 0x02, 0x02, 0x02,
     0x02, 0x02, 0x02, 0x80, 0x00, 0x00, 0x00, 0x40,
     0x80, 0x2a, 0x2a, 0x2a, 0x2a, 0x2a, 0x2a, 0x22,
     0x22, 0x22, 0x22, 0x22, 0x22, 0x22, 0x22, 0x22,
     0x22, 0x22, 0x22, 0x22, 0x22, 0x22, 0x22, 0x22,
     0x22, 0x22, 0x22, 0x00, 0x00, 0x00, 0x00, 0x00,
     0x40, 0x40, 0x40, 0x40, 0x40, 0x40, 0x40, 0x40,
     0x40, 0x40, 0x40, 0x40, 0x40, 0x40, 0x40, 0x40,
     0x40, 0x40, 0x40, 0x40, 0x40, 0x40, 0x40, 0x40,
     0x40, 0x40, 0x40, 0x40, 0x40, 0x40, 0x40, 0x40,
     0x40, 0x40, 0x40, 0x40, 0x40, 0x40, 0x40, 0x40,
     0x40, 0x40, 0x40, 0x40, 0x40, 0x40, 0x40, 0x40,
     0x40, 0x40, 0x40, 0x40, 0x40, 0x40, 0x40, 0x40,
     0x40, 0x40, 0x40, 0x40, 0x40, 0x40, 0x40, 0x40,
     0x40, 0x40, 0x40, 0x40, 0x40, 0x40, 0x40, 0x40,
     0x40, 0x40, 0x40, 0x40, 0x40, 0x40, 0x40, 0x40,
     0x40, 0x40, 0x40, 0x40, 0x40, 0x40, 0x40, 0x40,
     0x40, 0x40, 0x40, 0x40, 0x40, 0x40, 0x40, 0x40,
     0x40, 0x40, 0x40, 0x40, 0x40, 0x40, 0x40, 0x40,
     0x40, 0x40, 0x40, 0x40, 0x40, 0x40, 0x40, 0x40,
     0x40, 0x40, 0x40, 0x40, 0x40, 0x40, 0x40, 0x40,
     0x40, 0x40, 0x40, 0x40, 0x40, 0x40, 0x40, 0x40]"

text \<open>\<^verbatim>\<open>sqlite3UpperToLower[c]\<close> and the \<^verbatim>\<open>sqlite3Is...\<close> macros\<close>

definition sqlite3UpperToLower :: "u8 \<Rightarrow> u8" where
  "sqlite3UpperToLower c = upperToLower ! unat c"

definition sqlite3Toupper :: "u8 \<Rightarrow> u8" where
  "sqlite3Toupper c = c AND NOT (sqlite3CtypeMap ! unat c AND 0x20)"

definition sqlite3Isspace :: "u8 \<Rightarrow> bool" where
  "sqlite3Isspace c \<longleftrightarrow> sqlite3CtypeMap ! unat c AND 0x01 \<noteq> 0"
definition sqlite3Isalnum :: "u8 \<Rightarrow> bool" where
  "sqlite3Isalnum c \<longleftrightarrow> sqlite3CtypeMap ! unat c AND 0x06 \<noteq> 0"
definition sqlite3Isalpha :: "u8 \<Rightarrow> bool" where
  "sqlite3Isalpha c \<longleftrightarrow> sqlite3CtypeMap ! unat c AND 0x02 \<noteq> 0"
definition sqlite3Isdigit :: "u8 \<Rightarrow> bool" where
  "sqlite3Isdigit c \<longleftrightarrow> sqlite3CtypeMap ! unat c AND 0x04 \<noteq> 0"
definition sqlite3Isxdigit :: "u8 \<Rightarrow> bool" where
  "sqlite3Isxdigit c \<longleftrightarrow> sqlite3CtypeMap ! unat c AND 0x08 \<noteq> 0"
definition sqlite3Isquote :: "u8 \<Rightarrow> bool" where
  "sqlite3Isquote c \<longleftrightarrow> sqlite3CtypeMap ! unat c AND 0x80 \<noteq> 0"
definition IdChar :: "u8 \<Rightarrow> bool" where
  "IdChar c \<longleftrightarrow> sqlite3CtypeMap ! unat c AND 0x46 \<noteq> 0"

text \<open>What the tables say, checked entry by entry.\<close>

definition all_u8 :: "u8 list" where "all_u8 = map of_nat [0..<256]"

lemma all_u8: "c \<in> set all_u8"
proof -
  have "c = of_nat (unat c)" by simp
  moreover have "unat c \<in> set [0..<256]" by simp
  ultimately show ?thesis unfolding all_u8_def by (metis image_eqI list.set_map)
qed

lemma u8_allI: "list_all P all_u8 \<Longrightarrow> P c"
  using all_u8 [of c] by (simp add: list_all_iff)

lemma upperToLower_iff: "sqlite3UpperToLower c = (if 65 \<le> c \<and> c \<le> 90 then c + 32 else c)"
  by (rule u8_allI [of _ c]) code_simp

lemma isspace_iff: "sqlite3Isspace c \<longleftrightarrow> c = 32 \<or> 9 \<le> c \<and> c \<le> 13"
  by (rule u8_allI [of _ c]) code_simp

lemma isdigit_iff: "sqlite3Isdigit c \<longleftrightarrow> 48 \<le> c \<and> c \<le> 57"
  by (rule u8_allI [of _ c]) code_simp

lemma isquote_iff: "sqlite3Isquote c \<longleftrightarrow> c \<in> {34, 39, 91, 96}"
  by (rule u8_allI [of _ c]) code_simp

section \<open>Comparison\<close>

definition strcmpDiff :: "u8 \<Rightarrow> u8 \<Rightarrow> int" where
  "strcmpDiff c x = uint (sqlite3UpperToLower c) - uint (sqlite3UpperToLower x)"

fun sqlite3StrICmp :: "u8 list \<Rightarrow> u8 list \<Rightarrow> int option" where
  "sqlite3StrICmp (c # a) (x # b) =
     (if c = x then (if c = 0 then Some 0 else sqlite3StrICmp a b)
      else if strcmpDiff c x \<noteq> 0 then Some (strcmpDiff c x)
      else sqlite3StrICmp a b)"
| "sqlite3StrICmp _ _ = None"

text \<open>\<open>None\<close> as an argument is the null pointer.\<close>

definition sqlite3_stricmp :: "u8 list option \<Rightarrow> u8 list option \<Rightarrow> int option" where
  "sqlite3_stricmp zLeft zRight =
     (case zLeft of
        None \<Rightarrow> Some (if zRight \<noteq> None then - 1 else 0)
      | Some a \<Rightarrow> (case zRight of None \<Rightarrow> Some 1 | Some b \<Rightarrow> sqlite3StrICmp a b))"

text \<open>The loop of \<^verbatim>\<open>sqlite3_strnicmp\<close>: it returns zero when \<open>N\<close> is used up.\<close>

fun strnicmpLoop :: "u8 list \<Rightarrow> u8 list \<Rightarrow> nat \<Rightarrow> int option" where
  "strnicmpLoop a b 0 = Some 0"
| "strnicmpLoop (c # a) (x # b) (Suc N) =
     (if c \<noteq> 0 \<and> sqlite3UpperToLower c = sqlite3UpperToLower x then strnicmpLoop a b N
      else Some (strcmpDiff c x))"
| "strnicmpLoop _ _ (Suc N) = None"

definition sqlite3_strnicmp :: "u8 list option \<Rightarrow> u8 list option \<Rightarrow> int \<Rightarrow> int option" where
  "sqlite3_strnicmp zLeft zRight N =
     (case zLeft of
        None \<Rightarrow> Some (if zRight \<noteq> None then - 1 else 0)
      | Some a \<Rightarrow> (case zRight of None \<Rightarrow> Some 1 | Some b \<Rightarrow> strnicmpLoop a b (nat N)))"

section \<open>Dequoting in place\<close>

function dequoteLoop :: "u8 list \<Rightarrow> u8 \<Rightarrow> nat \<Rightarrow> nat \<Rightarrow> u8 list option" where
  "dequoteLoop z quote i j =
     (case rd z i of
        None \<Rightarrow> None
      | Some c \<Rightarrow>
          if c = quote then
            (case rd z (i + 1) of
               None \<Rightarrow> None
             | Some d \<Rightarrow>
                 if d = quote then dequoteLoop (z[j := quote]) quote (i + 2) (j + 1)
                 else Some (z[j := 0]))
          else dequoteLoop (z[j := c]) quote (i + 1) (j + 1))"
  by pat_completeness auto
termination
  by (relation "measure (\<lambda>(z, quote, i, j). length z - i)") (auto simp: rd_def split: if_splits)

declare dequoteLoop.simps [simp del]

text \<open>The null pointer, with which the function does nothing, is not an argument here.\<close>

definition sqlite3Dequote :: "u8 list \<Rightarrow> u8 list option" where
  "sqlite3Dequote z =
     (case rd z 0 of
        None \<Rightarrow> None
      | Some quote \<Rightarrow>
          if \<not> sqlite3Isquote quote then Some z
          else dequoteLoop z (if quote = 91 then 93 else quote) 1 0)"

section \<open>Hexadecimal\<close>

definition sqlite3HexToInt :: "u8 \<Rightarrow> u8" where
  "sqlite3HexToInt h = ucast ((ucast h + 9 * (1 AND drop_bit 6 (ucast h)) :: u32) AND 0xf)"

text \<open>The loop of \<^verbatim>\<open>sqlite3HexToBlob\<close>; \<open>n\<close> is the value after \<^verbatim>\<open>n--\<close>. It returns the
  buffer and the final \<open>i\<close>.\<close>

function hexToBlobLoop :: "u8 list \<Rightarrow> int \<Rightarrow> nat \<Rightarrow> u8 list \<Rightarrow> (u8 list \<times> nat) option" where
  "hexToBlobLoop z n i zBlob =
     (if int i < n then
        (case rd z i of None \<Rightarrow> None | Some c \<Rightarrow>
        (case rd z (i + 1) of None \<Rightarrow> None | Some d \<Rightarrow>
        (case wr zBlob (i div 2) (push_bit 4 (sqlite3HexToInt c) OR sqlite3HexToInt d) of
           None \<Rightarrow> None
         | Some zBlob \<Rightarrow> hexToBlobLoop z n (i + 2) zBlob)))
      else Some (zBlob, i))"
  by pat_completeness auto
termination
  by (relation "measure (\<lambda>(z, n, i, zBlob). nat (n - int i))") auto

declare hexToBlobLoop.simps [simp del]

text \<open>\<open>Some None\<close> is the null pointer of a failed allocation.\<close>

definition sqlite3HexToBlob :: "oom \<Rightarrow> u8 list \<Rightarrow> nat \<Rightarrow> u8 list option option \<times> oom" where
  "sqlite3HexToBlob w z n =
     (case alloc w of
        (False, w) \<Rightarrow> (Some None, w)
      | (True, w) \<Rightarrow>
          (case hexToBlobLoop z (int n - 1) 0 (replicate (n div 2 + 1) 0) of
             None \<Rightarrow> (None, w)
           | Some (zBlob, i) \<Rightarrow> (map_option Some (wr zBlob (i div 2) 0), w)))"

definition hexdigits :: "u8 list" where
  "hexdigits = [48, 49, 50, 51, 52, 53, 54, 55, 56, 57, 65, 66, 67, 68, 69, 70]"

definition hexHi :: "u8 \<Rightarrow> u8" where "hexHi c = hexdigits ! unat (drop_bit 4 c AND 0x0f)"
definition hexLo :: "u8 \<Rightarrow> u8" where "hexLo c = hexdigits ! unat (c AND 0x0f)"

text \<open>\<^verbatim>\<open>hexFunc\<close>: the loop writes at the pointer \<^verbatim>\<open>z\<close>, here the offset \<open>k\<close>.\<close>

fun hexFuncLoop :: "u8 list \<Rightarrow> u8 list \<Rightarrow> nat \<Rightarrow> u8 list option" where
  "hexFuncLoop [] zHex k = wr zHex k 0"
| "hexFuncLoop (c # pBlob) zHex k =
     (case wr zHex k (hexHi c) of None \<Rightarrow> None | Some zHex \<Rightarrow>
     (case wr zHex (k + 1) (hexLo c) of None \<Rightarrow> None | Some zHex \<Rightarrow>
        hexFuncLoop pBlob zHex (k + 2)))"

definition hexFunc :: "oom \<Rightarrow> u8 list \<Rightarrow> u8 list option option \<times> oom" where
  "hexFunc w pBlob =
     (case alloc w of
        (False, w) \<Rightarrow> (Some None, w)
      | (True, w) \<Rightarrow> (map_option Some (hexFuncLoop pBlob (replicate (length pBlob * 2 + 1) 0) 0), w))"

section \<open>The SQL function quote() on blobs and text\<close>

text \<open>The loop of the blob case writes at \<^verbatim>\<open>(i*2)+2\<close>.\<close>

fun quoteBlobLoop :: "u8 list \<Rightarrow> nat \<Rightarrow> u8 list \<Rightarrow> u8 list option" where
  "quoteBlobLoop [] i zText = Some zText"
| "quoteBlobLoop (c # zBlob) i zText =
     (case wr zText (i * 2 + 2) (hexHi c) of None \<Rightarrow> None | Some zText \<Rightarrow>
     (case wr zText (i * 2 + 3) (hexLo c) of None \<Rightarrow> None | Some zText \<Rightarrow>
        quoteBlobLoop zBlob (i + 1) zText))"

definition quoteBlob :: "oom \<Rightarrow> u8 list \<Rightarrow> u8 list option option \<times> oom" where
  "quoteBlob w zBlob =
     (case alloc w of
        (False, w) \<Rightarrow> (Some None, w)
      | (True, w) \<Rightarrow>
          (let n = length zBlob in
           (do {
              z \<leftarrow> quoteBlobLoop zBlob 0 (replicate (2 * n + 4) 0);
              z \<leftarrow> wr z (n * 2 + 2) 39;
              z \<leftarrow> wr z (n * 2 + 3) 0;
              z \<leftarrow> wr z 0 88;
              z \<leftarrow> wr z 1 39;
              Some (Some z)
            }, w)))"

text \<open>\<^verbatim>\<open>zArg\<close> holds the text and its terminator. The first loop counts bytes and quotes, the
  second copies.\<close>

fun quoteCount :: "u8 list \<Rightarrow> nat \<Rightarrow> nat \<Rightarrow> (nat \<times> nat) option" where
  "quoteCount [] i n = None"
| "quoteCount (c # z) i n =
     (if c = 0 then Some (i, n) else quoteCount z (i + 1) (if c = 39 then n + 1 else n))"

fun quoteCopy :: "u8 list \<Rightarrow> u8 list \<Rightarrow> nat \<Rightarrow> (u8 list \<times> nat) option" where
  "quoteCopy [] z j = None"
| "quoteCopy (c # zArg) z j =
     (if c = 0 then Some (z, j)
      else
        (case wr z j c of None \<Rightarrow> None | Some z \<Rightarrow>
         if c = 39 then
           (case wr z (j + 1) 39 of None \<Rightarrow> None | Some z \<Rightarrow> quoteCopy zArg z (j + 2))
         else quoteCopy zArg z (j + 1)))"

definition quoteText :: "oom \<Rightarrow> u8 list \<Rightarrow> (u8 list \<times> nat) option option \<times> oom" where
  "quoteText w zArg =
     (case quoteCount zArg 0 0 of
        None \<Rightarrow> (None, w)
      | Some (i, n) \<Rightarrow>
          (case alloc w of
             (False, w) \<Rightarrow> (Some None, w)
           | (True, w) \<Rightarrow>
               (do {
                  z \<leftarrow> wr (replicate (i + n + 3) 0) 0 39;
                  (z, j) \<leftarrow> quoteCopy zArg z 1;
                  z \<leftarrow> wr z j 39;
                  z \<leftarrow> wr z (j + 1) 0;
                  Some (Some (z, j + 1))
                }, w)))"

section \<open>Case-insensitive comparison is an order on folded strings\<close>

abbreviation fold_case :: "u8 list \<Rightarrow> u8 list" where "fold_case \<equiv> map sqlite3UpperToLower"

lemma upperToLower_0_iff [simp]: "sqlite3UpperToLower c = 0 \<longleftrightarrow> c = 0"
  by (rule u8_allI [of _ c]) code_simp

lemma strcmpDiff_0_iff [simp]: "strcmpDiff c x = 0 \<longleftrightarrow> sqlite3UpperToLower c = sqlite3UpperToLower x"
  by (simp add: strcmpDiff_def word_uint_eq_iff)

lemma strcmpDiff_less_iff: "strcmpDiff c x < 0 \<longleftrightarrow> sqlite3UpperToLower c < sqlite3UpperToLower x"
  by (simp add: strcmpDiff_def word_less_alt)

lemma upperToLower_0 [simp]: "sqlite3UpperToLower 0 = 0"
  by simp

lemma strICmp_terminated:
  "0 \<notin> set s \<Longrightarrow> 0 \<notin> set t \<Longrightarrow>
   \<exists>d. sqlite3StrICmp (s @ 0 # r) (t @ 0 # r') = Some d \<and>
     (d = 0 \<longleftrightarrow> fold_case s = fold_case t) \<and>
     (d < 0 \<longleftrightarrow> (fold_case s, fold_case t) \<in> lexord {(a, b). a < b})"
proof (induction s arbitrary: t)
  case Nil
  show ?case
  proof (cases t)
    case (Cons x xs)
    with Nil have "0 < sqlite3UpperToLower x"
      by (auto simp: word_gt_0)
    with Cons Nil show ?thesis
      by (auto simp: strcmpDiff_less_iff)
  qed simp
next
  case (Cons c s)
  show ?case
  proof (cases t)
    case Nil
    with Cons.prems show ?thesis by (auto simp: strcmpDiff_less_iff)
  next
    case t: (Cons x t')
    show ?thesis
    proof (cases "sqlite3UpperToLower c = sqlite3UpperToLower x")
      case True
      with Cons.IH [of t'] Cons.prems t show ?thesis by auto
    next
      case False
      with Cons.prems t show ?thesis by (auto simp: strcmpDiff_less_iff)
    qed
  qed
qed

lemma strICmp_eq_0:
  "0 \<notin> set s \<Longrightarrow> 0 \<notin> set t \<Longrightarrow>
   sqlite3StrICmp (s @ 0 # r) (t @ 0 # r') = Some 0 \<longleftrightarrow> fold_case s = fold_case t"
  using strICmp_terminated [of s t r r'] by auto

section \<open>Quoting and dequoting\<close>

definition enquote :: "u8 \<Rightarrow> u8 list \<Rightarrow> u8 list" where
  "enquote q s = concat (map (\<lambda>c. if c = q then [q, q] else [c]) s)"

lemma enquote_simps [simp]:
  "enquote q [] = []" "enquote q (c # s) = (if c = q then q # q # enquote q s else c # enquote q s)"
  by (simp_all add: enquote_def)

lemma length_enquote: "length (enquote q s) = length s + length (filter ((=) q) s)"
  by (induction s) auto

text \<open>The write position \<open>j\<close> stays behind the read position \<open>i\<close>.\<close>

lemma dequoteLoop_enquote:
  assumes "d \<noteq> q" "gap \<noteq> []"
  shows "\<exists>rest. dequoteLoop (out @ gap @ enquote q s @ q # d # r) q (length out + length gap) (length out) =
    Some (out @ s @ 0 # rest) \<and> length rest = length gap + length (enquote q s) + length r + 1 - length s"
  using assms(2)
proof (induction s arbitrary: out gap)
  case Nil
  obtain g gap' where "gap = g # gap'" using Nil by (cases gap) auto
  with assms(1) show ?case by (subst dequoteLoop.simps) (simp add: nth_append)
next
  case (Cons c s)
  obtain g gap' where g: "gap = g # gap'" using Cons.prems by (cases gap) auto
  show ?case
  proof (cases "c = q")
    case True
    have "\<exists>rest. dequoteLoop ((out @ [q]) @ (gap' @ [q, q]) @ enquote q s @ q # d # r) q
        (length (out @ [q]) + length (gap' @ [q, q])) (length (out @ [q])) = Some ((out @ [q]) @ s @ 0 # rest)
      \<and> length rest = length (gap' @ [q, q]) + length (enquote q s) + length r + 1 - length s"
      by (rule Cons.IH) simp
    with True g show ?thesis
      by (subst dequoteLoop.simps) (simp add: nth_append)
  next
    case False
    have "\<exists>rest. dequoteLoop ((out @ [c]) @ (gap' @ [c]) @ enquote q s @ q # d # r) q
        (length (out @ [c]) + length (gap' @ [c])) (length (out @ [c])) = Some ((out @ [c]) @ s @ 0 # rest)
      \<and> length rest = length (gap' @ [c]) + length (enquote q s) + length r + 1 - length s"
      by (rule Cons.IH) simp
    with False g show ?thesis
      by (subst dequoteLoop.simps) (simp add: nth_append)
  qed
qed

definition close_quote :: "u8 \<Rightarrow> u8" where "close_quote q = (if q = 91 then 93 else q)"

lemma dequote_enquote:
  assumes "sqlite3Isquote q"
  shows "\<exists>rest. sqlite3Dequote (q # enquote (close_quote q) s @ close_quote q # 0 # r) = Some (s @ 0 # rest)"
proof -
  have "0 \<noteq> close_quote q" using assms by (auto simp: isquote_iff close_quote_def)
  then show ?thesis
    using dequoteLoop_enquote [of 0 "close_quote q" "[q]" "[]" s r] assms
    by (auto simp: sqlite3Dequote_def close_quote_def)
qed

lemma quoteCount_run:
  "0 \<notin> set s \<Longrightarrow> quoteCount (s @ 0 # r) i n = Some (i + length s, n + length (filter ((=) 39) s))"
  by (induction s arbitrary: i n) auto

lemma quoteCopy_run:
  assumes "0 \<notin> set s" "length gap = length (enquote 39 s)"
  shows "quoteCopy (s @ 0 # r) (out @ gap @ post) (length out) =
    Some (out @ enquote 39 s @ post, length out + length (enquote 39 s))"
  using assms
proof (induction s arbitrary: out gap)
  case (Cons c s)
  show ?case
  proof (cases "c = 39")
    case True
    then obtain g1 g2 gap' where g: "gap = g1 # g2 # gap'" "length gap' = length (enquote 39 s)"
      using Cons.prems by (auto simp: length_Suc_conv)
    with Cons.IH [of gap' "out @ [39, 39]"] Cons.prems True show ?thesis
      using wr_append [of "length out + 1" "out @ [39]" g2 "gap' @ post" 39] by simp
  next
    case False
    then obtain g1 gap' where g: "gap = g1 # gap'" "length gap' = length (enquote 39 s)"
      using Cons.prems by (auto simp: length_Suc_conv)
    with Cons.IH [of gap' "out @ [c]"] Cons.prems False show ?thesis by simp
  qed
qed simp

lemma quoteText_result:
  assumes "0 \<notin> set s" "alloc w = (True, w')"
  shows "quoteText w (s @ 0 # r) =
    (Some (Some (39 # enquote 39 s @ [39, 0], length (enquote 39 s) + 2)), w')"
proof -
  let ?n = "length (enquote 39 s)"
  have n: "length s + length (filter ((=) 39) s) + 3 = Suc (?n + 2)" by (simp add: length_enquote)
  have "quoteCopy (s @ 0 # r) (39 # replicate ?n 0 @ [0, 0]) 1 =
    Some (39 # enquote 39 s @ [0, 0], 1 + ?n)"
    using quoteCopy_run [OF assms(1), of "replicate ?n 0" r "[39]" "[0, 0]"] by simp
  moreover have "replicate (?n + 2) 0 = replicate ?n 0 @ [0, 0 :: u8]"
    by (simp only: replicate_add) (simp add: numeral_2_eq_2)
  ultimately show ?thesis
    using wr_append [of "1 + ?n" "39 # enquote 39 s" 0 "[0]" 39]
      wr_append [of "2 + ?n" "39 # enquote 39 s @ [39]" 0 "[]" 0]
    by (simp add: quoteText_def quoteCount_run assms n wr_def [of _ 0])
qed

section \<open>Hexadecimal\<close>

definition hex_of :: "u8 list \<Rightarrow> u8 list" where
  "hex_of bs = concat (map (\<lambda>c. [hexHi c, hexLo c]) bs)"

lemma hex_of_simps [simp]:
  "hex_of [] = []" "hex_of (c # bs) = hexHi c # hexLo c # hex_of bs"
  by (simp_all add: hex_of_def)

lemma length_hex_of [simp]: "length (hex_of bs) = 2 * length bs"
  by (induction bs) simp_all

lemma hexToInt_digits:
  "push_bit 4 (sqlite3HexToInt (hexHi c)) OR sqlite3HexToInt (hexLo c) = c"
  by (rule u8_allI [of _ c]) code_simp

lemma hexToBlobLoop_run:
  "length gap = length bs \<Longrightarrow> 
   hexToBlobLoop (pre @ hex_of bs @ r) (int (2 * length (out @ bs)) - 1) (length pre) (out @ gap @ post) =
   Some (out @ bs @ post, 2 * length (out @ bs))"
  if "length pre = 2 * length out" for gap :: "u8 list"
  using that
proof (induction bs arbitrary: pre out gap)
  case Nil
  then show ?case by (subst hexToBlobLoop.simps) simp
next
  case (Cons c bs)
  then obtain g gap' where g: "gap = g # gap'" by (cases gap) auto
  have "hexToBlobLoop ((pre @ [hexHi c, hexLo c]) @ hex_of bs @ r) (int (2 * length ((out @ [c]) @ bs)) - 1)
      (length (pre @ [hexHi c, hexLo c])) ((out @ [c]) @ gap' @ post) =
    Some ((out @ [c]) @ bs @ post, 2 * length ((out @ [c]) @ bs))"
    using Cons g by (intro Cons.IH) simp_all
  then show ?case
    using Cons.prems g by (subst hexToBlobLoop.simps) (simp add: nth_append hexToInt_digits)
qed

lemma hexToBlob_result:
  "alloc w = (True, w') \<Longrightarrow>
   sqlite3HexToBlob w (hex_of bs @ r) (2 * length bs) = (Some (Some (bs @ [0])), w')"
  using hexToBlobLoop_run [of "[]" "[]" "replicate (length bs) 0" bs r "[0]"]
  by (simp add: sqlite3HexToBlob_def replicate_append_same [symmetric] algebra_simps)

lemma hexFuncLoop_run:
  "length gap = 2 * length bs \<Longrightarrow>
   hexFuncLoop bs (out @ gap @ [x]) (length out) = Some (out @ hex_of bs @ [0])"
proof (induction bs arbitrary: out gap)
  case (Cons c bs)
  then obtain g1 g2 gap' where g: "gap = g1 # g2 # gap'" "length gap' = 2 * length bs"
    by (auto simp: length_Suc_conv)
  with Cons.IH [of gap' "out @ [hexHi c, hexLo c]"] show ?case
    using wr_append [of "length out + 1" "out @ [hexHi c]" g2 "gap' @ [x]" "hexLo c"] by simp
qed simp

lemma hexFunc_result: "alloc w = (True, w') \<Longrightarrow> hexFunc w bs = (Some (Some (hex_of bs @ [0])), w')"
  using hexFuncLoop_run [of "replicate (length bs * 2) 0" bs "[]" 0]
  by (simp add: hexFunc_def replicate_append_same [symmetric])

lemma quoteBlobLoop_run:
  "length out = 2 * i + 2 \<Longrightarrow> length gap = 2 * length bs \<Longrightarrow>
   quoteBlobLoop bs i (out @ gap @ post) = Some (out @ hex_of bs @ post)"
proof (induction bs arbitrary: out gap i)
  case (Cons c bs)
  then obtain g1 g2 gap' where g: "gap = g1 # g2 # gap'" "length gap' = 2 * length bs"
    by (auto simp: length_Suc_conv)
  with Cons.IH [of "out @ [hexHi c, hexLo c]" "i + 1" gap'] Cons.prems show ?case
    using wr_append [of "i * 2 + 3" "out @ [hexHi c]" g2 "gap' @ post" "hexLo c"] by simp
qed simp

lemma quoteBlob_result:
  assumes "alloc w = (True, w')"
  shows "quoteBlob w bs = (Some (Some (88 # 39 # hex_of bs @ [39, 0])), w')"
proof -
  let ?n = "length bs * 2"
  have r: "replicate (2 * length bs + 4) 0 = 0 # 0 # replicate ?n 0 @ [0, 0 :: u8]"
    using replicate_add [of 2 "?n + 2" "0 :: u8"] replicate_add [of ?n 2 "0 :: u8"]
    by (simp add: numeral_eq_Suc)
  have l: "quoteBlobLoop bs 0 (0 # 0 # replicate ?n 0 @ [0, 0]) = Some (0 # 0 # hex_of bs @ [0, 0])"
    using quoteBlobLoop_run [of "[0, 0]" 0 "replicate ?n 0" bs "[0, 0]"] by simp
  have "wr (0 # 0 # hex_of bs @ [0, 0]) (?n + 2) 39 = Some (0 # 0 # hex_of bs @ [39, 0])"
    "wr (0 # 0 # hex_of bs @ [39, 0]) (?n + 3) 0 = Some (0 # 0 # hex_of bs @ [39, 0])"
    using wr_append [of "?n + 2" "0 # 0 # hex_of bs" 0 "[0]" 39]
      wr_append [of "?n + 3" "0 # 0 # hex_of bs @ [39]" 0 "[]" 0]
    by simp_all
  then show ?thesis
    unfolding quoteBlob_def by (simp add: assms r l Let_def) (simp add: wr_def)
qed

section \<open>Properties\<close>

text \<open>C32: On zero-terminated strings \<^verbatim>\<open>sqlite3StrICmp\<close> returns, and its result compares the
  ASCII-case-folded strings lexicographically by unsigned byte: zero exactly for equal
  folded strings, negative exactly when the left one comes first.\<close>

theorem stricmp_folded_order:
  assumes "0 \<notin> set s" and "0 \<notin> set t"
  shows "\<exists>d. sqlite3StrICmp (s @ 0 # r) (t @ 0 # r') = Some d \<and>
    (d = 0 \<longleftrightarrow> map sqlite3UpperToLower s = map sqlite3UpperToLower t) \<and>
    (d < 0 \<longleftrightarrow> (map sqlite3UpperToLower s, map sqlite3UpperToLower t) \<in> lexord {(a, b). a < b})"
  using assms by (rule strICmp_terminated)

theorem stricmp_folded_order_witness:
  "\<exists>d. sqlite3StrICmp ([0x41, 0x62] @ 0 # []) ([0x61, 0x42] @ 0 # []) = Some d \<and> d = 0"
proof -
  have "map sqlite3UpperToLower [0x41, 0x62] = map sqlite3UpperToLower [0x61, 0x42]"
    by (simp add: upperToLower_iff)
  then show ?thesis
    using stricmp_folded_order [of "[0x41, 0x62]" "[0x61, 0x42]" "[]" "[]"] by auto
qed

text \<open>C30: \<^verbatim>\<open>quote()\<close> on text writes only inside the buffer it allocates, and
  \<^verbatim>\<open>sqlite3Dequote\<close>, which works in place, turns the literal back into the text.\<close>

theorem quote_text_roundtrip:
  assumes "0 \<notin> set s" and "alloc w = (True, w')"
  shows "\<exists>z n rest. quoteText w (s @ 0 # r) = (Some (Some (z @ [0], n)), w') \<and> length z = n \<and>
    0 \<notin> set z \<and> sqlite3Dequote (z @ [0]) = Some (s @ 0 # rest)"
proof -
  have "0 \<notin> set (enquote 39 s)" using assms(1) by (auto simp: enquote_def)
  moreover have "sqlite3Isquote 39" by (simp add: isquote_iff)
  ultimately show ?thesis
    using quoteText_result [OF assms, of r] dequote_enquote [of 39 s "[]"]
    by (intro exI [of _ "39 # enquote 39 s @ [39]"]) (auto simp: close_quote_def)
qed

theorem quote_text_roundtrip_witness:
  "\<exists>z n rest. quoteText [True] ([0x4c, 39, 0x61] @ 0 # []) = (Some (Some (z @ [0], n)), []) \<and>
    length z = n \<and> 0 \<notin> set z \<and> sqlite3Dequote (z @ [0]) = Some ([0x4c, 39, 0x61] @ 0 # rest)"
  by (rule quote_text_roundtrip) simp_all

text \<open>\<^verbatim>\<open>sqlite3Dequote\<close> inverts each of the four quoting styles: single and double
  quotes, backquotes and square brackets, with the closing quote doubled inside.\<close>

lemma dequote_inverts_quoting:
  assumes "sqlite3Isquote q"
  shows "\<exists>rest. sqlite3Dequote (q # enquote (close_quote q) s @ close_quote q # 0 # r) = Some (s @ 0 # rest)"
  using assms by (rule dequote_enquote)

text \<open>C31: Blobs survive their two textual forms. The digits that \<^verbatim>\<open>hex()\<close> writes, and those
  between the quotes of the literal \<^verbatim>\<open>X'...'\<close> that \<^verbatim>\<open>quote()\<close> writes, are read back by
  \<^verbatim>\<open>sqlite3HexToBlob\<close> as the same bytes; no access leaves its buffer.\<close>

theorem hex_blob_roundtrip:
  assumes "alloc w = (True, w1)" and "alloc w1 = (True, w2)"
  shows "(\<exists>z. hexFunc w bs = (Some (Some z), w1) \<and>
      sqlite3HexToBlob w1 z (2 * length bs) = (Some (Some (bs @ [0])), w2))
    \<and> (\<exists>z. quoteBlob w bs = (Some (Some (88 # 39 # z)), w1) \<and> z ! (2 * length bs) = 39 \<and>
      sqlite3HexToBlob w1 z (2 * length bs) = (Some (Some (bs @ [0])), w2))"
  using hexFunc_result [OF assms(1)] quoteBlob_result [OF assms(1)] hexToBlob_result [OF assms(2)]
  by (simp add: nth_append)

theorem hex_blob_roundtrip_witness:
  "(\<exists>z. hexFunc [True, True] [0x5a] = (Some (Some z), [True]) \<and>
      sqlite3HexToBlob [True] z (2 * length [0x5a :: u8]) = (Some (Some ([0x5a] @ [0])), []))
   \<and> (\<exists>z. quoteBlob [True, True] [0x5a] = (Some (Some (88 # 39 # z)), [True]) \<and>
      z ! (2 * length [0x5a :: u8]) = 39 \<and>
      sqlite3HexToBlob [True] z (2 * length [0x5a :: u8]) = (Some (Some ([0x5a] @ [0])), []))"
  using hex_blob_roundtrip [of "[True, True]" "[True]" "[]" "[0x5a]"] by simp

end
