(* ===== verification/Hashtab.thy ===== *)
theory Hashtab
  imports Strings
begin

text \<open>
  \<^verbatim>\<open>hash.c\<close>: the generic hash table with string keys. All elements are on one doubly linked
  list; a bucket is a pointer to its first element and the number of elements that follow
  it. The list is kept in an explicit store, so that every link update of the source is an
  update of a cell: address \<open>0\<close> is the null pointer, address \<open>a\<close> is cell \<open>a - 1\<close>, a freed
  cell is \<open>None\<close>, and loading or updating through a null or freed pointer is \<open>None\<close>. Keys
  are pointers to zero-terminated strings; \<^verbatim>\<open>void*\<close> data are numbers with \<open>0\<close> for the null
  pointer. Counters are natural numbers, since there are never \<open>2^31\<close> elements in memory.
\<close>

section \<open>State\<close>

record hash_elem =
  "next" :: nat
  prev :: nat
  data :: nat
  pKey :: "u8 list"

record ht_entry =
  ht_count :: nat
  chain :: nat

record hash =
  htsize :: nat
  hcount :: nat
  first :: nat
  ht :: "ht_entry list option"

type_synonym heap = "hash_elem option list"

definition ld :: "heap \<Rightarrow> nat \<Rightarrow> hash_elem option" where
  "ld m a = (if a = 0 then None else case rd m (a - 1) of None \<Rightarrow> None | Some e \<Rightarrow> e)"

definition upd :: "heap \<Rightarrow> nat \<Rightarrow> (hash_elem \<Rightarrow> hash_elem) \<Rightarrow> heap option" where
  "upd m a f = (case ld m a of None \<Rightarrow> None | Some e \<Rightarrow> Some (m[a - 1 := Some (f e)]))"

definition hfree :: "heap \<Rightarrow> nat \<Rightarrow> heap option" where
  "hfree m a = (case ld m a of None \<Rightarrow> None | Some e \<Rightarrow> Some (m[a - 1 := None]))"

section \<open>Operations\<close>

definition sqlite3HashInit :: hash where
  "sqlite3HashInit = \<lparr>htsize = 0, hcount = 0, first = 0, ht = None\<rparr>"

text \<open>The loops over the whole list look at no more cells than the store has.\<close>

fun hashClearLoop :: "nat \<Rightarrow> heap \<Rightarrow> nat \<Rightarrow> heap option" where
  "hashClearLoop fuel m elem =
     (if elem = 0 then Some m
      else case fuel of
        0 \<Rightarrow> None
      | Suc fuel \<Rightarrow>
          do { e \<leftarrow> ld m elem; m \<leftarrow> hfree m elem; hashClearLoop fuel m (next e) })"

declare hashClearLoop.simps [simp del]

definition sqlite3HashClear :: "heap \<Rightarrow> hash \<Rightarrow> (heap \<times> hash) option" where
  "sqlite3HashClear m pH =
     do {
       m \<leftarrow> hashClearLoop (length m) m (first pH);
       Some (m, pH\<lparr>first := 0, ht := None, htsize := 0, hcount := 0\<rparr>)
     }"

fun strHashLoop :: "u32 \<Rightarrow> u8 list \<Rightarrow> u32 option" where
  "strHashLoop h [] = None"
| "strHashLoop h (c # z) =
     (if c \<noteq> 0 then strHashLoop ((h + ucast (sqlite3UpperToLower c)) * 0x9e3779b1) z else Some h)"

definition strHash :: "u8 list \<Rightarrow> nat option" where
  "strHash z = map_option unat (strHashLoop 0 z)"

text \<open>The two branches of \<^verbatim>\<open>insertElement\<close>: in front of the bucket's first element, or at the
  front of the whole list.\<close>

definition linkBefore :: "heap \<Rightarrow> hash \<Rightarrow> nat \<Rightarrow> nat \<Rightarrow> (heap \<times> hash) option" where
  "linkBefore m pH pHead pNew =
     do {
       hd \<leftarrow> ld m pHead;
       m \<leftarrow> upd m pNew (\<lambda>e. e\<lparr>next := pHead, prev := prev hd\<rparr>);
       (m, pH) \<leftarrow>
         (if prev hd \<noteq> 0 then
            do { m \<leftarrow> upd m (prev hd) (\<lambda>e. e\<lparr>next := pNew\<rparr>); Some (m, pH) }
          else Some (m, pH\<lparr>first := pNew\<rparr>));
       m \<leftarrow> upd m pHead (\<lambda>e. e\<lparr>prev := pNew\<rparr>);
       Some (m, pH)
     }"

definition linkFirst :: "heap \<Rightarrow> hash \<Rightarrow> nat \<Rightarrow> (heap \<times> hash) option" where
  "linkFirst m pH pNew =
     do {
       m \<leftarrow> upd m pNew (\<lambda>e. e\<lparr>next := first pH\<rparr>);
       m \<leftarrow> (if first pH \<noteq> 0 then upd m (first pH) (\<lambda>e. e\<lparr>prev := pNew\<rparr>) else Some m);
       m \<leftarrow> upd m pNew (\<lambda>e. e\<lparr>prev := 0\<rparr>);
       Some (m, pH\<lparr>first := pNew\<rparr>)
     }"

definition insertElement :: "heap \<Rightarrow> hash \<Rightarrow> nat option \<Rightarrow> nat \<Rightarrow> (heap \<times> hash) option" where
  "insertElement m pH pEntry pNew =
     do {
       (pHead, pH) \<leftarrow>
         (case pEntry of
            None \<Rightarrow> Some (0, pH)
          | Some h \<Rightarrow>
              do {
                t \<leftarrow> ht pH;
                e \<leftarrow> rd t h;
                Some (if ht_count e \<noteq> 0 then chain e else 0,
                      pH\<lparr>ht := Some (t[h := \<lparr>ht_count = ht_count e + 1, chain = pNew\<rparr>])\<rparr>)
              });
       if pHead \<noteq> 0 then linkBefore m pH pHead pNew else linkFirst m pH pNew
     }"

fun rehashLoop :: "nat \<Rightarrow> heap \<Rightarrow> hash \<Rightarrow> nat \<Rightarrow> (heap \<times> hash) option" where
  "rehashLoop fuel m pH elem =
     (if elem = 0 then Some (m, pH)
      else case fuel of
        0 \<Rightarrow> None
      | Suc fuel \<Rightarrow>
          do {
            e \<leftarrow> ld m elem;
            h \<leftarrow> strHash (pKey e);
            (m, pH) \<leftarrow> insertElement m pH (Some (h mod htsize pH)) elem;
            rehashLoop fuel m pH (next e)
          })"

declare rehashLoop.simps [simp del]

text \<open>\<open>usable\<close> is \<^verbatim>\<open>sqlite3MallocSize\<close> of an allocation of the given number of bytes; a bucket
  has 16 bytes and \<^verbatim>\<open>SQLITE_MALLOC_SOFT_LIMIT\<close> is 1024.\<close>

definition rehash ::
  "(nat \<Rightarrow> nat) \<Rightarrow> oom \<Rightarrow> heap \<Rightarrow> hash \<Rightarrow> nat \<Rightarrow> (bool \<times> heap \<times> hash \<times> oom) option" where
  "rehash usable w m pH new_size =
     (let new_size = (if new_size * 16 > 1024 then 1024 div 16 else new_size) in
      if new_size = htsize pH then Some (False, m, pH, w)
      else
        (case alloc w of
           (False, w) \<Rightarrow> Some (False, m, pH, w)
         | (True, w) \<Rightarrow>
             (let new_size = usable (new_size * 16) div 16;
                  elem = first pH;
                  pH = pH\<lparr>ht := Some (replicate new_size \<lparr>ht_count = 0, chain = 0\<rparr>),
                           htsize := new_size, first := 0\<rparr>
              in do {
                   (m, pH) \<leftarrow> rehashLoop (length m) m pH elem;
                   Some (True, m, pH, w)
                 })))"

text \<open>The address of the matching element; \<open>0\<close> stands for \<^verbatim>\<open>&nullElement\<close>.\<close>

fun findLoop :: "heap \<Rightarrow> nat \<Rightarrow> nat \<Rightarrow> u8 list \<Rightarrow> nat option" where
  "findLoop m 0 elem key = Some 0"
| "findLoop m (Suc n) elem key =
     do {
       e \<leftarrow> ld m elem;
       d \<leftarrow> sqlite3StrICmp (pKey e) key;
       if d = 0 then Some elem else findLoop m n (next e) key
     }"

definition findElementWithHash :: "heap \<Rightarrow> hash \<Rightarrow> u8 list \<Rightarrow> (nat \<times> nat) option" where
  "findElementWithHash m pH key =
     (case ht pH of
        Some t \<Rightarrow>
          do {
            h \<leftarrow> strHash key;
            pEntry \<leftarrow> rd t (h mod htsize pH);
            elem \<leftarrow> findLoop m (ht_count pEntry) (chain pEntry) key;
            Some (elem, h mod htsize pH)
          }
      | None \<Rightarrow>
          do { elem \<leftarrow> findLoop m (hcount pH) (first pH) key; Some (elem, 0) })"

text \<open>The first two \<^verbatim>\<open>if\<close> statements of \<^verbatim>\<open>removeElementGivenHash\<close>.\<close>

definition unlinkElement :: "heap \<Rightarrow> hash \<Rightarrow> hash_elem \<Rightarrow> (heap \<times> hash) option" where
  "unlinkElement m pH e =
     do {
       (m, pH) \<leftarrow>
         (if prev e \<noteq> 0 then
            do { m \<leftarrow> upd m (prev e) (\<lambda>p. p\<lparr>next := next e\<rparr>); Some (m, pH) }
          else Some (m, pH\<lparr>first := next e\<rparr>));
       m \<leftarrow> (if next e \<noteq> 0 then upd m (next e) (\<lambda>n. n\<lparr>prev := prev e\<rparr>) else Some m);
       Some (m, pH)
     }"

definition removeElementGivenHash :: "heap \<Rightarrow> hash \<Rightarrow> nat \<Rightarrow> nat \<Rightarrow> (heap \<times> hash) option" where
  "removeElementGivenHash m pH elem h =
     do {
       e \<leftarrow> ld m elem;
       (m, pH) \<leftarrow> unlinkElement m pH e;
       pH \<leftarrow>
         (case ht pH of
            None \<Rightarrow> Some pH
          | Some t \<Rightarrow>
              do {
                b \<leftarrow> rd t h;
                Some (pH\<lparr>ht := Some (t[h := \<lparr>ht_count = ht_count b - 1,
                  chain = (if chain b = elem then next e else chain b)\<rparr>])\<rparr>)
              });
       m \<leftarrow> hfree m elem;
       (let pH = pH\<lparr>hcount := hcount pH - 1\<rparr> in
        if hcount pH = 0 then sqlite3HashClear m pH else Some (m, pH))
     }"

definition elemData :: "heap \<Rightarrow> nat \<Rightarrow> nat option" where
  "elemData m elem = (if elem = 0 then Some 0 else map_option data (ld m elem))"

definition sqlite3HashFind :: "heap \<times> hash \<Rightarrow> u8 list \<Rightarrow> nat option" where
  "sqlite3HashFind s key =
     (case s of (m, pH) \<Rightarrow>
        do { (elem, h) \<leftarrow> findElementWithHash m pH key; elemData m elem })"

definition sqlite3HashInsert ::
  "(nat \<Rightarrow> nat) \<Rightarrow> oom \<Rightarrow> heap \<times> hash \<Rightarrow> u8 list \<Rightarrow> nat \<Rightarrow> (nat \<times> (heap \<times> hash) \<times> oom) option" where
  "sqlite3HashInsert usable w s key dat =
     (case s of (m, pH) \<Rightarrow>
      do {
        (elem, h) \<leftarrow> findElementWithHash m pH key;
        old_data \<leftarrow> elemData m elem;
        if old_data \<noteq> 0 then
          if dat = 0 then
            do { s \<leftarrow> removeElementGivenHash m pH elem h; Some (old_data, s, w) }
          else
            do { m \<leftarrow> upd m elem (\<lambda>e. e\<lparr>data := dat, pKey := key\<rparr>); Some (old_data, (m, pH), w) }
        else if dat = 0 then Some (0, s, w)
        else
          (case alloc w of
             (False, w) \<Rightarrow> Some (dat, s, w)
           | (True, w) \<Rightarrow>
               (let m = m @ [Some \<lparr>next = 0, prev = 0, data = dat, pKey = key\<rparr>];
                    new_elem = length m;
                    pH = pH\<lparr>hcount := hcount pH + 1\<rparr>
                in do {
                     (h, m, pH, w) \<leftarrow>
                       (if hcount pH \<ge> 10 \<and> hcount pH > 2 * htsize pH then
                          do {
                            (r, m, pH, w) \<leftarrow> rehash usable w m pH (hcount pH * 2);
                            k \<leftarrow> strHash key;
                            Some (if r then k mod htsize pH else h, m, pH, w)
                          }
                        else Some (h, m, pH, w));
                     s \<leftarrow> insertElement m pH (if ht pH \<noteq> None then Some h else None) new_elem;
                     Some (0, s, w)
                   }))
      })"

section \<open>The store\<close>

lemma ld_0 [simp]: "ld m 0 = None"
  by (simp add: ld_def)

lemma ld_upd: "ld m a = Some e \<Longrightarrow> \<exists>m'. upd m a f = Some m' \<and> ld m' = (ld m)(a \<mapsto> f e) \<and> length m' = length m"
  by (auto simp: ld_def upd_def rd_def fun_eq_iff nth_list_update split: if_splits)

lemma ld_hfree: "ld m a = Some e \<Longrightarrow> \<exists>m'. hfree m a = Some m' \<and> ld m' = (ld m)(a := None) \<and> length m' = length m"
  by (auto simp: ld_def hfree_def rd_def fun_eq_iff nth_list_update split: if_splits)

lemma ld_append: "ld (m @ [Some e]) = (ld m)(Suc (length m) \<mapsto> e)"
  by (auto simp: ld_def rd_def fun_eq_iff nth_append split: if_splits)

lemma ld_fresh: "ld m (Suc (length m)) = None"
  by (simp add: ld_def rd_def)

lemma ld_bound: "ld m a = Some e \<Longrightarrow> 0 < a \<and> a \<le> length m"
  by (auto simp: ld_def rd_def split: if_splits)

section \<open>Doubly linked segments\<close>

text \<open>\<open>dls M p xs q\<close>: the cells \<open>xs\<close> are linked in this order, the first one's \<^verbatim>\<open>prev\<close> is
  \<open>p\<close> and the last one's \<^verbatim>\<open>next\<close> is \<open>q\<close>.\<close>

fun dls :: "(nat \<rightharpoonup> hash_elem) \<Rightarrow> nat \<Rightarrow> nat list \<Rightarrow> nat \<Rightarrow> bool" where
  "dls M p [] q \<longleftrightarrow> True"
| "dls M p (x # xs) q \<longleftrightarrow> x \<noteq> 0 \<and>
     (\<exists>e. M x = Some e \<and> prev e = p \<and> next e = hd (xs @ [q])) \<and> dls M x xs q"

lemma dls_append:
  "dls M p (xs @ ys) q \<longleftrightarrow> dls M p xs (hd (ys @ [q])) \<and> dls M (last (p # xs)) ys q"
proof (induction xs arbitrary: p)
  case (Cons x xs)
  have "hd ((xs @ ys) @ [q]) = hd (xs @ [hd (ys @ [q])])" by (cases xs) simp_all
  with Cons show ?case by auto
qed simp

text \<open>Only the links count.\<close>

definition links :: "hash_elem option \<Rightarrow> (nat \<times> nat) option" where
  "links = map_option (\<lambda>e. (prev e, next e))"

definition cont :: "hash_elem option \<Rightarrow> (u8 list \<times> nat) option" where
  "cont = map_option (\<lambda>e. (pKey e, data e))"

lemma links_Some [simp]: "links (Some e) = Some (prev e, next e)" by (simp add: links_def)
lemma cont_Some [simp]: "cont (Some e) = Some (pKey e, data e)" by (simp add: cont_def)

lemma links_eq_Some: "links x = Some (p, n) \<longleftrightarrow> (\<exists>e. x = Some e \<and> prev e = p \<and> next e = n)"
  by (cases x) (auto simp: links_def)

lemma dls_cong:
  "(\<And>x. x \<in> set xs \<Longrightarrow> links (M' x) = links (M x)) \<Longrightarrow> dls M' p xs q \<longleftrightarrow> dls M p xs q"
proof (induction xs arbitrary: p)
  case (Cons x xs)
  then have "links (M' x) = links (M x)" by simp
  then have "(\<exists>e. M' x = Some e \<and> prev e = p \<and> next e = n) \<longleftrightarrow> (\<exists>e. M x = Some e \<and> prev e = p \<and> next e = n)" for n
    using links_eq_Some [of "M' x" p n] links_eq_Some [of "M x" p n] by simp
  with Cons show ?case by simp
qed simp

lemma dls_frame: "dls M p xs q \<Longrightarrow> (\<And>x. x \<in> set xs \<Longrightarrow> M' x = M x) \<Longrightarrow> dls M' p xs q"
  using dls_cong [of xs M' M p q] by simp

lemma dls_nonzero: "dls M p xs q \<Longrightarrow> x \<in> set xs \<Longrightarrow> x \<noteq> 0 \<and> (\<exists>e. M x = Some e)"
  by (induction xs arbitrary: p) auto

lemma dls_split:
  assumes "dls M p (ys @ x # zs) q"
  obtains e where "M x = Some e" "prev e = last (p # ys)" "next e = hd (zs @ [q])" "x \<noteq> 0"
    "dls M p ys x" "dls M x zs q"
  using assms by (auto simp: dls_append)

text \<open>Redirecting the link at the end of a segment, and at its start.\<close>

lemma dls_set_next:
  assumes "dls M p (ys @ [l]) q" "distinct (ys @ [l])"
    and "links (M' l) = map_option (\<lambda>(p, n). (p, r)) (links (M l))"
    and "\<And>y. y \<in> set ys \<Longrightarrow> links (M' y) = links (M y)"
  shows "dls M' p (ys @ [l]) r"
proof -
  have "dls M' p ys l" using assms(1,4) dls_cong [of ys M' M p l] by (simp add: dls_append)
  with assms(1,3) show ?thesis by (auto simp: dls_append links_eq_Some)
qed

lemma dls_set_prev:
  assumes "dls M p (x # xs) q"
    and "links (M' x) = map_option (\<lambda>(p, n). (r, n)) (links (M x))"
    and "\<And>y. y \<in> set xs \<Longrightarrow> links (M' y) = links (M y)"
  shows "dls M' r (x # xs) q"
  using assms dls_cong [of xs M' M x q] by (auto simp: links_eq_Some)

lemma length_le_heap: "dls (ld m) p xs q \<Longrightarrow> distinct xs \<Longrightarrow> length xs \<le> length m"
proof -
  assume d: "dls (ld m) p xs q" "distinct xs"
  have "set xs \<subseteq> {1..length m}"
  proof
    fix x assume "x \<in> set xs"
    with dls_nonzero [OF d(1)] ld_bound show "x \<in> {1..length m}" by fastforce
  qed
  then have "card (set xs) \<le> card {1..length m}" by (intro card_mono) simp_all
  with d show ?thesis by (simp add: distinct_card)
qed

text \<open>A new cell in front of the whole list, and in front of a given cell.\<close>

lemma dls_push:
  assumes "dls M 0 xs 0" "distinct xs" "a \<notin> set xs" "a \<noteq> 0"
    and "links (M' a) = Some (0, hd (xs @ [0]))"
    and "xs \<noteq> [] \<Longrightarrow> links (M' (hd xs)) = map_option (\<lambda>(p, n). (a, n)) (links (M (hd xs)))"
    and "\<And>y. y \<in> set (tl xs) \<Longrightarrow> links (M' y) = links (M y)"
  shows "dls M' 0 (a # xs) 0"
proof -
  have "dls M' a xs 0"
  proof (cases xs)
    case (Cons x ys)
    with assms dls_set_prev [of M 0 x ys 0 M' a] show ?thesis by simp
  qed simp
  with assms show ?thesis by (auto simp: links_eq_Some)
qed

lemma dls_insert_before:
  assumes "dls M 0 (ys @ h # zs) 0" "distinct (ys @ h # zs)" "a \<notin> set (ys @ h # zs)" "a \<noteq> 0"
    and "links (M' a) = Some (last (0 # ys), h)"
    and "ys \<noteq> [] \<Longrightarrow> links (M' (last ys)) = map_option (\<lambda>(p, n). (p, a)) (links (M (last ys)))"
    and "links (M' h) = map_option (\<lambda>(p, n). (a, n)) (links (M h))"
    and "\<And>y. y \<in> set (butlast ys) \<union> set zs \<Longrightarrow> links (M' y) = links (M y)"
  shows "dls M' 0 (ys @ a # h # zs) 0"
proof -
  have ys: "dls M' 0 ys a"
  proof (cases ys rule: rev_cases)
    case (snoc us l)
    with assms dls_set_next [of M 0 us l h M' a] show ?thesis by (auto simp: dls_append)
  qed simp
  have "dls M' a (h # zs) 0"
    using dls_set_prev [of M "last (0 # ys)" h zs 0 M' a] assms by (simp add: dls_append)
  with ys assms show ?thesis by (auto simp: dls_append links_eq_Some)
qed

lemma dls_delete:
  assumes "dls M 0 (ys @ a # zs) 0" "distinct (ys @ a # zs)"
    and "ys \<noteq> [] \<Longrightarrow> links (M' (last ys)) = map_option (\<lambda>(p, n). (p, hd (zs @ [0]))) (links (M (last ys)))"
    and "zs \<noteq> [] \<Longrightarrow> links (M' (hd zs)) = map_option (\<lambda>(p, n). (last (0 # ys), n)) (links (M (hd zs)))"
    and "\<And>y. y \<in> set (butlast ys) \<union> set (tl zs) \<Longrightarrow> links (M' y) = links (M y)"
  shows "dls M' 0 (ys @ zs) 0"
proof -
  have ys: "dls M' 0 ys (hd (zs @ [0]))"
  proof (cases ys rule: rev_cases)
    case (snoc us l)
    with assms dls_set_next [of M 0 us l a M' "hd (zs @ [0])"] show ?thesis by (auto simp: dls_append)
  qed simp
  have "dls M' (last (0 # ys)) zs 0"
  proof (cases zs)
    case (Cons x us)
    with assms dls_set_prev [of M a x us 0 M' "last (0 # ys)"] show ?thesis by (simp add: dls_append)
  qed simp
  with ys show ?thesis by (simp add: dls_append)
qed

section \<open>Grouped lists\<close>

text \<open>Elements with the same hash are adjacent.\<close>

fun grouped :: "('a \<Rightarrow> 'b) \<Rightarrow> 'a list \<Rightarrow> bool" where
  "grouped f [] \<longleftrightarrow> True"
| "grouped f (x # xs) \<longleftrightarrow> grouped f xs \<and> (f x \<in> f ` set xs \<longrightarrow> f x = f (hd xs))"

definition seg :: "('a \<Rightarrow> 'b) \<Rightarrow> 'b \<Rightarrow> 'a list \<Rightarrow> 'a list" where
  "seg f h xs = filter (\<lambda>x. f x = h) xs"

lemma seg_simps [simp]:
  "seg f h [] = []" "seg f h (x # xs) = (if f x = h then x # seg f h xs else seg f h xs)"
  "seg f h (xs @ ys) = seg f h xs @ seg f h ys"
  by (simp_all add: seg_def)

lemma seg_empty_iff: "seg f h xs = [] \<longleftrightarrow> h \<notin> f ` set xs"
  by (auto simp: seg_def filter_empty_conv)

lemma set_seg: "set (seg f h xs) = {x \<in> set xs. f x = h}"
  by (auto simp: seg_def)

lemma grouped_head: "grouped f (x # xs) \<Longrightarrow> seg f (f x) (x # xs) = takeWhile (\<lambda>y. f y = f x) (x # xs)"
proof (induction xs arbitrary: x)
  case (Cons y ys)
  show ?case
  proof (cases "f y = f x")
    case True
    with Cons show ?thesis by (cases ys) auto
  next
    case False
    with Cons.prems have "f x \<notin> f ` set (y # ys)" by auto
    with False show ?thesis by (auto simp: seg_empty_iff)
  qed
qed simp

lemma grouped_append: "grouped f (ys @ zs) \<Longrightarrow> grouped f zs"
  by (induction ys) auto

text \<open>The first element of a group splits the list there.\<close>

lemma grouped_split:
  assumes "grouped f xs" "seg f h xs \<noteq> []"
  obtains ys zs where "xs = ys @ seg f h xs @ zs" "h \<notin> f ` set ys" "h \<notin> f ` set zs"
proof -
  let ?ys = "takeWhile (\<lambda>x. f x \<noteq> h) xs" and ?r = "dropWhile (\<lambda>x. f x \<noteq> h) xs"
  have ys: "h \<notin> f ` set ?ys" by (auto dest: set_takeWhileD)
  have "?r \<noteq> []" using assms(2) by (auto simp: seg_empty_iff dropWhile_eq_Nil_conv)
  then obtain c r where r: "?r = c # r" "f c = h"
    using hd_dropWhile [of "\<lambda>x. f x \<noteq> h" xs] by (cases ?r) auto
  have xs: "xs = ?ys @ c # r" using r(1) by (metis takeWhile_dropWhile_id)
  then have g: "grouped f (c # r)" using grouped_append assms(1) by metis
  have sr: "seg f h xs = seg f h (c # r)"
    using xs ys by (metis append_Nil seg_empty_iff seg_simps(3))
  also have s: "\<dots> = takeWhile (\<lambda>y. f y = h) (c # r)" using grouped_head [OF g] r(2) by simp
  finally have "xs = ?ys @ seg f h xs @ dropWhile (\<lambda>y. f y = h) (c # r)"
    using xs by (metis takeWhile_dropWhile_id)
  moreover have "h \<notin> f ` set (dropWhile (\<lambda>y. f y = h) (c # r))"
  proof -
    have "seg f h (c # r) = takeWhile (\<lambda>y. f y = h) (c # r) @ seg f h (dropWhile (\<lambda>y. f y = h) (c # r))"
      by (metis (mono_tags, lifting) s append.right_neutral append_same_eq filter_True seg_def
          seg_simps(3) set_takeWhileD takeWhile_dropWhile_id)
    then show ?thesis using s by (simp add: seg_empty_iff [symmetric])
  qed
  ultimately show thesis using that ys by blast
qed

definition place :: "('a \<Rightarrow> 'b) \<Rightarrow> 'a \<Rightarrow> 'a list \<Rightarrow> 'a list" where
  "place f a xs =
     (if f a \<in> f ` set xs then takeWhile (\<lambda>x. f x \<noteq> f a) xs @ a # dropWhile (\<lambda>x. f x \<noteq> f a) xs
      else a # xs)"

lemma place_Cons:
  "f x \<noteq> f a \<Longrightarrow> f a \<in> f ` set xs \<Longrightarrow> place f a (x # xs) = x # place f a xs"
  "f x = f a \<Longrightarrow> place f a (x # xs) = a # x # xs"
  by (auto simp: place_def)

lemma set_place [simp]: "set (place f a xs) = insert a (set xs)"
proof -
  have "set (takeWhile P xs) \<union> set (dropWhile P xs) = set xs" for P :: "'a \<Rightarrow> bool"
    by (metis set_append takeWhile_dropWhile_id)
  then show ?thesis by (auto simp: place_def)
qed

lemma distinct_place: "distinct xs \<Longrightarrow> a \<notin> set xs \<Longrightarrow> distinct (place f a xs)"
proof -
  assume d: "distinct xs" "a \<notin> set xs"
  have "distinct (takeWhile P xs @ a # dropWhile P xs)" for P
    using d by (auto simp: dest: set_takeWhileD set_dropWhileD)
      (metis distinct_append disjoint_iff takeWhile_dropWhile_id)
  with d show ?thesis by (simp add: place_def)
qed

lemma length_place [simp]: "length (place f a xs) = Suc (length xs)"
proof -
  have "length (takeWhile P xs) + length (dropWhile P xs) = length xs" for P :: "'a \<Rightarrow> bool"
    by (metis length_append takeWhile_dropWhile_id)
  then show ?thesis by (simp add: place_def)
qed

lemma hd_place: "place f a xs \<noteq> []" "hd (place f a xs) = (if xs \<noteq> [] \<and> f (hd xs) \<noteq> f a \<and> f a \<in> f ` set xs then hd xs else a)"
  by (cases xs; auto simp: place_def)+

lemma grouped_place: "grouped f xs \<Longrightarrow> grouped f (place f a xs)"
proof (induction xs)
  case (Cons x xs)
  consider "f x = f a" | "f x \<noteq> f a" "f a \<in> f ` set xs" | "f x \<noteq> f a" "f a \<notin> f ` set xs" by blast
  then show ?case
  proof cases
    case 2
    then have "xs \<noteq> []" by auto
    with 2 Cons show ?thesis by (auto simp: place_Cons hd_place)
  next
    case 3
    then have "place f a (x # xs) = a # x # xs" by (auto simp: place_def)
    with 3 Cons show ?thesis by auto
  qed (use Cons in \<open>auto simp: place_Cons\<close>)
qed (simp add: place_def)

lemma seg_place: "seg f h (place f a xs) = (if h = f a then a # seg f h xs else seg f h xs)"
proof -
  have t: "seg f h xs = seg f h (takeWhile P xs) @ seg f h (dropWhile P xs)" for P
    by (metis seg_simps(3) takeWhile_dropWhile_id)
  have "seg f (f a) (takeWhile (\<lambda>x. f x \<noteq> f a) xs) = []"
    by (auto simp: seg_empty_iff dest: set_takeWhileD)
  then show ?thesis using t [of "\<lambda>x. f x \<noteq> f a"] by (auto simp: place_def)
qed

lemma grouped_delete: "grouped f (ys @ a # zs) \<Longrightarrow> grouped f (ys @ zs)"
proof (induction ys)
  case Nil
  then show ?case by simp
next
  case (Cons y ys)
  show ?case
  proof (cases ys)
    case Nil
    with Cons show ?thesis by auto
  next
    case ys: (Cons u us)
    have "grouped f (u # us @ a # zs) \<and>
        (f y \<in> f ` set (u # us @ a # zs) \<longrightarrow> f y = f (hd (u # us @ a # zs)))"
      using Cons.prems unfolding ys append_Cons grouped.simps(2) .
    then have g: "grouped f (u # us @ a # zs)" "f y \<in> f ` set (u # us @ a # zs) \<longrightarrow> f y = f u"
      unfolding list.sel by blast+
    have "grouped f (u # us @ zs)" using Cons.IH g(1) unfolding ys append_Cons .
    moreover have "f ` set (u # us @ zs) \<subseteq> f ` set (u # us @ a # zs)" by auto
    ultimately show ?thesis using g(2) unfolding ys append_Cons grouped.simps(2) [of f y] list.sel by blast
  qed
qed

section \<open>The bucket table\<close>

definition bkt :: "(nat \<Rightarrow> nat) \<Rightarrow> nat list \<Rightarrow> ht_entry list \<Rightarrow> bool" where
  "bkt f xs t \<longleftrightarrow> grouped f xs \<and> (\<forall>x \<in> set xs. f x < length t) \<and>
     (\<forall>h < length t. ht_count (t ! h) = length (seg f h xs) \<and>
        (seg f h xs \<noteq> [] \<longrightarrow> chain (t ! h) = hd (seg f h xs)))"

lemma grouped_cong: "(\<And>x. x \<in> set xs \<Longrightarrow> f x = g x) \<Longrightarrow> grouped f xs \<longleftrightarrow> grouped g xs"
proof (induction xs)
  case (Cons y xs)
  then have "f ` set xs = g ` set xs" "f y = g y" "xs \<noteq> [] \<Longrightarrow> f (hd xs) = g (hd xs)"
    by (auto intro!: image_cong)
  with Cons show ?case by (cases xs) auto
qed simp

lemma bkt_cong:
  assumes "\<And>x. x \<in> set xs \<Longrightarrow> f x = g x"
  shows "bkt f xs t \<longleftrightarrow> bkt g xs t"
proof -
  have "seg f h xs = seg g h xs" for h using assms unfolding seg_def by (intro filter_cong) auto
  moreover have "grouped f xs \<longleftrightarrow> grouped g xs" using assms by (rule grouped_cong)
  ultimately show ?thesis using assms by (simp add: bkt_def)
qed

lemma bkt_empty: "bkt f [] (replicate n \<lparr>ht_count = 0, chain = 0\<rparr>)"
  by (simp add: bkt_def)

lemma bkt_place:
  assumes "bkt f xs t" "f a < length t"
  shows "bkt f (place f a xs) (t[f a := \<lparr>ht_count = ht_count (t ! f a) + 1, chain = a\<rparr>])"
  using assms by (auto simp: bkt_def grouped_place seg_place nth_list_update)

lemma bkt_delete:
  assumes "bkt f (ys @ a # zs) t" "distinct (ys @ a # zs)"
  shows "bkt f (ys @ zs) (t[f a := \<lparr>ht_count = ht_count (t ! f a) - 1,
    chain = (if chain (t ! f a) = a then hd (zs @ [0]) else chain (t ! f a))\<rparr>])"
proof -
  have g: "grouped f (ys @ a # zs)" and fa: "f a < length t" using assms(1) by (simp_all add: bkt_def)
  have n: "ht_count (t ! f a) = length (seg f (f a) (ys @ a # zs))"
    "chain (t ! f a) = hd (seg f (f a) (ys @ a # zs))"
    using assms(1) fa by (simp_all add: bkt_def)
  have z: "seg f (f a) zs \<noteq> [] \<Longrightarrow> hd (seg f (f a) zs) = hd zs \<and> zs \<noteq> []"
  proof -
    assume s: "seg f (f a) zs \<noteq> []"
    have "grouped f (a # zs)" using grouped_append [OF g] .
    with s show ?thesis by (cases zs) (auto simp: seg_empty_iff)
  qed
  have y: "seg f (f a) ys \<noteq> [] \<Longrightarrow> hd (seg f (f a) ys @ vs) \<noteq> a" for vs
    using assms(2) set_seg [of f "f a" ys] by (cases "seg f (f a) ys") auto
  have "hd (seg f (f a) (ys @ zs)) =
      (if chain (t ! f a) = a then hd (zs @ [0]) else chain (t ! f a))" if "seg f (f a) (ys @ zs) \<noteq> []"
    using that n(2) z y by (cases "seg f (f a) ys") (auto simp: hd_append)
  moreover have "length (seg f (f a) (ys @ zs)) = ht_count (t ! f a) - 1" using n(1) by simp
  ultimately show ?thesis
    using assms(1) fa grouped_delete [OF g] by (auto simp: bkt_def nth_list_update)
qed

section \<open>Linking an element\<close>

text \<open>What linking leaves alone: keys, data, and all cells outside the list.\<close>

definition frame :: "heap \<Rightarrow> hash \<Rightarrow> nat set \<Rightarrow> heap \<Rightarrow> hash \<Rightarrow> bool" where
  "frame m pH X m' pH' \<longleftrightarrow> length m' = length m \<and> (\<forall>x. cont (ld m' x) = cont (ld m x)) \<and>
     (\<forall>x. x \<notin> X \<longrightarrow> ld m' x = ld m x) \<and> htsize pH' = htsize pH \<and> hcount pH' = hcount pH \<and> ht pH' = ht pH"

lemma linkFirst_ok:
  assumes l: "dls (ld m) 0 xs 0" "distinct xs" "a \<notin> set xs" "ld m a = Some e"
    and f: "first pH = hd (xs @ [0])"
  shows "\<exists>m' pH'. linkFirst m pH a = Some (m', pH') \<and> dls (ld m') 0 (a # xs) 0 \<and> first pH' = a \<and>
    frame m pH (insert a (set xs)) m' pH'"
proof -
  have a0: "a \<noteq> 0" using ld_bound [OF l(4)] by simp
  obtain m1 where m1: "upd m a (\<lambda>e. e\<lparr>next := first pH\<rparr>) = Some m1"
    "ld m1 = (ld m)(a \<mapsto> e\<lparr>next := first pH\<rparr>)" "length m1 = length m" using ld_upd [OF l(4)] by blast
  have hdx: "xs \<noteq> [] \<Longrightarrow> \<exists>ex. ld m (hd xs) = Some ex \<and> hd xs \<noteq> a \<and> hd xs \<in> set xs \<and> hd xs \<noteq> 0"
    using dls_nonzero [OF l(1), of "hd xs"] l(3) by (cases xs) auto
  obtain m2 where m2: "(if first pH \<noteq> 0 then upd m1 (first pH) (\<lambda>e. e\<lparr>prev := a\<rparr>) else Some m1) = Some m2"
    "length m2 = length m"
    "ld m2 = (if xs \<noteq> [] then (ld m1)(hd xs \<mapsto> (the (ld m (hd xs)))\<lparr>prev := a\<rparr>) else ld m1)"
  proof (cases "xs = []")
    case True
    with f m1 that show thesis by simp
  next
    case False
    with hdx obtain ex where ex: "ld m (hd xs) = Some ex" "hd xs \<noteq> 0" "hd xs \<noteq> a" by auto
    with m1(2) have "ld m1 (hd xs) = Some ex" by simp
    from ld_upd [OF this, of "\<lambda>e. e\<lparr>prev := a\<rparr>"] False f m1 ex that show thesis by fastforce
  qed
  have "ld m2 a = Some (e\<lparr>next := first pH\<rparr>)" using m1 m2 hdx by (cases "xs = []") auto
  from ld_upd [OF this, of "\<lambda>e. e\<lparr>prev := 0\<rparr>"] obtain m3 where
    m3: "upd m2 a (\<lambda>e. e\<lparr>prev := 0\<rparr>) = Some m3" "ld m3 = (ld m2)(a \<mapsto> e\<lparr>next := first pH, prev := 0\<rparr>)"
    "length m3 = length m2" by auto
  have "dls (ld m3) 0 (a # xs) 0"
  proof (rule dls_push [OF l(1,2,3) a0])
    show "links (ld m3 a) = Some (0, hd (xs @ [0]))" using m3 f by simp
    show "links (ld m3 (hd xs)) = map_option (\<lambda>(p, n). (a, n)) (links (ld m (hd xs)))" if "xs \<noteq> []"
      using that hdx m3 m2 by auto
    show "links (ld m3 y) = links (ld m y)" if "y \<in> set (tl xs)" for y
    proof -
      have "y \<noteq> a" "y \<noteq> hd xs" using that l(2,3) by (cases xs; auto)+
      then show ?thesis using m1 m2 m3 by simp
    qed
  qed
  moreover have "linkFirst m pH a = Some (m3, pH\<lparr>first := a\<rparr>)"
    using m1 m2 m3 by (simp add: linkFirst_def)
  moreover have "frame m pH (insert a (set xs)) m3 (pH\<lparr>first := a\<rparr>)"
    using m1 m2 m3 l(4) hdx by (cases "xs = []") (auto simp: frame_def)
  ultimately show ?thesis by auto
qed

lemma linkBefore_ok:
  assumes l: "dls (ld m) 0 (ys @ c # zs) 0" "distinct (ys @ c # zs)" "a \<notin> set (ys @ c # zs)" "ld m a = Some e"
    and f: "first pH = hd (ys @ [c])"
  shows "\<exists>m' pH'. linkBefore m pH c a = Some (m', pH') \<and> dls (ld m') 0 (ys @ a # c # zs) 0 \<and>
    first pH' = hd (ys @ [a]) \<and> frame m pH (insert a (set (ys @ c # zs))) m' pH'"
proof -
  have a0: "a \<noteq> 0" using ld_bound [OF l(4)] by simp
  obtain eh where eh: "ld m c = Some eh" "prev eh = last (0 # ys)" "next eh = hd (zs @ [0])"
    using dls_split [OF l(1)] by auto
  have ne: "c \<noteq> a" "c \<notin> set ys" "a \<notin> set ys" "a \<notin> set zs" "c \<notin> set zs" using l(2,3) by auto
  obtain m1 where m1: "upd m a (\<lambda>e. e\<lparr>next := c, prev := prev eh\<rparr>) = Some m1"
    "ld m1 = (ld m)(a \<mapsto> e\<lparr>next := c, prev := prev eh\<rparr>)" "length m1 = length m" using ld_upd [OF l(4)] by blast
  let ?pH = "if ys = [] then pH\<lparr>first := a\<rparr> else pH"
  have ly: "ys \<noteq> [] \<Longrightarrow> \<exists>ex. ld m (last ys) = Some ex \<and> last ys \<noteq> a \<and> last ys \<noteq> 0 \<and> last ys \<in> set ys"
    using dls_nonzero [OF l(1), of "last ys"] ne by auto
  obtain m2 where m2: "(if prev eh \<noteq> 0 then
              do { m \<leftarrow> upd m1 (prev eh) (\<lambda>e. e\<lparr>next := a\<rparr>); Some (m, pH) }
            else Some (m1, pH\<lparr>first := a\<rparr>)) = Some (m2, ?pH)"
    "length m2 = length m"
    "ld m2 = (if ys \<noteq> [] then (ld m1)(last ys \<mapsto> (the (ld m (last ys)))\<lparr>next := a\<rparr>) else ld m1)"
  proof (cases "ys = []")
    case True
    with eh m1 that show thesis by simp
  next
    case False
    with ly obtain ey where ey: "ld m (last ys) = Some ey" "last ys \<noteq> 0" "last ys \<noteq> a" by auto
    with m1(2) have "ld m1 (last ys) = Some ey" by simp
    from ld_upd [OF this, of "\<lambda>e. e\<lparr>next := a\<rparr>"] False eh m1 ey that show thesis by fastforce
  qed
  have "ld m2 c = Some eh" using m1 m2 ne eh by (cases "ys = []") auto
  from ld_upd [OF this, of "\<lambda>e. e\<lparr>prev := a\<rparr>"] obtain m3 where
    m3: "upd m2 c (\<lambda>e. e\<lparr>prev := a\<rparr>) = Some m3" "ld m3 = (ld m2)(c \<mapsto> eh\<lparr>prev := a\<rparr>)"
    "length m3 = length m2" by auto
  have "dls (ld m3) 0 (ys @ a # c # zs) 0"
  proof (rule dls_insert_before [OF l(1-3) a0])
    show "links (ld m3 a) = Some (last (0 # ys), c)" using m1 m2 m3 ne eh ly by (cases "ys = []") auto
    show "links (ld m3 (last ys)) = map_option (\<lambda>(p, n). (p, a)) (links (ld m (last ys)))" if "ys \<noteq> []"
      using that m3 m2 ly ne by auto
    show "links (ld m3 c) = map_option (\<lambda>(p, n). (a, n)) (links (ld m c))" using m3 eh by simp
    show "links (ld m3 y) = links (ld m y)" if "y \<in> set (butlast ys) \<union> set zs" for y
    proof -
      have "ys \<noteq> [] \<Longrightarrow> last ys \<notin> set (butlast ys)"
        using l(2) by (metis append_butlast_last_id distinct_append not_distinct_conv_prefix)
      moreover have "ys \<noteq> [] \<Longrightarrow> last ys \<notin> set zs" using l(2) by (auto simp: disjoint_iff)
      ultimately have "y \<noteq> a" "y \<noteq> c" "ys \<noteq> [] \<longrightarrow> y \<noteq> last ys"
        using that ne by (auto dest: in_set_butlastD)
      then show ?thesis using m1 m2 m3 by simp
    qed
  qed
  moreover have "linkBefore m pH c a = Some (m3, ?pH)" using m1 m2 m3 eh by (simp add: linkBefore_def)
  moreover have "frame m pH (insert a (set (ys @ c # zs))) m3 ?pH"
    using m1 m2 m3 l(4) ly eh by (cases "ys = []") (auto simp: frame_def)
  moreover have "first ?pH = hd (ys @ [a])" using f by (cases ys) simp_all
  ultimately show ?thesis by blast
qed

text \<open>\<^verbatim>\<open>insertElement\<close> without a bucket table, and with one.\<close>

lemma insertElement_None:
  assumes "dls (ld m) 0 xs 0" "distinct xs" "a \<notin> set xs" "ld m a = Some e" "first pH = hd (xs @ [0])"
  shows "\<exists>m' pH'. insertElement m pH None a = Some (m', pH') \<and> dls (ld m') 0 (a # xs) 0 \<and> first pH' = a \<and>
    frame m pH (insert a (set xs)) m' pH'"
  using linkFirst_ok [OF assms] by (simp add: insertElement_def)

lemma insertElement_Some:
  assumes l: "dls (ld m) 0 xs 0" "distinct xs" "a \<notin> set xs" "ld m a = Some e"
    and f: "first pH = hd (xs @ [0])"
    and t: "ht pH = Some t" "bkt f xs t" "f a < length t"
  shows "\<exists>m' pH' t'. insertElement m pH (Some (f a)) a = Some (m', pH') \<and>
    dls (ld m') 0 (place f a xs) 0 \<and> first pH' = hd (place f a xs) \<and> bkt f (place f a xs) t' \<and>
    length t' = length t \<and> frame m (pH\<lparr>ht := Some t'\<rparr>) (insert a (set xs)) m' pH'"
proof -
  let ?t = "t[f a := \<lparr>ht_count = ht_count (t ! f a) + 1, chain = a\<rparr>]"
  let ?pH = "pH\<lparr>ht := Some ?t\<rparr>"
  note b = bkt_place [OF t(2,3)]
  show ?thesis
  proof (cases "seg f (f a) xs = []")
    case True
    then have "ht_count (t ! f a) = 0" "place f a xs = a # xs"
      using t by (simp_all add: bkt_def place_def seg_empty_iff)
    then show ?thesis
      using linkFirst_ok [OF l, of ?pH] f t b by (auto simp: insertElement_def rd_def intro!: exI [of _ ?t])
  next
    case False
    let ?c = "hd (seg f (f a) xs)"
    obtain ys zs' where sp: "xs = ys @ seg f (f a) xs @ zs'" "f a \<notin> f ` set ys"
      by (rule grouped_split [OF _ False]) (use t in \<open>simp_all add: bkt_def\<close>)
    define zs where "zs = tl (seg f (f a) xs) @ zs'"
    have xs: "xs = ys @ ?c # zs" using sp(1) False zs_def by (cases "seg f (f a) xs") auto
    have fc: "f ?c = f a" using False set_seg [of f "f a" xs] hd_in_set by fastforce
    have "\<forall>x \<in> set ys. f x \<noteq> f a" using sp(2) by (metis rev_image_eqI)
    then have "takeWhile (\<lambda>x. f x \<noteq> f a) (ys @ ?c # zs) = ys" "dropWhile (\<lambda>x. f x \<noteq> f a) (ys @ ?c # zs) = ?c # zs"
      using fc by (simp_all add: takeWhile_append2 dropWhile_append2)
    then have pl: "place f a xs = ys @ a # ?c # zs"
      using xs False by (simp add: place_def seg_empty_iff)
    have c: "ht_count (t ! f a) \<noteq> 0" "chain (t ! f a) = ?c" "?c \<noteq> 0"
      using t False dls_nonzero [OF l(1), of ?c] xs by (auto simp: bkt_def) (metis in_set_conv_decomp)
    have "hd (xs @ [0]) = hd (ys @ [?c])" by (subst xs) (cases ys; simp)
    then have "first ?pH = hd (ys @ [?c])" using f by simp
    from linkBefore_ok [OF _ _ _ l(4) this, of zs] l xs
    obtain m' pH' where "linkBefore m ?pH ?c a = Some (m', pH')" "dls (ld m') 0 (ys @ a # ?c # zs) 0"
      "first pH' = hd (ys @ [a])" "frame m ?pH (insert a (set xs)) m' pH'" by metis
    moreover have "hd (ys @ [a]) = hd (ys @ a # ?c # zs)" by (cases ys) simp_all
    ultimately show ?thesis
      using c pl t b by (auto simp: insertElement_def rd_def intro!: exI [of _ ?t])
  qed
qed

section \<open>Keys\<close>

text \<open>A key is a terminated string; keys are compared and hashed up to case.\<close>

definition cstr :: "u8 list \<Rightarrow> bool" where "cstr z \<longleftrightarrow> 0 \<in> set z"

definition kfold :: "u8 list \<Rightarrow> u8 list" where
  "kfold z = map sqlite3UpperToLower (takeWhile (\<lambda>c. c \<noteq> 0) z)"

lemma cstr_split: "cstr z \<Longrightarrow> \<exists>r. z = takeWhile (\<lambda>c. c \<noteq> 0) z @ 0 # r"
  by (induction z) (auto simp: cstr_def)

lemma strICmp_cstr:
  assumes "cstr a" "cstr b"
  shows "\<exists>d. sqlite3StrICmp a b = Some d \<and> (d = 0 \<longleftrightarrow> kfold a = kfold b)"
proof -
  obtain r r' where "a = takeWhile (\<lambda>c. c \<noteq> 0) a @ 0 # r" "b = takeWhile (\<lambda>c. c \<noteq> 0) b @ 0 # r'"
    using cstr_split assms by metis
  moreover have "0 \<notin> set (takeWhile (\<lambda>c. c \<noteq> 0) z)" for z :: "u8 list" by (auto dest: set_takeWhileD)
  ultimately show ?thesis
    using strICmp_terminated [of "takeWhile (\<lambda>c. c \<noteq> 0) a" "takeWhile (\<lambda>c. c \<noteq> 0) b" r r']
    by (metis kfold_def)
qed

lemma strHashLoop_fold:
  "cstr z \<Longrightarrow> strHashLoop h z = Some (fold (\<lambda>c h. (h + ucast c) * 0x9e3779b1) (kfold z) h)"
  by (induction z arbitrary: h) (auto simp: cstr_def kfold_def)

definition hashOf :: "u8 list \<Rightarrow> nat" where
  "hashOf k = unat (fold (\<lambda>c h. (h + ucast c) * 0x9e3779b1) k (0 :: u32))"

lemma strHash_cstr: "cstr z \<Longrightarrow> strHash z = Some (hashOf (kfold z))"
  by (simp add: strHash_def strHashLoop_fold hashOf_def)

section \<open>The invariant\<close>

definition keyAt :: "heap \<Rightarrow> nat \<Rightarrow> u8 list" where "keyAt m x = fst (the (cont (ld m x)))"
definition dataAt :: "heap \<Rightarrow> nat \<Rightarrow> nat" where "dataAt m x = snd (the (cont (ld m x)))"
definition hf :: "heap \<Rightarrow> nat \<Rightarrow> nat \<Rightarrow> nat" where "hf m n x = hashOf (kfold (keyAt m x)) mod n"

lemma at_Some [simp]: "ld m x = Some e \<Longrightarrow> keyAt m x = pKey e" "ld m x = Some e \<Longrightarrow> dataAt m x = data e"
  by (simp_all add: keyAt_def dataAt_def)

lemma at_cong:
  assumes "\<forall>x. cont (ld m' x) = cont (ld m x)"
  shows "keyAt m' = keyAt m" "dataAt m' = dataAt m" "hf m' = hf m"
  using assms by (simp_all add: fun_eq_iff keyAt_def dataAt_def hf_def)

definition hinv :: "heap \<Rightarrow> hash \<Rightarrow> nat list \<Rightarrow> bool" where
  "hinv m pH xs \<longleftrightarrow> dls (ld m) 0 xs 0 \<and> distinct xs \<and> first pH = hd (xs @ [0]) \<and>
     (\<forall>x \<in> set xs. cstr (keyAt m x) \<and> dataAt m x \<noteq> 0) \<and>
     distinct (map (\<lambda>x. kfold (keyAt m x)) xs) \<and>
     (case ht pH of None \<Rightarrow> htsize pH = 0
      | Some t \<Rightarrow> length t = htsize pH \<and> 0 < htsize pH \<and> bkt (hf m (htsize pH)) xs t)"

definition lookup :: "heap \<Rightarrow> nat list \<Rightarrow> u8 list \<Rightarrow> nat" where
  "lookup m xs k = (case find (\<lambda>x. kfold (keyAt m x) = k) xs of None \<Rightarrow> 0 | Some x \<Rightarrow> dataAt m x)"

lemma find_key:
  assumes "distinct (map g xs)" "x \<in> set xs" "g x = k"
  shows "find (\<lambda>x. g x = k) xs = Some x"
proof -
  obtain y where y: "find (\<lambda>x. g x = k) xs = Some y" "y \<in> set xs" "g y = k"
    using assms(2,3) by (metis (mono_tags, lifting) find_None_iff find_Some_iff nth_mem option.exhaust)
  then have "y = x" using assms by (metis distinct_map inj_onD)
  with y show ?thesis by simp
qed

lemma find_mem: "find P xs = Some x \<Longrightarrow> x \<in> set xs \<and> P x"
  by (auto simp: find_Some_iff)

lemma lookup_eqI:
  assumes "distinct (map (\<lambda>x. kfold (keyAt m x)) xs)"
    and "\<And>x. x \<in> set xs \<Longrightarrow> S (kfold (keyAt m x)) = dataAt m x"
    and "\<And>k. k \<notin> (\<lambda>x. kfold (keyAt m x)) ` set xs \<Longrightarrow> S k = 0"
  shows "lookup m xs = S"
proof
  fix k
  show "lookup m xs k = S k"
  proof (cases "k \<in> (\<lambda>x. kfold (keyAt m x)) ` set xs")
    case True
    then obtain x where "x \<in> set xs" "kfold (keyAt m x) = k" by auto
    with find_key [OF assms(1) this] assms(2) [of x] show ?thesis by (simp add: lookup_def)
  next
    case False
    then have "find (\<lambda>x. kfold (keyAt m x) = k) xs = None" by (auto simp: find_None_iff)
    with False assms(3) show ?thesis by (simp add: lookup_def)
  qed
qed

lemma lookup_at:
  assumes "distinct (map (\<lambda>x. kfold (keyAt m x)) xs)"
  shows "x \<in> set xs \<Longrightarrow> lookup m xs (kfold (keyAt m x)) = dataAt m x"
    and "k \<notin> (\<lambda>x. kfold (keyAt m x)) ` set xs \<Longrightarrow> lookup m xs k = 0"
proof -
  show "x \<in> set xs \<Longrightarrow> lookup m xs (kfold (keyAt m x)) = dataAt m x"
    using find_key [OF assms, of x] by (simp add: lookup_def)
  show "k \<notin> (\<lambda>x. kfold (keyAt m x)) ` set xs \<Longrightarrow> lookup m xs k = 0"
    by (auto simp: lookup_def find_None_iff split: option.split dest!: find_mem)
qed

lemma card_lookup:
  assumes "hinv m pH xs"
  shows "card {k. lookup m xs k \<noteq> 0} = length xs"
proof -
  have d: "distinct (map (\<lambda>x. kfold (keyAt m x)) xs)" and nz: "\<forall>x \<in> set xs. dataAt m x \<noteq> 0" using assms by (simp_all add: hinv_def)
  have "lookup m xs k \<noteq> 0 \<longleftrightarrow> k \<in> (\<lambda>x. kfold (keyAt m x)) ` set xs" for k
    using lookup_at [OF d] nz by (metis imageE)
  then have "{k. lookup m xs k \<noteq> 0} = set (map (\<lambda>x. kfold (keyAt m x)) xs)" by auto
  then show ?thesis using distinct_card [OF d] by simp
qed

section \<open>Searching\<close>

lemma findLoop_ok:
  assumes "dls (ld m) p (us @ vs) q" "\<forall>x \<in> set us. cstr (keyAt m x)" "cstr key"
  shows "findLoop m (length us) (hd (us @ vs @ [q])) key =
    Some (case find (\<lambda>x. kfold (keyAt m x) = kfold key) us of None \<Rightarrow> 0 | Some x \<Rightarrow> x)"
  using assms(1,2)
proof (induction us arbitrary: p)
  case (Cons u us)
  then obtain e where e: "ld m u = Some e" "next e = hd (us @ vs @ [q])" "dls (ld m) u (us @ vs) q"
    by auto
  obtain d where "sqlite3StrICmp (pKey e) key = Some d" "d = 0 \<longleftrightarrow> kfold (pKey e) = kfold key"
    using strICmp_cstr [of "pKey e" key] Cons.prems(2) assms(3) e by auto
  with e Cons.IH [OF e(3)] Cons.prems(2) show ?case by auto
qed simp

lemma find_seg:
  "(\<And>x. x \<in> set xs \<Longrightarrow> P x \<Longrightarrow> f x = h) \<Longrightarrow> find P (seg f h xs) = find P xs"
  by (induction xs) auto

lemma findElement_ok:
  assumes inv: "hinv m pH xs" "ht pH = None \<Longrightarrow> hcount pH = length xs" and k: "cstr key"
  shows "\<exists>h. findElementWithHash m pH key =
      Some (case find (\<lambda>x. kfold (keyAt m x) = kfold key) xs of None \<Rightarrow> 0 | Some x \<Rightarrow> x, h) \<and>
    (ht pH \<noteq> None \<longrightarrow> h = hashOf (kfold key) mod htsize pH)"
proof (cases "ht pH")
  case None
  with findLoop_ok [of m 0 xs "[]" 0 key] inv k show ?thesis
    by (simp add: hinv_def findElementWithHash_def)
next
  case (Some t)
  let ?n = "htsize pH" and ?h = "hashOf (kfold key) mod htsize pH"
  let ?f = "hf m ?n"
  have t: "length t = ?n" "0 < ?n" "bkt ?f xs t" using inv Some by (simp_all add: hinv_def)
  have h: "?h < length t" using t by simp
  have "findLoop m (length (seg ?f ?h xs)) (chain (t ! ?h)) key =
    Some (case find (\<lambda>x. kfold (keyAt m x) = kfold key) (seg ?f ?h xs) of None \<Rightarrow> 0 | Some x \<Rightarrow> x)"
  proof (cases "seg ?f ?h xs = []")
    case False
    obtain ys zs where sp: "xs = ys @ seg ?f ?h xs @ zs"
      by (rule grouped_split [OF _ False]) (use t in \<open>simp_all add: bkt_def\<close>)
    have "dls (ld m) 0 (ys @ seg ?f ?h xs @ zs) 0" using inv sp by (simp add: hinv_def)
    then have "dls (ld m) (last (0 # ys)) (seg ?f ?h xs @ zs) 0" by (simp add: dls_append)
    moreover have "chain (t ! ?h) = hd (seg ?f ?h xs @ zs @ [0])" using t(3) h False by (simp add: bkt_def)
    ultimately show ?thesis
      using findLoop_ok [of m _ "seg ?f ?h xs" zs 0 key] inv k by (simp add: hinv_def set_seg)
  qed simp
  moreover have "find (\<lambda>x. kfold (keyAt m x) = kfold key) (seg ?f ?h xs) =
      find (\<lambda>x. kfold (keyAt m x) = kfold key) xs"
    by (rule find_seg) (simp add: hf_def)
  moreover have "ht_count (t ! ?h) = length (seg ?f ?h xs)" using t(3) h by (simp add: bkt_def)
  ultimately show ?thesis
    using Some h k by (simp add: findElementWithHash_def strHash_cstr rd_def)
qed

lemma find_cases:
  assumes "hinv m pH xs"
  obtains (absent) "find (\<lambda>x. kfold (keyAt m x) = k) xs = None" "lookup m xs k = 0"
      "k \<notin> (\<lambda>x. kfold (keyAt m x)) ` set xs"
  | (present) a e ys zs where "find (\<lambda>x. kfold (keyAt m x) = k) xs = Some a" "xs = ys @ a # zs" "a \<noteq> 0"
      "ld m a = Some e" "kfold (pKey e) = k" "data e \<noteq> 0" "lookup m xs k = data e"
proof (cases "find (\<lambda>x. kfold (keyAt m x) = k) xs")
  case None
  with absent show thesis by (auto simp: lookup_def find_None_iff)
next
  case (Some a)
  then have a: "a \<in> set xs" "kfold (keyAt m a) = k" by (auto dest!: find_mem)
  with assms obtain e where e: "ld m a = Some e" "a \<noteq> 0" using dls_nonzero by (force simp: hinv_def)
  obtain ys zs where "xs = ys @ a # zs" using a(1) split_list by fast
  with Some a e assms show thesis by (intro present [of a ys zs e]) (auto simp: hinv_def lookup_def)
qed

section \<open>Clearing\<close>

lemma hashClearLoop_ok:
  assumes "dls (ld m) p xs 0" "distinct xs" "length xs \<le> fuel"
  shows "\<exists>m'. hashClearLoop fuel m (hd (xs @ [0])) = Some m' \<and> length m' = length m \<and>
    (\<forall>x. ld m' x = (if x \<in> set xs then None else ld m x))"
  using assms
proof (induction xs arbitrary: m p fuel)
  case Nil
  then show ?case by (simp add: hashClearLoop.simps)
next
  case (Cons x xs)
  then obtain e where e: "x \<noteq> 0" "ld m x = Some e" "next e = hd (xs @ [0])" "dls (ld m) x xs 0" by auto
  obtain fuel' where f: "fuel = Suc fuel'" using Cons.prems by (cases fuel) auto
  obtain m1 where m1: "hfree m x = Some m1" "ld m1 = (ld m)(x := None)" "length m1 = length m"
    using ld_hfree [OF e(2)] by blast
  have "dls (ld m1) x xs 0"
    using Cons.prems(2) by (intro dls_frame [OF e(4)]) (auto simp: m1(2))
  with Cons.IH [of m1 x fuel'] Cons.prems f obtain m' where
    "hashClearLoop fuel' m1 (hd (xs @ [0])) = Some m'" "length m' = length m1"
    "\<forall>y. ld m' y = (if y \<in> set xs then None else ld m1 y)" by auto
  with e f m1 show ?case by (auto simp: hashClearLoop.simps [of "Suc fuel'"])
qed

lemma hashClear_ok:
  assumes "hinv m pH xs"
  shows "\<exists>m'. sqlite3HashClear m pH = Some (m', sqlite3HashInit) \<and>
    (\<forall>x. ld m' x = (if x \<in> set xs then None else ld m x))"
proof -
  have l: "dls (ld m) 0 xs 0" "distinct xs" "first pH = hd (xs @ [0])" using assms by (simp_all add: hinv_def)
  with hashClearLoop_ok [OF l(1,2) length_le_heap [OF l(1,2)]] show ?thesis
    by (auto simp: sqlite3HashClear_def sqlite3HashInit_def)
qed

lemma hinv_init: "hinv m sqlite3HashInit []"
  by (simp add: hinv_def sqlite3HashInit_def)

section \<open>Rehashing\<close>

lemma rehashLoop_ok:
  assumes "dls (ld m) p vs 0" "dls (ld m) 0 us 0" "distinct (us @ vs)" "first pH = hd (us @ [0])"
    and "ht pH = Some t" "bkt f us t" "length t = htsize pH" "0 < htsize pH" "f = hf m (htsize pH)"
    and "\<forall>x \<in> set vs. cstr (keyAt m x)" "length vs \<le> fuel"
  shows "\<exists>m' pH' us' t'. rehashLoop fuel m pH (hd (vs @ [0])) = Some (m', pH') \<and>
    dls (ld m') 0 us' 0 \<and> distinct us' \<and> set us' = set us \<union> set vs \<and> first pH' = hd (us' @ [0]) \<and>
    bkt f us' t' \<and> length t' = length t \<and> frame m (pH\<lparr>ht := Some t'\<rparr>) (set us \<union> set vs) m' pH'"
  using assms
proof (induction vs arbitrary: m p us pH t fuel)
  case Nil
  then show ?case by (auto simp: rehashLoop.simps frame_def intro!: exI [of _ us] exI [of _ t])
next
  case (Cons a vs)
  then obtain e where e: "a \<noteq> 0" "ld m a = Some e" "next e = hd (vs @ [0])" "dls (ld m) a vs 0" by auto
  obtain fuel' where fuel: "fuel = Suc fuel'" using Cons.prems by (cases fuel) auto
  have fa: "strHash (pKey e) = Some (hashOf (kfold (pKey e)))"
    "hashOf (kfold (pKey e)) mod htsize pH = f a" "f a < length t"
    using Cons.prems(7-10) e(2) by (simp_all add: strHash_cstr hf_def)
  have d: "distinct us" "a \<notin> set us" using Cons.prems(3) by auto
  obtain m1 pH1 t1 where i: "insertElement m pH (Some (f a)) a = Some (m1, pH1)"
    "dls (ld m1) 0 (place f a us) 0" "first pH1 = hd (place f a us)" "bkt f (place f a us) t1"
    "length t1 = length t" "frame m (pH\<lparr>ht := Some t1\<rparr>) (insert a (set us)) m1 pH1"
    using insertElement_Some [OF Cons.prems(2) d e(2) Cons.prems(4-6) fa(3)] by blast
  have fr: "length m1 = length m" "\<forall>x. cont (ld m1 x) = cont (ld m x)"
    "\<forall>x. x \<notin> insert a (set us) \<longrightarrow> ld m1 x = ld m x"
    "htsize pH1 = htsize pH" "hcount pH1 = hcount pH" "ht pH1 = Some t1"
    using i(6) by (simp_all add: frame_def)
  have "\<exists>m' pH' us' t'. rehashLoop fuel' m1 pH1 (hd (vs @ [0])) = Some (m', pH') \<and>
    dls (ld m') 0 us' 0 \<and> distinct us' \<and> set us' = set (place f a us) \<union> set vs \<and> first pH' = hd (us' @ [0]) \<and>
    bkt f us' t' \<and> length t' = length t1 \<and>
    frame m1 (pH1\<lparr>ht := Some t'\<rparr>) (set (place f a us) \<union> set vs) m' pH'"
  proof (rule Cons.IH)
    show "dls (ld m1) a vs 0"
      using dls_frame [OF e(4)] fr(3) Cons.prems(3) by (metis IntI distinct.simps(2) distinct_append empty_iff insert_iff list.set_intros(2))
    show "distinct (place f a us @ vs)" using Cons.prems(3) distinct_place [of us a f] by auto
    show "first pH1 = hd (place f a us @ [0])" using i(3) hd_place(1) [of f a us] by simp
    show "\<forall>x \<in> set vs. cstr (keyAt m1 x)" using Cons.prems(10) at_cong [OF fr(2)] by simp
  qed (use i fr fuel Cons.prems at_cong [OF fr(2)] in simp_all)
  then obtain m' pH' us' t' where r: "rehashLoop fuel' m1 pH1 (hd (vs @ [0])) = Some (m', pH')"
    "dls (ld m') 0 us' 0" "distinct us'" "set us' = set (place f a us) \<union> set vs" "first pH' = hd (us' @ [0])"
    "bkt f us' t'" "length t' = length t1"
    "frame m1 (pH1\<lparr>ht := Some t'\<rparr>) (set (place f a us) \<union> set vs) m' pH'" by blast
  have "frame m (pH\<lparr>ht := Some t'\<rparr>) (set us \<union> set (a # vs)) m' pH'"
    using r(8) fr by (auto simp: frame_def)
  moreover have "rehashLoop fuel m pH (hd ((a # vs) @ [0])) = Some (m', pH')"
    using r(1) i(1) e fa fuel by (simp add: rehashLoop.simps [of "Suc fuel'"])
  ultimately show ?case using r i(5) by (intro exI [of _ m'] exI [of _ pH'] exI [of _ us'] exI [of _ t']) auto
qed

lemma hash_rehash_ok:
  assumes inv: "hinv m pH xs" and u: "\<forall>n. n \<le> usable n" and n: "0 < n"
  shows "\<exists>b m' pH' w' xs'. rehash usable w m pH n = Some (b, m', pH', w') \<and> hinv m' pH' xs' \<and>
    set xs' = set xs \<and> length m' = length m \<and> (\<forall>x. cont (ld m' x) = cont (ld m x)) \<and>
    (\<forall>x. x \<notin> set xs \<longrightarrow> ld m' x = ld m x) \<and> hcount pH' = hcount pH \<and>
    (b \<longrightarrow> ht pH' \<noteq> None) \<and> (\<not> b \<longrightarrow> ht pH' = ht pH \<and> htsize pH' = htsize pH) \<and> (w' = w \<or> w' = snd (alloc w))"
proof -
  let ?k = "if n * 16 > 1024 then 1024 div 16 else n"
  let ?z = "usable (?k * 16) div 16"
  have z: "0 < ?z"
  proof -
    have "?k * 16 div 16 \<le> ?z" using u by (intro div_le_mono) simp
    moreover have "0 < ?k" using n by simp
    ultimately show ?thesis by (metis (no_types, lifting) gr0I le_zero_eq less_numeral_extra(3) nonzero_mult_div_cancel_right zero_neq_numeral)
  qed
  let ?t = "replicate ?z \<lparr>ht_count = 0, chain = 0\<rparr>"
  let ?pH = "pH\<lparr>ht := Some ?t, htsize := ?z, first := 0\<rparr>"
  have l: "dls (ld m) 0 xs 0" "distinct xs" "first pH = hd (xs @ [0])"
    "\<forall>x \<in> set xs. cstr (keyAt m x)" using inv by (simp_all add: hinv_def)
  have "\<exists>m' pH' us' t'. rehashLoop (length m) m ?pH (hd (xs @ [0])) = Some (m', pH') \<and>
    dls (ld m') 0 us' 0 \<and> distinct us' \<and> set us' = set [] \<union> set xs \<and> first pH' = hd (us' @ [0]) \<and>
    bkt (hf m ?z) us' t' \<and> length t' = length ?t \<and> frame m (?pH\<lparr>ht := Some t'\<rparr>) (set [] \<union> set xs) m' pH'"
    by (rule rehashLoop_ok [OF l(1)]) (use l z bkt_empty length_le_heap [OF l(1,2)] in simp_all)
  then obtain m' pH' us' t' where r: "rehashLoop (length m) m ?pH (hd (xs @ [0])) = Some (m', pH')"
    "dls (ld m') 0 us' 0" "distinct us'" "set us' = set xs" "first pH' = hd (us' @ [0])"
    "bkt (hf m ?z) us' t'" "length t' = ?z" "frame m (?pH\<lparr>ht := Some t'\<rparr>) (set xs) m' pH'" by auto
  have fr: "length m' = length m" "\<forall>x. cont (ld m' x) = cont (ld m x)" "\<forall>x. x \<notin> set xs \<longrightarrow> ld m' x = ld m x"
    "htsize pH' = ?z" "hcount pH' = hcount pH" "ht pH' = Some t'"
    using r(8) by (simp_all add: frame_def)
  have "distinct (map (\<lambda>x. kfold (keyAt m x)) us')"
    using inv r(3,4) by (simp add: hinv_def distinct_map)
  then have "hinv m' pH' us'"
    using r fr inv z at_cong [OF fr(2)] by (simp add: hinv_def)
  note fin = this
  obtain b w1 where w: "alloc w = (b, w1)" by fastforce
  show ?thesis
  proof (cases "?k = htsize pH \<or> \<not> b")
    case True
    then have "\<exists>w'. rehash usable w m pH n = Some (False, m, pH, w') \<and> (w' = w \<or> w' = snd (alloc w))"
      using w by (auto simp: rehash_def Let_def)
    with inv show ?thesis by blast
  next
    case False
    then have "rehash usable w m pH n = Some (True, m', pH', w1)"
      using w r(1) l(3) by (simp add: rehash_def Let_def)
    moreover have "w1 = snd (alloc w)" using w by simp
    ultimately show ?thesis using fin r(4) fr by blast
  qed
qed

section \<open>Removing an element\<close>

lemma unlinkElement_ok:
  assumes l: "dls (ld m) 0 (ys @ a # zs) 0" "distinct (ys @ a # zs)" "ld m a = Some e"
    and f: "first pH = hd ((ys @ a # zs) @ [0])"
  shows "\<exists>m' pH'. unlinkElement m pH e = Some (m', pH') \<and> dls (ld m') 0 (ys @ zs) 0 \<and>
    first pH' = hd ((ys @ zs) @ [0]) \<and> frame m pH (set (ys @ zs)) m' pH'"
proof -
  have e: "prev e = last (0 # ys)" "next e = hd (zs @ [0])" 
    by (rule dls_split [OF l(1)]; use l(3) in simp)+
  let ?pH = "if ys = [] then pH\<lparr>first := next e\<rparr> else pH"
  have ly: "ys \<noteq> [] \<Longrightarrow> \<exists>ex. ld m (last ys) = Some ex \<and> last ys \<noteq> 0 \<and> last ys \<in> set ys"
    using dls_nonzero [OF l(1), of "last ys"] by auto
  have hz: "zs \<noteq> [] \<Longrightarrow> \<exists>ex. ld m (hd zs) = Some ex \<and> hd zs \<noteq> 0 \<and> hd zs \<in> set zs"
    using dls_nonzero [OF l(1), of "hd zs"] by auto
  have dj: "ys \<noteq> [] \<Longrightarrow> zs \<noteq> [] \<Longrightarrow> last ys \<noteq> hd zs"
    using l(2) last_in_set [of ys] hd_in_set [of zs] by fastforce
  obtain m1 where m1: "(if prev e \<noteq> 0 then
            do { m \<leftarrow> upd m (prev e) (\<lambda>p. p\<lparr>next := next e\<rparr>); Some (m, pH) }
          else Some (m, pH\<lparr>first := next e\<rparr>)) = Some (m1, ?pH)" "length m1 = length m"
    "ld m1 = (if ys \<noteq> [] then (ld m)(last ys \<mapsto> (the (ld m (last ys)))\<lparr>next := next e\<rparr>) else ld m)"
  proof (cases "ys = []")
    case True
    with e that show thesis by simp
  next
    case False
    with ly obtain ex where ex: "ld m (last ys) = Some ex" "last ys \<noteq> 0" by auto
    from ld_upd [OF this(1), of "\<lambda>p. p\<lparr>next := next e\<rparr>"] False e ex that show thesis by fastforce
  qed
  obtain m2 where m2: "(if next e \<noteq> 0 then upd m1 (next e) (\<lambda>n. n\<lparr>prev := prev e\<rparr>) else Some m1) = Some m2"
    "length m2 = length m"
    "ld m2 = (if zs \<noteq> [] then (ld m1)(hd zs \<mapsto> (the (ld m (hd zs)))\<lparr>prev := prev e\<rparr>) else ld m1)"
  proof (cases "zs = []")
    case True
    with e m1 that show thesis by simp
  next
    case False
    with hz obtain ex where ex: "ld m (hd zs) = Some ex" "hd zs \<noteq> 0" by auto
    with m1(3) False dj have "ld m1 (hd zs) = Some ex" by auto
    from ld_upd [OF this(1), of "\<lambda>n. n\<lparr>prev := prev e\<rparr>"] False e ex m1(2) that show thesis by fastforce
  qed
  have "dls (ld m2) 0 (ys @ zs) 0"
  proof (rule dls_delete [OF l(1,2)])
    show "links (ld m2 (last ys)) = map_option (\<lambda>(p, n). (p, hd (zs @ [0]))) (links (ld m (last ys)))" if "ys \<noteq> []"
      using that m1(3) m2(3) ly dj e by auto
    show "links (ld m2 (hd zs)) = map_option (\<lambda>(p, n). (last (0 # ys), n)) (links (ld m (hd zs)))" if "zs \<noteq> []"
      using that m1(3) m2(3) hz dj e by auto
    show "links (ld m2 y) = links (ld m y)" if "y \<in> set (butlast ys) \<union> set (tl zs)" for y
    proof -
      have "ys \<noteq> [] \<Longrightarrow> last ys \<notin> set (butlast ys)"
        using l(2) by (metis append_butlast_last_id distinct_append not_distinct_conv_prefix)
      moreover have "zs \<noteq> [] \<Longrightarrow> hd zs \<notin> set (tl zs)" using l(2) by (cases zs) auto
      moreover have "set (butlast ys) \<subseteq> set ys" "set (tl zs) \<subseteq> set zs"
        by (auto dest: in_set_butlastD list.set_sel(2)) (metis list.sel(2) list.set_sel(2))
      ultimately have "ys \<noteq> [] \<longrightarrow> y \<noteq> last ys" "zs \<noteq> [] \<longrightarrow> y \<noteq> hd zs"
        using that l(2) ly hz by (auto simp: disjoint_iff)
      then show ?thesis using m1(3) m2(3) by simp
    qed
  qed
  moreover have "unlinkElement m pH e = Some (m2, ?pH)"
    using m1(1) m2(1) by (simp add: unlinkElement_def del: split_paired_Ex)
  moreover have "frame m pH (set (ys @ zs)) m2 ?pH"
    using m1 m2 ly hz dj by (cases "ys = []"; cases "zs = []") (auto simp: frame_def)
  moreover have "first ?pH = hd ((ys @ zs) @ [0])" using f e by (cases ys) simp_all
  ultimately show ?thesis by blast
qed

lemma removeElement_ok:
  assumes inv: "hinv m pH (ys @ a # zs)" "hcount pH = length (ys @ a # zs)" "ld m a = Some e"
    and h: "ht pH \<noteq> None \<Longrightarrow> h = hf m (htsize pH) a"
  shows "\<exists>m' pH'. removeElementGivenHash m pH a h = Some (m', pH') \<and> hinv m' pH' (ys @ zs) \<and>
    hcount pH' = length (ys @ zs) \<and> ld m' a = None \<and> (\<forall>x. x \<noteq> a \<longrightarrow> cont (ld m' x) = cont (ld m x))"
proof -
  let ?xs = "ys @ a # zs" and ?n = "htsize pH"
  have l: "dls (ld m) 0 ?xs 0" "distinct ?xs" "first pH = hd (?xs @ [0])"
    using inv(1) by (simp_all add: hinv_def del: hd_append)
  have e: "next e = hd (zs @ [0])" by (rule dls_split [OF l(1)]) (use inv(3) in simp)
  obtain m1 pH1 where u: "unlinkElement m pH e = Some (m1, pH1)" "dls (ld m1) 0 (ys @ zs) 0"
    "first pH1 = hd ((ys @ zs) @ [0])" "frame m pH (set (ys @ zs)) m1 pH1"
    using unlinkElement_ok [OF l(1,2) inv(3) l(3)] by blast
  have fr: "\<forall>x. cont (ld m1 x) = cont (ld m x)" "ld m1 a = Some e"
    "htsize pH1 = ?n" "hcount pH1 = hcount pH" "ht pH1 = ht pH"
    using u(4) l(2) inv(3) by (simp_all add: frame_def)
  obtain m2 where m2: "hfree m1 a = Some m2" "ld m2 = (ld m1)(a := None)"
    using ld_hfree [OF fr(2)] by blast
  have same: "keyAt m2 x = keyAt m x" "dataAt m2 x = dataAt m x" "hf m2 k x = hf m k x" if "x \<noteq> a" for x k
    using that fr(1) m2(2) by (simp_all add: keyAt_def dataAt_def hf_def)
  obtain pH2 where p2: "(case ht pH1 of
            None \<Rightarrow> Some pH1
          | Some t \<Rightarrow>
              do {
                b \<leftarrow> rd t h;
                Some (pH1\<lparr>ht := Some (t[h := \<lparr>ht_count = ht_count b - 1,
                  chain = (if chain b = a then next e else chain b)\<rparr>])\<rparr>)
              }) = Some pH2" "first pH2 = first pH1" "htsize pH2 = ?n" "hcount pH2 = hcount pH"
    "case ht pH2 of None \<Rightarrow> ?n = 0 | Some t \<Rightarrow> length t = ?n \<and> 0 < ?n \<and> bkt (hf m ?n) (ys @ zs) t"
  proof (cases "ht pH")
    case None
    with inv(1) fr that show thesis by (simp add: hinv_def)
  next
    case (Some t)
    with inv(1) have t: "length t = ?n" "0 < ?n" "bkt (hf m ?n) ?xs t" by (simp_all add: hinv_def)
    have "h = hf m ?n a" "hf m ?n a < length t" using h Some t by (simp_all add: bkt_def)
    with t(1,2) bkt_delete [OF t(3) l(2), folded e] Some fr that show thesis by (simp add: rd_def)
  qed
  have bc: "bkt (hf m2 k) (ys @ zs) t \<longleftrightarrow> bkt (hf m k) (ys @ zs) t" for k t
    by (intro bkt_cong same(3)) (use l(2) in auto)
  have dl: "dls (ld m2) 0 (ys @ zs) 0" using u(2) l(2) by (auto intro!: dls_frame [OF u(2)] simp: m2(2))
  have na: "x \<noteq> a" if "x \<in> set (ys @ zs)" for x using that l(2) by auto
  have "map (\<lambda>x. kfold (keyAt m2 x)) (ys @ zs) = map (\<lambda>x. kfold (keyAt m x)) (ys @ zs)"
    using same(1) [OF na] by (intro map_cong) simp_all
  moreover have "distinct (map (\<lambda>x. kfold (keyAt m x)) (ys @ zs))" using inv(1) by (simp add: hinv_def)
  ultimately have "distinct (map (\<lambda>x. kfold (keyAt m2 x)) (ys @ zs))" by (simp only:)
  moreover have "\<forall>x \<in> set (ys @ zs). cstr (keyAt m2 x) \<and> dataAt m2 x \<noteq> 0"
    using inv(1) same(1,2) [OF na] by (auto simp: hinv_def)
  ultimately have hi: "hinv m2 (pH2\<lparr>hcount := k\<rparr>) (ys @ zs)" for k
    using dl l(2) u(3) p2 bc by (auto simp: hinv_def split: option.splits)
  have step: "removeElementGivenHash m pH a h =
      (let pH = pH2\<lparr>hcount := hcount pH2 - 1\<rparr> in if hcount pH = 0 then sqlite3HashClear m2 pH else Some (m2, pH))"
    using inv(3) u(1) p2(1) m2(1) by (simp add: removeElementGivenHash_def)
  have c2: "ld m2 a = None" "\<forall>x. x \<noteq> a \<longrightarrow> cont (ld m2 x) = cont (ld m x)" using fr(1) m2(2) by simp_all
  show ?thesis
  proof (cases "ys @ zs = []")
    case True
    then obtain m3 where m3: "sqlite3HashClear m2 (pH2\<lparr>hcount := 0\<rparr>) = Some (m3, sqlite3HashInit)" "\<forall>x. ld m3 x = ld m2 x"
      using hashClear_ok [OF hi, of 0] by auto
    then have "removeElementGivenHash m pH a h = Some (m3, sqlite3HashInit)"
      using step p2(4) inv(2) True by (simp add: Let_def)
    moreover have "hcount sqlite3HashInit = length (ys @ zs)" using True by (simp add: sqlite3HashInit_def)
    ultimately show ?thesis using m3(2) c2 True hinv_init [of m3] by auto
  next
    case False
    then have "removeElementGivenHash m pH a h = Some (m2, pH2\<lparr>hcount := length (ys @ zs)\<rparr>)"
      using step p2(4) inv(2) by (auto simp: Let_def)
    with hi c2 show ?thesis by auto
  qed
qed


section \<open>The dictionary interface\<close>

text \<open>A partial map from case-folded keys to nonzero data, here as a function that is \<open>0\<close>
  where the map is undefined. \<open>R s S\<close> says that the state \<open>s\<close> represents \<open>S\<close>.\<close>

datatype dict_op = DInsert "u8 list" nat | DFind "u8 list"

fun dict_key :: "dict_op \<Rightarrow> u8 list" where
  "dict_key (DInsert k d) = k"
| "dict_key (DFind k) = k"

fun dict_run ::
  "('s \<Rightarrow> u8 list \<Rightarrow> nat option) \<Rightarrow> (oom \<Rightarrow> 's \<Rightarrow> u8 list \<Rightarrow> nat \<Rightarrow> (nat \<times> 's \<times> oom) option) \<Rightarrow>
   oom \<Rightarrow> 's \<Rightarrow> dict_op list \<Rightarrow> (nat list \<times> 's \<times> oom) option" where
  "dict_run fnd ins w s [] = Some ([], s, w)"
| "dict_run fnd ins w s (DInsert k d # ops) =
     do { (r, s, w) \<leftarrow> ins w s k d; (rs, s, w) \<leftarrow> dict_run fnd ins w s ops; Some (r # rs, s, w) }"
| "dict_run fnd ins w s (DFind k # ops) =
     do { r \<leftarrow> fnd s k; (rs, s, w) \<leftarrow> dict_run fnd ins w s ops; Some (r # rs, s, w) }"

text \<open>One insertion, with the outcomes \<open>w\<close> of the allocations before and \<open>w'\<close> after it. Changing or
  deleting an entry (storing \<open>0\<close>) allocates nothing and cannot fail. A new key is refused exactly when
  the first allocation fails, which is reported by returning the data. Once the table has ten
  entries a second allocation may be made, for rehashing; its outcome does not matter.\<close>

definition dict_insert ::
  "(u8 list \<Rightarrow> nat) \<Rightarrow> oom \<Rightarrow> u8 list \<Rightarrow> nat \<Rightarrow> nat \<Rightarrow> (u8 list \<Rightarrow> nat) \<Rightarrow> oom \<Rightarrow> bool" where
  "dict_insert S w k d r S' w' \<longleftrightarrow>
     (if S k \<noteq> 0 \<or> d = 0 then r = S k \<and> S' = S(k := d) \<and> w' = w
      else (case alloc w of
              (False, w1) \<Rightarrow> r = d \<and> S' = S \<and> w' = w1
            | (True, w1) \<Rightarrow> r = 0 \<and> S' = S(k := d) \<and>
                (w' = w1 \<or> 10 \<le> card {j. S' j \<noteq> 0} \<and> w' = snd (alloc w1))))"

text \<open>The results of a run, the map it ends with and the allocations left.\<close>

inductive dict_spec :: "(u8 list \<Rightarrow> nat) \<Rightarrow> oom \<Rightarrow> dict_op list \<Rightarrow> nat list \<Rightarrow> (u8 list \<Rightarrow> nat) \<Rightarrow> oom \<Rightarrow> bool" where
  Nil: "dict_spec S w [] [] S w"
| Find: "dict_spec S w ops rs S' w' \<Longrightarrow> dict_spec S w (DFind k # ops) (S (kfold k) # rs) S' w'"
| Insert: "dict_insert S w (kfold k) d r S1 w1 \<Longrightarrow> dict_spec S1 w1 ops rs S' w' \<Longrightarrow>
    dict_spec S w (DInsert k d # ops) (r # rs) S' w'"

text \<open>The results of a dictionary whose allocations never fail.\<close>

fun dict_eval :: "(u8 list \<Rightarrow> nat) \<Rightarrow> dict_op list \<Rightarrow> nat list \<times> (u8 list \<Rightarrow> nat)" where
  "dict_eval S [] = ([], S)"
| "dict_eval S (DFind k # ops) = (case dict_eval S ops of (rs, S') \<Rightarrow> (S (kfold k) # rs, S'))"
| "dict_eval S (DInsert k d # ops) =
     (case dict_eval (S(kfold k := d)) ops of (rs, S') \<Rightarrow> (S (kfold k) # rs, S'))"

lemma alloc_all_true: "False \<notin> set w \<Longrightarrow> fst (alloc w) \<and> False \<notin> set (snd (alloc w))"
  by (cases w rule: alloc.cases) auto

lemma dict_insert_never_fails:
  assumes "dict_insert S w k d r S' w'" "False \<notin> set w"
  shows "r = S k \<and> S' = S(k := d) \<and> False \<notin> set w'"
proof -
  obtain w1 where w1: "alloc w = (True, w1)" "False \<notin> set w1" using alloc_all_true [OF assms(2)] by (cases "alloc w") auto
  then have "False \<notin> set (snd (alloc w1))" using alloc_all_true by blast
  with w1 assms show ?thesis by (auto simp: dict_insert_def split: if_splits)
qed

lemma dict_spec_never_fails: "dict_spec S w ops rs S' w' \<Longrightarrow> False \<notin> set w \<Longrightarrow> dict_eval S ops = (rs, S')"
  by (induction rule: dict_spec.induct) (auto dest: dict_insert_never_fails)

inductive_simps dict_spec_simps: "dict_spec S w [] rs S' w'" "dict_spec S w (DFind k # ops) rs S' w'"
  "dict_spec S w (DInsert k d # ops) rs S' w'"

text \<open>Inserting new keys, up to nine entries, takes one allocation each.\<close>

lemma dict_fresh:
  assumes "dict_spec S (replicate (length kds) True @ w) (map (\<lambda>(k, d). DInsert k d) kds @ ops) rs S' w'"
    and "distinct (map (kfold \<circ> fst) kds)" "list_all (\<lambda>(k, d). d \<noteq> 0 \<and> S (kfold k) = 0) kds"
    and "finite {j. S j \<noteq> 0}" "card {j. S j \<noteq> 0} + length kds < 10"
  shows "\<exists>rs'. rs = replicate (length kds) 0 @ rs' \<and> dict_spec (fold (\<lambda>(k, d) S. S(kfold k := d)) kds S) w ops rs' S' w'"
  using assms
proof (induction kds arbitrary: S rs)
  case (Cons kd kds)
  obtain k d where kd: "kd = (k, d)" by fastforce
  let ?S = "S(kfold k := d)"
  have k: "d \<noteq> 0" "S (kfold k) = 0" using Cons.prems(3) kd by simp_all
  have "{j. ?S j \<noteq> 0} = insert (kfold k) {j. S j \<noteq> 0}" using k by auto
  then have c: "finite {j. ?S j \<noteq> 0}" "card {j. ?S j \<noteq> 0} = Suc (card {j. S j \<noteq> 0})" using Cons.prems(4) k by simp_all
  obtain r rs1 S1 w1 where i: "rs = r # rs1" "dict_insert S (True # replicate (length kds) True @ w) (kfold k) d r S1 w1"
      "dict_spec S1 w1 (map (\<lambda>(k, d). DInsert k d) kds @ ops) rs1 S' w'"
    using Cons.prems(1) by (auto simp: kd dict_spec_simps)
  then have r: "r = 0" "S1 = ?S" "w1 = replicate (length kds) True @ w"
    using k c(2) Cons.prems(5) by (auto simp: dict_insert_def)
  have l: "list_all (\<lambda>(k, d). d \<noteq> 0 \<and> ?S (kfold k) = 0) kds"
  proof (rule list.pred_mono_strong)
    show "list_all (\<lambda>(k, d). d \<noteq> 0 \<and> S (kfold k) = 0) kds" using Cons.prems(3) by simp
  next
    fix x :: "u8 list \<times> nat"
    assume "x \<in> set kds" "case x of (k, d) \<Rightarrow> d \<noteq> 0 \<and> S (kfold k) = 0"
    moreover have "kfold k \<notin> (kfold \<circ> fst) ` set kds" using Cons.prems(2) kd by simp
    with \<open>x \<in> set kds\<close> have "kfold (fst x) \<noteq> kfold k" by (metis comp_apply image_eqI)
    ultimately show "case x of (k', d') \<Rightarrow> d' \<noteq> 0 \<and> ?S (kfold k') = 0" by (auto split: prod.splits)
  qed
  have "\<exists>rs'. rs1 = replicate (length kds) 0 @ rs' \<and> dict_spec (fold (\<lambda>(k, d) S. S(kfold k := d)) kds ?S) w ops rs' S' w'"
  proof (rule Cons.IH [OF i(3) [unfolded r]])
    show "distinct (map (kfold \<circ> fst) kds)" using Cons.prems(2) by (simp add: comp_def)
    show "card {j. ?S j \<noteq> 0} + length kds < 10" unfolding c(2) using Cons.prems(5) by simp
  qed (use c l in blast)+
  then show ?case unfolding i(1) r(1) kd by (elim exE conjE) (simp del: fun_upd_apply)
qed simp

locale dictionary =
  fixes R :: "'s \<Rightarrow> (u8 list \<Rightarrow> nat) \<Rightarrow> bool"
    and fnd :: "'s \<Rightarrow> u8 list \<Rightarrow> nat option"
    and ins :: "oom \<Rightarrow> 's \<Rightarrow> u8 list \<Rightarrow> nat \<Rightarrow> (nat \<times> 's \<times> oom) option"
  assumes find_law: "R s S \<Longrightarrow> cstr k \<Longrightarrow> fnd s k = Some (S (kfold k))"
    and insert_law: "R s S \<Longrightarrow> cstr k \<Longrightarrow>
      \<exists>r s' w' S'. ins w s k d = Some (r, s', w') \<and> R s' S' \<and> dict_insert S w (kfold k) d r S' w'"
begin

lemma dict_refines:
  assumes "R s S" "\<forall>op \<in> set ops. cstr (dict_key op)"
  shows "\<exists>rs s' w' S'. dict_run fnd ins w s ops = Some (rs, s', w') \<and> R s' S' \<and> dict_spec S w ops rs S' w'"
  using assms
proof (induction ops arbitrary: s S w)
  case Nil
  then show ?case by (auto intro: dict_spec.Nil)
next
  case (Cons op ops)
  show ?case
  proof (cases op)
    case (DFind k)
    with Cons.prems have "fnd s k = Some (S (kfold k))" by (simp add: find_law)
    moreover obtain rs s' w' S' where "dict_run fnd ins w s ops = Some (rs, s', w')" "R s' S'" "dict_spec S w ops rs S' w'"
      using Cons.IH [of s S w] Cons.prems by auto
    ultimately show ?thesis using DFind dict_spec.Find [of S w ops rs S' w' k] by auto
  next
    case (DInsert k d)
    obtain r s1 w1 S1 where i: "ins w s k d = Some (r, s1, w1)" "R s1 S1" "dict_insert S w (kfold k) d r S1 w1"
      using insert_law [of s S k w d] DInsert Cons.prems by auto
    obtain rs s' w' S' where "dict_run fnd ins w1 s1 ops = Some (rs, s', w')" "R s' S'" "dict_spec S1 w1 ops rs S' w'"
      using Cons.IH [OF i(2)] Cons.prems(2) by (metis list.set_intros(2))
    with i DInsert dict_spec.Insert [OF i(3), of ops rs S' w'] show ?thesis by auto
  qed
qed

end

section \<open>The hash table implements the dictionary\<close>

definition hash_rel :: "heap \<times> hash \<Rightarrow> (u8 list \<Rightarrow> nat) \<Rightarrow> bool" where
  "hash_rel s S \<longleftrightarrow> (case s of (m, pH) \<Rightarrow>
     \<exists>xs. hinv m pH xs \<and> hcount pH = length xs \<and> lookup m xs = S)"

lemma hashFind_ok: "hash_rel s S \<Longrightarrow> cstr k \<Longrightarrow> sqlite3HashFind s k = Some (S (kfold k))"
proof -
  assume r: "hash_rel s S" and k: "cstr k"
  obtain m pH xs where s: "s = (m, pH)" "hinv m pH xs" "hcount pH = length xs" "lookup m xs = S"
    using r by (auto simp: hash_rel_def)
  obtain h where "findElementWithHash m pH k =
      Some (case find (\<lambda>x. kfold (keyAt m x) = kfold k) xs of None \<Rightarrow> 0 | Some x \<Rightarrow> x, h)"
    using findElement_ok [OF s(2) _ k] s(3) by auto
  with s show ?thesis
    by (cases rule: find_cases [OF s(2), of "kfold k"]) (auto simp: sqlite3HashFind_def elemData_def)
qed

text \<open>A new cell, not yet linked, does not disturb the table.\<close>

lemma hinv_new_cell:
  assumes "hinv m pH xs"
  shows "hinv (m @ [Some e]) pH xs \<and> lookup (m @ [Some e]) xs = lookup m xs \<and> Suc (length m) \<notin> set xs"
proof -
  let ?m = "m @ [Some e]" and ?a = "Suc (length m)"
  have l: "dls (ld m) 0 xs 0" using assms by (simp add: hinv_def)
  have na: "?a \<notin> set xs" using dls_nonzero [OF l] ld_fresh [of m] by fastforce
  then have at: "keyAt ?m x = keyAt m x" "dataAt ?m x = dataAt m x" "hf ?m k x = hf m k x" if "x \<in> set xs" for x k
    using that by (auto simp: keyAt_def dataAt_def hf_def ld_append)
  have "dls (ld ?m) 0 xs 0" using na by (intro dls_frame [OF l]) (auto simp: ld_append)
  moreover have "bkt (hf ?m k) xs t \<longleftrightarrow> bkt (hf m k) xs t" for k t by (intro bkt_cong at(3))
  moreover have "distinct (map (\<lambda>x. kfold (keyAt ?m x)) xs)"
  proof -
    have "map (\<lambda>x. kfold (keyAt ?m x)) xs = map (\<lambda>x. kfold (keyAt m x)) xs" using at by simp
    with assms show ?thesis by (simp only: hinv_def)
  qed
  moreover have "find (\<lambda>x. kfold (keyAt ?m x) = k) xs = find (\<lambda>x. kfold (keyAt m x) = k) xs" for k
    using at by (intro find_cong) auto
  ultimately show ?thesis
    using assms at na by (auto simp: hinv_def lookup_def fun_eq_iff split: option.splits dest!: find_mem)
qed

text \<open>Linking a new cell with a key that the table does not have.\<close>

lemma link_new:
  assumes inv: "hinv m pH xs" and a: "ld m a = Some e" "a \<notin> set xs" "cstr (pKey e)" "data e \<noteq> 0"
    and k: "kfold (pKey e) \<notin> (\<lambda>x. kfold (keyAt m x)) ` set xs"
    and h: "ht pH \<noteq> None \<Longrightarrow> h = hf m (htsize pH) a"
  shows "\<exists>m' pH' xs'. insertElement m pH (if ht pH \<noteq> None then Some h else None) a = Some (m', pH') \<and>
    hinv m' pH' xs' \<and> length xs' = Suc (length xs) \<and> hcount pH' = hcount pH \<and>
    lookup m' xs' = (lookup m xs)(kfold (pKey e) := data e)"
proof -
  have l: "dls (ld m) 0 xs 0" "distinct xs" "first pH = hd (xs @ [0])" using inv by (simp_all add: hinv_def)
  have fin: ?thesis if i: "insertElement m pH (if ht pH \<noteq> None then Some h else None) a = Some (m', pH')"
    "dls (ld m') 0 xs' 0" "first pH' = hd xs'" "set xs' = insert a (set xs)" "distinct xs'" "length xs' = Suc (length xs)"
    "\<forall>x. cont (ld m' x) = cont (ld m x)" "hcount pH' = hcount pH"
    "case ht pH' of None \<Rightarrow> htsize pH' = 0
      | Some t \<Rightarrow> length t = htsize pH' \<and> 0 < htsize pH' \<and> bkt (hf m (htsize pH')) xs' t" for m' pH' xs'
  proof -
    note at = at_cong [OF i(7)]
    have dk: "distinct (map (\<lambda>x. kfold (keyAt m x)) xs')"
      using inv k a i(4,5) by (auto simp: hinv_def distinct_map)
    have "lookup m' xs' = (lookup m xs)(kfold (pKey e) := data e)"
    proof (rule lookup_eqI)
      show "distinct (map (\<lambda>x. kfold (keyAt m' x)) xs')" using dk at by simp
      have dm: "distinct (map (\<lambda>x. kfold (keyAt m x)) xs)" using inv by (simp add: hinv_def)
      show "((lookup m xs)(kfold (pKey e) := data e)) (kfold (keyAt m' x)) = dataAt m' x" if "x \<in> set xs'" for x
      proof (cases "x = a")
        case False
        then have "x \<in> set xs" using that i(4) by simp
        moreover from this have "kfold (keyAt m x) \<noteq> kfold (pKey e)" using k by (metis imageI)
        ultimately show ?thesis using lookup_at(1) [OF dm, of x] at by simp
      qed (use a at in simp)
      show "((lookup m xs)(kfold (pKey e) := data e)) j = 0"
        if "j \<notin> (\<lambda>x. kfold (keyAt m' x)) ` set xs'" for j
        using that i(4) a lookup_at(2) [OF dm, of j] at by auto
    qed
    moreover have "hd xs' = hd (xs' @ [0])" using i(6) by (cases xs') simp_all
    then have "hinv m' pH' xs'"
      using i inv a dk at by (auto simp: hinv_def split: option.splits)
    ultimately show ?thesis using i by blast
  qed
  show ?thesis
  proof (cases "ht pH")
    case None
    obtain m' pH' where "insertElement m pH None a = Some (m', pH')" "dls (ld m') 0 (a # xs) 0" "first pH' = a"
      "frame m pH (insert a (set xs)) m' pH'"
      using insertElement_None [OF l(1,2) a(2,1) l(3)] by blast
    with None inv l(2) a(2) show ?thesis
      by (intro fin [of m' pH' "a # xs"]) (simp_all add: frame_def hinv_def)
  next
    case (Some t)
    let ?f = "hf m (htsize pH)"
    have t: "length t = htsize pH" "0 < htsize pH" "bkt ?f xs t" using inv Some by (simp_all add: hinv_def)
    have fa: "?f a < length t" using t by (simp add: hf_def)
    obtain m' pH' t' where "insertElement m pH (Some (?f a)) a = Some (m', pH')"
      "dls (ld m') 0 (place ?f a xs) 0" "first pH' = hd (place ?f a xs)" "bkt ?f (place ?f a xs) t'"
      "length t' = length t" "frame m (pH\<lparr>ht := Some t'\<rparr>) (insert a (set xs)) m' pH'"
      using insertElement_Some [OF l(1,2) a(2,1) l(3) Some t(3) fa] by blast
    with Some t h l(2) a(2) show ?thesis
      by (intro fin [of m' pH' "place ?f a xs"]) (simp_all add: frame_def distinct_place)
  qed
qed


text \<open>Overwriting the data of an element in place.\<close>

lemma overwrite_ok:
  assumes inv: "hinv m pH xs" and a: "a \<in> set xs" "ld m a = Some e"
    and k: "cstr key" "kfold key = kfold (pKey e)" "dat \<noteq> 0"
  shows "\<exists>m'. upd m a (\<lambda>e. e\<lparr>data := dat, pKey := key\<rparr>) = Some m' \<and> hinv m' pH xs \<and>
    lookup m' xs = (lookup m xs)(kfold key := dat)"
proof -
  obtain m' where m': "upd m a (\<lambda>e. e\<lparr>data := dat, pKey := key\<rparr>) = Some m'"
    "ld m' = (ld m)(a \<mapsto> e\<lparr>data := dat, pKey := key\<rparr>)" using ld_upd [OF a(2)] by blast
  have kf: "kfold (keyAt m' x) = kfold (keyAt m x)" for x
    using m'(2) a k by (cases "x = a") (simp_all add: keyAt_def)
  have da: "dataAt m' x = (if x = a then dat else dataAt m x)" for x
    using m'(2) by (simp add: dataAt_def)
  have hf: "hf m' = hf m" using kf by (simp add: hf_def fun_eq_iff)
  have dl: "dls (ld m') 0 xs 0"
    using inv a m'(2) dls_cong [of xs "ld m'" "ld m" 0 0] by (simp add: hinv_def)
  have cs: "cstr (keyAt m' x)" if "x \<in> set xs" for x
    using inv that m'(2) k by (cases "x = a") (auto simp: hinv_def keyAt_def)
  have hi: "hinv m' pH xs" using inv dl cs hf kf da k by (cases "ht pH") (simp_all add: hinv_def)
  have "lookup m' xs = (lookup m xs)(kfold key := dat)"
  proof (rule lookup_eqI)
    have dm: "distinct (map (\<lambda>x. kfold (keyAt m x)) xs)" using inv by (simp add: hinv_def)
    then show "distinct (map (\<lambda>x. kfold (keyAt m' x)) xs)" by (simp add: kf)
    show "((lookup m xs)(kfold key := dat)) (kfold (keyAt m' x)) = dataAt m' x" if "x \<in> set xs" for x
    proof (cases "x = a")
      case False
      then have "kfold (keyAt m x) \<noteq> kfold (keyAt m a)" using dm that a(1) by (auto simp: distinct_map inj_on_def)
      with False that k a(2) lookup_at(1) [OF dm that] show ?thesis by (simp add: kf da)
    qed (use k a kf da in simp)
    show "((lookup m xs)(kfold key := dat)) j = 0" if "j \<notin> (\<lambda>x. kfold (keyAt m' x)) ` set xs" for j
    proof -
      have "kfold (pKey e) \<in> (\<lambda>x. kfold (keyAt m x)) ` set xs" using a by (metis at_Some(1) imageI)
      with that k show ?thesis using lookup_at(2) [OF dm, of j] by (auto simp: kf)
    qed
  qed
  with m' hi show ?thesis by blast
qed

lemma hashDelete_ok:
  assumes inv: "hinv m pH xs" "hcount pH = length xs" and a: "xs = ys @ a # zs" "ld m a = Some e"
    and h: "ht pH \<noteq> None \<Longrightarrow> h = hf m (htsize pH) a"
  shows "\<exists>s'. removeElementGivenHash m pH a h = Some s' \<and> hash_rel s' ((lookup m xs)(kfold (pKey e) := 0))"
proof -
  obtain m' pH' where r: "removeElementGivenHash m pH a h = Some (m', pH')" "hinv m' pH' (ys @ zs)"
    "hcount pH' = length (ys @ zs)" "ld m' a = None" "\<forall>x. x \<noteq> a \<longrightarrow> cont (ld m' x) = cont (ld m x)"
    using removeElement_ok [of m pH ys a zs e h] assms by auto
  have at: "keyAt m' x = keyAt m x" "dataAt m' x = dataAt m x" if "x \<noteq> a" for x
    using that r(5) by (simp_all add: keyAt_def dataAt_def)
  have d: "distinct xs" "distinct (map (\<lambda>x. kfold (keyAt m x)) xs)" using inv(1) by (simp_all add: hinv_def)
  have mem: "x \<noteq> a \<and> x \<in> set xs \<and> kfold (keyAt m x) \<noteq> kfold (pKey e)" if "x \<in> set (ys @ zs)" for x
  proof -
    have "x \<noteq> a" using that d(1) a(1) by auto
    moreover have "x \<in> set xs" "a \<in> set xs" using that a(1) by auto
    ultimately show ?thesis using d(2) a(2) by (auto simp: distinct_map inj_on_def)
  qed
  have "lookup m' (ys @ zs) = (lookup m xs)(kfold (pKey e) := 0)"
  proof (rule lookup_eqI)
    show "distinct (map (\<lambda>x. kfold (keyAt m' x)) (ys @ zs))" using r(2) by (simp only: hinv_def)
    show "((lookup m xs)(kfold (pKey e) := 0)) (kfold (keyAt m' x)) = dataAt m' x" if "x \<in> set (ys @ zs)" for x
      using mem [OF that] at [of x] lookup_at(1) [OF d(2), of x] by simp
    show "((lookup m xs)(kfold (pKey e) := 0)) j = 0" if j: "j \<notin> (\<lambda>x. kfold (keyAt m' x)) ` set (ys @ zs)" for j
    proof (cases "j \<in> (\<lambda>x. kfold (keyAt m x)) ` set xs")
      case True
      then obtain x where x: "x \<in> set xs" "j = kfold (keyAt m x)" by auto
      have "x = a"
      proof (rule ccontr)
        assume "x \<noteq> a"
        then have "x \<in> set (ys @ zs)" "j = kfold (keyAt m' x)" using x a(1) at(1) by auto
        with j show False by blast
      qed
      with x a(2) show ?thesis by simp
    qed (simp add: lookup_at(2) [OF d(2)])
  qed
  with r show ?thesis by (auto simp: hash_rel_def)
qed

lemma hashInsert_new:
  assumes inv: "hinv m pH xs" "hcount pH = length xs" and k: "cstr key" "dat \<noteq> 0"
    and ab: "kfold key \<notin> (\<lambda>x. kfold (keyAt m x)) ` set xs"
    and h: "ht pH \<noteq> None \<Longrightarrow> h = hashOf (kfold key) mod htsize pH"
    and u: "\<forall>n. n \<le> usable n"
  shows "\<exists>s' w'.
     (let m = m @ [Some \<lparr>next = 0, prev = 0, data = dat, pKey = key\<rparr>];
          new_elem = length m;
          pH = pH\<lparr>hcount := hcount pH + 1\<rparr>
      in do {
           (h, m, pH, w) \<leftarrow>
             (if hcount pH \<ge> 10 \<and> hcount pH > 2 * htsize pH then
                do {
                  (r, m, pH, w) \<leftarrow> rehash usable w m pH (hcount pH * 2);
                  k \<leftarrow> strHash key;
                  Some (if r then k mod htsize pH else h, m, pH, w)
                }
              else Some (h, m, pH, w));
           s \<leftarrow> insertElement m pH (if ht pH \<noteq> None then Some h else None) new_elem;
           Some (0, s, w)
         }) = Some (0, s', w') \<and> hash_rel s' ((lookup m xs)(kfold key := dat)) \<and>
      (w' = w \<or> 10 \<le> card {j. ((lookup m xs)(kfold key := dat)) j \<noteq> 0} \<and> w' = snd (alloc w))"
proof -
  define e where "e = \<lparr>next = 0, prev = 0, data = dat, pKey = key\<rparr>"
  define m1 where "m1 = m @ [Some e]"
  define pH1 where "pH1 = pH\<lparr>hcount := hcount pH + 1\<rparr>"
  let ?a = "length m1"
  have n: "hinv m1 pH xs" "lookup m1 xs = lookup m xs" "?a \<notin> set xs"
    using hinv_new_cell [OF inv(1), of e] by (simp_all add: m1_def)
  then have n1: "hinv m1 pH1 xs" by (cases "ht pH") (simp_all add: hinv_def pH1_def)
  have a: "ld m1 ?a = Some e" by (simp add: m1_def ld_append)
  have ka: "keyAt m1 x = keyAt m x" if "x \<in> set xs" for x
    using that n(3) by (auto simp: keyAt_def m1_def ld_append)
  have ab1: "kfold (pKey e) \<notin> (\<lambda>x. kfold (keyAt m1 x)) ` set xs" using ab ka by (auto simp: e_def)
  let ?mid = "if hcount pH1 \<ge> 10 \<and> hcount pH1 > 2 * htsize pH1 then
                do {
                  (r, m, pH, w) \<leftarrow> rehash usable w m1 pH1 (hcount pH1 * 2);
                  k \<leftarrow> strHash key;
                  Some (if r then k mod htsize pH else h, m, pH, w)
                }
              else Some (h, m1, pH1, w)"
  have "\<exists>h' m2 pH2 w' xs'. ?mid = Some (h', m2, pH2, w') \<and> hinv m2 pH2 xs' \<and> set xs' = set xs \<and>
      (\<forall>x. cont (ld m2 x) = cont (ld m1 x)) \<and> (\<forall>x. x \<notin> set xs \<longrightarrow> ld m2 x = ld m1 x) \<and>
      hcount pH2 = hcount pH1 \<and> (ht pH2 \<noteq> None \<longrightarrow> h' = hashOf (kfold key) mod htsize pH2) \<and>
      (w' = w \<or> 10 \<le> hcount pH1 \<and> w' = snd (alloc w))"
  proof (cases "hcount pH1 \<ge> 10 \<and> hcount pH1 > 2 * htsize pH1")
    case True
    then obtain b m2 pH2 w' xs' where r: "rehash usable w m1 pH1 (hcount pH1 * 2) = Some (b, m2, pH2, w')"
      "hinv m2 pH2 xs'" "set xs' = set xs" "\<forall>x. cont (ld m2 x) = cont (ld m1 x)"
      "\<forall>x. x \<notin> set xs \<longrightarrow> ld m2 x = ld m1 x" "hcount pH2 = hcount pH1"
      "b \<longrightarrow> ht pH2 \<noteq> None" "\<not> b \<longrightarrow> ht pH2 = ht pH1 \<and> htsize pH2 = htsize pH1" "w' = w \<or> w' = snd (alloc w)"
      using hash_rehash_ok [OF n1 u, of "hcount pH1 * 2" w] by auto
    have "ht pH2 \<noteq> None \<longrightarrow> (if b then hashOf (kfold key) mod htsize pH2 else h) = hashOf (kfold key) mod htsize pH2"
      using r(8) h by (auto simp: pH1_def)
    with r True k show ?thesis by (simp add: strHash_cstr) blast
  next
    case False
    then have "?mid = Some (h, m1, pH1, w)" by auto
    with n1 h show ?thesis by (intro exI [of _ h] exI [of _ m1] exI [of _ pH1] exI [of _ w] exI [of _ xs]) (simp add: pH1_def)
  qed
  then obtain h' m2 pH2 w' xs' where mid: "?mid = Some (h', m2, pH2, w')" "hinv m2 pH2 xs'" "set xs' = set xs"
      "\<forall>x. cont (ld m2 x) = cont (ld m1 x)" "\<forall>x. x \<notin> set xs \<longrightarrow> ld m2 x = ld m1 x"
      "hcount pH2 = hcount pH1" "ht pH2 \<noteq> None \<Longrightarrow> h' = hashOf (kfold key) mod htsize pH2"
      "w' = w \<or> 10 \<le> hcount pH1 \<and> w' = snd (alloc w)" by blast
  note at = at_cong [OF mid(4)]
  have a2: "ld m2 ?a = Some e" using mid(5) n(3) a by simp
  have len: "length xs' = length xs"
    using mid(2,3) inv(1) by (metis distinct_card hinv_def)
  have lk: "lookup m2 xs' = lookup m1 xs"
  proof (rule lookup_eqI)
    show "distinct (map (\<lambda>x. kfold (keyAt m2 x)) xs')" using mid(2) by (simp add: hinv_def)
    have dm: "distinct (map (\<lambda>x. kfold (keyAt m1 x)) xs)" using n1 by (simp add: hinv_def)
    show "lookup m1 xs (kfold (keyAt m2 x)) = dataAt m2 x" if "x \<in> set xs'" for x
      using lookup_at(1) [OF dm, of x] that mid(3) at by simp
    show "lookup m1 xs j = 0" if "j \<notin> (\<lambda>x. kfold (keyAt m2 x)) ` set xs'" for j
      using lookup_at(2) [OF dm, of j] that mid(3) at by simp
  qed
  have hh: "h' = hf m2 (htsize pH2) ?a" if "ht pH2 \<noteq> None"
    using mid(7) [OF that] a2 by (simp add: hf_def e_def)
  have e': "cstr (pKey e)" "data e \<noteq> 0" using k by (simp_all add: e_def)
  have na: "?a \<notin> set xs'" "kfold (pKey e) \<notin> (\<lambda>x. kfold (keyAt m2 x)) ` set xs'"
    using mid(3) n(3) ab1 at by simp_all
  obtain m3 pH3 xs3 where i: "insertElement m2 pH2 (if ht pH2 \<noteq> None then Some h' else None) ?a = Some (m3, pH3)"
    "hinv m3 pH3 xs3" "length xs3 = Suc (length xs')" "hcount pH3 = hcount pH2"
    "lookup m3 xs3 = (lookup m2 xs')(kfold (pKey e) := data e)"
    using link_new [OF mid(2) a2 na(1) e' na(2) hh] by blast
  have l3: "lookup m3 xs3 = (lookup m xs)(kfold key := dat)" "hcount pH1 = length xs3"
    using i(3, 5) lk n(2) len inv(2) by (simp_all add: e_def pH1_def)
  have "hash_rel (m3, pH3) ((lookup m xs)(kfold key := dat))"
    using i(2, 4) l3 mid(6) by (auto simp: hash_rel_def)
  moreover have "w' = w \<or> 10 \<le> card {j. ((lookup m xs)(kfold key := dat)) j \<noteq> 0} \<and> w' = snd (alloc w)"
    using mid(8) card_lookup [OF i(2)] unfolding l3 by simp
  moreover have "do { (h, m, pH, w) \<leftarrow> ?mid;
      s \<leftarrow> insertElement m pH (if ht pH \<noteq> None then Some h else None) ?a; Some (0, s, w) } = Some (0, (m3, pH3), w')"
    by (simp only: mid(1)) (use i(1) in \<open>cases "ht pH2"; simp\<close>)
  ultimately show ?thesis unfolding Let_def e_def [symmetric] m1_def [symmetric] pH1_def [symmetric] by blast
qed

lemma hashInsert_ok:
  assumes r: "hash_rel s S" and k: "cstr key" and u: "\<forall>n. n \<le> usable n"
  shows "\<exists>r s' w' S'. sqlite3HashInsert usable w s key dat = Some (r, s', w') \<and> hash_rel s' S' \<and>
    dict_insert S w (kfold key) dat r S' w'"
proof -
  obtain m pH xs where s: "s = (m, pH)" "hinv m pH xs" "hcount pH = length xs" "lookup m xs = S"
    using r by (auto simp: hash_rel_def)
  obtain h where f: "findElementWithHash m pH key =
      Some (case find (\<lambda>x. kfold (keyAt m x) = kfold key) xs of None \<Rightarrow> 0 | Some x \<Rightarrow> x, h)"
    "ht pH \<noteq> None \<longrightarrow> h = hashOf (kfold key) mod htsize pH"
    using findElement_ok [OF s(2) _ k] s(3) by auto
  show ?thesis
  proof (cases rule: find_cases [OF s(2), of "kfold key"])
    case 1
    then have S0: "S (kfold key) = 0" using s(4) by simp
    have f0: "findElementWithHash m pH key = Some (0, h)" using f(1) 1(1) by simp
    show ?thesis
    proof (cases "dat = 0")
      case True
      then have "sqlite3HashInsert usable w s key dat = Some (0, s, w)"
        using f0 s(1) by (simp add: sqlite3HashInsert_def elemData_def)
      moreover have "S(kfold key := dat) = S" using True S0 by auto
      ultimately show ?thesis using True S0 r by (auto simp: dict_insert_def)
    next
      case False
      obtain b w1 where w: "alloc w = (b, w1)" by fastforce
      show ?thesis
      proof (cases b)
        case True
        obtain s' w' where n: "sqlite3HashInsert usable w s key dat = Some (0, s', w')" "hash_rel s' (S(kfold key := dat))"
          "w' = w1 \<or> 10 \<le> card {j. (S(kfold key := dat)) j \<noteq> 0} \<and> w' = snd (alloc w1)"
          using hashInsert_new [OF s(2,3) k False 1(3) _ u, of h w1] f(2) f0 s(1,4) S0 False w True
          by (auto simp: sqlite3HashInsert_def elemData_def)
        then have "dict_insert S w (kfold key) dat 0 (S(kfold key := dat)) w'"
          using w True S0 False by (simp add: dict_insert_def)
        with n show ?thesis by blast
      next
        case b: False
        then have "sqlite3HashInsert usable w s key dat = Some (dat, s, w1)"
          using f0 s(1) False w by (simp add: sqlite3HashInsert_def elemData_def)
        with b w S0 False r show ?thesis by (auto simp: dict_insert_def)
      qed
    qed
  next
    case (2 a e ys zs)
    then have S1: "S (kfold key) = data e" "data e \<noteq> 0" using s(4) by simp_all
    have fa: "findElementWithHash m pH key = Some (a, h)" using f(1) 2(1) by simp
    have h: "h = hf m (htsize pH) a" if "ht pH \<noteq> None" using that f(2) 2(4,5) by (simp add: hf_def)
    show ?thesis
    proof (cases "dat = 0")
      case True
      obtain s' where "removeElementGivenHash m pH a h = Some s'" "hash_rel s' (S(kfold key := 0))"
        using hashDelete_ok [OF s(2,3) 2(2,4) h] s(4) 2(5) by auto
      moreover have "dict_insert S w (kfold key) dat (data e) (S(kfold key := 0)) w" using True S1 by (simp add: dict_insert_def)
      ultimately show ?thesis using True fa s(1) S1 2(3,4) by (auto simp: sqlite3HashInsert_def elemData_def)
    next
      case False
      have "a \<in> set xs" using 2(2) by simp
      from overwrite_ok [OF s(2) this 2(4) k _ False] 2(5) obtain m' where
        "upd m a (\<lambda>e. e\<lparr>data := dat, pKey := key\<rparr>) = Some m'" "hinv m' pH xs"
        "lookup m' xs = (lookup m xs)(kfold key := dat)" by auto
      moreover from this have "hash_rel (m', pH) (S(kfold key := dat))"
        using s(3,4) by (auto simp: hash_rel_def)
      moreover have "dict_insert S w (kfold key) dat (data e) (S(kfold key := dat)) w" using S1 by (simp add: dict_insert_def)
      ultimately show ?thesis
        using False fa s(1) S1 2(3,4) by (auto simp: sqlite3HashInsert_def elemData_def)
    qed
  qed
qed


text \<open>The hash table is a dictionary for every allocator that reports at least the requested
  size, here for one that reports exactly that; the laws themselves are in
  \<open>hashFind_ok\<close> and \<open>hashInsert_ok\<close>.\<close>

interpretation exact: dictionary hash_rel sqlite3HashFind "sqlite3HashInsert id"
  by unfold_locales (use hashFind_ok hashInsert_ok [where usable = id] in auto)

lemma hash_dictionary:
  "\<forall>n. n \<le> usable n \<Longrightarrow> dictionary hash_rel sqlite3HashFind (sqlite3HashInsert usable)"
  by unfold_locales (use hashFind_ok hashInsert_ok in auto)

lemma hash_rel_init: "hash_rel (m, sqlite3HashInit) (\<lambda>k. 0)"
  using hinv_init [of m] by (auto simp: hash_rel_def lookup_def sqlite3HashInit_def)

section \<open>Properties\<close>

text \<open>C2: Refinement. Any sequence of \<^verbatim>\<open>sqlite3HashInsert\<close> (which with null data deletes) and
  \<^verbatim>\<open>sqlite3HashFind\<close> on an initialised table returns, follows no dangling or null pointer,
  and gives the results of a dictionary with case-insensitive keys, through growth and
  rehashing and for every pattern of allocation failures. A new key is refused exactly when
  the allocation of its element fails, which returns the new data and leaves the dictionary
  alone; whether the allocation for a rehash fails makes no difference. When no allocation
  fails, the results are those of a dictionary that refuses nothing.\<close>

theorem hash_refines_dictionary:
  assumes "\<forall>n. n \<le> usable n" and "\<forall>op \<in> set ops. cstr (dict_key op)"
  shows "\<exists>rs s' w' S'. dict_run sqlite3HashFind (sqlite3HashInsert usable) w ([], sqlite3HashInit) ops = Some (rs, s', w') \<and>
    hash_rel s' S' \<and> dict_spec (\<lambda>k. 0) w ops rs S' w' \<and> (False \<notin> set w \<longrightarrow> dict_eval (\<lambda>k. 0) ops = (rs, S'))"
  using dictionary.dict_refines [OF hash_dictionary [OF assms(1)] hash_rel_init assms(2), of w "[]"] dict_spec_never_fails
  by blast

text \<open>The rehash at the tenth element fails, the eleventh element is refused, and the tenth is found.\<close>

theorem hash_refines_dictionary_witness:
  "\<exists>s' S' w'. dict_run sqlite3HashFind (sqlite3HashInsert id) (replicate 10 True @ [False, False]) ([], sqlite3HashInit)
      (map (\<lambda>(k, d). DInsert k d) [([65, 0], 1), ([66, 0], 2), ([67, 0], 3), ([68, 0], 4), ([69, 0], 5), ([70, 0], 6),
         ([71, 0], 7), ([72, 0], 8), ([73, 0], 9)] @ [DInsert [74, 0] 10, DInsert [75, 0] 99, DFind [106, 0], DFind [75, 0]]) =
      Some (replicate 9 0 @ [0, 99, 10, 0], s', w') \<and>
    hash_rel s' S'"
proof -
  let ?kds = "[([65 :: u8, 0], 1 :: nat), ([66, 0], 2), ([67, 0], 3), ([68, 0], 4), ([69, 0], 5), ([70, 0], 6), ([71, 0], 7), ([72, 0], 8), ([73, 0], 9)]"
  let ?ops = "map (\<lambda>(k, d). DInsert k d) ?kds @ [DInsert [74, 0] 10, DInsert [75, 0] 99, DFind [106, 0], DFind [75, 0]]"
  have "\<forall>op \<in> set ?ops. cstr (dict_key op)" by (simp add: cstr_def)
  from hash_refines_dictionary [of id, OF _ this, of "replicate 10 True @ [False, False]"] obtain rs s' w' S' where r:
    "dict_run sqlite3HashFind (sqlite3HashInsert id) (replicate 10 True @ [False, False]) ([], sqlite3HashInit) ?ops = Some (rs, s', w')"
    "hash_rel s' S'" "dict_spec (\<lambda>k. 0) (replicate 10 True @ [False, False]) ?ops rs S' w'"
    by auto
  have w: "replicate 10 True @ [False, False] = replicate (length ?kds) True @ [True, False, False]" by (simp add: numeral_eq_Suc)
  have "\<exists>rs'. rs = replicate (length ?kds) 0 @ rs' \<and> dict_spec (fold (\<lambda>(k, d) S. S(kfold k := d)) ?kds (\<lambda>k. 0)) [True, False, False]
      [DInsert [74, 0] 10, DInsert [75, 0] 99, DFind [106, 0], DFind [75, 0]] rs' S' w'"
    by (rule dict_fresh [OF r(3) [unfolded w]]) (simp_all add: kfold_def upperToLower_iff)
  then obtain rs' where "rs = replicate (length ?kds) 0 @ rs'" "dict_spec (fold (\<lambda>(k, d) S. S(kfold k := d)) ?kds (\<lambda>k. 0)) [True, False, False]
      [DInsert [74, 0] 10, DInsert [75, 0] 99, DFind [106, 0], DFind [75, 0]] rs' S' w'"
    by blast
  then have "rs = replicate (length ?kds) 0 @ [0, 99, 10, 0]"
    by (auto simp: dict_spec_simps dict_insert_def kfold_def upperToLower_iff)
  moreover have "replicate (length ?kds) (0 :: nat) = replicate 9 0" by (simp add: numeral_eq_Suc)
  ultimately show ?thesis using r(1, 2) by metis
qed

text \<open>\<^verbatim>\<open>sqlite3HashClear\<close> on a table in any state that operations can reach frees exactly
  the elements of the table, each once, and leaves the initial table.\<close>

lemma hash_clear_frees_all:
  assumes "hinv m pH xs"
  shows "\<exists>m'. sqlite3HashClear m pH = Some (m', sqlite3HashInit) \<and>
    (\<forall>x. ld m' x = (if x \<in> set xs then None else ld m x))"
  using assms by (rule hashClear_ok)

end
