(* ===== verification/Numeric.thy ===== *)
theory Numeric
  imports Strings "HOL-Library.Signed_Division"
begin

text \<open>
  The numeric routines of \<^verbatim>\<open>util.c\<close>: text to integer (\<^verbatim>\<open>sqlite3Atoi64\<close>,
  \<^verbatim>\<open>sqlite3DecOrHexToI64\<close>, \<^verbatim>\<open>sqlite3GetInt32\<close>, \<^verbatim>\<open>sqlite3Atoi\<close>), overflow-checked
  arithmetic on \<^verbatim>\<open>i64\<close> (the portable versions, which compilers that do not announce GCC 5.4
  use), and the logarithmic estimates of the query planner.

  A \<^verbatim>\<open>u64\<close> accumulator is a word, so it wraps; a signed result is an \<open>int\<close> whose range the
  theorems bound.
\<close>

section \<open>Text to integer\<close>

definition LARGEST_INT64 :: int where "LARGEST_INT64 = 9223372036854775807"
definition SMALLEST_INT64 :: int where "SMALLEST_INT64 = - 1 - LARGEST_INT64"

lemma int64_bounds [simp]:
  "LARGEST_INT64 = 9223372036854775807" "SMALLEST_INT64 = - 9223372036854775808"
  by (simp_all add: LARGEST_INT64_def SMALLEST_INT64_def)

text \<open>\<^verbatim>\<open>for(i=0; c==0 && i<18; i++) c = (zNum[i*incr]-pow63[i])*10;\<close> with \<open>p\<close> the offset of \<^verbatim>\<open>zNum\<close>\<close>

fun cmpPow63Loop :: "u8 list \<Rightarrow> nat \<Rightarrow> nat \<Rightarrow> nat \<Rightarrow> u8 list \<Rightarrow> int option" where
  "cmpPow63Loop z p incr i [] = Some 0"
| "cmpPow63Loop z p incr i (x # pow63) =
     (case rd z (p + i * incr) of
        None \<Rightarrow> None
      | Some c \<Rightarrow>
          let d = (uint c - uint x) * 10 in
          if d = 0 then cmpPow63Loop z p incr (i + 1) pow63 else Some d)"

definition pow63 :: "u8 list" where
  "pow63 = [57, 50, 50, 51, 51, 55, 50, 48, 51, 54, 56, 53, 52, 55, 55, 53, 56, 48]"

definition compare2pow63 :: "u8 list \<Rightarrow> nat \<Rightarrow> nat \<Rightarrow> int option" where
  "compare2pow63 z p incr =
     (case cmpPow63Loop z p incr 0 pow63 of
        None \<Rightarrow> None
      | Some c \<Rightarrow>
          if c = 0 then map_option (\<lambda>x. uint x - 56) (rd z (p + 18 * incr)) else Some c)"

text \<open>\<^verbatim>\<open>while( zNum<zEnd && P(*zNum) ) zNum+=incr;\<close>\<close>

function atoiWhile :: "(u8 \<Rightarrow> bool) \<Rightarrow> u8 list \<Rightarrow> nat \<Rightarrow> nat \<Rightarrow> nat \<Rightarrow> nat option" where
  "atoiWhile P z zEnd incr i =
     (if i < zEnd \<and> 0 < incr then
        (case rd z i of
           None \<Rightarrow> None
         | Some c \<Rightarrow> if P c then atoiWhile P z zEnd incr (i + incr) else Some i)
      else Some i)"
  by pat_completeness auto
termination
  by (relation "measure (\<lambda>(P, z, zEnd, incr, i). zEnd - i)") auto

text \<open>\<^verbatim>\<open>for(i=0; &zNum[i]<zEnd && (c=zNum[i])>='0' && c<='9'; i+=incr)\<close>\<close>

function atoiDigits :: "u8 list \<Rightarrow> nat \<Rightarrow> nat \<Rightarrow> nat \<Rightarrow> nat \<Rightarrow> u64 \<Rightarrow> (nat \<times> u64) option" where
  "atoiDigits z zEnd incr p i u =
     (if p + i < zEnd \<and> 0 < incr then
        (case rd z (p + i) of
           None \<Rightarrow> None
         | Some c \<Rightarrow>
             if 48 \<le> c \<and> c \<le> 57 then atoiDigits z zEnd incr p (i + incr) (u * 10 + ucast c - 48)
             else Some (i, u))
      else Some (i, u))"
  by pat_completeness auto
termination
  by (relation "measure (\<lambda>(z, zEnd, incr, p, i, u). zEnd - (p + i))") auto

text \<open>The \<^verbatim>\<open>do\<close> loop over the bytes after the number.\<close>

function atoiTail :: "u8 list \<Rightarrow> nat \<Rightarrow> nat \<Rightarrow> nat \<Rightarrow> int option" where
  "atoiTail z zEnd incr j =
     (case rd z j of
        None \<Rightarrow> None
      | Some c \<Rightarrow>
          if \<not> sqlite3Isspace c then Some 1
          else if j + incr < zEnd \<and> 0 < incr then atoiTail z zEnd incr (j + incr) else Some 0)"
  by pat_completeness auto
termination
  by (relation "measure (\<lambda>(z, zEnd, incr, j). zEnd - j)") auto

declare atoiWhile.simps [simp del] atoiDigits.simps [simp del] atoiTail.simps [simp del]

text \<open>The value stored in \<^verbatim>\<open>*pNum\<close> after the digits, and the end of the function, where the
  number of digits and the comparison with \<open>2^63\<close> decide about overflow.\<close>

definition atoiValue :: "bool \<Rightarrow> u64 \<Rightarrow> int" where
  "atoiValue neg u =
     (if uint u > LARGEST_INT64 then (if neg then SMALLEST_INT64 else LARGEST_INT64)
      else if neg then - uint u else uint u)"

definition atoiFinish :: "u8 list \<Rightarrow> nat \<Rightarrow> nat \<Rightarrow> bool \<Rightarrow> nat \<Rightarrow> u64 \<Rightarrow> int \<Rightarrow> (int \<times> int) option" where
  "atoiFinish z p incr neg i u rc =
     (if i < 19 * incr then Some (rc, atoiValue neg u)
      else
        do {
          c \<leftarrow> (if i > 19 * incr then Some 1 else compare2pow63 z p incr);
          Some (if c < 0 then (rc, atoiValue neg u)
                else if c > 0 then (2, if neg then SMALLEST_INT64 else LARGEST_INT64)
                else (if neg then rc else 3, if neg then SMALLEST_INT64 else LARGEST_INT64))
        })"

text \<open>\<^verbatim>\<open>enc\<close> is 1 for UTF-8, 2 for UTF-16LE, 3 for UTF-16BE. The result is the return code and
  the value of \<^verbatim>\<open>*pNum\<close>.\<close>

definition sqlite3Atoi64 :: "u8 list \<Rightarrow> nat \<Rightarrow> nat \<Rightarrow> (int \<times> int) option" where
  "sqlite3Atoi64 z len enc =
     do {
       (incr, nonNum, zEnd, p) \<leftarrow>
         (if enc = 1 then Some (1, False, len, 0)
          else
            do {
              i \<leftarrow> atoiWhile (\<lambda>c. c = 0) z len 2 (3 - enc);
              Some (2, i < len, (if even i then i + 1 else i - 1), enc mod 2)
            });
       p \<leftarrow> atoiWhile sqlite3Isspace z zEnd incr p;
       (neg, p) \<leftarrow>
         (if p < zEnd then
            do {
              c \<leftarrow> rd z p;
              Some (if c = 45 then (True, p + incr) else if c = 43 then (False, p + incr) else (False, p))
            }
          else Some (False, p));
       zStart \<leftarrow> Some p;
       p \<leftarrow> atoiWhile (\<lambda>c. c = 48) z zEnd incr p;
       (i, u) \<leftarrow> atoiDigits z zEnd incr p 0 0;
       rc \<leftarrow> (if i = 0 \<and> zStart = p then Some (- 1)
              else if nonNum then Some 1
              else if p + i < zEnd then atoiTail z zEnd incr (p + i)
              else Some 0);
       atoiFinish z p incr neg i u rc
     }"

text \<open>The loops of the hexadecimal branch: they stop at the terminating zero byte.\<close>

fun hexSkipZeros :: "u8 list \<Rightarrow> u8 list" where
  "hexSkipZeros (c # z) = (if c = 48 then hexSkipZeros z else c # z)"
| "hexSkipZeros [] = []"

fun hexDigitsLoop :: "u8 list \<Rightarrow> nat \<Rightarrow> u64 \<Rightarrow> (nat \<times> u64 \<times> u8) option" where
  "hexDigitsLoop [] k u = None"
| "hexDigitsLoop (c # z) k u =
     (if sqlite3Isxdigit c then hexDigitsLoop z (k + 1) (u * 16 + ucast (sqlite3HexToInt c))
      else Some (k, u, c))"

definition strlen :: "u8 list \<Rightarrow> nat" where
  "strlen z = length (takeWhile (\<lambda>c. c \<noteq> 0) z)"

definition sqlite3Strlen30 :: "u8 list \<Rightarrow> nat" where
  "sqlite3Strlen30 z = unat ((0x3fffffff :: u32) AND of_nat (strlen z))"

definition sqlite3DecOrHexToI64 :: "u8 list \<Rightarrow> (int \<times> int) option" where
  "sqlite3DecOrHexToI64 z =
     do {
       z0 \<leftarrow> rd z 0;
       hex \<leftarrow> (if z0 = 48 then map_option (\<lambda>z1. z1 = 120 \<or> z1 = 88) (rd z 1) else Some False);
       if hex then
         do {
           (n, u, c) \<leftarrow> hexDigitsLoop (hexSkipZeros (drop 2 z)) 0 0;
           Some (if c = 0 \<and> n \<le> 16 then 0 else 2, sint u)
         }
       else sqlite3Atoi64 z (sqlite3Strlen30 z) 1
     }"

text \<open>The loops of \<^verbatim>\<open>sqlite3GetInt32\<close>, with the number of digits they still may take.\<close>

fun getInt32Hex :: "nat \<Rightarrow> u8 list \<Rightarrow> u32 \<Rightarrow> (u32 \<times> u8) option" where
  "getInt32Hex n [] u = None"
| "getInt32Hex n (c # z) u =
     (if sqlite3Isxdigit c \<and> n \<noteq> 0 then getInt32Hex (n - 1) z (u * 16 + ucast (sqlite3HexToInt c))
      else Some (u, c))"

fun getInt32Dec :: "nat \<Rightarrow> u8 list \<Rightarrow> nat \<Rightarrow> int \<Rightarrow> (nat \<times> int) option" where
  "getInt32Dec 0 z i v = Some (i, v)"
| "getInt32Dec (Suc n) [] i v = None"
| "getInt32Dec (Suc n) (c # z) i v =
     (if 48 \<le> c \<and> c \<le> 57 then getInt32Dec n z (i + 1) (v * 10 + (uint c - 48)) else Some (i, v))"

definition getInt32Decimal :: "bool \<Rightarrow> u8 list \<Rightarrow> int option option" where
  "getInt32Decimal neg z =
     do {
       c \<leftarrow> rd z 0;
       if \<not> sqlite3Isdigit c then Some None
       else
         do {
           (i, v) \<leftarrow> getInt32Dec 11 (hexSkipZeros z) 0 0;
           Some (if i > 10 then None
                 else if v - (if neg then 1 else 0) > 2147483647 then None
                 else Some (if neg then - v else v))
         }
     }"

text \<open>\<open>Some None\<close> is the return value 0, \<open>Some (Some v)\<close> is 1 with \<^verbatim>\<open>*pValue\<close> set to \<open>v\<close>.\<close>

definition sqlite3GetInt32 :: "u8 list \<Rightarrow> int option option" where
  "sqlite3GetInt32 z =
     do {
       c \<leftarrow> rd z 0;
       if c = 45 then getInt32Decimal True (drop 1 z)
       else if c = 43 then getInt32Decimal False (drop 1 z)
       else
         do {
           hex \<leftarrow> (if c = 48 then
                     do {
                       d \<leftarrow> rd z 1;
                       if d = 120 \<or> d = 88 then map_option sqlite3Isxdigit (rd z 2) else Some False
                     }
                   else Some False);
           if hex then
             do {
               (u, d) \<leftarrow> getInt32Hex 8 (hexSkipZeros (drop 2 z)) 0;
               Some (if u AND 0x80000000 = 0 \<and> \<not> sqlite3Isxdigit d then Some (sint u) else None)
             }
           else getInt32Decimal False z
         }
     }"

definition sqlite3Atoi :: "u8 list option \<Rightarrow> int option" where
  "sqlite3Atoi z =
     (case z of
        None \<Rightarrow> Some 0
      | Some z \<Rightarrow> map_option (\<lambda>r. case r of None \<Rightarrow> 0 | Some v \<Rightarrow> v) (sqlite3GetInt32 z))"

section \<open>Overflow-checked arithmetic\<close>

text \<open>The returned flag, and the new value of \<^verbatim>\<open>*pA\<close>. Division truncates towards zero.\<close>

definition sqlite3AddInt64 :: "int \<Rightarrow> int \<Rightarrow> bool \<times> int" where
  "sqlite3AddInt64 iA iB =
     (if iB \<ge> 0 then
        (if iA > 0 \<and> LARGEST_INT64 - iA < iB then (True, iA) else (False, iA + iB))
      else
        (if iA < 0 \<and> - (iA + LARGEST_INT64) > iB + 1 then (True, iA) else (False, iA + iB)))"

definition sqlite3SubInt64 :: "int \<Rightarrow> int \<Rightarrow> bool \<times> int" where
  "sqlite3SubInt64 iA iB =
     (if iB = SMALLEST_INT64 then (if iA \<ge> 0 then (True, iA) else (False, iA - iB))
      else sqlite3AddInt64 iA (- iB))"

definition sqlite3MulInt64 :: "int \<Rightarrow> int \<Rightarrow> bool \<times> int" where
  "sqlite3MulInt64 iA iB =
     (let overflow =
        (if iB > 0 then iA > LARGEST_INT64 sdiv iB \<or> iA < SMALLEST_INT64 sdiv iB
         else if iB < 0 then
           (if iA > 0 then iB < SMALLEST_INT64 sdiv iA
            else if iA < 0 then
              iB = SMALLEST_INT64 \<or> iA = SMALLEST_INT64 \<or> - iA > LARGEST_INT64 sdiv (- iB)
            else False)
         else False)
      in if overflow then (True, iA) else (False, iA * iB))"

definition sqlite3AbsInt32 :: "int \<Rightarrow> int" where
  "sqlite3AbsInt32 x = (if x \<ge> 0 then x else if x = - 2147483648 then 2147483647 else - x)"

section \<open>Logarithmic estimates\<close>

definition logEstAddTable :: "int list" where
  "logEstAddTable =
     [10, 10, 9, 9, 8, 8, 7, 7, 7, 6, 6, 6, 5, 5, 5, 4, 4, 4, 4,
      3, 3, 3, 3, 3, 3, 2, 2, 2, 2, 2, 2, 2]"

definition sqlite3LogEstAdd :: "int \<Rightarrow> int \<Rightarrow> int" where
  "sqlite3LogEstAdd a b =
     (if a \<ge> b then
        (if a > b + 49 then a else if a > b + 31 then a + 1 else a + logEstAddTable ! nat (a - b))
      else
        (if b > a + 49 then b else if b > a + 31 then b + 1 else b + logEstAddTable ! nat (b - a)))"

function logEstUp :: "nat \<Rightarrow> int \<Rightarrow> nat \<times> int" where
  "logEstUp x y = (if 0 < x \<and> x < 8 then logEstUp (x * 2) (y - 10) else (x, y))"
  by pat_completeness auto
termination by (relation "measure (\<lambda>(x, y). 8 - x)") auto

function logEstDown4 :: "nat \<Rightarrow> int \<Rightarrow> nat \<times> int" where
  "logEstDown4 x y = (if x > 255 then logEstDown4 (x div 16) (y + 40) else (x, y))"
  by pat_completeness auto
termination by (relation "measure fst") auto

function logEstDown1 :: "nat \<Rightarrow> int \<Rightarrow> nat \<times> int" where
  "logEstDown1 x y = (if x > 15 then logEstDown1 (x div 2) (y + 10) else (x, y))"
  by pat_completeness auto
termination by (relation "measure fst") auto

declare logEstUp.simps [simp del] logEstDown4.simps [simp del] logEstDown1.simps [simp del]

definition sqlite3LogEst :: "u64 \<Rightarrow> int" where
  "sqlite3LogEst x =
     (if unat x < 2 then 0
      else
        (let (x, y) =
           (if unat x < 8 then logEstUp (unat x) 40
            else (case logEstDown4 (unat x) 40 of (x, y) \<Rightarrow> logEstDown1 x y))
         in [0, 2, 3, 5, 6, 7, 8, 9] ! (x mod 8) + y - 10))"

section \<open>Decimal values\<close>

definition dig :: "u8 \<Rightarrow> nat" where "dig c = unat c - 48"

definition dec_from :: "nat \<Rightarrow> u8 list \<Rightarrow> nat" where
  "dec_from v ds = foldl (\<lambda>v c. v * 10 + dig c) v ds"

abbreviation dec :: "u8 list \<Rightarrow> nat" where "dec \<equiv> dec_from 0"

definition digits :: "u8 list \<Rightarrow> bool" where
  "digits ds \<longleftrightarrow> (\<forall>c \<in> set ds. 48 \<le> c \<and> c \<le> 57)"

lemma digits_simps [simp]:
  "digits []" "digits (c # ds) \<longleftrightarrow> (48 \<le> c \<and> c \<le> 57) \<and> digits ds"
  "digits (ds @ es) \<longleftrightarrow> digits ds \<and> digits es"
  by (auto simp: digits_def)

lemma dec_from_simps [simp]:
  "dec_from v [] = v" "dec_from v (c # ds) = dec_from (v * 10 + dig c) ds"
  "dec_from v (ds @ es) = dec_from (dec_from v ds) es"
  by (simp_all add: dec_from_def)

lemma dec_from_eq: "dec_from v ds = v * 10 ^ length ds + dec ds"
proof (induction ds arbitrary: v)
  case (Cons c ds)
  show ?case using Cons [of "v * 10 + dig c"] Cons [of "dig c"] by (simp add: algebra_simps)
qed simp

lemma digit_bounds: "48 \<le> (c :: u8) \<Longrightarrow> c \<le> 57 \<Longrightarrow> unat c = dig c + 48 \<and> dig c \<le> 9"
  by (simp add: dig_def word_le_nat_alt)

lemma dec_less: "digits ds \<Longrightarrow> dec ds < 10 ^ length ds"
proof (induction ds)
  case (Cons c ds)
  then have "dec ds < 10 ^ length ds" "dig c \<le> 9" using digit_bounds [of c] by auto
  then have "dig c * 10 ^ length ds + dec ds < 10 * 10 ^ length ds"
    using mult_le_mono1 [of "dig c" 9 "10 ^ length ds"] by linarith
  then show ?case using dec_from_eq [of "dig c" ds] by simp
qed simp

lemma dec_ge: "digits (c # ds) \<Longrightarrow> c \<noteq> 48 \<Longrightarrow> 10 ^ length ds \<le> dec (c # ds)"
proof -
  assume d: "digits (c # ds)" "c \<noteq> 48"
  then have "1 \<le> dig c" using digit_bounds [of c] by (cases "dig c = 0") (auto simp: word_unat_eq_iff)
  then have "1 * 10 ^ length ds \<le> dig c * 10 ^ length ds" by (intro mult_le_mono1)
  moreover have "dec (c # ds) = dig c * 10 ^ length ds + dec ds" using dec_from_eq [of "dig c" ds] by simp
  ultimately show ?thesis by linarith
qed

lemma dec_zeros: "\<forall>c \<in> set zs. c = 48 \<Longrightarrow> dec (zs @ ds) = dec ds"
  by (induction zs) (auto simp: dig_def)

text \<open>The 64-bit accumulator is the value modulo \<open>2^64\<close>.\<close>

lemma word_dec_step: "48 \<le> c \<Longrightarrow> of_nat v * 10 + ucast (c :: u8) - 48 = (of_nat (v * 10 + dig c) :: u64)"
proof -
  assume "48 \<le> c"
  then have "unat c = dig c + 48" by (simp add: dig_def word_le_nat_alt)
  then have "ucast c = (of_nat (dig c) + 48 :: u64)" by (metis of_nat_add of_nat_numeral of_nat_unat)
  then show ?thesis by simp
qed

section \<open>The loops on a buffer\<close>

lemma rd_buf: "i < length s \<Longrightarrow> rd (s @ r) i = Some (s ! i)"
  by (simp add: rd_def nth_append)

lemma drop_Cons_nth: "i < length s \<Longrightarrow> drop i s = s ! i # drop (Suc i) s"
  by (simp add: Cons_nth_drop_Suc)

lemma atoiWhile_run:
  "i \<le> length s \<Longrightarrow> atoiWhile P (s @ r) (length s) 1 i = Some (i + length (takeWhile P (drop i s)))"
proof (induction "length s - i" arbitrary: i)
  case 0
  then show ?case by (simp add: atoiWhile.simps)
next
  case (Suc n)
  then have i: "i < length s" by simp
  with Suc(1) [of "i + 1"] Suc(2) show ?case
    by (subst atoiWhile.simps) (simp add: rd_buf drop_Cons_nth [OF i])
qed

lemma atoiDigits_run:
  assumes "p + i \<le> length s"
  shows "atoiDigits (s @ r) (length s) 1 p i (of_nat v) =
    (let ds = takeWhile (\<lambda>c. 48 \<le> c \<and> c \<le> 57) (drop (p + i) s) in
     Some (i + length ds, of_nat (dec_from v ds)))"
  using assms
proof (induction "length s - (p + i)" arbitrary: i v)
  case 0
  then show ?case by (simp add: atoiDigits.simps Let_def)
next
  case (Suc n)
  then have i: "p + i < length s" by simp
  with Suc(1) [of "i + 1" "v * 10 + dig (s ! (p + i))"] Suc(2) show ?case
    by (subst atoiDigits.simps)
      (simp add: rd_buf drop_Cons_nth [OF i] word_dec_step Let_def del: of_nat_add of_nat_mult)
qed

lemma atoiTail_run:
  assumes "j < length s"
  shows "atoiTail (s @ r) (length s) 1 j = Some (if list_all sqlite3Isspace (drop j s) then 0 else 1)"
  using assms
proof (induction "length s - j" arbitrary: j)
  case (Suc n)
  show ?case
  proof (cases "j + 1 < length s")
    case True
    with Suc show ?thesis by (subst atoiTail.simps) (simp add: rd_buf drop_Cons_nth [OF Suc.prems])
  next
    case False
    with Suc.prems have "drop (Suc j) s = []" by simp
    with False Suc.prems show ?thesis by (subst atoiTail.simps) (simp add: rd_buf drop_Cons_nth [OF Suc.prems])
  qed
qed simp

text \<open>Comparing digit strings of one length compares their values.\<close>

lemma cmpPow63Loop_run:
  assumes "digits ds" "digits xs" "length xs = length ds" "i \<le> length a"
  shows "\<exists>d. cmpPow63Loop (a @ ds @ b) (length a - i) 1 i xs = Some d \<and>
    (d < 0 \<longleftrightarrow> dec ds < dec xs) \<and> (d = 0 \<longleftrightarrow> dec ds = dec xs)"
  using assms
proof (induction ds arbitrary: xs a i)
  case (Cons c ds)
  then obtain x xs' where xs: "xs = x # xs'" "length xs' = length ds" "digits xs'" by (cases xs) auto
  have c: "unat c = dig c + 48" "unat x = dig x + 48" using Cons.prems xs digit_bounds by auto
  have v: "dec (c # ds) = dig c * 10 ^ length ds + dec ds" "dec (x # xs') = dig x * 10 ^ length ds + dec xs'"
    using dec_from_eq [of "dig c" ds] dec_from_eq [of "dig x" xs'] xs by simp_all
  have lt: "dec ds < 10 ^ length ds" "dec xs' < 10 ^ length ds" using dec_less [of ds] dec_less [of xs'] Cons.prems xs by auto
  have r: "rd (a @ (c # ds) @ b) (length a - i + i * 1) = Some c" using Cons.prems(4) by (simp add: rd_def nth_append)
  have u: "uint c - uint x = int (dig c) - int (dig x)" using c by (simp add: uint_nat)
  show ?case
  proof (cases "dig c = dig x")
    case True
    have "\<exists>d. cmpPow63Loop ((a @ [c]) @ ds @ b) (length (a @ [c]) - (i + 1)) 1 (i + 1) xs' = Some d \<and>
      (d < 0 \<longleftrightarrow> dec ds < dec xs') \<and> (d = 0 \<longleftrightarrow> dec ds = dec xs')"
      using Cons.prems xs by (intro Cons.IH) simp_all
    with True r u v xs(1) show ?thesis by simp
  next
    case False
    have "dig c < dig x \<longleftrightarrow> dec (c # ds) < dec (x # xs')"
    proof
      assume "dig c < dig x"
      then have "(dig c + 1) * 10 ^ length ds \<le> dig x * 10 ^ length ds" by (intro mult_le_mono1) simp
      with v lt show "dec (c # ds) < dec (x # xs')" by simp
    next
      assume l: "dec (c # ds) < dec (x # xs')"
      show "dig c < dig x"
      proof (rule ccontr)
        assume "\<not> dig c < dig x"
        with False have "(dig x + 1) * 10 ^ length ds \<le> dig c * 10 ^ length ds" by (intro mult_le_mono1) simp
        with v lt l show False by simp
      qed
    qed
    moreover have "dec (c # ds) \<noteq> dec (x # xs')"
    proof
      assume e: "dec (c # ds) = dec (x # xs')"
      then have "dec (c # ds) div 10 ^ length ds = dec (x # xs') div 10 ^ length ds" by simp
      with v lt False show False by simp
    qed
    ultimately show ?thesis using False r u xs(1) by (auto simp: Let_def)
  qed
qed simp

lemma compare_run:
  assumes "digits ds" "length ds = 19"
  shows "\<exists>c. compare2pow63 (a @ ds @ b) (length a) 1 = Some c \<and>
    (c < 0 \<longleftrightarrow> dec ds < 2 ^ 63) \<and> (c = 0 \<longleftrightarrow> dec ds = 2 ^ 63)"
proof -
  obtain ds' x where ds: "ds = ds' @ [x]" "length ds' = 18" using assms(2) by (cases ds rule: rev_cases) auto
  have p: "dec pow63 = 922337203685477580" "digits pow63" "length pow63 = 18"
    by (simp_all add: pow63_def dig_def)
  obtain d where d: "cmpPow63Loop (a @ ds' @ x # b) (length a) 1 0 pow63 = Some d"
    "d < 0 \<longleftrightarrow> dec ds' < dec pow63" "d = 0 \<longleftrightarrow> dec ds' = dec pow63"
    using cmpPow63Loop_run [of ds' pow63 0 a "x # b"] assms ds p by auto
  have x: "unat x = dig x + 48" "dig x \<le> 9" using assms ds digit_bounds by auto
  have v: "dec ds = dec ds' * 10 + dig x" using ds by simp
  have r: "rd (a @ ds' @ x # b) (length a + 18) = Some x" using ds(2) by (simp add: rd_def nth_append)
  have u: "uint x - 56 = int (dig x) - 8" using x by (simp add: uint_nat)
  show ?thesis
  proof (cases "d = 0")
    case True
    then have "compare2pow63 (a @ ds @ b) (length a) 1 = Some (int (dig x) - 8)"
      using d(1) r u ds(1) by (simp add: compare2pow63_def)
    with True d v p show ?thesis by simp
  next
    case False
    then have "compare2pow63 (a @ ds @ b) (length a) 1 = Some d"
      using d(1) ds(1) by (simp add: compare2pow63_def)
    moreover have e: "2 ^ 63 = dec pow63 * 10 + 8" using p(1) by simp
    have "dec ds' < dec pow63 \<Longrightarrow> dec ds < 2 ^ 63" "dec pow63 < dec ds' \<Longrightarrow> 2 ^ 63 < dec ds"
      unfolding e v using x(2) by linarith+
    moreover have "dec ds' \<noteq> dec pow63" using False d by simp
    ultimately show ?thesis using d(2) False by (cases "dec ds' < dec pow63") auto
  qed
qed

section \<open>Decimal text\<close>

text \<open>What \<^verbatim>\<open>sqlite3Atoi64\<close> promises for a sign, a decimal value \<open>n\<close> and the code \<open>base\<close> that
  depends on what follows the digits.\<close>

definition atoi_result :: "bool \<Rightarrow> nat \<Rightarrow> int \<Rightarrow> int \<times> int" where
  "atoi_result neg n base =
     (if n < 2 ^ 63 then (base, if neg then - int n else int n)
      else if n = 2 ^ 63 then (if neg then base else 3, if neg then - (2 ^ 63) else 2 ^ 63 - 1)
      else (2, if neg then - (2 ^ 63) else 2 ^ 63 - 1))"

lemma digit_not_space: "48 \<le> c \<Longrightarrow> c \<le> 57 \<Longrightarrow> \<not> sqlite3Isspace c"
  by (auto simp: isspace_iff word_le_nat_alt word_unat_eq_iff)

lemma takeWhile_append_stop:
  "\<forall>x \<in> set xs. P x \<Longrightarrow> ys = [] \<or> \<not> P (hd ys) \<Longrightarrow> takeWhile P (xs @ ys) = xs"
  by (cases ys) (auto simp: takeWhile_append)

text \<open>The part after the sign: leading zeros, significant digits and a tail.\<close>

lemma uint_of_dec: "n < 2 ^ 64 \<Longrightarrow> uint (of_nat n :: u64) = int n"
  by (simp add: unsigned_of_nat take_bit_nat_eq_self)

lemma atoi64_core:
  assumes es: "digits es" "es = [] \<or> hd es \<noteq> 48"
  shows "atoiFinish (a @ es @ b) (length a) 1 neg (length es) (of_nat (dec es)) rc =
    Some (atoi_result neg (dec es) rc)"
proof -
  have fit: "atoiValue neg (of_nat (dec es)) = (if neg then - int (dec es) else int (dec es))"
    if "dec es < 2 ^ 63"
    using that uint_of_dec [of "dec es"] by (simp add: atoiValue_def)
  consider "length es < 19" | "length es = 19" | "19 < length es" by linarith
  then show ?thesis
  proof cases
    case 1
    then have "(10 :: nat) ^ length es \<le> 10 ^ 18" by (intro power_increasing) simp_all
    then have "dec es < 2 ^ 63" using dec_less [OF es(1)] by simp
    with fit 1 show ?thesis by (simp add: atoi_result_def atoiFinish_def)
  next
    case 2
    obtain c where c: "compare2pow63 (a @ es @ b) (length a) 1 = Some c"
      "c < 0 \<longleftrightarrow> dec es < 2 ^ 63" "c = 0 \<longleftrightarrow> dec es = 2 ^ 63"
      using compare_run [OF es(1) 2] by blast
    show ?thesis
    proof (cases "dec es < 2 ^ 63")
      case True
      with fit c 2 show ?thesis by (simp add: atoi_result_def atoiFinish_def)
    next
      case False
      with c 2 show ?thesis by (auto simp: atoi_result_def atoiFinish_def)
    qed
  next
    case 3
    then obtain x xs where x: "es = x # xs" "19 \<le> length xs" by (cases es) auto
    have "(10 :: nat) ^ 19 \<le> 10 ^ length xs" using x(2) by (intro power_increasing) simp_all
    moreover have "10 ^ length xs \<le> dec (x # xs)" using es x by (intro dec_ge) auto
    moreover have "(2 :: nat) ^ 63 < 10 ^ 19" by simp
    ultimately have "2 ^ 63 < dec es" unfolding x(1) by linarith
    with 3 show ?thesis by (simp add: atoi_result_def atoiFinish_def)
  qed
qed

lemma atoi64_decimal:
  assumes sp: "\<forall>c \<in> set sp. sqlite3Isspace c" and sg: "sg \<in> {[], [43], [45]}"
    and ds: "ds \<noteq> []" "digits ds" and tr: "tr = [] \<or> \<not> sqlite3Isdigit (hd tr)"
  shows "sqlite3Atoi64 (sp @ sg @ ds @ tr @ r) (length (sp @ sg @ ds @ tr)) 1 =
    Some (atoi_result (sg = [45]) (dec ds) (if list_all sqlite3Isspace tr then 0 else 1))"
proof -
  let ?s = "sp @ sg @ ds @ tr" and ?neg = "sg = [45]"
  define zs where "zs = takeWhile (\<lambda>c. c = 48) ds"
  define es where "es = dropWhile (\<lambda>c. c = 48) ds"
  have zes: "ds = zs @ es" by (simp add: zs_def es_def)
  have z48: "\<forall>c \<in> set zs. c = 48" unfolding zs_def by (auto dest: set_takeWhileD)
  have e48: "es = [] \<or> hd es \<noteq> 48" unfolding es_def using hd_dropWhile [of "\<lambda>c. c = 48" ds] by auto
  have des: "digits es" "dec ds = dec es" using ds(2) zes dec_zeros [OF z48] by auto
  obtain d0 ds' where d0: "ds = d0 # ds'" "48 \<le> d0" "d0 \<le> 57" using ds by (cases ds) auto
  have tr48: "tr = [] \<or> hd tr \<noteq> 48" using tr by (auto simp: isdigit_iff)
  let ?p1 = "length sp" and ?p2 = "length sp + length sg"
  have w1: "atoiWhile sqlite3Isspace (?s @ r) (length ?s) 1 0 = Some ?p1"
  proof -
    have "\<not> sqlite3Isspace (hd (sg @ ds @ tr))" using sg d0 digit_not_space by (auto simp: isspace_iff)
    then have "takeWhile sqlite3Isspace (sp @ sg @ ds @ tr) = sp" using sp by (intro takeWhile_append_stop) auto
    then show ?thesis using atoiWhile_run [of 0 ?s sqlite3Isspace r] by simp
  qed
  have sgn: "\<exists>c. rd (?s @ r) ?p1 = Some c \<and>
      (if c = 45 then (True, ?p1 + 1) else if c = 43 then (False, ?p1 + 1) else (False, ?p1)) = (?neg, ?p2)"
    using sg d0 by (auto simp: rd_def nth_append)
  have lt: "?p1 < length ?s" using ds by simp
  have w2: "atoiWhile (\<lambda>c. c = 48) (?s @ r) (length ?s) 1 ?p2 = Some (?p2 + length zs)"
  proof -
    have "takeWhile (\<lambda>c. c = 48) (zs @ es @ tr) = zs"
      using z48 e48 tr48 by (intro takeWhile_append_stop) (auto simp: hd_append)
    then show ?thesis using atoiWhile_run [of ?p2 ?s "\<lambda>c. c = 48" r] zes by simp
  qed
  have w3: "atoiDigits (?s @ r) (length ?s) 1 (?p2 + length zs) 0 0 = Some (length es, of_nat (dec es))"
  proof -
    have "takeWhile (\<lambda>c. 48 \<le> c \<and> c \<le> 57) (es @ tr) = es"
      using des(1) tr by (intro takeWhile_append_stop) (auto simp: digits_def isdigit_iff)
    then show ?thesis using atoiDigits_run [of "?p2 + length zs" 0 ?s r 0] zes by (simp add: Let_def)
  qed
  have w4: "(if length es = 0 \<and> ?p2 = ?p2 + length zs then Some (- 1)
      else if ?p2 + length zs + length es < length ?s then atoiTail (?s @ r) (length ?s) 1 (?p2 + length zs + length es)
      else Some 0) = Some (if list_all sqlite3Isspace tr then 0 else 1)"
  proof (cases "tr = []")
    case False
    then show ?thesis
      using atoiTail_run [of "?p2 + length zs + length es" ?s r] ds zes by auto
  qed (use ds zes in auto)
  have core: "atoiFinish (?s @ r) (?p2 + length zs) 1 ?neg (length es) (of_nat (dec es)) rc =
      Some (atoi_result ?neg (dec ds) rc)" for rc
    using atoi64_core [OF des(1) e48, of "sp @ sg @ zs" "tr @ r" ?neg rc] zes des(2)
    by (simp only: append_assoc length_append add.assoc)
  have s: "sp @ sg @ ds @ tr @ r = ?s @ r" by simp
  from sgn obtain c where c: "rd (?s @ r) ?p1 = Some c"
    "(if c = 45 then (True, ?p1 + 1) else if c = 43 then (False, ?p1 + 1) else (False, ?p1)) = (?neg, ?p2)" by blast
  show ?thesis
    unfolding sqlite3Atoi64_def s
    using lt c by (simp only: w1 w2 w3 w4 core bind.bind_lunit split HOL.simp_thms if_True if_False mult_1_right)
qed

section \<open>Thirty-two bits\<close>

lemma skipZeros_run: "\<forall>c \<in> set zs. c = 48 \<Longrightarrow> xs = [] \<or> hd xs \<noteq> 48 \<Longrightarrow> hexSkipZeros (zs @ xs) = xs"
  by (induction zs) (cases xs; auto)+

lemma getInt32Dec_run:
  assumes "digits es" "\<not> sqlite3Isdigit c"
  shows "getInt32Dec n (es @ c # r) i (int v) =
    Some (i + min n (length es), int (dec_from v (take n es)))"
  using assms(1)
proof (induction es arbitrary: n i v)
  case Nil
  with assms(2) show ?case by (cases n) (auto simp: isdigit_iff)
next
  case (Cons d es)
  show ?case
  proof (cases n)
    case (Suc k)
    have d: "unat d = dig d + 48" using Cons.prems digit_bounds by auto
    have "int v * 10 + (uint d - 48) = int (v * 10 + dig d)" using d by (simp add: uint_nat)
    with Suc Cons show ?thesis by (simp del: of_nat_add of_nat_mult)
  qed simp
qed

lemma getInt32_decimal:
  assumes sg: "sg \<in> {[], [43], [45]}" and ds: "ds \<noteq> []" "digits ds"
    and c: "\<not> sqlite3Isdigit c" "c \<noteq> 120" "c \<noteq> 88"
  shows "sqlite3GetInt32 (sg @ ds @ c # r) =
    (let v = (if sg = [45] then - int (dec ds) else int (dec ds)) in
     Some (if - (2 ^ 31) \<le> v \<and> v < 2 ^ 31 then Some v else None))"
proof -
  let ?neg = "sg = [45]"
  define zs where "zs = takeWhile (\<lambda>c. c = 48) ds"
  define es where "es = dropWhile (\<lambda>c. c = 48) ds"
  have zes: "ds = zs @ es" by (simp add: zs_def es_def)
  have z48: "\<forall>c \<in> set zs. c = 48" unfolding zs_def by (auto dest: set_takeWhileD)
  have e48: "es = [] \<or> hd es \<noteq> 48" unfolding es_def using hd_dropWhile [of "\<lambda>c. c = 48" ds] by auto
  have des: "digits es" "dec ds = dec es" using ds(2) zes dec_zeros [OF z48] by auto
  have c48: "c \<noteq> 48" using c(1) by (auto simp: isdigit_iff)
  obtain d0 ds' where d0: "ds = d0 # ds'" "48 \<le> d0" "d0 \<le> 57" using ds by (cases ds) auto
  have skip: "hexSkipZeros (ds @ c # r) = es @ c # r"
    using skipZeros_run [OF z48, of "es @ c # r"] e48 c48 zes by (cases es) auto
  have dd: "sqlite3Isdigit d0" using d0 by (simp add: isdigit_iff)
  have decimal: "getInt32Decimal ?neg (ds @ c # r) =
    (let v = (if ?neg then - int (dec ds) else int (dec ds)) in
     Some (if - (2 ^ 31) \<le> v \<and> v < 2 ^ 31 then Some v else None))"
  proof (cases "length es \<le> 10")
    case True
    then have "getInt32Dec 11 (es @ c # r) 0 0 = Some (length es, int (dec es))"
      using getInt32Dec_run [OF des(1) c(1), of 11 r 0 0] by simp
    with True d0(1) dd skip des(2) show ?thesis by (simp add: getInt32Decimal_def Let_def)
  next
    case False
    then obtain x xs where x: "es = x # xs" "10 \<le> length xs" by (cases es) auto
    have "getInt32Dec 11 (es @ c # r) 0 0 = Some (11, int (dec (take 11 es)))"
      using getInt32Dec_run [OF des(1) c(1), of 11 r 0 0] False by simp
    then have n: "getInt32Decimal ?neg (ds @ c # r) = Some None"
      using d0(1) dd skip by (simp add: getInt32Decimal_def)
    have "(10 :: nat) ^ 10 \<le> 10 ^ length xs" using x(2) by (intro power_increasing) simp_all
    moreover have "10 ^ length xs \<le> dec (x # xs)" using des e48 x by (intro dec_ge) auto
    ultimately have "10 ^ 10 \<le> dec ds" unfolding des(2) x(1) by linarith
    then have "int (10 ^ 10) \<le> int (dec ds)" by (rule of_nat_mono)
    then show ?thesis unfolding n Let_def by auto
  qed
  show ?thesis
  proof (cases "sg = []")
    case True
    have "d0 \<noteq> 45" "d0 \<noteq> 43" using d0 by auto
    moreover obtain d where "rd (ds @ c # r) 1 = Some d" "d \<noteq> 120" "d \<noteq> 88"
    proof (cases ds')
      case Nil
      with d0 c that show thesis by simp
    next
      case (Cons d1 ds'')
      with d0 ds(2) have "48 \<le> d1" "d1 \<le> 57" by auto
      then have "d1 \<noteq> 120" "d1 \<noteq> 88" by auto
      with Cons d0 that show thesis by simp
    qed
    moreover have "rd (ds @ c # r) 0 = Some d0" using d0(1) by simp
    ultimately have "sqlite3GetInt32 (ds @ c # r) = getInt32Decimal False (ds @ c # r)"
      unfolding sqlite3GetInt32_def by (simp only: bind.bind_lunit if_False if_True option.map HOL.simp_thms split: if_split)
    with True decimal show ?thesis by simp
  next
    case False
    then have "sqlite3GetInt32 (sg @ ds @ c # r) = getInt32Decimal ?neg (ds @ c # r)"
      using sg by (elim insertE emptyE) (simp_all add: sqlite3GetInt32_def)
    with decimal show ?thesis by (simp only:)
  qed
qed

section \<open>Hexadecimal text\<close>

definition hexval :: "u8 list \<Rightarrow> nat" where
  "hexval hs = foldl (\<lambda>v c. v * 16 + unat (sqlite3HexToInt c)) 0 hs"

lemma hexDigits_run:
  assumes "\<forall>c \<in> set hs. sqlite3Isxdigit c" "\<not> sqlite3Isxdigit c"
  shows "hexDigitsLoop (hs @ c # r) k (of_nat v) =
    Some (k + length hs, of_nat (foldl (\<lambda>v c. v * 16 + unat (sqlite3HexToInt c)) v hs), c)"
  using assms(1)
proof (induction hs arbitrary: k v)
  case (Cons h hs)
  have "of_nat v * 16 + ucast (sqlite3HexToInt h) = (of_nat (v * 16 + unat (sqlite3HexToInt h)) :: u64)" by simp
  with Cons show ?case by (simp del: of_nat_add of_nat_mult)
qed (use assms(2) in simp)

lemma isxdigit_0: "\<not> sqlite3Isxdigit 0"
  by (simp add: sqlite3Isxdigit_def sqlite3CtypeMap_def)

lemma decOrHex_hex:
  assumes "\<forall>c \<in> set zs. c = 48" "hs = [] \<or> hd hs \<noteq> 48" "\<forall>c \<in> set hs. sqlite3Isxdigit c" "x = 120 \<or> x = 88"
  shows "sqlite3DecOrHexToI64 (48 # x # zs @ hs @ 0 # r) =
    Some (if length hs \<le> 16 then 0 else 2, sint (of_nat (hexval hs) :: u64))"
proof -
  have "hexSkipZeros (zs @ hs @ 0 # r) = hs @ 0 # r"
    using skipZeros_run [OF assms(1), of "hs @ 0 # r"] assms(2) by (cases hs) auto
  with assms(4) hexDigits_run [OF assms(3) isxdigit_0, of r 0 0] show ?thesis
    by (auto simp: sqlite3DecOrHexToI64_def hexval_def)
qed

section \<open>Checked arithmetic\<close>

definition is_i64 :: "int \<Rightarrow> bool" where "is_i64 x \<longleftrightarrow> - (2 ^ 63) \<le> x \<and> x < 2 ^ 63"

definition checked :: "int \<Rightarrow> int \<Rightarrow> bool \<times> int" where
  "checked old exact = (if is_i64 exact then (False, exact) else (True, old))"

lemma addInt64_checked: "is_i64 a \<Longrightarrow> is_i64 b \<Longrightarrow> sqlite3AddInt64 a b = checked a (a + b)"
  by (auto simp: is_i64_def checked_def sqlite3AddInt64_def)

lemma subInt64_checked: "is_i64 a \<Longrightarrow> is_i64 b \<Longrightarrow> sqlite3SubInt64 a b = checked a (a - b)"
  using addInt64_checked [of a "- b"] by (auto simp: sqlite3SubInt64_def) (auto simp: is_i64_def checked_def)

lemma sdiv_pos: "0 < b \<Longrightarrow> 0 \<le> a \<Longrightarrow> a sdiv b = (a :: int) div b"
  by (simp add: signed_divide_int_def zsgn_def)

lemma sdiv_neg: "0 < b \<Longrightarrow> 0 < a \<Longrightarrow> (- a) sdiv b = - ((a :: int) div b)"
  by (simp add: signed_divide_int_def zsgn_def)

lemma mul_le_iff: "0 < b \<Longrightarrow> a \<le> n div b \<longleftrightarrow> a * b \<le> (n :: int)"
proof
  assume b: "0 < b" "a \<le> n div b"
  then have "a * b \<le> n div b * b" by (simp add: mult_right_mono)
  also have "\<dots> \<le> n" using b(1) by (metis div_mult_mod_eq le_add_same_cancel1 pos_mod_sign)
  finally show "a * b \<le> n" .
next
  assume "0 < b" "a * b \<le> n"
  then show "a \<le> n div b" using zdiv_mono1 [of "a * b" n b] by simp
qed

lemma mulInt64_checked: "is_i64 a \<Longrightarrow> is_i64 b \<Longrightarrow> sqlite3MulInt64 a b = checked a (a * b)"
proof -
  assume r: "is_i64 a" "is_i64 b"
  let ?L = "9223372036854775807 :: int" and ?S = "9223372036854775808 :: int"
  consider "b = 0 \<or> a = 0" | "0 < b" | "b < 0" "0 < a" | "b < 0" "a < 0" by linarith
  then show ?thesis
  proof cases
    case 1
    then show ?thesis
      using pos_imp_zdiv_nonneg_iff [of b ?L] pos_imp_zdiv_nonneg_iff [of b ?S]
      by (auto simp: sqlite3MulInt64_def checked_def is_i64_def sdiv_pos sdiv_neg)
  next
    case 2
    have "a > ?L sdiv b \<longleftrightarrow> \<not> a * b \<le> ?L" using 2 mul_le_iff [OF 2, of a ?L] by (simp add: sdiv_pos) linarith
    moreover have "a < (- ?S) sdiv b \<longleftrightarrow> \<not> - (a * b) \<le> ?S"
      using 2 mul_le_iff [OF 2, of "- a" ?S] by (simp add: sdiv_pos) linarith
    ultimately show ?thesis
      using 2 by (auto simp: sqlite3MulInt64_def checked_def is_i64_def Let_def)
  next
    case 3
    have "b < (- ?S) sdiv a \<longleftrightarrow> \<not> - (b * a) \<le> ?S"
      using 3 mul_le_iff [OF 3(2), of "- b" ?S] by (simp add: sdiv_pos) linarith
    moreover have "a * b \<le> 0" using 3 by (simp add: mult_le_0_iff)
    ultimately show ?thesis
      using 3 by (auto simp: sqlite3MulInt64_def checked_def is_i64_def Let_def mult.commute)
  next
    case 4
    have "- a > ?L sdiv (- b) \<longleftrightarrow> \<not> a * b \<le> ?L"
      using 4 mul_le_iff [of "- b" "- a" ?L] sdiv_pos [of "- b" ?L] by (simp only:) (simp, linarith)
    moreover have "\<not> a * b \<le> ?L" if "a = - ?S \<or> b = - ?S" using that 4 by auto
    moreover have "0 \<le> a * b" using 4 by (simp add: mult_nonpos_nonpos)
    ultimately show ?thesis
      using 4 by (auto simp: sqlite3MulInt64_def checked_def is_i64_def Let_def)
  qed
qed

section \<open>Logarithmic estimates\<close>

text \<open>The estimate in closed form: three binary digits below the leading one.\<close>

lemma logEstDown1_run: "2 ^ (k + 3) \<le> x \<Longrightarrow> x < 2 ^ (k + 4) \<Longrightarrow> logEstDown1 x y = (x div 2 ^ k, y + 10 * int k)"
proof (induction k arbitrary: x y)
  case 0
  then show ?case by (simp add: logEstDown1.simps)
next
  case (Suc k)
  then have "x > 15" using power_increasing [of 4 "Suc k + 3" "2 :: nat"] by simp
  moreover have "(2 :: nat) ^ (Suc k + 3) = 2 * 2 ^ (k + 3)" "(2 :: nat) ^ (Suc k + 4) = 2 * 2 ^ (k + 4)" by (simp_all add: power_add)
  then have "2 ^ (k + 3) \<le> x div 2" "x div 2 < 2 ^ (k + 4)" using Suc.prems by linarith+
  ultimately show ?case
    using Suc.IH [of "x div 2" "y + 10"] by (simp add: logEstDown1.simps [of x] div_mult2_eq)
qed

lemma logEst_down:
  "2 ^ (k + 3) \<le> x \<Longrightarrow> x < 2 ^ (k + 4) \<Longrightarrow>
   (case logEstDown4 x y of (x, y) \<Rightarrow> logEstDown1 x y) = (x div 2 ^ k, y + 10 * int k)"
proof (induction x y arbitrary: k rule: logEstDown4.induct)
  case (1 x y)
  show ?case
  proof (cases "x > 255")
    case True
    then have "(2 :: nat) ^ 8 < 2 ^ (k + 4)" using 1(3) by simp
    then have "8 < k + 4" by (rule power_less_imp_less_exp [rotated]) simp
    then have "4 < k" by simp
    then obtain j where j: "k = j + 4" by (metis add.commute le_Suc_ex less_imp_le)
    have "2 ^ (j + 3) \<le> x div 16" "x div 16 < 2 ^ (j + 4)" using 1(2,3) j by (simp_all add: power_add)
    with 1(1) [OF True] True j show ?thesis
      by (simp add: logEstDown4.simps [of x] power_add div_mult2_eq [symmetric] mult.commute)
  next
    case False
    then show ?thesis using logEstDown1_run [OF 1(2,3)] by (simp add: logEstDown4.simps [of x])
  qed
qed

definition logDigit :: "nat \<Rightarrow> int" where
  "logDigit d = [0, 2, 3, 5, 6, 7, 8, 9] ! d"

lemma logEst_large:
  assumes "2 ^ (k + 3) \<le> unat x" "unat x < 2 ^ (k + 4)"
  shows "sqlite3LogEst x = 10 * int (k + 3) + logDigit (unat x div 2 ^ k mod 8)"
proof -
  have "(2 :: nat) ^ 3 \<le> 2 ^ (k + 3)" by (intro power_increasing) simp_all
  then have "8 \<le> unat x" using assms(1) by simp
  then show ?thesis
    using logEst_down [OF assms, of 40] by (simp add: sqlite3LogEst_def logDigit_def split: prod.splits)
qed

lemma ex_exponent: "8 \<le> n \<Longrightarrow> \<exists>k. 2 ^ (k + 3) \<le> n \<and> n < 2 ^ (k + 4)" for n :: nat
proof -
  assume n: "8 \<le> n"
  obtain e where e: "2 ^ e \<le> n" "n < 2 ^ (e + 1)" using ex_power_ivl1 [of 2 n] n by auto
  have "3 \<le> e"
  proof (rule ccontr)
    assume "\<not> 3 \<le> e"
    then have "(2 :: nat) ^ (e + 1) \<le> 2 ^ 3" by (intro power_increasing) simp_all
    with e n show False by simp
  qed
  then obtain k where "e = k + 3" by (metis add.commute le_Suc_ex)
  with e show ?thesis by (intro exI [of _ k]) (simp add: numeral_eq_Suc)
qed

lemma logEst_small: "unat x < 8 \<Longrightarrow> sqlite3LogEst x = [0, 0, 10, 16, 20, 23, 26, 28] ! unat x"
proof -
  assume x: "unat x < 8"
  have "unat x \<in> {0, 1, 2, 3, 4, 5, 6, 7}" using x by auto
  then show ?thesis
    by (elim insertE emptyE) (simp_all add: sqlite3LogEst_def logEstUp.simps)
qed

lemma logDigit_mono: "i \<le> j \<Longrightarrow> j < 8 \<Longrightarrow> logDigit i \<le> logDigit j \<and> 0 \<le> logDigit i \<and> logDigit j \<le> 9"
proof -
  assume "i \<le> j" "j < 8"
  then have "j \<in> {0, 1, 2, 3, 4, 5, 6, 7}" "i \<in> {0, 1, 2, 3, 4, 5, 6, 7}" by auto
  then show ?thesis using \<open>i \<le> j\<close> by (auto simp: logDigit_def)
qed

lemma div_mod_8: "2 ^ (k + 3) \<le> n \<Longrightarrow> n < 2 ^ (k + 4) \<Longrightarrow> n div 2 ^ k mod 8 = n div 2 ^ k - 8" for n :: nat
proof -
  assume n: "2 ^ (k + 3) \<le> n" "n < 2 ^ (k + 4)"
  have "8 \<le> n div 2 ^ k" using div_le_mono [OF n(1), of "2 ^ k"] by (simp add: power_add)
  moreover have "n div 2 ^ k < 16" using n(2) by (simp add: power_add div_less_iff_less_mult)
  ultimately show ?thesis by (simp add: mod_if)
qed

lemma logEst_bounds:
  assumes "2 ^ (k + 3) \<le> unat x" "unat x < 2 ^ (k + 4)"
  shows "10 * int (k + 3) \<le> sqlite3LogEst x \<and> sqlite3LogEst x \<le> 10 * int (k + 3) + 9"
  using logEst_large [OF assms] logDigit_mono [of "unat x div 2 ^ k mod 8" "unat x div 2 ^ k mod 8"] by simp

lemma logEst_small_mono: "unat x \<le> unat y \<Longrightarrow> unat y < 8 \<Longrightarrow> sqlite3LogEst x \<le> sqlite3LogEst y"
proof -
  assume x: "unat x \<le> unat y" "unat y < 8"
  then have "unat y \<in> {0, 1, 2, 3, 4, 5, 6, 7}" "unat x \<in> {0, 1, 2, 3, 4, 5, 6, 7}" by auto
  then show ?thesis using x logEst_small [of x] logEst_small [of y] by auto
qed

lemma logEst_mono: "unat x \<le> unat y \<Longrightarrow> sqlite3LogEst x \<le> sqlite3LogEst y"
proof -
  assume xy: "unat x \<le> unat y"
  consider "unat y < 8" | "unat x < 8" "8 \<le> unat y" | "8 \<le> unat x" by linarith
  then show ?thesis
  proof cases
    case 1
    with xy show ?thesis by (rule logEst_small_mono)
  next
    case 2
    then obtain k where "2 ^ (k + 3) \<le> unat y" "unat y < 2 ^ (k + 4)" using ex_exponent by blast
    then have "30 \<le> sqlite3LogEst y" using logEst_bounds [of k y] by simp
    moreover have "sqlite3LogEst x \<le> 28"
      using 2(1) logEst_small_mono [of x 7] logEst_small [of 7] by simp
    ultimately show ?thesis by simp
  next
    case 3
    then obtain j where j: "2 ^ (j + 3) \<le> unat x" "unat x < 2 ^ (j + 4)" using ex_exponent by blast
    obtain k where k: "2 ^ (k + 3) \<le> unat y" "unat y < 2 ^ (k + 4)" using ex_exponent [of "unat y"] 3 xy by auto
    have "(2 :: nat) ^ (j + 3) < 2 ^ (k + 4)" using j(1) k(2) xy by linarith
    then have "j + 3 < k + 4" by (rule power_less_imp_less_exp [rotated]) simp
    then have "j \<le> k" by simp
    show ?thesis
    proof (cases "j = k")
      case True
      have "unat x div 2 ^ k - 8 \<le> unat y div 2 ^ k - 8" using xy by (simp add: div_le_mono diff_le_mono)
      moreover have "unat y div 2 ^ k - 8 < 8" using div_mod_8 [OF k] by (metis mod_less_divisor zero_less_numeral)
      ultimately show ?thesis
        using logEst_large [OF j] logEst_large [OF k] True div_mod_8 [OF k] div_mod_8 [of k "unat x"] j
          logDigit_mono [of "unat x div 2 ^ k - 8" "unat y div 2 ^ k - 8"] by simp
    next
      case False
      with \<open>j \<le> k\<close> logEst_bounds [OF j] logEst_bounds [OF k] show ?thesis by simp
    qed
  qed
qed

lemma logEstAdd_table: "i < 32 \<Longrightarrow> 2 \<le> logEstAddTable ! i \<and> logEstAddTable ! i \<le> 10"
proof -
  assume "i < 32"
  moreover have "list_all (\<lambda>v. 2 \<le> v \<and> v \<le> 10) logEstAddTable" by (simp add: logEstAddTable_def)
  moreover have "length logEstAddTable = 32" by (simp add: logEstAddTable_def)
  ultimately show ?thesis by (simp add: list_all_length)
qed

lemma logEstAdd_close: "b \<le> a \<Longrightarrow> \<not> b + 31 < a \<Longrightarrow>
    2 \<le> logEstAddTable ! nat (a - b) \<and> logEstAddTable ! nat (a - b) \<le> 10"
  by (rule logEstAdd_table) linarith

lemma logEstAdd_bounds:
  "max a b \<le> sqlite3LogEstAdd a b \<and> sqlite3LogEstAdd a b \<le> max a b + 10 \<and>
   sqlite3LogEstAdd a b = sqlite3LogEstAdd b a"
  using logEstAdd_close [of a b] logEstAdd_close [of b a]
  by (cases "a = b"; cases "b \<le> a") (auto simp: sqlite3LogEstAdd_def)

section \<open>Properties\<close>

text \<open>C33: \<^verbatim>\<open>sqlite3Atoi64\<close> on UTF-8 text made of spaces, an optional sign, at least one digit and
  a tail that does not start with a digit: it never reads past the given length, and it
  returns the exact value with code 0, or 1 when the tail is not all space, if the value
  is a signed 64-bit integer; code 3 for \<open>+2^63\<close>; code 2 and the nearest bound otherwise,
  however many digits there are.\<close>

theorem atoi64_correct:
  assumes "\<forall>c \<in> set sp. sqlite3Isspace c" and "sg \<in> {[], [43], [45]}"
    and "ds \<noteq> []" and "digits ds" and "tr = [] \<or> \<not> sqlite3Isdigit (hd tr)"
  shows "sqlite3Atoi64 (sp @ sg @ ds @ tr @ r) (length (sp @ sg @ ds @ tr)) 1 =
    Some (atoi_result (sg = [45]) (dec ds) (if list_all sqlite3Isspace tr then 0 else 1))"
  using assms by (rule atoi64_decimal)

theorem atoi64_correct_witness:
  "sqlite3Atoi64 ([32] @ [45] @ [48, 52, 50] @ [32] @ []) (length ([32] @ [45] @ [48, 52, 50] @ [32 :: u8])) 1
    = Some (0, - 42)"
proof -
  have "sqlite3Atoi64 ([32] @ [45] @ [48, 52, 50] @ [32] @ []) (length ([32] @ [45] @ [48, 52, 50] @ [32 :: u8])) 1
    = Some (atoi_result ([45] = [45 :: u8]) (dec [48, 52, 50]) (if list_all sqlite3Isspace [32] then 0 else 1))"
    by (rule atoi64_correct) (simp_all add: isspace_iff isdigit_iff)
  then show ?thesis by (simp add: atoi_result_def dig_def isspace_iff)
qed

text \<open>C24: \<^verbatim>\<open>sqlite3GetInt32\<close> on an optionally signed decimal number that ends before a byte
  which is neither a digit nor an \<open>x\<close>: it succeeds exactly when the value fits in 32 bits, and
  then it stores that value.\<close>

theorem getInt32_correct:
  assumes "sg \<in> {[], [43], [45]}" and "ds \<noteq> []" and "digits ds"
    and "\<not> sqlite3Isdigit c" and "c \<noteq> 120" and "c \<noteq> 88"
  shows "sqlite3GetInt32 (sg @ ds @ c # r) =
    (let v = (if sg = [45] then - int (dec ds) else int (dec ds)) in
     Some (if - (2 ^ 31) \<le> v \<and> v < 2 ^ 31 then Some v else None))"
  using assms by (rule getInt32_decimal)

theorem getInt32_correct_witness:
  "sqlite3GetInt32 ([45] @ [50, 49, 52, 55, 52, 56, 51, 54, 52, 56] @ 0 # []) = Some (Some (- 2147483648))"
  using getInt32_correct [of "[45]" "[50, 49, 52, 55, 52, 56, 51, 54, 52, 56]" 0 "[]"]
  by (simp add: isdigit_iff dig_def)

text \<open>C34: A hexadecimal literal is read as its value modulo \<open>2^64\<close> in two's complement, and is
  reported as malformed exactly when it has more than sixteen digits after the leading
  zeros.\<close>

theorem hex_literal_correct:
  assumes "\<forall>c \<in> set zs. c = 48" and "hs = [] \<or> hd hs \<noteq> 48" and "\<forall>c \<in> set hs. sqlite3Isxdigit c"
    and "x = 120 \<or> x = 88"
  shows "sqlite3DecOrHexToI64 (48 # x # zs @ hs @ 0 # r) =
    Some (if length hs \<le> 16 then 0 else 2, sint (of_nat (hexval hs) :: u64))"
  using assms by (rule decOrHex_hex)

theorem hex_literal_correct_witness:
  "sqlite3DecOrHexToI64 (48 # 120 # [48] @ [49, 48] @ 0 # []) = Some (0, 16)"
proof -
  have x: "sqlite3Isxdigit 49" "sqlite3Isxdigit 48" by (simp_all add: sqlite3Isxdigit_def sqlite3CtypeMap_def)
  have "sqlite3DecOrHexToI64 (48 # 120 # [48] @ [49, 48] @ 0 # []) =
    Some (if length [49, 48 :: u8] \<le> 16 then 0 else 2, sint (of_nat (hexval [49, 48]) :: u64))"
    by (rule hex_literal_correct) (simp_all add: x)
  then show ?thesis by (simp add: hexval_def sqlite3HexToInt_def)
qed

text \<open>The checked operations on 64-bit integers store the exact sum, difference or product
  and return 0 when it is representable, and otherwise leave the operand and return 1.\<close>

lemma int64_checked_ops:
  assumes "is_i64 a" and "is_i64 b"
  shows "sqlite3AddInt64 a b = checked a (a + b) \<and> sqlite3SubInt64 a b = checked a (a - b) \<and>
    sqlite3MulInt64 a b = checked a (a * b)"
  using assms by (simp add: addInt64_checked subInt64_checked mulInt64_checked)

text \<open>The logarithmic estimate is monotone, exact on powers of two, and sums of estimates
  lie between the larger one and ten more.\<close>

lemma logEst_monotone:
  "(unat x \<le> unat y \<longrightarrow> sqlite3LogEst x \<le> sqlite3LogEst y) \<and>
   (2 ^ (k + 3) \<le> unat x \<and> unat x < 2 ^ (k + 4) \<longrightarrow>
      10 * int (k + 3) \<le> sqlite3LogEst x \<and> sqlite3LogEst x \<le> 10 * int (k + 3) + 9) \<and>
   max a b \<le> sqlite3LogEstAdd a b \<and> sqlite3LogEstAdd a b \<le> max a b + 10 \<and>
   sqlite3LogEstAdd a b = sqlite3LogEstAdd b a"
  using logEst_mono logEst_bounds logEstAdd_bounds by simp

end
