(* ===== verification/Porter.thy ===== *)
theory Porter
  imports Prelude
begin

text \<open>
  The Porter stemmer of FTS5 (\<^verbatim>\<open>fts5_tokenize.c\<close>), which the application's full-text index uses
  to match word forms. A word is the list of the \<^verbatim>\<open>nBuf\<close> bytes in \<^verbatim>\<open>aBuf\<close>; the callback
  passes the stemmed word on to \<^verbatim>\<open>xToken\<close>, and the model returns it.

  The generated step functions dispatch on \<^verbatim>\<open>aBuf[nBuf-2]\<close>. A step may have cut the word to
  one byte, and then this is \<^verbatim>\<open>aBuf[-1]\<close>, the byte of the structure before the buffer. That
  byte is the parameter \<open>pre\<close>; a read further out is \<open>None\<close>. The theorems show that its
  value does not matter.
\<close>

section \<open>Reading and matching at the end of the word\<close>

abbreviation bytes :: "string \<Rightarrow> u8 list" where "bytes \<equiv> map of_char"

text \<open>\<^verbatim>\<open>aBuf[nBuf-k]\<close>\<close>

definition rdEnd :: "u8 \<Rightarrow> u8 list \<Rightarrow> nat \<Rightarrow> u8 option" where
  "rdEnd pre s k =
     (if k \<le> length s then Some (s ! (length s - k)) else if k = length s + 1 then Some pre else None)"

text \<open>\<^verbatim>\<open>nBuf>k && 0==memcmp(z, &aBuf[nBuf-k], k)\<close>\<close>

definition ends :: "u8 list \<Rightarrow> u8 list \<Rightarrow> bool" where
  "ends s z \<longleftrightarrow> length s > length z \<and> drop (length s - length z) s = z"

definition stem :: "u8 list \<Rightarrow> nat \<Rightarrow> u8 list" where
  "stem s k = take (length s - k) s"

text \<open>One \<^verbatim>\<open>if\<close> of a chain: on a matching suffix the chain ends, and the suffix is replaced when
  the condition holds for the stem.\<close>

definition rule :: "u8 list \<Rightarrow> string \<Rightarrow> (u8 list \<Rightarrow> bool) \<Rightarrow> string \<Rightarrow> u8 list \<Rightarrow> u8 list" where
  "rule s z cond out rest =
     (if ends s (bytes z) then
        (if cond (stem s (length z)) then stem s (length z) @ bytes out else s)
      else rest)"

section \<open>Conditions\<close>

definition fts5PorterIsVowel :: "u8 \<Rightarrow> bool \<Rightarrow> bool" where
  "fts5PorterIsVowel c bYIsVowel \<longleftrightarrow>
     c = 97 \<or> c = 101 \<or> c = 105 \<or> c = 111 \<or> c = 117 \<or> (bYIsVowel \<and> c = 121)"

text \<open>The second loop of \<^verbatim>\<open>fts5PorterGobbleVC\<close>, which looks for a consonant, and the first one,
  which looks for a vowel.\<close>

fun gobbleCons :: "bool \<Rightarrow> u8 list \<Rightarrow> nat \<Rightarrow> nat" where
  "gobbleCons bCons [] i = 0"
| "gobbleCons bCons (c # z) i =
     (let bCons = \<not> fts5PorterIsVowel c bCons in if bCons then i + 1 else gobbleCons bCons z (i + 1))"

fun gobbleVowel :: "bool \<Rightarrow> u8 list \<Rightarrow> nat \<Rightarrow> nat" where
  "gobbleVowel bCons [] i = 0"
| "gobbleVowel bCons (c # z) i =
     (let bCons = \<not> fts5PorterIsVowel c bCons in
      if \<not> bCons then gobbleCons bCons z (i + 1) else gobbleVowel bCons z (i + 1))"

definition fts5PorterGobbleVC :: "u8 list \<Rightarrow> bool \<Rightarrow> nat" where
  "fts5PorterGobbleVC zStem bPrevCons = gobbleVowel bPrevCons zStem 0"

definition fts5Porter_MGt0 :: "u8 list \<Rightarrow> bool" where
  "fts5Porter_MGt0 zStem \<longleftrightarrow> fts5PorterGobbleVC zStem False \<noteq> 0"

definition fts5Porter_MGt1 :: "u8 list \<Rightarrow> bool" where
  "fts5Porter_MGt1 zStem \<longleftrightarrow>
     (let n = fts5PorterGobbleVC zStem False in
      n \<noteq> 0 \<and> fts5PorterGobbleVC (drop n zStem) True \<noteq> 0)"

definition fts5Porter_MEq1 :: "u8 list \<Rightarrow> bool" where
  "fts5Porter_MEq1 zStem \<longleftrightarrow>
     (let n = fts5PorterGobbleVC zStem False in
      n \<noteq> 0 \<and> fts5PorterGobbleVC (drop n zStem) True = 0)"

text \<open>The mask is a 32-bit integer whose high bits are shifted out.\<close>

fun ostarLoop :: "u32 \<Rightarrow> bool \<Rightarrow> u8 list \<Rightarrow> u32" where
  "ostarLoop msk bCons [] = msk"
| "ostarLoop msk bCons (c # z) =
     (let bCons = \<not> fts5PorterIsVowel c bCons in
      ostarLoop (push_bit 1 msk + (if bCons then 1 else 0)) bCons z)"

definition fts5Porter_Ostar :: "u8 \<Rightarrow> u8 list \<Rightarrow> bool option" where
  "fts5Porter_Ostar pre zStem =
     (case rdEnd pre zStem 1 of
        None \<Rightarrow> None
      | Some c \<Rightarrow>
          Some (if c = 119 \<or> c = 120 \<or> c = 121 then False
                else ostarLoop 0 False zStem AND 0x0007 = 0x0005))"

definition fts5Porter_MGt1_and_S_or_T :: "u8 list \<Rightarrow> bool" where
  "fts5Porter_MGt1_and_S_or_T zStem \<longleftrightarrow>
     zStem \<noteq> [] \<and> (last zStem = 115 \<or> last zStem = 116) \<and> fts5Porter_MGt1 zStem"

fun vowelLoop :: "u8 list \<Rightarrow> bool \<Rightarrow> bool" where
  "vowelLoop [] notFirst = False"
| "vowelLoop (c # z) notFirst = (if fts5PorterIsVowel c notFirst then True else vowelLoop z True)"

definition fts5Porter_Vowel :: "u8 list \<Rightarrow> bool" where
  "fts5Porter_Vowel zStem = vowelLoop zStem False"

section \<open>The generated steps\<close>

definition fts5PorterStep4 :: "u8 \<Rightarrow> u8 list \<Rightarrow> u8 list option" where
  "fts5PorterStep4 pre s =
     (case rdEnd pre s 2 of
        None \<Rightarrow> None
      | Some c \<Rightarrow> Some (let M = fts5Porter_MGt1 in
          if c = 97 then rule s ''al'' M '''' s
          else if c = 99 then rule s ''ance'' M '''' (rule s ''ence'' M '''' s)
          else if c = 101 then rule s ''er'' M '''' s
          else if c = 105 then rule s ''ic'' M '''' s
          else if c = 108 then rule s ''able'' M '''' (rule s ''ible'' M '''' s)
          else if c = 110 then
            rule s ''ant'' M '''' (rule s ''ement'' M '''' (rule s ''ment'' M '''' (rule s ''ent'' M '''' s)))
          else if c = 111 then rule s ''ion'' fts5Porter_MGt1_and_S_or_T '''' (rule s ''ou'' M '''' s)
          else if c = 115 then rule s ''ism'' M '''' s
          else if c = 116 then rule s ''ate'' M '''' (rule s ''iti'' M '''' s)
          else if c = 117 then rule s ''ous'' M '''' s
          else if c = 118 then rule s ''ive'' M '''' s
          else if c = 122 then rule s ''ize'' M '''' s
          else s))"

text \<open>Steps 1B2 and 1B also return \<^verbatim>\<open>ret\<close>.\<close>

definition fts5PorterStep1B2 :: "u8 \<Rightarrow> u8 list \<Rightarrow> (bool \<times> u8 list) option" where
  "fts5PorterStep1B2 pre s =
     (case rdEnd pre s 2 of
        None \<Rightarrow> None
      | Some c \<Rightarrow> Some (
          if c = 97 \<and> ends s (bytes ''at'') then (True, stem s 2 @ bytes ''ate'')
          else if c = 98 \<and> ends s (bytes ''bl'') then (True, stem s 2 @ bytes ''ble'')
          else if c = 105 \<and> ends s (bytes ''iz'') then (True, stem s 2 @ bytes ''ize'')
          else (False, s)))"

definition fts5PorterStep2 :: "u8 \<Rightarrow> u8 list \<Rightarrow> u8 list option" where
  "fts5PorterStep2 pre s =
     (case rdEnd pre s 2 of
        None \<Rightarrow> None
      | Some c \<Rightarrow> Some (let M = fts5Porter_MGt0 in
          if c = 97 then rule s ''ational'' M ''ate'' (rule s ''tional'' M ''tion'' s)
          else if c = 99 then rule s ''enci'' M ''ence'' (rule s ''anci'' M ''ance'' s)
          else if c = 101 then rule s ''izer'' M ''ize'' s
          else if c = 103 then rule s ''logi'' M ''log'' s
          else if c = 108 then
            rule s ''bli'' M ''ble'' (rule s ''alli'' M ''al'' (rule s ''entli'' M ''ent''
              (rule s ''eli'' M ''e'' (rule s ''ousli'' M ''ous'' s))))
          else if c = 111 then
            rule s ''ization'' M ''ize'' (rule s ''ation'' M ''ate'' (rule s ''ator'' M ''ate'' s))
          else if c = 115 then
            rule s ''alism'' M ''al'' (rule s ''iveness'' M ''ive'' (rule s ''fulness'' M ''ful''
              (rule s ''ousness'' M ''ous'' s)))
          else if c = 116 then
            rule s ''aliti'' M ''al'' (rule s ''iviti'' M ''ive'' (rule s ''biliti'' M ''ble'' s))
          else s))"

definition fts5PorterStep3 :: "u8 \<Rightarrow> u8 list \<Rightarrow> u8 list option" where
  "fts5PorterStep3 pre s =
     (case rdEnd pre s 2 of
        None \<Rightarrow> None
      | Some c \<Rightarrow> Some (let M = fts5Porter_MGt0 in
          if c = 97 then rule s ''ical'' M ''ic'' s
          else if c = 115 then rule s ''ness'' M '''' s
          else if c = 116 then rule s ''icate'' M ''ic'' (rule s ''iciti'' M ''ic'' s)
          else if c = 117 then rule s ''ful'' M '''' s
          else if c = 118 then rule s ''ative'' M '''' s
          else if c = 122 then rule s ''alize'' M ''al'' s
          else s))"

definition fts5PorterStep1B :: "u8 \<Rightarrow> u8 list \<Rightarrow> (bool \<times> u8 list) option" where
  "fts5PorterStep1B pre s =
     (case rdEnd pre s 2 of
        None \<Rightarrow> None
      | Some c \<Rightarrow> Some (
          if c = 101 then
            (if ends s (bytes ''eed'') then
               (False, if fts5Porter_MGt0 (stem s 3) then stem s 3 @ bytes ''ee'' else s)
             else if ends s (bytes ''ed'') then
               (if fts5Porter_Vowel (stem s 2) then (True, stem s 2) else (False, s))
             else (False, s))
          else if c = 110 then
            (if ends s (bytes ''ing'') then
               (if fts5Porter_Vowel (stem s 3) then (True, stem s 3) else (False, s))
             else (False, s))
          else (False, s)))"

section \<open>Step 1A and the callback\<close>

definition fts5PorterStep1A :: "u8 \<Rightarrow> u8 list \<Rightarrow> u8 list option" where
  "fts5PorterStep1A pre s =
     do {
       c1 \<leftarrow> rdEnd pre s 1;
       if c1 = 115 then
         do {
           c2 \<leftarrow> rdEnd pre s 2;
           if c2 = 101 then
             do {
               a \<leftarrow> (if length s > 4 then
                       do { c4 \<leftarrow> rdEnd pre s 4; c3 \<leftarrow> rdEnd pre s 3; Some (c4 = 115 \<and> c3 = 115) }
                     else Some False);
               b \<leftarrow> (if a then Some True
                     else if length s > 3 then map_option (\<lambda>c3. c3 = 105) (rdEnd pre s 3)
                     else Some False);
               Some (if b then stem s 2 else stem s 1)
             }
           else if c2 \<noteq> 115 then Some (stem s 1)
           else Some s
         }
       else Some s
     }"

text \<open>The cleanup after step 1B removed a suffix.\<close>

definition porterStep1B3 :: "u8 \<Rightarrow> u8 list \<Rightarrow> u8 list option" where
  "porterStep1B3 pre s =
     do {
       (r, s) \<leftarrow> fts5PorterStep1B2 pre s;
       if r then Some s
       else
         do {
           c \<leftarrow> rdEnd pre s 1;
           dbl \<leftarrow> (if \<not> fts5PorterIsVowel c False \<and> c \<noteq> 108 \<and> c \<noteq> 115 \<and> c \<noteq> 122
                   then map_option (\<lambda>d. c = d) (rdEnd pre s 2) else Some False);
           if dbl then Some (stem s 1)
           else
             do {
               st \<leftarrow> (if fts5Porter_MEq1 s then fts5Porter_Ostar pre s else Some False);
               Some (if st then s @ [101] else s)
             }
         }
     }"

definition porterStep1C :: "u8 \<Rightarrow> u8 list \<Rightarrow> u8 list option" where
  "porterStep1C pre s =
     do {
       c \<leftarrow> rdEnd pre s 1;
       Some (if c = 121 \<and> fts5Porter_Vowel (stem s 1) then stem s 1 @ [105] else s)
     }"

definition porterStep5 :: "u8 \<Rightarrow> u8 list \<Rightarrow> u8 list option" where
  "porterStep5 pre s =
     do {
       c \<leftarrow> rdEnd pre s 1;
       s \<leftarrow> (if c = 101 then
               do {
                 cut \<leftarrow> (if fts5Porter_MGt1 (stem s 1) then Some True
                         else if fts5Porter_MEq1 (stem s 1) then
                           map_option (\<lambda>st. \<not> st) (fts5Porter_Ostar pre (stem s 1))
                         else Some False);
                 Some (if cut then stem s 1 else s)
               }
             else Some s);
       if length s > 1 then
         do {
           c1 \<leftarrow> rdEnd pre s 1;
           c2 \<leftarrow> rdEnd pre s 2;
           Some (if c1 = 108 \<and> c2 = 108 \<and> fts5Porter_MGt1 (stem s 1) then stem s 1 else s)
         }
       else Some s
     }"

text \<open>The token that \<^verbatim>\<open>fts5PorterCb\<close> passes to \<^verbatim>\<open>xToken\<close>.\<close>

definition fts5PorterCb :: "u8 \<Rightarrow> u8 list \<Rightarrow> u8 list option" where
  "fts5PorterCb pre tok =
     (if length tok > 64 \<or> length tok < 3 then Some tok
      else
        do {
          s \<leftarrow> fts5PorterStep1A pre tok;
          (r, s) \<leftarrow> fts5PorterStep1B pre s;
          s \<leftarrow> (if r then porterStep1B3 pre s else Some s);
          s \<leftarrow> porterStep1C pre s;
          s \<leftarrow> fts5PorterStep2 pre s;
          s \<leftarrow> fts5PorterStep3 pre s;
          s \<leftarrow> fts5PorterStep4 pre s;
          porterStep5 pre s
        })"

section \<open>Porter's measure\<close>

text \<open>Whether the letter at position \<open>i\<close> is a consonant, after the definition of the stemming
  algorithm: a letter other than a, e, i, o, u, and other than y preceded by a consonant.\<close>

fun porterCons :: "u8 list \<Rightarrow> nat \<Rightarrow> bool" where
  "porterCons w 0 \<longleftrightarrow> w ! 0 \<notin> {97, 101, 105, 111, 117}"
| "porterCons w (Suc i) \<longleftrightarrow>
     w ! Suc i \<notin> {97, 101, 105, 111, 117} \<and> \<not> (w ! Suc i = 121 \<and> porterCons w i)"

text \<open>The measure \<^emph>\<open>m\<close>: how often a vowel is followed by a consonant.\<close>

definition porterM :: "u8 list \<Rightarrow> nat" where
  "porterM w = length (filter (\<lambda>i. \<not> porterCons w i \<and> porterCons w (i + 1)) [0..<length w - 1])"

text \<open>The condition \<^emph>\<open>*o\<close>: the stem ends consonant, vowel, consonant, the last not w, x or y.\<close>

definition porterO :: "u8 list \<Rightarrow> bool" where
  "porterO w \<longleftrightarrow> 3 \<le> length w \<and> porterCons w (length w - 3) \<and> \<not> porterCons w (length w - 2) \<and>
     porterCons w (length w - 1) \<and> last w \<notin> {119, 120, 121}"

fun consFlags :: "bool \<Rightarrow> u8 list \<Rightarrow> bool list" where
  "consFlags b [] = []"
| "consFlags b (c # z) = (let b' = \<not> fts5PorterIsVowel c b in b' # consFlags b' z)"

fun vcCount :: "bool \<Rightarrow> bool list \<Rightarrow> nat" where
  "vcCount p [] = 0"
| "vcCount p (b # r) = (if \<not> p \<and> b then 1 else 0) + vcCount b r"

lemma length_consFlags [simp]: "length (consFlags b z) = length z"
  by (induction z arbitrary: b) (simp_all add: Let_def)

lemma consFlags_append:
  "consFlags b (x @ y) = consFlags b x @ consFlags (last (b # consFlags b x)) y"
  by (induction x arbitrary: b) (auto simp: Let_def)

lemma consFlags_Suc:
  "Suc i < length z \<Longrightarrow> consFlags b z ! Suc i = (\<not> fts5PorterIsVowel (z ! Suc i) (consFlags b z ! i))"
proof (induction z arbitrary: b i)
  case (Cons c z)
  then show ?case
    by (cases z; cases i) (auto simp: Let_def)
qed simp

lemma consFlags_nth: "i < length w \<Longrightarrow> consFlags False w ! i = porterCons w i"
proof (induction i)
  case 0
  then show ?case by (cases w) (auto simp: fts5PorterIsVowel_def Let_def)
next
  case (Suc i)
  then show ?case by (auto simp: consFlags_Suc fts5PorterIsVowel_def)
qed

lemma vcCount_nth: "vcCount p r = length (filter (\<lambda>i. \<not> (p # r) ! i \<and> r ! i) [0..<length r])"
proof (induction r arbitrary: p)
  case (Cons b r)
  have "[0..<length (b # r)] = 0 # map Suc [0..<length r]"
    by (simp only: length_Cons upt_conv_Cons [of 0] zero_less_Suc map_Suc_upt)
  then show ?case
    by (simp add: Cons.IH filter_map o_def)
qed simp

lemma porterM_vcCount: "porterM w = vcCount True (consFlags False w)"
proof (cases w)
  case (Cons c z)
  let ?f = "consFlags False w"
  have "[0..<length w] = 0 # map Suc [0..<length z]"
    unfolding Cons by (simp only: length_Cons upt_conv_Cons [of 0] zero_less_Suc map_Suc_upt)
  then have "vcCount True ?f = length (filter (\<lambda>i. \<not> ?f ! i \<and> ?f ! Suc i) [0..<length z])"
    by (simp add: vcCount_nth filter_map o_def)
  also have "filter (\<lambda>i. \<not> ?f ! i \<and> ?f ! Suc i) [0..<length z] =
      filter (\<lambda>i. \<not> porterCons w i \<and> porterCons w (i + 1)) [0..<length z]"
    by (rule filter_cong) (auto simp: Cons consFlags_nth [of _ w, unfolded Cons] simp del: porterCons.simps consFlags.simps)
  finally show ?thesis
    by (simp add: porterM_def Cons)
qed (simp add: porterM_def)

lemma gobbleCons_spec:
  "gobbleCons b z i = 0 \<and> vcCount False (consFlags b z) = 0 \<or>
   (\<exists>k \<le> length z. 0 < k \<and> gobbleCons b z i = i + k \<and>
      vcCount False (consFlags b z) = Suc (vcCount True (consFlags True (drop k z))))"
proof (induction z arbitrary: b i)
  case (Cons c z)
  show ?case
  proof (cases "fts5PorterIsVowel c b")
    case True
    then have f: "consFlags b (c # z) = False # consFlags False z"
      "gobbleCons b (c # z) i = gobbleCons False z (i + 1)"
      by (simp_all add: Let_def)
    from Cons.IH [of False "i + 1"] show ?thesis
    proof (elim disjE exE conjE)
      fix k
      assume "k \<le> length z" "0 < k" "gobbleCons False z (i + 1) = i + 1 + k"
        "vcCount False (consFlags False z) = Suc (vcCount True (consFlags True (drop k z)))"
      then show ?thesis
        unfolding f by (intro disjI2 exI [of _ "Suc k"]) simp
    qed (simp add: f del: gobbleCons.simps gobbleVowel.simps consFlags.simps)
  next
    case False
    then show ?thesis
      by (auto simp: Let_def intro!: exI [of _ 1])
  qed
qed simp

lemma gobbleVowel_spec:
  "gobbleVowel b z i = 0 \<and> vcCount True (consFlags b z) = 0 \<or>
   (\<exists>k \<le> length z. 0 < k \<and> gobbleVowel b z i = i + k \<and>
      vcCount True (consFlags b z) = Suc (vcCount True (consFlags True (drop k z))))"
proof (induction z arbitrary: b i)
  case (Cons c z)
  show ?case
  proof (cases "fts5PorterIsVowel c b")
    case True
    then have f: "consFlags b (c # z) = False # consFlags False z"
      "gobbleVowel b (c # z) i = gobbleCons False z (i + 1)"
      by (simp_all add: Let_def)
    from gobbleCons_spec [of False z "i + 1"] show ?thesis
    proof (elim disjE exE conjE)
      fix k
      assume "k \<le> length z" "0 < k" "gobbleCons False z (i + 1) = i + 1 + k"
        "vcCount False (consFlags False z) = Suc (vcCount True (consFlags True (drop k z)))"
      then show ?thesis
        unfolding f by (intro disjI2 exI [of _ "Suc k"]) simp
    qed (simp add: f del: gobbleCons.simps gobbleVowel.simps consFlags.simps)
  next
    case False
    then have f: "consFlags b (c # z) = True # consFlags True z"
      "gobbleVowel b (c # z) i = gobbleVowel True z (i + 1)"
      by (simp_all add: Let_def)
    from Cons.IH [of True "i + 1"] show ?thesis
    proof (elim disjE exE conjE)
      fix k
      assume "k \<le> length z" "0 < k" "gobbleVowel True z (i + 1) = i + 1 + k"
        "vcCount True (consFlags True z) = Suc (vcCount True (consFlags True (drop k z)))"
      then show ?thesis
        unfolding f by (intro disjI2 exI [of _ "Suc k"]) simp
    qed (simp add: f del: gobbleCons.simps gobbleVowel.simps consFlags.simps)
  qed
qed simp

lemma GobbleVC_cases:
  obtains (none) "fts5PorterGobbleVC z b = 0" "vcCount True (consFlags b z) = 0"
  | (vc) "0 < fts5PorterGobbleVC z b"
      "vcCount True (consFlags b z) = Suc (vcCount True (consFlags True (drop (fts5PorterGobbleVC z b) z)))"
  using gobbleVowel_spec [of b z 0] unfolding fts5PorterGobbleVC_def by fastforce

lemma MGt0_iff: "fts5Porter_MGt0 w \<longleftrightarrow> 0 < porterM w"
  by (cases rule: GobbleVC_cases [of w False]) (auto simp: fts5Porter_MGt0_def porterM_vcCount)

lemma MGt1_iff: "fts5Porter_MGt1 w \<longleftrightarrow> 1 < porterM w"
proof (cases rule: GobbleVC_cases [of w False])
  case vc
  then show ?thesis
    by (cases rule: GobbleVC_cases [of "drop (fts5PorterGobbleVC w False) w" True])
      (auto simp: fts5Porter_MGt1_def porterM_vcCount Let_def)
qed (auto simp: fts5Porter_MGt1_def porterM_vcCount Let_def)

lemma MEq1_iff: "fts5Porter_MEq1 w \<longleftrightarrow> porterM w = 1"
proof (cases rule: GobbleVC_cases [of w False])
  case vc
  then show ?thesis
    by (cases rule: GobbleVC_cases [of "drop (fts5PorterGobbleVC w False) w" True])
      (auto simp: fts5Porter_MEq1_def porterM_vcCount Let_def)
qed (auto simp: fts5Porter_MEq1_def porterM_vcCount Let_def)

lemma vowelLoop_iff: "vowelLoop z n \<longleftrightarrow> (\<exists>i < length z. fts5PorterIsVowel (z ! i) (n \<or> 0 < i))"
proof (induction z n rule: vowelLoop.induct)
  case (2 c z n)
  then show ?case
    by (auto simp: Ex_less_Suc2)
qed simp

lemma ostarLoop_fold:
  "ostarLoop m b z = fold (\<lambda>f m. push_bit 1 m + (if f then 1 else 0)) (consFlags b z) m"
  by (induction z arbitrary: m b) (simp_all add: Let_def)

lemma low3: "(8 * m + of_bool a * 4 + of_bool b * 2 + of_bool c :: u32) AND 7 = of_bool a * 4 + of_bool b * 2 + of_bool c"
proof -
  have "n AND 7 = n mod 8" for n :: nat
    using take_bit_eq_mask [of 3 n] by (simp add: mask_eq_exp_minus_1 take_bit_eq_mod)
  then have low: "unat (x AND 7) = unat x mod 8" for x :: u32
    using unsigned_and_eq [of x 7, where 'a = nat] by simp
  have "(8 * m + k) AND 7 = k AND 7" for k :: u32
  proof (rule unsigned_word_eqI [where 'a = nat])
    have "(8 * unat m mod 4294967296 + unat k) mod 4294967296 mod 8 = unat k mod 8"
      by (simp add: mod_mod_cancel mod_add_left_eq)
    then show "unat ((8 * m + k) AND 7) = unat (k AND 7)"
      by (simp add: low unat_word_ariths)
  qed
  then show ?thesis
    by (simp only: add.assoc) (cases a; cases b; cases c; simp)
qed

lemma ostar_last3:
  "fold (\<lambda>f m. push_bit 1 m + (if f then 1 else 0)) (xs @ [a, b, c]) (0 :: u32) AND 7 = 5 \<longleftrightarrow> a \<and> \<not> b \<and> c"
proof -
  let ?m = "fold (\<lambda>f m. push_bit 1 m + (if f then 1 else 0)) xs (0 :: u32)"
  have "fold (\<lambda>f m. push_bit 1 m + (if f then 1 else 0)) (xs @ [a, b, c]) (0 :: u32) =
      8 * ?m + of_bool a * 4 + of_bool b * 2 + of_bool c"
    by (simp add: push_bit_eq_mult algebra_simps)
  then show ?thesis
    by (simp only: low3) (cases a; cases b; cases c; simp)
qed

lemma Ostar_iff: "w \<noteq> [] \<Longrightarrow> fts5Porter_Ostar pre w = Some (porterO w)"
proof -
  assume ne: "w \<noteq> []"
  then have r: "rdEnd pre w 1 = Some (last w)"
    by (cases w) (auto simp: rdEnd_def last_conv_nth)
  have m: "ostarLoop 0 False w AND 7 = 5 \<longleftrightarrow> 3 \<le> length w \<and> porterCons w (length w - 3) \<and>
      \<not> porterCons w (length w - 2) \<and> porterCons w (length w - 1)"
  proof (cases "3 \<le> length w")
    case True
    let ?f = "consFlags False w"
    have nth: "?f ! (length w - 3) = porterCons w (length w - 3)" "?f ! (length w - 2) = porterCons w (length w - 2)"
      "?f ! (length w - 1) = porterCons w (length w - 1)"
      using True by (intro consFlags_nth; simp)+
    have "?f = take (length w - 3) ?f @ drop (length w - 3) ?f" by simp
    also have "drop (length w - 3) ?f = [?f ! (length w - 3), ?f ! (length w - 2), ?f ! (length w - 1)]"
      using True by (intro nth_equalityI) (auto simp: nth_Cons' eval_nat_numeral intro!: arg_cong [of _ _ "nth (consFlags False w)"])
    finally have "ostarLoop 0 False w AND 7 = 5 \<longleftrightarrow> ?f ! (length w - 3) \<and> \<not> ?f ! (length w - 2) \<and> ?f ! (length w - 1)"
      by (metis ostarLoop_fold ostar_last3)
    with nth True show ?thesis by simp
  next
    case False
    with ne consider c where "w = [c]" | c d where "w = [c, d]"
      by (cases w; cases "tl w"; cases "tl (tl w)") auto
    then show ?thesis
      by cases (simp_all add: Let_def)
  qed
  show ?thesis
    unfolding fts5Porter_Ostar_def r porterO_def option.case m by auto
qed

lemma Vowel_iff: "fts5Porter_Vowel w \<longleftrightarrow> (\<exists>i < length w. \<not> porterCons w i)"
proof
  assume "fts5Porter_Vowel w"
  then obtain i where i: "i < length w" "fts5PorterIsVowel (w ! i) (0 < i)"
    by (auto simp: fts5Porter_Vowel_def vowelLoop_iff)
  show "\<exists>i < length w. \<not> porterCons w i"
  proof (cases i)
    case 0
    then show ?thesis
      using i by (intro exI [of _ 0]) (auto simp: fts5PorterIsVowel_def)
  next
    case (Suc j)
    then show ?thesis
      using i by (cases "porterCons w j") (auto simp: fts5PorterIsVowel_def intro: exI [of _ j] exI [of _ "Suc j"])
  qed
next
  assume "\<exists>i < length w. \<not> porterCons w i"
  then obtain i where "i < length w" "\<not> porterCons w i" by auto
  then show "fts5Porter_Vowel w"
    by (cases i) (auto simp: fts5Porter_Vowel_def vowelLoop_iff fts5PorterIsVowel_def)
qed

section \<open>The steps as rule tables\<close>

text \<open>\<^verbatim>\<open>struct PorterRule\<close>: a suffix, the condition on the stem and the replacement. The tables
  are those of the published algorithm, from which the steps were generated.\<close>

type_synonym PorterRule = "string \<times> (u8 list \<Rightarrow> bool) \<times> string"

definition applyRule :: "PorterRule \<Rightarrow> u8 list \<Rightarrow> u8 list" where
  "applyRule r s = (case r of (z, cond, out) \<Rightarrow>
     if cond (stem s (length z)) then stem s (length z) @ bytes out else s)"

fun applyFirst :: "PorterRule list \<Rightarrow> u8 list \<Rightarrow> u8 list" where
  "applyFirst [] s = s"
| "applyFirst (r # rs) s = (if ends s (bytes (fst r)) then applyRule r s else applyFirst rs s)"

definition mrule :: "nat \<Rightarrow> string \<times> string \<Rightarrow> PorterRule" where
  "mrule k r = (fst r, \<lambda>w. k < porterM w, snd r)"

definition step2Rules :: "PorterRule list" where
  "step2Rules = map (mrule 0)
     [(''ational'', ''ate''), (''tional'', ''tion''), (''enci'', ''ence''), (''anci'', ''ance''),
      (''izer'', ''ize''), (''logi'', ''log''), (''bli'', ''ble''), (''alli'', ''al''),
      (''entli'', ''ent''), (''eli'', ''e''), (''ousli'', ''ous''), (''ization'', ''ize''),
      (''ation'', ''ate''), (''ator'', ''ate''), (''alism'', ''al''), (''iveness'', ''ive''),
      (''fulness'', ''ful''), (''ousness'', ''ous''), (''aliti'', ''al''), (''iviti'', ''ive''),
      (''biliti'', ''ble'')]"

definition step3Rules :: "PorterRule list" where
  "step3Rules = map (mrule 0)
     [(''ical'', ''ic''), (''ness'', ''''), (''icate'', ''ic''), (''iciti'', ''ic''), (''ful'', ''''),
      (''ative'', ''''), (''alize'', ''al'')]"

definition step4Rules :: "PorterRule list" where
  "step4Rules =
     map (mrule 1)
       [(''al'', ''''), (''ance'', ''''), (''ence'', ''''), (''er'', ''''), (''ic'', ''''), (''able'', ''''),
        (''ible'', ''''), (''ant'', ''''), (''ement'', ''''), (''ment'', ''''), (''ent'', '''')] @
     [(''ion'', \<lambda>w. w \<noteq> [] \<and> last w \<in> {115, 116} \<and> 1 < porterM w, '''')] @
     map (mrule 1)
       [(''ou'', ''''), (''ism'', ''''), (''ate'', ''''), (''iti'', ''''), (''ous'', ''''), (''ive'', ''''),
        (''ize'', '''')]"

lemma rule_applyFirst:
  "rule s z c out (applyFirst rs s) = applyFirst ((z, c, out) # rs) s"
  by (simp add: rule_def applyRule_def)

lemma not_ends:
  assumes "rdEnd pre s 2 = Some c" "2 \<le> length z" "z ! (length z - 2) \<noteq> c"
  shows "\<not> ends s z"
proof
  assume e: "ends s z"
  then have "drop (length s - length z) s ! (length z - 2) = s ! (length s - 2)"
    using assms(2) by (subst nth_drop) (auto simp: ends_def)
  with e assms show False
    by (simp add: ends_def rdEnd_def split: if_splits)
qed

definition penult :: "string \<Rightarrow> u8" where
  "penult z = of_char (z ! (length z - 2))"

lemma applyFirst_switch:
  assumes "rdEnd pre s 2 = Some c" "list_all (\<lambda>r. 2 \<le> length (fst r)) rs"
  shows "applyFirst rs s = applyFirst (filter (\<lambda>r. penult (fst r) = c) rs) s"
  using assms(2)
proof (induction rs)
  case (Cons r rs)
  then show ?case
    using not_ends [OF assms(1), of "bytes (fst r)"] by (auto simp: penult_def)
qed simp

lemma rdEnd_some: "k \<le> length s + 1 \<Longrightarrow> \<exists>c. rdEnd pre s k = Some c"
  by (simp add: rdEnd_def)

lemma MGt_eq: "fts5Porter_MGt0 = (\<lambda>w. 0 < porterM w)" "fts5Porter_MGt1 = (\<lambda>w. 1 < porterM w)"
  "fts5Porter_MGt1_and_S_or_T = (\<lambda>w. w \<noteq> [] \<and> last w \<in> {115, 116} \<and> 1 < porterM w)"
  by (auto simp: MGt0_iff MGt1_iff fts5Porter_MGt1_and_S_or_T_def fun_eq_iff)

lemma rule_eq: "rule s z q out (applyFirst rs s) = applyFirst ((z, q, out) # rs) s"
  "rule s z q out s = applyFirst [(z, q, out)] s"
  by (simp_all add: rule_def applyRule_def)

lemma Step3_table:
  assumes "s \<noteq> []"
  shows "fts5PorterStep3 pre s = Some (applyFirst step3Rules s)"
proof -
  from assms obtain c where c: "rdEnd pre s 2 = Some c"
    using rdEnd_some [of 2 s pre] by (cases s) auto
  have "list_all (\<lambda>r. 2 \<le> length (fst r)) step3Rules"
    by (simp add: step3Rules_def mrule_def)
  note t = applyFirst_switch [OF c this]
  show ?thesis
    unfolding fts5PorterStep3_def c Let_def option.case MGt_eq rule_eq t
    by (simp add: step3Rules_def mrule_def penult_def rule_eq del: applyFirst.simps(2))
qed

lemma Step2_table:
  assumes "s \<noteq> []"
  shows "fts5PorterStep2 pre s = Some (applyFirst step2Rules s)"
proof -
  from assms obtain c where c: "rdEnd pre s 2 = Some c"
    using rdEnd_some [of 2 s pre] by (cases s) auto
  have "list_all (\<lambda>r. 2 \<le> length (fst r)) step2Rules"
    by (simp add: step2Rules_def mrule_def)
  note t = applyFirst_switch [OF c this]
  show ?thesis
    unfolding fts5PorterStep2_def c Let_def option.case MGt_eq rule_eq t
    by (simp add: step2Rules_def mrule_def penult_def rule_eq del: applyFirst.simps(2))
qed

lemma Step4_table:
  assumes "s \<noteq> []"
  shows "fts5PorterStep4 pre s = Some (applyFirst step4Rules s)"
proof -
  from assms obtain c where c: "rdEnd pre s 2 = Some c"
    using rdEnd_some [of 2 s pre] by (cases s) auto
  have "list_all (\<lambda>r. 2 \<le> length (fst r)) step4Rules"
    by (simp add: step4Rules_def mrule_def)
  note t = applyFirst_switch [OF c this]
  show ?thesis
    unfolding fts5PorterStep4_def c Let_def option.case MGt_eq rule_eq t
    by (simp add: step4Rules_def mrule_def penult_def rule_eq del: applyFirst.simps(2))
qed

text \<open>In each table a suffix that ends a longer one comes after it, so the first match is the
  longest.\<close>

fun longestFirst :: "PorterRule list \<Rightarrow> bool" where
  "longestFirst [] \<longleftrightarrow> True"
| "longestFirst (r # rs) \<longleftrightarrow>
     list_all (\<lambda>r'. \<not> (length (fst r) \<le> length (fst r') \<and>
       drop (length (fst r') - length (fst r)) (bytes (fst r')) = bytes (fst r))) rs \<and> longestFirst rs"

definition longestMatch :: "PorterRule list \<Rightarrow> u8 list \<Rightarrow> PorterRule \<Rightarrow> bool" where
  "longestMatch rs s r \<longleftrightarrow> r \<in> set rs \<and> ends s (bytes (fst r)) \<and>
     (\<forall>r' \<in> set rs. ends s (bytes (fst r')) \<longrightarrow> length (fst r') \<le> length (fst r))"

lemma ends_both:
  assumes "ends s y" "ends s z" "length y \<le> length z"
  shows "drop (length z - length y) z = y"
proof -
  have l: "length y < length s" "length z < length s"
    using assms by (simp_all add: ends_def)
  have "drop (length z - length y) (drop (length s - length z) s) = drop (length s - length y) s"
    using l assms(3) by simp
  moreover have "drop (length s - length z) s = z" "drop (length s - length y) s = y"
    using assms by (simp_all add: ends_def)
  ultimately show ?thesis by simp
qed

lemma applyFirst_longest:
  assumes "longestFirst rs" "longestMatch rs s r"
  shows "applyFirst rs s = applyRule r s"
  using assms
proof (induction rs)
  case (Cons r0 rs)
  show ?case
  proof (cases "r0 = r \<or> \<not> ends s (bytes (fst r0))")
    case True
    with Cons show ?thesis
      by (auto simp: longestMatch_def)
  next
    case False
    with Cons.prems have "r \<in> set rs" "ends s (bytes (fst r0))" "ends s (bytes (fst r))"
      "length (fst r0) \<le> length (fst r)"
      by (auto simp: longestMatch_def)
    with Cons.prems(1) ends_both [of s "bytes (fst r0)" "bytes (fst r)"] show ?thesis
      by (auto simp: list_all_iff)
  qed
qed (simp add: longestMatch_def)

lemma applyFirst_none: "\<forall>r \<in> set rs. \<not> ends s (bytes (fst r)) \<Longrightarrow> applyFirst rs s = s"
  by (induction rs) auto

lemma tables_longestFirst: "longestFirst step2Rules" "longestFirst step3Rules" "longestFirst step4Rules"
  by (simp_all add: step2Rules_def step3Rules_def step4Rules_def mrule_def)

section \<open>Safety of the callback\<close>

lemma rdEnd_in [simp]: "k \<le> length s \<Longrightarrow> rdEnd pre s k = Some (s ! (length s - k))"
  by (simp add: rdEnd_def)

lemma stem_nonempty [simp]: "stem s k = [] \<longleftrightarrow> length s \<le> k"
  by (auto simp: stem_def)

lemma length_stem [simp]: "length (stem s k) = length s - k"
  by (simp add: stem_def)

lemma applyFirst_length:
  assumes "list_all (\<lambda>r. length (snd (snd r)) \<le> length (fst r)) rs" "s \<noteq> []"
  shows "length (applyFirst rs s) \<le> length s \<and> applyFirst rs s \<noteq> []"
  using assms
proof (induction rs)
  case (Cons r rs)
  have "ends s (bytes (fst r)) \<Longrightarrow> length (applyRule r s) \<le> length s \<and> 0 < length (applyRule r s)"
    using Cons.prems by (auto simp: applyRule_def ends_def split: prod.splits)
  with Cons show ?case by auto
qed simp

lemma Step1A_ok:
  assumes "3 \<le> length s"
  shows "fts5PorterStep1A pre s = fts5PorterStep1A 0 s" (is ?A)
    and "\<exists>s'. fts5PorterStep1A pre s = Some s' \<and> 2 \<le> length s' \<and> length s' \<le> length s" (is ?B)
proof -
  show ?A
    using assms by (simp add: fts5PorterStep1A_def)
  have "fts5PorterStep1A pre s \<noteq> None"
    using assms by (simp add: fts5PorterStep1A_def)
  then obtain s' where s': "fts5PorterStep1A pre s = Some s'" by auto
  then have "2 \<le> length s' \<and> length s' \<le> length s"
    using assms by (auto simp: fts5PorterStep1A_def split: if_splits)
  with s' show ?B by simp
qed

lemma Step1B_ok:
  assumes "2 \<le> length s"
  shows "fts5PorterStep1B pre s = fts5PorterStep1B 0 s" (is ?A)
    and "\<exists>r s'. fts5PorterStep1B pre s = Some (r, s') \<and> s' \<noteq> [] \<and> length s' \<le> length s \<and>
      (r \<longrightarrow> length s' + 2 \<le> length s \<and> fts5Porter_Vowel s')" (is ?B)
proof -
  show ?A
    using assms by (simp add: fts5PorterStep1B_def)
  have "fts5PorterStep1B pre s \<noteq> None"
    using assms by (simp add: fts5PorterStep1B_def)
  then obtain r s' where s': "fts5PorterStep1B pre s = Some (r, s')" by auto
  have l: "ends s z \<Longrightarrow> length z < length s" for z
    by (simp add: ends_def)
  have "s' \<noteq> [] \<and> length s' \<le> length s \<and> (r \<longrightarrow> length s' + 2 \<le> length s \<and> fts5Porter_Vowel s')"
    using s' assms l [of "bytes ''eed''"] l [of "bytes ''ed''"] l [of "bytes ''ing''"]
    by (auto simp: fts5PorterStep1B_def split: if_splits)
  with s' show ?B by simp
qed

lemma Vowel_single: "fts5Porter_Vowel [c] = fts5PorterIsVowel c False"
  by (simp add: fts5Porter_Vowel_def)

lemma Step1B3_ok:
  assumes "s \<noteq> []" "fts5Porter_Vowel s"
  shows "porterStep1B3 pre s = porterStep1B3 0 s" (is ?A)
    and "\<exists>s'. porterStep1B3 pre s = Some s' \<and> s' \<noteq> [] \<and> length s' \<le> length s + 1" (is ?B)
proof -
  have "?A \<and> ?B"
  proof (cases "length s = 1")
    case True
    then obtain c where "s = [c]" by (cases s) auto
    with assms show ?thesis
      by (simp add: porterStep1B3_def fts5PorterStep1B2_def rdEnd_def Vowel_single ends_def MEq1_iff porterM_def)
  next
    case False
    with assms(1) have l: "2 \<le> length s" "1 \<le> length s" by (cases s; auto simp: Suc_le_eq)+
    have "porterStep1B3 pre s \<noteq> None"
      using l assms(1) by (simp add: porterStep1B3_def fts5PorterStep1B2_def Ostar_iff)
    then obtain s' where s': "porterStep1B3 pre s = Some s'" by auto
    moreover have "s' \<noteq> [] \<and> length s' \<le> length s + 1"
      using s' l assms(1) by (auto simp: porterStep1B3_def fts5PorterStep1B2_def Ostar_iff ends_def split: if_splits)
    moreover have ?A
      using l assms(1) by (simp add: porterStep1B3_def fts5PorterStep1B2_def Ostar_iff)
    ultimately show ?thesis by simp
  qed
  then show ?A ?B by blast+
qed

lemma Step1C_ok:
  assumes "s \<noteq> []"
  shows "\<exists>s'. (\<forall>pre. porterStep1C pre s = Some s') \<and> s' \<noteq> [] \<and> length s' = length s"
  using assms by (cases s) (auto simp: porterStep1C_def)

lemma MEq1_nonempty: "fts5Porter_MEq1 w \<Longrightarrow> w \<noteq> []" "fts5Porter_MGt1 w \<Longrightarrow> w \<noteq> []"
  by (auto simp: MEq1_iff MGt1_iff porterM_def)

lemma Step5_ok:
  assumes "s \<noteq> []"
  shows "porterStep5 pre s = porterStep5 0 s" (is ?A)
    and "\<exists>s'. porterStep5 pre s = Some s' \<and> s' \<noteq> [] \<and> length s' \<le> length s" (is ?B)
proof -
  have l: "1 \<le> length s" using assms by (cases s) auto
  define cut where "cut \<longleftrightarrow> s ! (length s - 1) = 101 \<and>
    (fts5Porter_MGt1 (stem s 1) \<or> fts5Porter_MEq1 (stem s 1) \<and> \<not> porterO (stem s 1))"
  define s1 where "s1 = (if cut then stem s 1 else s)"
  have ne: "s1 \<noteq> []" "length s1 \<le> length s"
    using assms MEq1_nonempty [of "stem s 1"] by (auto simp: s1_def cut_def)
  have "porterStep5 pre s = Some (if 1 < length s1 \<and> s1 ! (length s1 - 1) = 108 \<and> s1 ! (length s1 - 2) = 108 \<and>
      fts5Porter_MGt1 (stem s1 1) then stem s1 1 else s1)" for pre
    using l MEq1_nonempty [of "stem s 1"] Ostar_iff [of "stem s 1" pre]
    by (cases "fts5Porter_MEq1 (stem s 1)") (auto simp: porterStep5_def s1_def cut_def simp del: stem_nonempty)
  then show ?A ?B
    using ne MEq1_nonempty [of "stem s1 1"] by auto
qed

lemma table_outputs:
  "list_all (\<lambda>r. length (snd (snd r)) \<le> length (fst r)) step2Rules"
  "list_all (\<lambda>r. length (snd (snd r)) \<le> length (fst r)) step3Rules"
  "list_all (\<lambda>r. length (snd (snd r)) \<le> length (fst r)) step4Rules"
  by (simp_all add: step2Rules_def step3Rules_def step4Rules_def mrule_def)

lemma Step234_ok:
  assumes "s \<noteq> []"
  shows "\<exists>s'. (\<forall>pre. do { s \<leftarrow> fts5PorterStep2 pre s; s \<leftarrow> fts5PorterStep3 pre s; fts5PorterStep4 pre s } = Some s') \<and>
    s' \<noteq> [] \<and> length s' \<le> length s"
  using assms applyFirst_length [OF table_outputs(1), of s]
    applyFirst_length [OF table_outputs(2), of "applyFirst step2Rules s"]
    applyFirst_length [OF table_outputs(3), of "applyFirst step3Rules (applyFirst step2Rules s)"]
  by (simp add: Step2_table Step3_table Step4_table)

lemma Step1_ok:
  assumes "3 \<le> length tok"
  shows "\<exists>s'. (\<forall>pre. do { s \<leftarrow> fts5PorterStep1A pre tok; (r, s) \<leftarrow> fts5PorterStep1B pre s;
      if r then porterStep1B3 pre s else Some s } = Some s') \<and> s' \<noteq> [] \<and> length s' \<le> length tok"
proof -
  obtain a where a: "fts5PorterStep1A 0 tok = Some a" "2 \<le> length a" "length a \<le> length tok"
    using Step1A_ok(2) [OF assms] by blast
  obtain r b where b: "fts5PorterStep1B 0 a = Some (r, b)" "b \<noteq> []" "length b \<le> length a"
    "r \<Longrightarrow> length b + 2 \<le> length a \<and> fts5Porter_Vowel b"
    using Step1B_ok(2) [OF a(2)] by blast
  have pre: "fts5PorterStep1A pre tok = Some a" "fts5PorterStep1B pre a = Some (r, b)" for pre
    using Step1A_ok(1) [OF assms, of pre] Step1B_ok(1) [OF a(2), of pre] a b by simp_all
  show ?thesis
  proof (cases r)
    case True
    with b obtain c where c: "porterStep1B3 0 b = Some c" "c \<noteq> []" "length c \<le> length b + 1"
      using Step1B3_ok(2) [of b 0] by blast
    moreover have "porterStep1B3 pre b = Some c" for pre
      using True Step1B3_ok(1) [of b pre] b c by simp
    ultimately show ?thesis
      using True a b by (auto simp: pre)
  next
    case False
    then show ?thesis
      using a b by (auto simp: pre)
  qed
qed

section \<open>Properties\<close>

text \<open>C35: The conditions of the rules compute the notions of the stemming algorithm: with \<open>porterM\<close>
  the number of vowel-consonant transitions, the two passes of \<^verbatim>\<open>fts5PorterGobbleVC\<close> decide
  \<open>m > 0\<close>, \<open>m > 1\<close> and \<open>m = 1\<close>, the bit mask of \<^verbatim>\<open>fts5Porter_Ostar\<close> (whose high bits are lost
  on long stems) decides that a non-empty stem ends consonant-vowel-consonant, and
  \<^verbatim>\<open>fts5Porter_Vowel\<close>, which takes every y after the first letter for a vowel, decides that there
  is a vowel.\<close>

theorem porter_conditions:
  "(fts5Porter_MGt0 w \<longleftrightarrow> 0 < porterM w) \<and> (fts5Porter_MGt1 w \<longleftrightarrow> 1 < porterM w) \<and>
   (fts5Porter_MEq1 w \<longleftrightarrow> porterM w = 1) \<and>
   (fts5Porter_Vowel w \<longleftrightarrow> list_ex (\<lambda>i. \<not> porterCons w i) [0..<length w]) \<and>
   fts5Porter_Ostar pre (c # w) = Some (porterO (c # w))"
  by (auto simp: MGt0_iff MGt1_iff MEq1_iff Vowel_iff Ostar_iff list_ex_iff)

text \<open>C23: Steps 2, 3 and 4, generated as a switch on the last letter but one, apply the rule of the
  published table with the longest suffix that matches a proper part of the word, and change
  nothing when no rule matches.\<close>

theorem porter_steps_longest_match:
  assumes "s \<noteq> []"
    and "(step, rules) \<in> set [(fts5PorterStep2, step2Rules), (fts5PorterStep3, step3Rules),
      (fts5PorterStep4, step4Rules)]"
  shows "(\<forall>r. longestMatch rules s r \<longrightarrow> step pre s = Some (applyRule r s)) \<and>
    ((\<forall>r \<in> set rules. \<not> ends s (bytes (fst r))) \<longrightarrow> step pre s = Some s)"
proof -
  have "step pre s = Some (applyFirst rules s)" "longestFirst rules"
    using assms tables_longestFirst by (auto simp: Step2_table Step3_table Step4_table)
  then show ?thesis
    by (simp add: applyFirst_longest applyFirst_none)
qed

theorem porter_steps_longest_match_witness:
  "fts5PorterStep2 0 (bytes ''relational'') = Some (bytes ''relate'')"
proof -
  have m: "longestMatch step2Rules (bytes ''relational'') (''ational'', \<lambda>w. 0 < porterM w, ''ate'')"
    by (simp add: longestMatch_def step2Rules_def mrule_def ends_def)
  have "applyRule (''ational'', \<lambda>w. 0 < porterM w, ''ate'') (bytes ''relational'') = bytes ''relate''"
    by code_simp
  with m porter_steps_longest_match [of "bytes ''relational''" fts5PorterStep2 step2Rules 0] show ?thesis
    by simp
qed

text \<open>C36: The stemmer always delivers a token: it never reads further out than the one byte before
  the buffer, the value of that byte has no effect, and the stem is no longer than the token and
  empty only for the empty token.\<close>

theorem porter_callback_safe:
  "\<exists>s'. (\<forall>pre. fts5PorterCb pre tok = Some s') \<and> length s' \<le> length tok \<and> (s' = [] \<longleftrightarrow> tok = [])"
proof (cases "length tok > 64 \<or> length tok < 3")
  case True
  then show ?thesis
    by (intro exI [of _ tok]) (simp add: fts5PorterCb_def)
next
  case False
  then have l: "3 \<le> length tok" by simp
  obtain a where a: "\<And>pre. do { s \<leftarrow> fts5PorterStep1A pre tok; (r, s) \<leftarrow> fts5PorterStep1B pre s;
      if r then porterStep1B3 pre s else Some s } = Some a" "a \<noteq> []" "length a \<le> length tok"
    using Step1_ok [OF l] by blast
  obtain b where b: "\<And>pre. porterStep1C pre a = Some b" "b \<noteq> []" "length b = length a"
    using Step1C_ok [OF a(2)] by blast
  obtain c where c: "\<And>pre. do { s \<leftarrow> fts5PorterStep2 pre b; s \<leftarrow> fts5PorterStep3 pre s; fts5PorterStep4 pre s } = Some c"
    "c \<noteq> []" "length c \<le> length b"
    using Step234_ok [OF b(2)] by blast
  obtain d where d: "porterStep5 0 c = Some d" "d \<noteq> []" "length d \<le> length c"
    using Step5_ok(2) [OF c(2)] by blast
  have "fts5PorterCb pre tok = do { s \<leftarrow> do { s \<leftarrow> fts5PorterStep1A pre tok; (r, s) \<leftarrow> fts5PorterStep1B pre s;
      if r then porterStep1B3 pre s else Some s }; s \<leftarrow> porterStep1C pre s;
      s \<leftarrow> do { s \<leftarrow> fts5PorterStep2 pre s; s \<leftarrow> fts5PorterStep3 pre s; fts5PorterStep4 pre s };
      porterStep5 pre s }" for pre
    unfolding fts5PorterCb_def if_not_P [OF False] by (simp add: split_def)
  then have "fts5PorterCb pre tok = Some d" for pre
    by (simp only: a b c Step5_ok(1) [OF c(2), of pre] d Option.bind_lunit)
  then show ?thesis
    using a b c d l by (intro exI [of _ d]) auto
qed

end
