(* ===== verification/Keyword.thy ===== *)
theory Keyword
  imports Strings
begin

text \<open>
  The keyword recogniser that \<^verbatim>\<open>mkkeywordhash\<close> generated for the SQL tokenizer
  (\<^verbatim>\<open>keywordhash.h\<close> inside \<^verbatim>\<open>tokenize.c\<close>): 143 keywords overlaid in one text, found through a
  hash table of collision chains. The theorem compares it with the plain list of keywords that
  the comments of the generated code name.

  Token codes are the numbers of \<^verbatim>\<open>parse.h\<close>; the codes the tokenizer and the keyword table use
  are abbreviations.
\<close>

section \<open>Token codes\<close>

abbreviation (input) TK_SEMI :: nat where "TK_SEMI \<equiv> 1"
abbreviation (input) TK_EXPLAIN :: nat where "TK_EXPLAIN \<equiv> 2"
abbreviation (input) TK_QUERY :: nat where "TK_QUERY \<equiv> 3"
abbreviation (input) TK_PLAN :: nat where "TK_PLAN \<equiv> 4"
abbreviation (input) TK_BEGIN :: nat where "TK_BEGIN \<equiv> 5"
abbreviation (input) TK_TRANSACTION :: nat where "TK_TRANSACTION \<equiv> 6"
abbreviation (input) TK_DEFERRED :: nat where "TK_DEFERRED \<equiv> 7"
abbreviation (input) TK_IMMEDIATE :: nat where "TK_IMMEDIATE \<equiv> 8"
abbreviation (input) TK_EXCLUSIVE :: nat where "TK_EXCLUSIVE \<equiv> 9"
abbreviation (input) TK_COMMIT :: nat where "TK_COMMIT \<equiv> 10"
abbreviation (input) TK_END :: nat where "TK_END \<equiv> 11"
abbreviation (input) TK_ROLLBACK :: nat where "TK_ROLLBACK \<equiv> 12"
abbreviation (input) TK_SAVEPOINT :: nat where "TK_SAVEPOINT \<equiv> 13"
abbreviation (input) TK_RELEASE :: nat where "TK_RELEASE \<equiv> 14"
abbreviation (input) TK_TO :: nat where "TK_TO \<equiv> 15"
abbreviation (input) TK_TABLE :: nat where "TK_TABLE \<equiv> 16"
abbreviation (input) TK_CREATE :: nat where "TK_CREATE \<equiv> 17"
abbreviation (input) TK_IF :: nat where "TK_IF \<equiv> 18"
abbreviation (input) TK_NOT :: nat where "TK_NOT \<equiv> 19"
abbreviation (input) TK_EXISTS :: nat where "TK_EXISTS \<equiv> 20"
abbreviation (input) TK_TEMP :: nat where "TK_TEMP \<equiv> 21"
abbreviation (input) TK_LP :: nat where "TK_LP \<equiv> 22"
abbreviation (input) TK_RP :: nat where "TK_RP \<equiv> 23"
abbreviation (input) TK_AS :: nat where "TK_AS \<equiv> 24"
abbreviation (input) TK_WITHOUT :: nat where "TK_WITHOUT \<equiv> 25"
abbreviation (input) TK_COMMA :: nat where "TK_COMMA \<equiv> 26"
abbreviation (input) TK_ABORT :: nat where "TK_ABORT \<equiv> 27"
abbreviation (input) TK_ACTION :: nat where "TK_ACTION \<equiv> 28"
abbreviation (input) TK_AFTER :: nat where "TK_AFTER \<equiv> 29"
abbreviation (input) TK_ANALYZE :: nat where "TK_ANALYZE \<equiv> 30"
abbreviation (input) TK_ASC :: nat where "TK_ASC \<equiv> 31"
abbreviation (input) TK_ATTACH :: nat where "TK_ATTACH \<equiv> 32"
abbreviation (input) TK_BEFORE :: nat where "TK_BEFORE \<equiv> 33"
abbreviation (input) TK_BY :: nat where "TK_BY \<equiv> 34"
abbreviation (input) TK_CASCADE :: nat where "TK_CASCADE \<equiv> 35"
abbreviation (input) TK_CAST :: nat where "TK_CAST \<equiv> 36"
abbreviation (input) TK_CONFLICT :: nat where "TK_CONFLICT \<equiv> 37"
abbreviation (input) TK_DATABASE :: nat where "TK_DATABASE \<equiv> 38"
abbreviation (input) TK_DESC :: nat where "TK_DESC \<equiv> 39"
abbreviation (input) TK_DETACH :: nat where "TK_DETACH \<equiv> 40"
abbreviation (input) TK_EACH :: nat where "TK_EACH \<equiv> 41"
abbreviation (input) TK_FAIL :: nat where "TK_FAIL \<equiv> 42"
abbreviation (input) TK_OR :: nat where "TK_OR \<equiv> 43"
abbreviation (input) TK_AND :: nat where "TK_AND \<equiv> 44"
abbreviation (input) TK_IS :: nat where "TK_IS \<equiv> 45"
abbreviation (input) TK_MATCH :: nat where "TK_MATCH \<equiv> 46"
abbreviation (input) TK_LIKE_KW :: nat where "TK_LIKE_KW \<equiv> 47"
abbreviation (input) TK_BETWEEN :: nat where "TK_BETWEEN \<equiv> 48"
abbreviation (input) TK_IN :: nat where "TK_IN \<equiv> 49"
abbreviation (input) TK_ISNULL :: nat where "TK_ISNULL \<equiv> 50"
abbreviation (input) TK_NOTNULL :: nat where "TK_NOTNULL \<equiv> 51"
abbreviation (input) TK_NE :: nat where "TK_NE \<equiv> 52"
abbreviation (input) TK_EQ :: nat where "TK_EQ \<equiv> 53"
abbreviation (input) TK_GT :: nat where "TK_GT \<equiv> 54"
abbreviation (input) TK_LE :: nat where "TK_LE \<equiv> 55"
abbreviation (input) TK_LT :: nat where "TK_LT \<equiv> 56"
abbreviation (input) TK_GE :: nat where "TK_GE \<equiv> 57"
abbreviation (input) TK_ESCAPE :: nat where "TK_ESCAPE \<equiv> 58"
abbreviation (input) TK_ID :: nat where "TK_ID \<equiv> 59"
abbreviation (input) TK_COLUMNKW :: nat where "TK_COLUMNKW \<equiv> 60"
abbreviation (input) TK_DO :: nat where "TK_DO \<equiv> 61"
abbreviation (input) TK_FOR :: nat where "TK_FOR \<equiv> 62"
abbreviation (input) TK_IGNORE :: nat where "TK_IGNORE \<equiv> 63"
abbreviation (input) TK_INITIALLY :: nat where "TK_INITIALLY \<equiv> 64"
abbreviation (input) TK_INSTEAD :: nat where "TK_INSTEAD \<equiv> 65"
abbreviation (input) TK_NO :: nat where "TK_NO \<equiv> 66"
abbreviation (input) TK_KEY :: nat where "TK_KEY \<equiv> 67"
abbreviation (input) TK_OF :: nat where "TK_OF \<equiv> 68"
abbreviation (input) TK_OFFSET :: nat where "TK_OFFSET \<equiv> 69"
abbreviation (input) TK_PRAGMA :: nat where "TK_PRAGMA \<equiv> 70"
abbreviation (input) TK_RAISE :: nat where "TK_RAISE \<equiv> 71"
abbreviation (input) TK_RECURSIVE :: nat where "TK_RECURSIVE \<equiv> 72"
abbreviation (input) TK_REPLACE :: nat where "TK_REPLACE \<equiv> 73"
abbreviation (input) TK_RESTRICT :: nat where "TK_RESTRICT \<equiv> 74"
abbreviation (input) TK_ROW :: nat where "TK_ROW \<equiv> 75"
abbreviation (input) TK_ROWS :: nat where "TK_ROWS \<equiv> 76"
abbreviation (input) TK_TRIGGER :: nat where "TK_TRIGGER \<equiv> 77"
abbreviation (input) TK_VACUUM :: nat where "TK_VACUUM \<equiv> 78"
abbreviation (input) TK_VIEW :: nat where "TK_VIEW \<equiv> 79"
abbreviation (input) TK_VIRTUAL :: nat where "TK_VIRTUAL \<equiv> 80"
abbreviation (input) TK_WITH :: nat where "TK_WITH \<equiv> 81"
abbreviation (input) TK_NULLS :: nat where "TK_NULLS \<equiv> 82"
abbreviation (input) TK_FIRST :: nat where "TK_FIRST \<equiv> 83"
abbreviation (input) TK_LAST :: nat where "TK_LAST \<equiv> 84"
abbreviation (input) TK_CURRENT :: nat where "TK_CURRENT \<equiv> 85"
abbreviation (input) TK_FOLLOWING :: nat where "TK_FOLLOWING \<equiv> 86"
abbreviation (input) TK_PARTITION :: nat where "TK_PARTITION \<equiv> 87"
abbreviation (input) TK_PRECEDING :: nat where "TK_PRECEDING \<equiv> 88"
abbreviation (input) TK_RANGE :: nat where "TK_RANGE \<equiv> 89"
abbreviation (input) TK_UNBOUNDED :: nat where "TK_UNBOUNDED \<equiv> 90"
abbreviation (input) TK_EXCLUDE :: nat where "TK_EXCLUDE \<equiv> 91"
abbreviation (input) TK_GROUPS :: nat where "TK_GROUPS \<equiv> 92"
abbreviation (input) TK_OTHERS :: nat where "TK_OTHERS \<equiv> 93"
abbreviation (input) TK_TIES :: nat where "TK_TIES \<equiv> 94"
abbreviation (input) TK_REINDEX :: nat where "TK_REINDEX \<equiv> 95"
abbreviation (input) TK_RENAME :: nat where "TK_RENAME \<equiv> 96"
abbreviation (input) TK_CTIME_KW :: nat where "TK_CTIME_KW \<equiv> 97"
abbreviation (input) TK_BITAND :: nat where "TK_BITAND \<equiv> 99"
abbreviation (input) TK_BITOR :: nat where "TK_BITOR \<equiv> 100"
abbreviation (input) TK_LSHIFT :: nat where "TK_LSHIFT \<equiv> 101"
abbreviation (input) TK_RSHIFT :: nat where "TK_RSHIFT \<equiv> 102"
abbreviation (input) TK_PLUS :: nat where "TK_PLUS \<equiv> 103"
abbreviation (input) TK_MINUS :: nat where "TK_MINUS \<equiv> 104"
abbreviation (input) TK_STAR :: nat where "TK_STAR \<equiv> 105"
abbreviation (input) TK_SLASH :: nat where "TK_SLASH \<equiv> 106"
abbreviation (input) TK_REM :: nat where "TK_REM \<equiv> 107"
abbreviation (input) TK_CONCAT :: nat where "TK_CONCAT \<equiv> 108"
abbreviation (input) TK_COLLATE :: nat where "TK_COLLATE \<equiv> 109"
abbreviation (input) TK_BITNOT :: nat where "TK_BITNOT \<equiv> 110"
abbreviation (input) TK_ON :: nat where "TK_ON \<equiv> 111"
abbreviation (input) TK_INDEXED :: nat where "TK_INDEXED \<equiv> 112"
abbreviation (input) TK_STRING :: nat where "TK_STRING \<equiv> 113"
abbreviation (input) TK_JOIN_KW :: nat where "TK_JOIN_KW \<equiv> 114"
abbreviation (input) TK_CONSTRAINT :: nat where "TK_CONSTRAINT \<equiv> 115"
abbreviation (input) TK_DEFAULT :: nat where "TK_DEFAULT \<equiv> 116"
abbreviation (input) TK_NULL :: nat where "TK_NULL \<equiv> 117"
abbreviation (input) TK_PRIMARY :: nat where "TK_PRIMARY \<equiv> 118"
abbreviation (input) TK_UNIQUE :: nat where "TK_UNIQUE \<equiv> 119"
abbreviation (input) TK_CHECK :: nat where "TK_CHECK \<equiv> 120"
abbreviation (input) TK_REFERENCES :: nat where "TK_REFERENCES \<equiv> 121"
abbreviation (input) TK_AUTOINCR :: nat where "TK_AUTOINCR \<equiv> 122"
abbreviation (input) TK_INSERT :: nat where "TK_INSERT \<equiv> 123"
abbreviation (input) TK_DELETE :: nat where "TK_DELETE \<equiv> 124"
abbreviation (input) TK_UPDATE :: nat where "TK_UPDATE \<equiv> 125"
abbreviation (input) TK_SET :: nat where "TK_SET \<equiv> 126"
abbreviation (input) TK_DEFERRABLE :: nat where "TK_DEFERRABLE \<equiv> 127"
abbreviation (input) TK_FOREIGN :: nat where "TK_FOREIGN \<equiv> 128"
abbreviation (input) TK_DROP :: nat where "TK_DROP \<equiv> 129"
abbreviation (input) TK_UNION :: nat where "TK_UNION \<equiv> 130"
abbreviation (input) TK_ALL :: nat where "TK_ALL \<equiv> 131"
abbreviation (input) TK_EXCEPT :: nat where "TK_EXCEPT \<equiv> 132"
abbreviation (input) TK_INTERSECT :: nat where "TK_INTERSECT \<equiv> 133"
abbreviation (input) TK_SELECT :: nat where "TK_SELECT \<equiv> 134"
abbreviation (input) TK_VALUES :: nat where "TK_VALUES \<equiv> 135"
abbreviation (input) TK_DISTINCT :: nat where "TK_DISTINCT \<equiv> 136"
abbreviation (input) TK_DOT :: nat where "TK_DOT \<equiv> 137"
abbreviation (input) TK_FROM :: nat where "TK_FROM \<equiv> 138"
abbreviation (input) TK_JOIN :: nat where "TK_JOIN \<equiv> 139"
abbreviation (input) TK_USING :: nat where "TK_USING \<equiv> 140"
abbreviation (input) TK_ORDER :: nat where "TK_ORDER \<equiv> 141"
abbreviation (input) TK_GROUP :: nat where "TK_GROUP \<equiv> 142"
abbreviation (input) TK_HAVING :: nat where "TK_HAVING \<equiv> 143"
abbreviation (input) TK_LIMIT :: nat where "TK_LIMIT \<equiv> 144"
abbreviation (input) TK_WHERE :: nat where "TK_WHERE \<equiv> 145"
abbreviation (input) TK_INTO :: nat where "TK_INTO \<equiv> 146"
abbreviation (input) TK_NOTHING :: nat where "TK_NOTHING \<equiv> 147"
abbreviation (input) TK_FLOAT :: nat where "TK_FLOAT \<equiv> 148"
abbreviation (input) TK_BLOB :: nat where "TK_BLOB \<equiv> 149"
abbreviation (input) TK_INTEGER :: nat where "TK_INTEGER \<equiv> 150"
abbreviation (input) TK_VARIABLE :: nat where "TK_VARIABLE \<equiv> 151"
abbreviation (input) TK_CASE :: nat where "TK_CASE \<equiv> 152"
abbreviation (input) TK_WHEN :: nat where "TK_WHEN \<equiv> 153"
abbreviation (input) TK_THEN :: nat where "TK_THEN \<equiv> 154"
abbreviation (input) TK_ELSE :: nat where "TK_ELSE \<equiv> 155"
abbreviation (input) TK_INDEX :: nat where "TK_INDEX \<equiv> 156"
abbreviation (input) TK_ALTER :: nat where "TK_ALTER \<equiv> 157"
abbreviation (input) TK_ADD :: nat where "TK_ADD \<equiv> 158"
abbreviation (input) TK_WINDOW :: nat where "TK_WINDOW \<equiv> 159"
abbreviation (input) TK_OVER :: nat where "TK_OVER \<equiv> 160"
abbreviation (input) TK_FILTER :: nat where "TK_FILTER \<equiv> 161"
abbreviation (input) TK_SPACE :: nat where "TK_SPACE \<equiv> 177"
abbreviation (input) TK_ILLEGAL :: nat where "TK_ILLEGAL \<equiv> 178"

section \<open>Tables\<close>

definition zKWText :: string where
  "zKWText =
     ''REINDEXEDESCAPEACHECKEYBEFOREIGNOREGEXPLAINSTEADDATABASELECT'' @
     ''ABLEFTHENDEFERRABLELSEXCLUDELETEMPORARYISNULLSAVEPOINTERSECT'' @
     ''IESNOTNULLIKEXCEPTRANSACTIONATURALTERAISEXCLUSIVEXISTSCONSTR'' @
     ''AINTOFFSETRIGGEREFERENCESUNIQUERYWITHOUTERELEASEATTACHAVINGL'' @
     ''OBEGINNERANGEBETWEENOTHINGROUPSCASCADETACHCASECOLLATECREATEC'' @
     ''URRENT_DATEIMMEDIATEJOINSERTMATCHPLANALYZEPRAGMABORTUPDATEVA'' @
     ''LUESVIRTUALASTWHENWHERECURSIVEAFTERENAMEANDEFAULTAUTOINCREME'' @
     ''NTCASTCOLUMNCOMMITCONFLICTCROSSCURRENT_TIMESTAMPARTITIONDEFE'' @
     ''RREDISTINCTDROPRECEDINGFAILIMITFILTEREPLACEFIRSTFOLLOWINGFRO'' @
     ''MFULLIFORDERESTRICTOTHERSOVERIGHTROLLBACKROWSUNBOUNDEDUNIONU'' @
     ''SINGVACUUMVIEWINDOWBYINITIALLYPRIMARY''"

definition aKWHash :: "nat list" where
  "aKWHash =
    [82, 113, 130, 80, 110, 29, 0, 0, 89, 0, 83, 70, 0, 53, 35, 84, 15, 0, 129, 92, 64, 124,
     131, 19, 0, 0, 136, 0, 134, 126, 0, 22, 100, 0, 9, 0, 0, 121, 78, 0, 76, 6, 0, 58, 97,
     143, 0, 132, 108, 0, 0, 48, 0, 111, 24, 0, 17, 0, 137, 63, 23, 26, 5, 65, 138, 103, 120,
     0, 142, 114, 69, 141, 66, 118, 72, 0, 98, 0, 107, 41, 0, 106, 0, 0, 0, 102, 99, 104, 109,
     123, 14, 50, 122, 0, 87, 0, 139, 119, 140, 68, 127, 135, 86, 81, 37, 91, 117, 0, 0, 101,
     51, 128, 125, 0, 133, 0, 0, 44, 0, 93, 67, 39, 0, 20, 45, 115, 88]"

definition aKWNext :: "nat list" where
  "aKWNext =
    [0, 0, 0, 0, 4, 0, 0, 0, 0, 0, 0, 0, 0, 0, 2, 0, 0, 0, 0, 0, 0, 13, 0, 0, 0, 0, 0, 0, 0,
     21, 0, 0, 0, 0, 12, 0, 0, 0, 0, 0, 0, 0, 7, 0, 36, 0, 0, 28, 0, 0, 0, 31, 0, 0, 0, 40, 0,
     0, 0, 0, 0, 60, 0, 54, 0, 0, 38, 47, 0, 0, 0, 3, 0, 0, 74, 1, 73, 0, 0, 0, 52, 0, 0, 0, 0,
     0, 0, 57, 59, 56, 30, 0, 0, 0, 46, 0, 16, 49, 10, 0, 0, 0, 0, 0, 0, 0, 11, 79, 95, 0, 0,
     8, 0, 112, 0, 105, 0, 43, 62, 0, 77, 0, 116, 0, 61, 0, 0, 94, 42, 55, 0, 75, 34, 90, 32,
     33, 27, 25, 18, 96, 0, 71, 85]"

definition aKWLen :: "nat list" where
  "aKWLen =
    [7, 7, 5, 4, 6, 4, 5, 3, 6, 7, 3, 6, 6, 7, 7, 3, 8, 2, 6, 5, 4, 4, 3, 10, 4, 7, 6, 9, 4, 2,
     6, 5, 9, 9, 4, 7, 3, 2, 4, 4, 6, 11, 6, 2, 7, 5, 5, 9, 6, 10, 4, 6, 2, 3, 7, 10, 6, 5, 7,
     4, 5, 7, 6, 6, 4, 5, 5, 5, 7, 7, 6, 5, 7, 3, 6, 4, 7, 6, 12, 9, 4, 6, 5, 4, 7, 6, 5, 6, 6,
     7, 4, 4, 5, 9, 5, 6, 3, 7, 13, 2, 2, 4, 6, 6, 8, 5, 17, 12, 7, 9, 8, 8, 2, 4, 9, 4, 5, 6,
     7, 5, 9, 4, 4, 2, 5, 8, 6, 4, 5, 8, 4, 3, 9, 5, 5, 6, 4, 6, 2, 2, 9, 3, 7]"

definition aKWOffset :: "nat list" where
  "aKWOffset =
    [0, 2, 2, 8, 9, 14, 16, 20, 23, 25, 25, 29, 33, 36, 41, 46, 48, 53, 54, 59, 62, 65, 67, 69,
     78, 81, 86, 90, 90, 94, 99, 101, 105, 111, 119, 123, 123, 123, 126, 129, 132, 137, 142,
     146, 147, 152, 156, 160, 168, 174, 181, 184, 184, 187, 189, 195, 205, 208, 213, 213, 217,
     221, 228, 233, 238, 241, 244, 248, 253, 259, 265, 265, 271, 272, 276, 282, 286, 293, 299,
     311, 320, 322, 328, 333, 335, 342, 347, 352, 358, 364, 370, 374, 378, 381, 390, 394, 400,
     402, 409, 411, 413, 422, 426, 432, 438, 446, 451, 451, 451, 467, 476, 483, 484, 491, 494,
     503, 506, 511, 516, 523, 528, 537, 541, 545, 547, 551, 559, 565, 568, 573, 581, 581, 585,
     594, 599, 604, 610, 613, 616, 619, 621, 626, 630]"

definition aKWCode :: "nat list" where
  "aKWCode =
    [TK_REINDEX, TK_INDEXED, TK_INDEX, TK_DESC, TK_ESCAPE, TK_EACH, TK_CHECK, TK_KEY,
     TK_BEFORE, TK_FOREIGN, TK_FOR, TK_IGNORE, TK_LIKE_KW, TK_EXPLAIN, TK_INSTEAD, TK_ADD,
     TK_DATABASE, TK_AS, TK_SELECT, TK_TABLE, TK_JOIN_KW, TK_THEN, TK_END, TK_DEFERRABLE,
     TK_ELSE, TK_EXCLUDE, TK_DELETE, TK_TEMP, TK_TEMP, TK_OR, TK_ISNULL, TK_NULLS,
     TK_SAVEPOINT, TK_INTERSECT, TK_TIES, TK_NOTNULL, TK_NOT, TK_NO, TK_NULL, TK_LIKE_KW,
     TK_EXCEPT, TK_TRANSACTION, TK_ACTION, TK_ON, TK_JOIN_KW, TK_ALTER, TK_RAISE, TK_EXCLUSIVE,
     TK_EXISTS, TK_CONSTRAINT, TK_INTO, TK_OFFSET, TK_OF, TK_SET, TK_TRIGGER, TK_REFERENCES,
     TK_UNIQUE, TK_QUERY, TK_WITHOUT, TK_WITH, TK_JOIN_KW, TK_RELEASE, TK_ATTACH, TK_HAVING,
     TK_LIKE_KW, TK_BEGIN, TK_JOIN_KW, TK_RANGE, TK_BETWEEN, TK_NOTHING, TK_GROUPS, TK_GROUP,
     TK_CASCADE, TK_ASC, TK_DETACH, TK_CASE, TK_COLLATE, TK_CREATE, TK_CTIME_KW, TK_IMMEDIATE,
     TK_JOIN, TK_INSERT, TK_MATCH, TK_PLAN, TK_ANALYZE, TK_PRAGMA, TK_ABORT, TK_UPDATE,
     TK_VALUES, TK_VIRTUAL, TK_LAST, TK_WHEN, TK_WHERE, TK_RECURSIVE, TK_AFTER, TK_RENAME,
     TK_AND, TK_DEFAULT, TK_AUTOINCR, TK_TO, TK_IN, TK_CAST, TK_COLUMNKW, TK_COMMIT,
     TK_CONFLICT, TK_JOIN_KW, TK_CTIME_KW, TK_CTIME_KW, TK_CURRENT, TK_PARTITION, TK_DEFERRED,
     TK_DISTINCT, TK_IS, TK_DROP, TK_PRECEDING, TK_FAIL, TK_LIMIT, TK_FILTER, TK_REPLACE,
     TK_FIRST, TK_FOLLOWING, TK_FROM, TK_JOIN_KW, TK_IF, TK_ORDER, TK_RESTRICT, TK_OTHERS,
     TK_OVER, TK_JOIN_KW, TK_ROLLBACK, TK_ROWS, TK_ROW, TK_UNBOUNDED, TK_UNION, TK_USING,
     TK_VACUUM, TK_VIEW, TK_WINDOW, TK_DO, TK_BY, TK_INITIALLY, TK_ALL, TK_PRIMARY]"

text \<open>\<^verbatim>\<open>charMap(X)\<close>\<close>

definition charMap :: "u8 \<Rightarrow> nat" where
  "charMap c = unat (sqlite3UpperToLower c)"

section \<open>Lookup\<close>

text \<open>The comparison loop: the index \<^verbatim>\<open>j\<close> at which it stops.\<close>

function kwCmp :: "u8 list \<Rightarrow> string \<Rightarrow> nat \<Rightarrow> nat \<Rightarrow> nat option" where
  "kwCmp z zKW n j =
     (if j < n then
        (case (rd z j, rd zKW j) of
           (Some a, Some b) \<Rightarrow> if a AND NOT 0x20 = of_char b then kwCmp z zKW n (j + 1) else Some j
         | _ \<Rightarrow> None)
      else Some j)"
  by pat_completeness auto
termination by (relation "measure (\<lambda>(z, zKW, n, j). n - j)") auto

declare kwCmp.simps [simp del]

lemma aKWNext_decreases: "rd aKWNext i = Some k \<Longrightarrow> k \<le> i"
proof -
  have "list_all (\<lambda>i. aKWNext ! i \<le> i) [0..<143]"
    by code_simp
  then have "i < 143 \<Longrightarrow> aKWNext ! i \<le> i"
    by (simp add: list_all_iff)
  moreover have "length aKWNext = 143"
    by (simp add: aKWNext_def)
  ultimately show "rd aKWNext i = Some k \<Longrightarrow> k \<le> i"
    by (simp add: rd_def split: if_splits)
qed

text \<open>The walk along a collision chain; the chain is given by \<^verbatim>\<open>i+1\<close>, as in the tables. The
  result is the new value of \<^verbatim>\<open>*pType\<close>.\<close>

function kwLoop :: "u8 list \<Rightarrow> nat \<Rightarrow> nat \<Rightarrow> nat \<Rightarrow> nat option" where
  "kwLoop z n ty i1 =
     (if i1 = 0 then Some ty
      else
        case (rd aKWLen (i1 - 1), rd aKWOffset (i1 - 1), rd aKWNext (i1 - 1)) of
          (Some len, Some off, Some nx) \<Rightarrow>
            if len \<noteq> n then kwLoop z n ty nx
            else (case kwCmp z (drop off zKWText) n 0 of
                    None \<Rightarrow> None
                  | Some j \<Rightarrow> if j < n then kwLoop z n ty nx else rd aKWCode (i1 - 1))
        | _ \<Rightarrow> None)"
  by pat_completeness auto
termination by (relation "measure (\<lambda>(z, n, ty, i1). i1)") (auto dest!: aKWNext_decreases [OF sym])

declare kwLoop.simps [simp del]

definition kwHash :: "u8 \<Rightarrow> u8 \<Rightarrow> nat \<Rightarrow> nat" where
  "kwHash c d n = (((charMap c * 4) XOR (charMap d * 3)) XOR n) mod 127"

definition keywordCode :: "u8 list \<Rightarrow> nat \<Rightarrow> nat \<Rightarrow> nat option" where
  "keywordCode z n ty =
     (if n \<ge> 2 then
        do {
          c \<leftarrow> rd z 0;
          d \<leftarrow> rd z (n - 1);
          i1 \<leftarrow> rd aKWHash (kwHash c d n);
          kwLoop z n ty i1
        }
      else Some ty)"

definition sqlite3KeywordCode :: "u8 list \<Rightarrow> nat \<Rightarrow> nat option" where
  "sqlite3KeywordCode z n = keywordCode z n TK_ID"

definition sqlite3_keyword_count :: int where
  "sqlite3_keyword_count = 143"

text \<open>The keyword and its length; \<open>None\<close> is \<^verbatim>\<open>SQLITE_ERROR\<close>.\<close>

definition sqlite3_keyword_name :: "int \<Rightarrow> (string \<times> nat) option" where
  "sqlite3_keyword_name i =
     (if i < 0 \<or> i \<ge> sqlite3_keyword_count then None
      else Some (drop (aKWOffset ! nat i) zKWText, aKWLen ! nat i))"

definition sqlite3_keyword_check :: "u8 list \<Rightarrow> nat \<Rightarrow> bool option" where
  "sqlite3_keyword_check z n = map_option (\<lambda>t. t \<noteq> TK_ID) (sqlite3KeywordCode z n)"

definition sqlKeywords :: "(string \<times> nat) list" where
  "sqlKeywords =
    [(''REINDEX'', TK_REINDEX), (''INDEXED'', TK_INDEXED), (''INDEX'', TK_INDEX),
     (''DESC'', TK_DESC), (''ESCAPE'', TK_ESCAPE), (''EACH'', TK_EACH), (''CHECK'', TK_CHECK),
     (''KEY'', TK_KEY), (''BEFORE'', TK_BEFORE), (''FOREIGN'', TK_FOREIGN), (''FOR'', TK_FOR),
     (''IGNORE'', TK_IGNORE), (''REGEXP'', TK_LIKE_KW), (''EXPLAIN'', TK_EXPLAIN),
     (''INSTEAD'', TK_INSTEAD), (''ADD'', TK_ADD), (''DATABASE'', TK_DATABASE),
     (''AS'', TK_AS), (''SELECT'', TK_SELECT), (''TABLE'', TK_TABLE), (''LEFT'', TK_JOIN_KW),
     (''THEN'', TK_THEN), (''END'', TK_END), (''DEFERRABLE'', TK_DEFERRABLE),
     (''ELSE'', TK_ELSE), (''EXCLUDE'', TK_EXCLUDE), (''DELETE'', TK_DELETE),
     (''TEMPORARY'', TK_TEMP), (''TEMP'', TK_TEMP), (''OR'', TK_OR), (''ISNULL'', TK_ISNULL),
     (''NULLS'', TK_NULLS), (''SAVEPOINT'', TK_SAVEPOINT), (''INTERSECT'', TK_INTERSECT),
     (''TIES'', TK_TIES), (''NOTNULL'', TK_NOTNULL), (''NOT'', TK_NOT), (''NO'', TK_NO),
     (''NULL'', TK_NULL), (''LIKE'', TK_LIKE_KW), (''EXCEPT'', TK_EXCEPT),
     (''TRANSACTION'', TK_TRANSACTION), (''ACTION'', TK_ACTION), (''ON'', TK_ON),
     (''NATURAL'', TK_JOIN_KW), (''ALTER'', TK_ALTER), (''RAISE'', TK_RAISE),
     (''EXCLUSIVE'', TK_EXCLUSIVE), (''EXISTS'', TK_EXISTS), (''CONSTRAINT'', TK_CONSTRAINT),
     (''INTO'', TK_INTO), (''OFFSET'', TK_OFFSET), (''OF'', TK_OF), (''SET'', TK_SET),
     (''TRIGGER'', TK_TRIGGER), (''REFERENCES'', TK_REFERENCES), (''UNIQUE'', TK_UNIQUE),
     (''QUERY'', TK_QUERY), (''WITHOUT'', TK_WITHOUT), (''WITH'', TK_WITH),
     (''OUTER'', TK_JOIN_KW), (''RELEASE'', TK_RELEASE), (''ATTACH'', TK_ATTACH),
     (''HAVING'', TK_HAVING), (''GLOB'', TK_LIKE_KW), (''BEGIN'', TK_BEGIN),
     (''INNER'', TK_JOIN_KW), (''RANGE'', TK_RANGE), (''BETWEEN'', TK_BETWEEN),
     (''NOTHING'', TK_NOTHING), (''GROUPS'', TK_GROUPS), (''GROUP'', TK_GROUP),
     (''CASCADE'', TK_CASCADE), (''ASC'', TK_ASC), (''DETACH'', TK_DETACH),
     (''CASE'', TK_CASE), (''COLLATE'', TK_COLLATE), (''CREATE'', TK_CREATE),
     (''CURRENT_DATE'', TK_CTIME_KW), (''IMMEDIATE'', TK_IMMEDIATE), (''JOIN'', TK_JOIN),
     (''INSERT'', TK_INSERT), (''MATCH'', TK_MATCH), (''PLAN'', TK_PLAN),
     (''ANALYZE'', TK_ANALYZE), (''PRAGMA'', TK_PRAGMA), (''ABORT'', TK_ABORT),
     (''UPDATE'', TK_UPDATE), (''VALUES'', TK_VALUES), (''VIRTUAL'', TK_VIRTUAL),
     (''LAST'', TK_LAST), (''WHEN'', TK_WHEN), (''WHERE'', TK_WHERE),
     (''RECURSIVE'', TK_RECURSIVE), (''AFTER'', TK_AFTER), (''RENAME'', TK_RENAME),
     (''AND'', TK_AND), (''DEFAULT'', TK_DEFAULT), (''AUTOINCREMENT'', TK_AUTOINCR),
     (''TO'', TK_TO), (''IN'', TK_IN), (''CAST'', TK_CAST), (''COLUMN'', TK_COLUMNKW),
     (''COMMIT'', TK_COMMIT), (''CONFLICT'', TK_CONFLICT), (''CROSS'', TK_JOIN_KW),
     (''CURRENT_TIMESTAMP'', TK_CTIME_KW), (''CURRENT_TIME'', TK_CTIME_KW),
     (''CURRENT'', TK_CURRENT), (''PARTITION'', TK_PARTITION), (''DEFERRED'', TK_DEFERRED),
     (''DISTINCT'', TK_DISTINCT), (''IS'', TK_IS), (''DROP'', TK_DROP),
     (''PRECEDING'', TK_PRECEDING), (''FAIL'', TK_FAIL), (''LIMIT'', TK_LIMIT),
     (''FILTER'', TK_FILTER), (''REPLACE'', TK_REPLACE), (''FIRST'', TK_FIRST),
     (''FOLLOWING'', TK_FOLLOWING), (''FROM'', TK_FROM), (''FULL'', TK_JOIN_KW),
     (''IF'', TK_IF), (''ORDER'', TK_ORDER), (''RESTRICT'', TK_RESTRICT),
     (''OTHERS'', TK_OTHERS), (''OVER'', TK_OVER), (''RIGHT'', TK_JOIN_KW),
     (''ROLLBACK'', TK_ROLLBACK), (''ROWS'', TK_ROWS), (''ROW'', TK_ROW),
     (''UNBOUNDED'', TK_UNBOUNDED), (''UNION'', TK_UNION), (''USING'', TK_USING),
     (''VACUUM'', TK_VACUUM), (''VIEW'', TK_VIEW), (''WINDOW'', TK_WINDOW), (''DO'', TK_DO),
     (''BY'', TK_BY), (''INITIALLY'', TK_INITIALLY), (''ALL'', TK_ALL),
     (''PRIMARY'', TK_PRIMARY)]"

section \<open>The tables decoded\<close>

definition kwText :: "nat \<Rightarrow> string" where
  "kwText i = take (aKWLen ! i) (drop (aKWOffset ! i) zKWText)"

lemma kw_lengths [simp]: "length aKWHash = 127" "length aKWNext = 143" "length aKWLen = 143"
  "length aKWOffset = 143" "length aKWCode = 143" "length zKWText = 637" "length sqlKeywords = 143"
  by (simp_all add: aKWHash_def aKWNext_def aKWLen_def aKWOffset_def aKWCode_def zKWText_def sqlKeywords_def)

text \<open>The offsets increase, so all keyword texts are read off in one pass.\<close>

fun kwScan :: "string \<Rightarrow> nat \<Rightarrow> (nat \<times> nat \<times> nat) list \<Rightarrow> (string \<times> nat) list" where
  "kwScan t p [] = []"
| "kwScan t p ((off, len, code) # r) =
     (let t' = drop (off - p) t in (take len t', code) # kwScan t' off r)"

fun increasingFrom :: "nat \<Rightarrow> (nat \<times> nat \<times> nat) list \<Rightarrow> bool" where
  "increasingFrom p [] \<longleftrightarrow> True"
| "increasingFrom p ((off, r) # l) \<longleftrightarrow> p \<le> off \<and> increasingFrom off l"

lemma kwScan_drop:
  "increasingFrom p l \<Longrightarrow>
   kwScan (drop p t) p l = map (\<lambda>(off, len, code). (take len (drop off t), code)) l"
  by (induction "drop p t" p l rule: kwScan.induct) (auto simp: Let_def)

lemma kw_table: "i < 143 \<Longrightarrow> sqlKeywords ! i = (kwText i, aKWCode ! i)"
proof -
  let ?l = "zip aKWOffset (zip aKWLen aKWCode)"
  have "kwScan zKWText 0 ?l = sqlKeywords" "increasingFrom 0 ?l"
    by code_simp+
  with kwScan_drop [of 0 ?l zKWText]
  have e: "sqlKeywords = map (\<lambda>(off, len, code). (take len (drop off zKWText), code)) ?l"
    by simp
  show "i < 143 \<Longrightarrow> sqlKeywords ! i = (kwText i, aKWCode ! i)"
    by (subst e) (simp add: kwText_def)
qed

lemma kw_in_range: "i < 143 \<Longrightarrow> aKWOffset ! i + aKWLen ! i \<le> 637"
proof -
  have "list_all2 (\<lambda>off len. off + len \<le> 637) aKWOffset aKWLen"
    by code_simp
  then show "i < 143 \<Longrightarrow> aKWOffset ! i + aKWLen ! i \<le> 637"
    by (simp add: list_all2_conv_all_nth)
qed

lemma kw_distinct: "distinct (map fst sqlKeywords)"
  by (simp add: sqlKeywords_def)

definition capital :: "char \<Rightarrow> bool" where
  "capital c \<longleftrightarrow> (of_char c :: nat) \<in> {65..90}"

lemma kw_letters: "list_all (\<lambda>(w, c). 2 \<le> length w \<and> capital (hd w) \<and> capital (last w)) sqlKeywords"
  by (simp add: sqlKeywords_def capital_def)

text \<open>The hash value of every keyword.\<close>

definition kwHashes :: "nat list" where
  "kwHashes =
    [
40, 16, 74, 62, 62, 41, 73, 69, 34, 86, 78, 14, 31, 90, 16, 44, 56, 96, 23, 123, 105, 31,
     60, 54, 64, 61, 58, 51, 5, 105, 103, 101, 26, 114, 14, 124, 104, 120, 121, 28, 79, 18, 73,
     117, 124, 88, 99, 51, 76, 91, 110, 103, 13, 20, 2, 28, 126, 43, 8, 97, 112, 97, 59, 20,
     63, 72, 120, 99, 70, 11, 68, 74, 37, 47, 47, 40, 37, 38, 48, 3, 103, 0, 10, 15, 45, 102,
     94, 126, 8, 28, 105, 19, 119, 111, 88, 98, 44, 76, 86, 32, 109, 85, 65, 87, 89, 81, 78,
     48, 88, 4, 53, 69, 1, 69, 125, 89, 106, 73, 97, 66, 37, 92, 89, 21, 112, 29, 100, 111, 18,
     2, 22, 47, 114, 28, 101, 26, 58, 64, 96, 98, 71, 68, 45]"

lemma kwHashes_eq:
  "map (\<lambda>(w, c). ((((of_char (hd w) + 32) * 4) XOR ((of_char (last w) + 32) * 3)) XOR length w) mod 127) sqlKeywords = kwHashes"
  by (simp add: sqlKeywords_def kwHashes_def One_nat_def [symmetric] del: One_nat_def)

function kwChain :: "nat \<Rightarrow> nat list" where
  "kwChain i1 =
     (if i1 = 0 then []
      else case rd aKWNext (i1 - 1) of None \<Rightarrow> [] | Some nx \<Rightarrow> (i1 - 1) # kwChain nx)"
  by pat_completeness auto
termination by (relation "measure id") (auto dest!: aKWNext_decreases)

declare kwChain.simps [simp del]

lemma kw_hashed: "i < 143 \<Longrightarrow> i \<in> set (kwChain (aKWHash ! (kwHashes ! i)))"
proof -
  have "list_all2 (\<lambda>i h. i \<in> set (kwChain (aKWHash ! h))) [0..<143] kwHashes"
    by code_simp
  then show "i < 143 \<Longrightarrow> i \<in> set (kwChain (aKWHash ! (kwHashes ! i)))"
    by (auto simp: list_all2_conv_all_nth)
qed

lemma unat_of_char [simp]: "unat (of_char b :: u8) = of_char b"
proof -
  have "unat (of_nat (of_char b) :: u8) = of_char b mod 256"
    by (simp add: unat_of_nat)
  then show ?thesis
    by (simp add: of_nat_of_char)
qed

lemma charMap_fold:
  assumes "c AND NOT 0x20 = (of_char b :: u8)" "capital b"
  shows "charMap c = of_char b + 32"
proof -
  let ?P = "\<lambda>c :: u8. let d = c AND NOT 0x20 in 65 \<le> d \<and> d \<le> 90 \<longrightarrow>
    (if 65 \<le> c \<and> c \<le> 90 then c + 32 else c) = d + 32"
  have "list_all ?P all_u8" by code_simp
  then have "?P c" by (rule u8_allI)
  moreover have "65 \<le> c AND NOT 0x20" "c AND NOT 0x20 \<le> 90"
    using assms by (simp_all add: word_le_nat_alt capital_def)
  ultimately have "sqlite3UpperToLower c = of_char b + 32"
    by (simp add: upperToLower_iff assms(1) [simplified] Let_def)
  moreover have "unat (of_char b + 32 :: u8) = of_char b + 32"
    using assms(2) by (simp add: unat_word_ariths capital_def)
  ultimately show ?thesis
    by (simp add: charMap_def)
qed

lemma of_char_inj: "(of_char a :: u8) = of_char b \<Longrightarrow> a = b"
  by (metis unat_of_char of_char_eq_iff)

section \<open>The lookup decoded\<close>

lemma kwCmp_result:
  assumes "n \<le> length z" "n \<le> length k" "j \<le> n"
    and "\<forall>i < j. z ! i AND NOT 0x20 = of_char (k ! i)"
  shows "\<exists>m. kwCmp z k n j = Some m \<and> m \<le> n \<and>
    (m = n \<longleftrightarrow> (\<forall>i < n. z ! i AND NOT 0x20 = of_char (k ! i)))"
  using assms
proof (induction z k n j rule: kwCmp.induct)
  case (1 z k n j)
  show ?case
  proof (cases "j < n")
    case True
    then have r: "rd z j = Some (z ! j)" "rd k j = Some (k ! j)"
      using 1 by (simp_all add: rd_def)
    show ?thesis
    proof (cases "z ! j AND NOT 0x20 = of_char (k ! j)")
      case eq: True
      then have "\<forall>i < j + 1. z ! i AND NOT 0x20 = of_char (k ! i)"
        using 1(5) by (auto simp: less_Suc_eq)
      with 1(1) [OF True refl r eq] 1(2, 3) True eq show ?thesis
        by (subst kwCmp.simps) (simp add: r)
    next
      case False
      with True show ?thesis
        by (subst kwCmp.simps) (auto simp: r)
    qed
  next
    case False
    with 1 show ?thesis
      by (subst kwCmp.simps) auto
  qed
qed

definition kwFold :: "u8 list \<Rightarrow> u8 list" where
  "kwFold z = map (\<lambda>c. c AND NOT 0x20) z"

lemma kwCmp_text:
  assumes "n \<le> length z" "i < 143" "aKWLen ! i = n"
  shows "\<exists>m. kwCmp z (drop (aKWOffset ! i) zKWText) n 0 = Some m \<and> m \<le> n \<and>
    (m = n \<longleftrightarrow> kwFold (take n z) = map of_char (kwText i))"
proof -
  have "n \<le> length (drop (aKWOffset ! i) zKWText)"
    using kw_in_range [OF assms(2)] assms(3) by simp
  moreover from this have "kwFold (take n z) = map of_char (kwText i) \<longleftrightarrow>
      (\<forall>k < n. z ! k AND NOT 0x20 = of_char (drop (aKWOffset ! i) zKWText ! k))"
    using assms by (auto simp: kwFold_def kwText_def list_eq_iff_nth_eq)
  ultimately show ?thesis
    using kwCmp_result [of n z "drop (aKWOffset ! i) zKWText" 0] assms(1) by simp
qed

lemma kwLoop_result:
  assumes "n \<le> length z" "i1 \<le> 143"
  shows "kwLoop z n ty i1 =
    Some (case find (\<lambda>i. kwFold (take n z) = map of_char (kwText i)) (kwChain i1) of
      None \<Rightarrow> ty | Some i \<Rightarrow> aKWCode ! i)"
  using assms
proof (induction z n ty i1 rule: kwLoop.induct)
  case (1 z n ty i1)
  show ?case
  proof (cases "i1 = 0")
    case True
    then show ?thesis
      by (simp add: kwLoop.simps [of z n ty] kwChain.simps [of 0])
  next
    case False
    then obtain i where i1: "i1 = Suc i" by (cases i1) auto
    with 1 have i: "i < 143" by simp
    have r: "rd aKWLen i = Some (aKWLen ! i)" "rd aKWOffset i = Some (aKWOffset ! i)"
      "rd aKWNext i = Some (aKWNext ! i)" "rd aKWCode i = Some (aKWCode ! i)"
      using i by (simp_all add: rd_def)
    have nx: "aKWNext ! i \<le> 143"
      using aKWNext_decreases [OF r(3)] i by simp
    have c: "kwChain i1 = i # kwChain (aKWNext ! i)"
      unfolding i1 by (subst kwChain.simps) (simp add: r)
    have l: "length (kwText i) = aKWLen ! i"
      using kw_in_range [OF i] by (simp add: kwText_def)
    show ?thesis
    proof (cases "aKWLen ! i = n")
      case True
      obtain m where m: "kwCmp z (drop (aKWOffset ! i) zKWText) n 0 = Some m" "m \<le> n"
        "m = n \<longleftrightarrow> kwFold (take n z) = map of_char (kwText i)"
        using kwCmp_text [OF 1(3) i True] by blast
      show ?thesis
      proof (cases "m < n")
        case lt: True
        with 1(2) [OF False] True m nx 1(3) show ?thesis
          unfolding c by (subst kwLoop.simps) (simp add: i1 r)
      next
        case False
        with m True show ?thesis
          unfolding c by (subst kwLoop.simps) (simp add: i1 r)
      qed
    next
      case neq: False
      have "length (kwFold (take n z)) = n"
        using 1(3) by (simp add: kwFold_def)
      then have "kwFold (take n z) \<noteq> map of_char (kwText i)"
        using neq l by (metis length_map)
      with 1(1) [OF False] neq nx 1(3) show ?thesis
        unfolding c by (subst kwLoop.simps) (simp add: i1 r)
    qed
  qed
qed

lemma aKWHash_le: "h < 127 \<Longrightarrow> aKWHash ! h \<le> 143"
proof -
  have "list_all (\<lambda>k. k \<le> 143) aKWHash"
    by code_simp
  then show "h < 127 \<Longrightarrow> aKWHash ! h \<le> 143"
    by (simp add: list_all_length)
qed

lemma kwChain_less: "k \<in> set (kwChain i1) \<Longrightarrow> k < 143"
proof (induction i1 rule: kwChain.induct)
  case (1 i1)
  from 1(2) show ?case
    by (subst (asm) kwChain.simps) (use 1(1) in \<open>auto simp: rd_def split: if_splits\<close>)
qed

lemma keywordCode_chain:
  assumes "2 \<le> n" "n \<le> length z"
  shows "keywordCode z n ty = Some (case find (\<lambda>i. kwFold (take n z) = map of_char (kwText i))
    (kwChain (aKWHash ! kwHash (z ! 0) (z ! (n - 1)) n)) of None \<Rightarrow> ty | Some i \<Rightarrow> aKWCode ! i)"
proof -
  have h: "kwHash c d n < 127" for c d
    by (simp add: kwHash_def)
  have "rd z 0 = Some (z ! 0)" "rd z (n - 1) = Some (z ! (n - 1))"
    "rd aKWHash (kwHash c d n) = Some (aKWHash ! kwHash c d n)" for c d
    using assms h by (auto simp: rd_def)
  then show ?thesis
    using assms(1) kwLoop_result [OF assms(2) aKWHash_le [OF h]]
    by (simp add: keywordCode_def)
qed

lemma kw_entry:
  assumes "i < 143"
  shows "2 \<le> length (kwText i)" "capital (hd (kwText i))" "capital (last (kwText i))"
    "kwHashes ! i = (((of_char (hd (kwText i)) + 32) * 4 XOR (of_char (last (kwText i)) + 32) * 3) XOR
       length (kwText i)) mod 127"
proof -
  have "sqlKeywords ! i \<in> set sqlKeywords"
    using assms by simp
  with kw_letters show "2 \<le> length (kwText i)" "capital (hd (kwText i))" "capital (last (kwText i))"
    by (auto simp: list_all_iff kw_table [OF assms])
  show "kwHashes ! i = (((of_char (hd (kwText i)) + 32) * 4 XOR (of_char (last (kwText i)) + 32) * 3) XOR
       length (kwText i)) mod 127"
    using assms by (simp add: kwHashes_eq [symmetric] kw_table)
qed

lemma kw_unique:
  assumes "i < 143" "k < 143" "kwText i = kwText k"
  shows "i = k"
proof -
  have "map fst sqlKeywords ! i = map fst sqlKeywords ! k"
    using assms by (simp add: kw_table)
  then show ?thesis
    using nth_eq_iff_index_eq [OF kw_distinct, of i k] assms by simp
qed

lemma keyword_found:
  assumes "n \<le> length z" "i < 143" "kwFold (take n z) = map of_char (kwText i)"
  shows "keywordCode z n ty = Some (aKWCode ! i)"
proof -
  note e = kw_entry [OF assms(2)]
  have n: "length (kwText i) = n"
    using arg_cong [OF assms(3), of length] assms(1) by (simp add: kwFold_def)
  have nth: "k < n \<Longrightarrow> z ! k AND NOT 0x20 = of_char (kwText i ! k)" for k
    using arg_cong [OF assms(3), of "\<lambda>l. l ! k"] assms(1) n by (simp add: kwFold_def)
  have ne: "kwText i \<noteq> []" using e(1) by auto
  have "charMap (z ! 0) = of_char (hd (kwText i)) + 32"
    using nth [of 0] e(1, 2) n hd_conv_nth [OF ne] by (intro charMap_fold) auto
  moreover have "charMap (z ! (n - 1)) = of_char (last (kwText i)) + 32"
    using nth [of "n - 1"] e(1, 3) n last_conv_nth [OF ne] by (intro charMap_fold) auto
  ultimately have h: "kwHash (z ! 0) (z ! (n - 1)) n = kwHashes ! i"
    by (simp add: kwHash_def e(4) n)
  let ?P = "\<lambda>i. kwFold (take n z) = map of_char (kwText i)"
  obtain k where k: "find ?P (kwChain (aKWHash ! (kwHashes ! i))) = Some k"
    using kw_hashed [OF assms(2)] assms(3) by (cases "find ?P (kwChain (aKWHash ! (kwHashes ! i)))") (auto simp: find_None_iff)
  then have "?P k" "k \<in> set (kwChain (aKWHash ! (kwHashes ! i)))"
    by (auto simp: find_Some_iff)
  moreover from this have "map of_char (kwText k) = (map of_char (kwText i) :: u8 list)"
    using assms(3) by simp
  then have "kwText k = kwText i"
    by (rule map_injective) (auto intro: injI of_char_inj)
  ultimately have "k = i"
    using kw_unique kwChain_less assms(2) by metis
  with k h keywordCode_chain [OF _ assms(1), of ty] e(1) n show ?thesis
    by simp
qed

lemma keyword_not_found:
  assumes "n \<le> length z" "\<forall>i < 143. kwFold (take n z) \<noteq> map of_char (kwText i)"
  shows "keywordCode z n ty = Some ty"
proof (cases "2 \<le> n")
  case True
  have "find (\<lambda>i. kwFold (take n z) = map of_char (kwText i)) (kwChain i1) = None" for i1
    using assms(2) kwChain_less [of _ i1] by (auto simp: find_None_iff)
  with keywordCode_chain [OF True assms(1)] show ?thesis
    by simp
qed (simp add: keywordCode_def)

lemma keyword_lookup_any:
  assumes "n \<le> length z"
  shows "keywordCode z n ty = Some (case map_of (map (\<lambda>(w, t). (map of_char w, t)) sqlKeywords)
    (kwFold (take n z)) of None \<Rightarrow> ty | Some t \<Rightarrow> t)"
proof -
  let ?m = "map (\<lambda>(w, t). (map of_char w :: u8 list, t)) sqlKeywords"
  have inj: "inj (map of_char :: string \<Rightarrow> u8 list)"
    by (intro inj_mapI injI of_char_inj)
  have d: "distinct (map fst ?m)"
  proof -
    have "map fst ?m = map (map of_char) (map fst sqlKeywords)" by auto
    then show ?thesis
      using kw_distinct inj by (metis distinct_map inj_on_subset top_greatest)
  qed
  show ?thesis
  proof (cases "\<exists>i < 143. kwFold (take n z) = map of_char (kwText i)")
    case True
    then obtain i where i: "i < 143" "kwFold (take n z) = map of_char (kwText i)" by blast
    have "?m ! i \<in> set ?m"
      using i by (intro nth_mem) simp
    then have "(map of_char (kwText i), aKWCode ! i) \<in> set ?m"
      using i by (simp add: kw_table)
    then have "map_of ?m (kwFold (take n z)) = Some (aKWCode ! i)"
      using d i by (simp add: map_of_is_SomeI)
    with keyword_found [OF assms i] show ?thesis by simp
  next
    case False
    have "kwFold (take n z) \<notin> fst ` set ?m"
      using False by (fastforce simp: in_set_conv_nth kw_table)
    then have "map_of ?m (kwFold (take n z)) = None"
      by (simp only: map_of_eq_None_iff) simp
    with keyword_not_found [OF assms] False show ?thesis by auto
  qed
qed

lemma capital_fold: "c \<in> set (kwText i) \<Longrightarrow> i < 143 \<Longrightarrow> (of_char c :: u8) AND NOT 0x20 = of_char c"
proof -
  have "list_all (\<lambda>(w, t). list_all (\<lambda>c. (of_char c :: nat) \<in> {64..95}) w) sqlKeywords"
    by (simp add: sqlKeywords_def)
  then have r: "i < 143 \<Longrightarrow> c \<in> set (kwText i) \<Longrightarrow> (of_char c :: nat) \<in> {64..95}"
    using nth_mem [of i sqlKeywords] by (fastforce simp: list_all_iff kw_table)
  let ?P = "\<lambda>c :: u8. 64 \<le> c \<and> c \<le> 95 \<longrightarrow> c AND NOT 0x20 = c"
  have "list_all ?P all_u8" by code_simp
  then have "?P (of_char c)" by (rule u8_allI)
  with r show "c \<in> set (kwText i) \<Longrightarrow> i < 143 \<Longrightarrow> (of_char c :: u8) AND NOT 0x20 = of_char c"
    by (simp add: word_le_nat_alt)
qed

lemma kw_codes: "i < 143 \<Longrightarrow> aKWCode ! i \<noteq> TK_ID"
proof -
  have "list_all (\<lambda>t. t \<noteq> TK_ID) aKWCode"
    by (simp add: aKWCode_def)
  then show "i < 143 \<Longrightarrow> aKWCode ! i \<noteq> TK_ID"
    by (simp add: list_all_length)
qed

section \<open>Properties\<close>

text \<open>C6: The generated keyword recogniser (overlaid text, hash function and collision chains) maps
  every byte string to the token code that the plain list of the 143 SQL keywords gives to its
  upper-case form, and to \<open>TK_ID\<close> when it is not in the list; it never reads outside its tables or
  past the given length.\<close>

theorem keyword_lookup:
  assumes "n \<le> length z"
  shows "sqlite3KeywordCode z n =
    Some (case map_of (map (\<lambda>(w, t). (map of_char w, t)) sqlKeywords)
      (map (\<lambda>c. c AND NOT 0x20) (take n z)) of None \<Rightarrow> TK_ID | Some t \<Rightarrow> t)"
  unfolding sqlite3KeywordCode_def using keyword_lookup_any [OF assms] unfolding kwFold_def .

theorem keyword_lookup_witness:
  "sqlite3KeywordCode (map of_char ''SeLect*'') 6 = Some TK_SELECT"
  by (subst keyword_lookup) (simp_all add: sqlKeywords_def)

text \<open>The names that \<^verbatim>\<open>sqlite3_keyword_name\<close> enumerates are the keywords of the list, in order, and
  \<^verbatim>\<open>sqlite3_keyword_check\<close> accepts each of them.\<close>

lemma keyword_names_roundtrip:
  assumes "0 \<le> i" "i < sqlite3_keyword_count"
  shows "\<exists>z n. sqlite3_keyword_name i = Some (z, n) \<and> n \<le> length z \<and>
    take n z = fst (sqlKeywords ! nat i) \<and> sqlite3_keyword_check (map of_char z) n = Some True"
proof -
  have i: "nat i < 143"
    using assms by (simp add: sqlite3_keyword_count_def)
  let ?z = "drop (aKWOffset ! nat i) zKWText" and ?n = "aKWLen ! nat i"
  have n: "?n \<le> length ?z"
    using kw_in_range [OF i] by simp
  have t: "take ?n ?z = kwText (nat i)"
    by (simp add: kwText_def)
  have "kwFold (take ?n (map of_char ?z)) = map of_char (kwText (nat i))"
    using capital_fold [OF _ i] unfolding take_map t kwFold_def by (simp add: map_idI)
  then have "keywordCode (map of_char ?z) ?n TK_ID = Some (aKWCode ! nat i)"
    using keyword_found [OF _ i] n by simp
  then have "sqlite3_keyword_check (map of_char ?z) ?n = Some True"
    using kw_codes [OF i] by (simp add: sqlite3_keyword_check_def sqlite3KeywordCode_def)
  then show ?thesis
    using assms n t i by (simp add: sqlite3_keyword_name_def kw_table)
qed

end
