(* ===== verification/Tokenize.thy ===== *)
theory Tokenize
  imports Keyword
begin

text \<open>
  The SQL tokenizer \<^verbatim>\<open>sqlite3GetToken\<close> of \<^verbatim>\<open>tokenize.c\<close>. The argument is the list of bytes from
  the pointer to the end of the object, a token is its length and its code; a read outside the
  object is \<open>None\<close>. Each case of the big switch that does more than return a constant is a
  definition of its own, and each of its loops is \<open>scan\<close>, the loop that advances while the
  current byte satisfies a condition, or a recursive function.
\<close>

section \<open>Character classes\<close>

definition aiClass :: "nat list" where
  "aiClass =
    [28, 27, 27, 27, 27, 27, 27, 27, 27, 7, 7, 27, 7, 7, 27, 27, 27, 27,
     27, 27, 27, 27, 27, 27, 27, 27, 27, 27, 27, 27, 27, 27, 7, 15, 8, 5,
     4, 22, 24, 8, 17, 18, 21, 20, 23, 11, 26, 16, 3, 3, 3, 3, 3, 3, 3, 3,
     3, 3, 5, 19, 12, 14, 13, 6, 5, 1, 1, 1, 1, 1, 1, 1, 1, 1, 1, 1, 1, 1,
     1, 1, 1, 1, 1, 1, 1, 1, 1, 1, 0, 1, 1, 9, 27, 27, 27, 1, 8, 1, 1, 1,
     1, 1, 1, 1, 1, 1, 1, 1, 1, 1, 1, 1, 1, 1, 1, 1, 1, 1, 1, 1, 0, 1, 1,
     27, 10, 27, 25, 27, 2, 2, 2, 2, 2, 2, 2, 2, 2, 2, 2, 2, 2, 2, 2, 2, 2,
     2, 2, 2, 2, 2, 2, 2, 2, 2, 2, 2, 2, 2, 2, 2, 2, 2, 2, 2, 2, 2, 2, 2,
     2, 2, 2, 2, 2, 2, 2, 2, 2, 2, 2, 2, 2, 2, 2, 2, 2, 2, 2, 2, 2, 2, 2,
     2, 2, 2, 2, 2, 2, 2, 2, 2, 2, 2, 2, 2, 2, 2, 2, 2, 2, 2, 2, 2, 2, 2,
     2, 2, 2, 2, 2, 2, 2, 2, 2, 2, 2, 2, 2, 2, 2, 2, 2, 2, 2, 2, 2, 2, 2,
     2, 2, 2, 2, 2, 2, 2, 2, 2, 2, 2, 2, 2, 2, 2, 2, 2, 2, 2]"

datatype charClass =
    CC_X | CC_KYWD | CC_ID | CC_DIGIT | CC_DOLLAR | CC_VARALPHA | CC_VARNUM | CC_SPACE | CC_QUOTE
  | CC_QUOTE2 | CC_PIPE | CC_MINUS | CC_LT | CC_GT | CC_EQ | CC_BANG | CC_SLASH | CC_LP | CC_RP
  | CC_SEMI | CC_PLUS | CC_STAR | CC_PERCENT | CC_COMMA | CC_AND | CC_TILDA | CC_DOT | CC_ILLEGAL
  | CC_NUL

definition charClasses :: "charClass list" where
  "charClasses =
    [CC_X, CC_KYWD, CC_ID, CC_DIGIT, CC_DOLLAR, CC_VARALPHA, CC_VARNUM, CC_SPACE, CC_QUOTE,
     CC_QUOTE2, CC_PIPE, CC_MINUS, CC_LT, CC_GT, CC_EQ, CC_BANG, CC_SLASH, CC_LP, CC_RP,
     CC_SEMI, CC_PLUS, CC_STAR, CC_PERCENT, CC_COMMA, CC_AND, CC_TILDA, CC_DOT, CC_ILLEGAL,
     CC_NUL]"

definition classOf :: "u8 \<Rightarrow> charClass" where
  "classOf c = charClasses ! (aiClass ! unat c)"

section \<open>Loops\<close>

text \<open>\<^verbatim>\<open>for(; P(z[i]); i++){}\<close>\<close>

function scan :: "(u8 \<Rightarrow> bool) \<Rightarrow> u8 list \<Rightarrow> nat \<Rightarrow> nat option" where
  "scan P z i = (case rd z i of None \<Rightarrow> None | Some c \<Rightarrow> if P c then scan P z (i + 1) else Some i)"
  by pat_completeness auto
termination by (relation "measure (\<lambda>(P, z, i). length z - i)") (auto simp: rd_def split: if_splits)

declare scan.simps [simp del]

text \<open>The loop over a C-style comment: the index and \<^verbatim>\<open>c\<close> at which it stops.\<close>

function commentLoop :: "u8 list \<Rightarrow> nat \<Rightarrow> u8 \<Rightarrow> (nat \<times> u8) option" where
  "commentLoop z i c =
     (case rd z i of
        None \<Rightarrow> None
      | Some d \<Rightarrow>
          if c \<noteq> 42 \<or> d \<noteq> 47 then (if d \<noteq> 0 then commentLoop z (i + 1) d else Some (i, d))
          else Some (i, c))"
  by pat_completeness auto
termination by (relation "measure (\<lambda>(z, i, c). length z - i)") (auto simp: rd_def split: if_splits)

declare commentLoop.simps [simp del]

text \<open>The loop over a quoted string: the index and \<^verbatim>\<open>c\<close> at which it stops.\<close>

function quoteLoop :: "u8 \<Rightarrow> u8 list \<Rightarrow> nat \<Rightarrow> (nat \<times> u8) option" where
  "quoteLoop delim z i =
     (case rd z i of
        None \<Rightarrow> None
      | Some c \<Rightarrow>
          if c = 0 then Some (i, c)
          else if c = delim then
            (case rd z (i + 1) of
               None \<Rightarrow> None
             | Some d \<Rightarrow> if d = delim then quoteLoop delim z (i + 2) else Some (i, c))
          else quoteLoop delim z (i + 1))"
  by pat_completeness auto
termination by (relation "measure (\<lambda>(d, z, i). length z - i)") (auto simp: rd_def split: if_splits)

declare quoteLoop.simps [simp del]

text \<open>The loop over a variable name: the index, \<^verbatim>\<open>n\<close> and the token type.\<close>

function varLoop :: "u8 list \<Rightarrow> nat \<Rightarrow> nat \<Rightarrow> (nat \<times> nat \<times> nat) option" where
  "varLoop z i n =
     (case rd z i of
        None \<Rightarrow> None
      | Some c \<Rightarrow>
          if c = 0 then Some (i, n, TK_VARIABLE)
          else if IdChar c then varLoop z (i + 1) (n + 1)
          else if c = 40 \<and> n > 0 then
            do {
              j \<leftarrow> scan (\<lambda>c. c \<noteq> 0 \<and> \<not> sqlite3Isspace c \<and> c \<noteq> 41) z (i + 1);
              c \<leftarrow> rd z j;
              Some (if c = 41 then (j + 1, n, TK_VARIABLE) else (j, n, TK_ILLEGAL))
            }
          else if c = 58 then
            (case rd z (i + 1) of
               None \<Rightarrow> None
             | Some d \<Rightarrow> if d = 58 then varLoop z (i + 2) n else Some (i, n, TK_VARIABLE))
          else Some (i, n, TK_VARIABLE))"
  by pat_completeness auto
termination by (relation "measure (\<lambda>(z, i, n). length z - i)") (auto simp: rd_def split: if_splits)

declare varLoop.simps [simp del]

section \<open>The cases of the switch\<close>

definition tokSpace :: "u8 list \<Rightarrow> (nat \<times> nat) option" where
  "tokSpace z = do { i \<leftarrow> scan sqlite3Isspace z 1; Some (i, TK_SPACE) }"

definition tokMinus :: "u8 list \<Rightarrow> (nat \<times> nat) option" where
  "tokMinus z =
     do {
       c \<leftarrow> rd z 1;
       if c = 45 then do { i \<leftarrow> scan (\<lambda>c. c \<noteq> 0 \<and> c \<noteq> 10) z 2; Some (i, TK_SPACE) }
       else Some (1, TK_MINUS)
     }"

definition tokSlash :: "u8 list \<Rightarrow> (nat \<times> nat) option" where
  "tokSlash z =
     do {
       c \<leftarrow> rd z 1;
       if c \<noteq> 42 then Some (1, TK_SLASH)
       else do {
         d \<leftarrow> rd z 2;
         if d = 0 then Some (1, TK_SLASH)
         else do {
           (i, c) \<leftarrow> commentLoop z 3 d;
           Some (if c \<noteq> 0 then i + 1 else i, TK_SPACE)
         }
       }
     }"

definition tokLt :: "u8 list \<Rightarrow> (nat \<times> nat) option" where
  "tokLt z =
     do {
       c \<leftarrow> rd z 1;
       Some (if c = 61 then (2, TK_LE) else if c = 62 then (2, TK_NE)
             else if c = 60 then (2, TK_LSHIFT) else (1, TK_LT))
     }"

definition tokGt :: "u8 list \<Rightarrow> (nat \<times> nat) option" where
  "tokGt z =
     do {
       c \<leftarrow> rd z 1;
       Some (if c = 61 then (2, TK_GE) else if c = 62 then (2, TK_RSHIFT) else (1, TK_GT))
     }"

definition tokQuote :: "u8 list \<Rightarrow> (nat \<times> nat) option" where
  "tokQuote z =
     do {
       delim \<leftarrow> rd z 0;
       (i, c) \<leftarrow> quoteLoop delim z 1;
       Some (if c = 39 then (i + 1, TK_STRING) else if c \<noteq> 0 then (i + 1, TK_ID)
             else (i, TK_ILLEGAL))
     }"

text \<open>The condition of the exponent: \<^verbatim>\<open>z[i]\<close> is e or E, followed by a digit or by a sign and a
  digit.\<close>

definition tokExponent :: "u8 list \<Rightarrow> nat \<Rightarrow> bool option" where
  "tokExponent z i =
     do {
       c \<leftarrow> rd z i;
       if c = 101 \<or> c = 69 then
         do {
           d \<leftarrow> rd z (i + 1);
           if sqlite3Isdigit d then Some True
           else if d = 43 \<or> d = 45 then do { e \<leftarrow> rd z (i + 2); Some (sqlite3Isdigit e) }
           else Some False
         }
       else Some False
     }"

definition tokHexPrefix :: "u8 list \<Rightarrow> bool option" where
  "tokHexPrefix z =
     do {
       a \<leftarrow> rd z 0;
       if a = 48 then
         do {
           b \<leftarrow> rd z 1;
           if b = 120 \<or> b = 88 then do { c \<leftarrow> rd z 2; Some (sqlite3Isxdigit c) } else Some False
         }
       else Some False
     }"

definition tokDigit :: "u8 list \<Rightarrow> (nat \<times> nat) option" where
  "tokDigit z =
     do {
       hex \<leftarrow> tokHexPrefix z;
       if hex then do { i \<leftarrow> scan sqlite3Isxdigit z 3; Some (i, TK_INTEGER) }
       else do {
         i \<leftarrow> scan sqlite3Isdigit z 0;
         c \<leftarrow> rd z i;
         (i, t) \<leftarrow> (if c = 46 then do { i \<leftarrow> scan sqlite3Isdigit z (i + 1); Some (i, TK_FLOAT) }
                   else Some (i, TK_INTEGER));
         e \<leftarrow> tokExponent z i;
         (i, t) \<leftarrow> (if e then do { i \<leftarrow> scan sqlite3Isdigit z (i + 2); Some (i, TK_FLOAT) }
                   else Some (i, t));
         j \<leftarrow> scan IdChar z i;
         Some (j, if j > i then TK_ILLEGAL else t)
       }
     }"

definition tokDot :: "u8 list \<Rightarrow> (nat \<times> nat) option" where
  "tokDot z = do { c \<leftarrow> rd z 1; if \<not> sqlite3Isdigit c then Some (1, TK_DOT) else tokDigit z }"

text \<open>\<^verbatim>\<open>for(i=1, c=z[0]; c!=']' && (c=z[i])!=0; i++){}\<close>: \<^verbatim>\<open>z[0]\<close> is \<^verbatim>\<open>'['\<close>, so the loop stops one past the first
  \<^verbatim>\<open>]\<close> or at the zero byte.\<close>

function bracketLoop :: "u8 list \<Rightarrow> nat \<Rightarrow> u8 \<Rightarrow> (nat \<times> u8) option" where
  "bracketLoop z i c =
     (if c \<noteq> 93 then
        (case rd z i of
           None \<Rightarrow> None
         | Some d \<Rightarrow> if d \<noteq> 0 then bracketLoop z (i + 1) d else Some (i, d))
      else Some (i, c))"
  by pat_completeness auto
termination by (relation "measure (\<lambda>(z, i, c). length z - i)") (auto simp: rd_def split: if_splits)

declare bracketLoop.simps [simp del]

definition tokBracket :: "u8 list \<Rightarrow> (nat \<times> nat) option" where
  "tokBracket z =
     do {
       c \<leftarrow> rd z 0;
       (i, c) \<leftarrow> bracketLoop z 1 c;
       Some (i, if c = 93 then TK_ID else TK_ILLEGAL)
     }"

definition tokVarnum :: "u8 list \<Rightarrow> (nat \<times> nat) option" where
  "tokVarnum z = do { i \<leftarrow> scan sqlite3Isdigit z 1; Some (i, TK_VARIABLE) }"

definition tokVarAlpha :: "u8 list \<Rightarrow> (nat \<times> nat) option" where
  "tokVarAlpha z = do { (i, n, t) \<leftarrow> varLoop z 1 0; Some (i, if n = 0 then TK_ILLEGAL else t) }"

text \<open>The code after the switch.\<close>

definition tokId :: "u8 list \<Rightarrow> nat \<Rightarrow> (nat \<times> nat) option" where
  "tokId z i = do { i \<leftarrow> scan IdChar z i; Some (i, TK_ID) }"

text \<open>\<^verbatim>\<open>aiClass[c]<=CC_KYWD\<close>\<close>

definition kywdChar :: "u8 \<Rightarrow> bool" where
  "kywdChar c \<longleftrightarrow> aiClass ! unat c \<le> 1"

definition tokKywd :: "u8 list \<Rightarrow> (nat \<times> nat) option" where
  "tokKywd z =
     do {
       i \<leftarrow> scan kywdChar z 1;
       c \<leftarrow> rd z i;
       if IdChar c then tokId z (i + 1)
       else do { t \<leftarrow> keywordCode z i TK_ID; Some (i, t) }
     }"

definition tokX :: "u8 list \<Rightarrow> (nat \<times> nat) option" where
  "tokX z =
     do {
       c \<leftarrow> rd z 1;
       if c = 39 then
         do {
           i \<leftarrow> scan sqlite3Isxdigit z 2;
           c \<leftarrow> rd z i;
           (i, t) \<leftarrow> (if c \<noteq> 39 \<or> odd i
                     then do { i \<leftarrow> scan (\<lambda>c. c \<noteq> 0 \<and> c \<noteq> 39) z i; Some (i, TK_ILLEGAL) }
                     else Some (i, TK_BLOB));
           c \<leftarrow> rd z i;
           Some (if c \<noteq> 0 then i + 1 else i, t)
         }
       else tokId z 1
     }"

section \<open>The tokenizer\<close>

definition sqlite3GetToken :: "u8 list \<Rightarrow> (nat \<times> nat) option" where
  "sqlite3GetToken z =
     (case rd z 0 of
        None \<Rightarrow> None
      | Some c \<Rightarrow>
          (case classOf c of
             CC_SPACE \<Rightarrow> tokSpace z
           | CC_MINUS \<Rightarrow> tokMinus z
           | CC_LP \<Rightarrow> Some (1, TK_LP)
           | CC_RP \<Rightarrow> Some (1, TK_RP)
           | CC_SEMI \<Rightarrow> Some (1, TK_SEMI)
           | CC_PLUS \<Rightarrow> Some (1, TK_PLUS)
           | CC_STAR \<Rightarrow> Some (1, TK_STAR)
           | CC_SLASH \<Rightarrow> tokSlash z
           | CC_PERCENT \<Rightarrow> Some (1, TK_REM)
           | CC_EQ \<Rightarrow> do { d \<leftarrow> rd z 1; Some (if d = 61 then 2 else 1, TK_EQ) }
           | CC_LT \<Rightarrow> tokLt z
           | CC_GT \<Rightarrow> tokGt z
           | CC_BANG \<Rightarrow> do { d \<leftarrow> rd z 1; Some (if d \<noteq> 61 then (1, TK_ILLEGAL) else (2, TK_NE)) }
           | CC_PIPE \<Rightarrow> do { d \<leftarrow> rd z 1; Some (if d \<noteq> 124 then (1, TK_BITOR) else (2, TK_CONCAT)) }
           | CC_COMMA \<Rightarrow> Some (1, TK_COMMA)
           | CC_AND \<Rightarrow> Some (1, TK_BITAND)
           | CC_TILDA \<Rightarrow> Some (1, TK_BITNOT)
           | CC_QUOTE \<Rightarrow> tokQuote z
           | CC_DOT \<Rightarrow> tokDot z
           | CC_DIGIT \<Rightarrow> tokDigit z
           | CC_QUOTE2 \<Rightarrow> tokBracket z
           | CC_VARNUM \<Rightarrow> tokVarnum z
           | CC_DOLLAR \<Rightarrow> tokVarAlpha z
           | CC_VARALPHA \<Rightarrow> tokVarAlpha z
           | CC_KYWD \<Rightarrow> tokKywd z
           | CC_X \<Rightarrow> tokX z
           | CC_ID \<Rightarrow> tokId z 1
           | CC_NUL \<Rightarrow> Some (0, TK_ILLEGAL)
           | CC_ILLEGAL \<Rightarrow> Some (1, TK_ILLEGAL)))"

section \<open>Zero-terminated input\<close>

definition cstring :: "u8 list \<Rightarrow> u8 list \<Rightarrow> bool" where
  "cstring z s \<longleftrightarrow> z = s @ [0] \<and> 0 \<notin> set s"

lemma cstring_rd: "cstring z s \<Longrightarrow> i \<le> length s \<Longrightarrow> rd z i = Some (z ! i)"
  by (simp add: cstring_def rd_def)

lemma cstring_0: "cstring z s \<Longrightarrow> i \<le> length s \<Longrightarrow> z ! i = 0 \<longleftrightarrow> i = length s"
  by (auto simp: cstring_def nth_append in_set_conv_nth)

lemma cstring_less: "cstring z s \<Longrightarrow> i \<le> length s \<Longrightarrow> z ! i \<noteq> 0 \<Longrightarrow> i < length s"
  using cstring_0 [of z s i] by simp

lemma scan_ok:
  assumes "cstring z s" "\<not> P 0" "i \<le> length s"
  shows "\<exists>k. scan P z i = Some k \<and> i \<le> k \<and> k \<le> length s \<and> (\<forall>m. i \<le> m \<and> m < k \<longrightarrow> P (z ! m)) \<and> \<not> P (z ! k)"
  using assms
proof (induction P z i rule: scan.induct)
  case (1 P z i)
  note r = cstring_rd [OF 1(2, 4)]
  show ?case
  proof (cases "P (z ! i)")
    case True
    then have "i + 1 \<le> length s"
      using cstring_less [OF 1(2, 4)] 1(3) by (metis Suc_eq_plus1 Suc_leI)
    with 1(1) [OF r True 1(2, 3)] obtain k where "scan P z (i + 1) = Some k" "i + 1 \<le> k" "k \<le> length s"
      "\<forall>m. i + 1 \<le> m \<and> m < k \<longrightarrow> P (z ! m)" "\<not> P (z ! k)"
      by blast
    moreover from this have "\<forall>m. i \<le> m \<and> m < k \<longrightarrow> P (z ! m)"
      using True by (metis Suc_eq_plus1 le_antisym not_less_eq_eq)
    ultimately show ?thesis
      using True by (subst scan.simps) (simp add: r)
  next
    case False
    then show ?thesis
      using 1(4) by (subst scan.simps) (auto simp: r)
  qed
qed

lemma scan_obtain:
  assumes "cstring z s" "\<not> P 0" "i \<le> length s"
  obtains k where "scan P z i = Some k" "i \<le> k" "k \<le> length s"
    "\<And>m. i \<le> m \<Longrightarrow> m < k \<Longrightarrow> P (z ! m)" "\<not> P (z ! k)"
  using scan_ok [of z s P i] assms by blast

lemma class_0 [simp]: "\<not> sqlite3Isspace 0" "\<not> sqlite3Isdigit 0" "\<not> sqlite3Isxdigit 0" "\<not> IdChar 0"
  "\<not> kywdChar 0"
  "\<not> IdChar 58"
  by code_simp+

text \<open>A token of at least one byte that ends before the terminator.\<close>

definition tokenOf :: "u8 list \<Rightarrow> (nat \<times> nat) option \<Rightarrow> bool" where
  "tokenOf s r \<longleftrightarrow> (\<exists>n t. r = Some (n, t) \<and> 0 < n \<and> n \<le> length s)"

lemma tokenOf_Some [simp]: "tokenOf s (Some (n, t)) \<longleftrightarrow> 0 < n \<and> n \<le> length s"
  by (simp add: tokenOf_def)

text \<open>Facts about a non-empty zero-terminated input.\<close>

definition sqlText :: "u8 list \<Rightarrow> u8 list \<Rightarrow> bool" where
  "sqlText z s \<longleftrightarrow> cstring z s \<and> s \<noteq> []"

lemma sqlTextD:
  assumes "sqlText z s"
  shows "cstring z s" "0 < length s" "1 \<le> length s" "Suc 0 \<le> length s" "s \<noteq> []"
    "rd z 0 = Some (z ! 0)" "rd z 1 = Some (z ! 1)" "rd z (Suc 0) = Some (z ! Suc 0)"
    "z ! 0 \<noteq> 0"
  using assms cstring_0 [of z s 0]
  by (auto simp: sqlText_def cstring_rd Suc_le_eq)

lemma tokSpace_ok: "sqlText z s \<Longrightarrow> tokenOf s (tokSpace z)"
  by (rule scan_obtain [of z s sqlite3Isspace 1]) (auto simp: tokSpace_def dest: sqlTextD)

lemma tokVarnum_ok: "sqlText z s \<Longrightarrow> tokenOf s (tokVarnum z)"
  by (rule scan_obtain [of z s sqlite3Isdigit 1]) (auto simp: tokVarnum_def dest: sqlTextD)

lemma tokId_ok: "sqlText z s \<Longrightarrow> 0 < i \<Longrightarrow> i \<le> length s \<Longrightarrow> tokenOf s (tokId z i)"
  by (rule scan_obtain [of z s IdChar i]) (auto simp: tokId_def dest: sqlTextD)

lemma tokMinus_ok:
  assumes "sqlText z s"
  shows "tokenOf s (tokMinus z)"
proof (cases "z ! 1 = 45")
  case True
  note z = sqlTextD [OF assms]
  have "2 \<le> length s"
    using cstring_less [OF z(1, 3)] True by simp
  then obtain k where "scan (\<lambda>c. c \<noteq> 0 \<and> c \<noteq> 10) z 2 = Some k" "2 \<le> k" "k \<le> length s"
    using scan_ok [OF z(1), of "\<lambda>c. c \<noteq> 0 \<and> c \<noteq> 10" 2] by auto
  with True z show ?thesis
    by (simp add: tokMinus_def)
qed (use sqlTextD [OF assms] in \<open>simp add: tokMinus_def\<close>)

lemma commentLoop_ok:
  assumes z: "cstring z s" and "i \<le> length s" "c \<noteq> 0"
  shows "\<exists>k d. commentLoop z i c = Some (k, d) \<and> i \<le> k \<and> k \<le> length s \<and> (d = 0 \<longleftrightarrow> k = length s)"
  using assms(2, 3)
proof (induction "length s - i" arbitrary: i c)
  case 0
  then show ?case
    using cstring_0 [OF z, of i] by (subst commentLoop.simps) (simp add: cstring_rd [OF z])
next
  case (Suc n)
  then have "z ! i \<noteq> 0" "n = length s - (i + 1)" "i + 1 \<le> length s"
    using cstring_0 [OF z, of i] by auto
  with Suc.hyps(1) [of "i + 1" "z ! i"] Suc.prems show ?case
    by (subst commentLoop.simps) (auto simp: cstring_rd [OF z])
qed

lemma tokSlash_ok:
  assumes "sqlText z s"
  shows "tokenOf s (tokSlash z)"
proof (cases "z ! 1 = 42 \<and> z ! 2 \<noteq> 0")
  case True
  note z = sqlTextD [OF assms]
  have l: "2 \<le> length s"
    using cstring_less [OF z(1, 3)] True by simp
  with True have "3 \<le> length s"
    using cstring_less [OF z(1), of 2] by simp
  then obtain k d where "commentLoop z 3 (z ! 2) = Some (k, d)" "3 \<le> k" "k \<le> length s" "d = 0 \<longleftrightarrow> k = length s"
    using commentLoop_ok [OF z(1), of 3 "z ! 2"] True by blast
  with True l z show ?thesis
    by (auto simp: tokSlash_def cstring_rd [OF z(1)])
next
  case False
  note z = sqlTextD [OF assms]
  have "z ! 1 = 42 \<Longrightarrow> rd z 2 = Some (z ! 2)"
    using cstring_less [OF z(1, 3)] by (intro cstring_rd [OF z(1)]) simp
  with False z show ?thesis
    by (auto simp: tokSlash_def)
qed

lemma quoteLoop_ok:
  assumes z: "cstring z s" and "i \<le> length s" "delim \<noteq> 0"
  shows "\<exists>k c. quoteLoop delim z i = Some (k, c) \<and> i \<le> k \<and> k \<le> length s \<and> c = z ! k"
  using assms(2, 3)
proof (induction "length s - i" arbitrary: i rule: less_induct)
  case less
  have r: "rd z i = Some (z ! i)"
    using less.prems by (simp add: cstring_rd [OF z])
  consider "z ! i = 0" | "z ! i \<noteq> 0" "z ! i \<noteq> delim" "i < length s"
    | "z ! i = delim" "i < length s" "z ! Suc i \<noteq> delim" | "z ! i = delim" "z ! Suc i = delim" "i + 2 \<le> length s"
    using less.prems cstring_less [OF z, of i] cstring_less [OF z, of "Suc i"] by fastforce
  then show ?case
  proof cases
    case 2
    then have "length s - (i + 1) < length s - i" by simp
    with 2 less.hyps [of "i + 1"] less.prems obtain k c where
      "quoteLoop delim z (i + 1) = Some (k, c)" "i + 1 \<le> k" "k \<le> length s" "c = z ! k"
      by auto
    with 2 show ?thesis
      by (subst quoteLoop.simps) (simp add: r)
  next
    case 4
    then have "length s - (i + 2) < length s - i" by simp
    with 4 less.hyps [of "i + 2"] less.prems obtain k c where
      "quoteLoop delim z (i + 2) = Some (k, c)" "i + 2 \<le> k" "k \<le> length s" "c = z ! k"
      by auto
    with 4 less.prems show ?thesis
      by (subst quoteLoop.simps) (simp add: r cstring_rd [OF z])
  qed (use less.prems in \<open>subst quoteLoop.simps, auto simp: r cstring_rd [OF z]\<close>)+
qed

lemma tokQuote_ok:
  assumes "sqlText z s"
  shows "tokenOf s (tokQuote z)"
proof -
  note z = sqlTextD [OF assms]
  obtain k c where "quoteLoop (z ! 0) z 1 = Some (k, c)" "1 \<le> k" "k \<le> length s" "c = z ! k"
    using quoteLoop_ok [OF z(1, 3, 9)] by blast
  with cstring_less [OF z(1), of k] z show ?thesis
    by (auto simp: tokQuote_def)
qed

lemma bracketLoop_ok:
  assumes z: "cstring z s" and "i \<le> length s"
  shows "\<exists>k d. bracketLoop z i c = Some (k, d) \<and> i \<le> k \<and> k \<le> length s"
  using assms(2)
proof (induction "length s - i" arbitrary: i c)
  case 0
  then show ?case
    using cstring_0 [OF z, of i] by (subst bracketLoop.simps) (simp add: cstring_rd [OF z])
next
  case (Suc n)
  then have "z ! i \<noteq> 0" "n = length s - (i + 1)" "i + 1 \<le> length s"
    using cstring_0 [OF z, of i] by auto
  with Suc.hyps(1) [of "i + 1" "z ! i"] Suc.prems show ?case
    by (subst bracketLoop.simps) (auto simp: cstring_rd [OF z])
qed

lemma tokBracket_ok:
  assumes "sqlText z s"
  shows "tokenOf s (tokBracket z)"
  using bracketLoop_ok [of z s 1 "z ! 0"] sqlTextD [OF assms] by (auto simp: tokBracket_def)

lemma varLoop_ok:
  assumes z: "cstring z s" and "i \<le> length s"
  shows "\<exists>k n' t. varLoop z i n = Some (k, n', t) \<and> i \<le> k \<and> k \<le> length s"
  using assms(2)
proof (induction "length s - i" arbitrary: i n rule: less_induct)
  case less
  have r: "rd z i = Some (z ! i)"
    using less.prems by (simp add: cstring_rd [OF z])
  show ?case
  proof (cases "z ! i = 0")
    case True
    then show ?thesis
      using less.prems by (subst varLoop.simps) (simp add: r)
  next
    case False
    then have i: "i + 1 \<le> length s" "rd z (i + 1) = Some (z ! (i + 1))"
      using cstring_less [OF z, of i] less.prems by (simp_all add: cstring_rd [OF z])
    let ?P = "\<lambda>c. c \<noteq> 0 \<and> \<not> sqlite3Isspace c \<and> c \<noteq> 41"
    obtain j where j: "scan ?P z (i + 1) = Some j" "i + 1 \<le> j" "j \<le> length s"
      using scan_ok [OF z _ i(1), of ?P] by auto
    have j1: "rd z j = Some (z ! j)" "z ! j = 41 \<Longrightarrow> j + 1 \<le> length s"
      using j cstring_less [OF z, of j] by (simp_all add: cstring_rd [OF z])
    have i2: "z ! (i + 1) = 58 \<Longrightarrow> i + 2 \<le> length s"
      using i cstring_less [OF z, of "i + 1"] by simp
    have "length s - (i + 1) < length s - i" using i by simp
    then obtain k1 n1 t1 where a: "varLoop z (i + 1) (n + 1) = Some (k1, n1, t1)" "i + 1 \<le> k1" "k1 \<le> length s"
      using less.hyps [of "i + 1" "n + 1"] i by auto
    have b: "\<exists>k2 n2 t2. varLoop z (i + 2) n = Some (k2, n2, t2) \<and> i + 2 \<le> k2 \<and> k2 \<le> length s"
      if "z ! (i + 1) = 58"
      using less.hyps [of "i + 2" n] i2 [OF that] by auto
    show ?thesis
    proof (cases "z ! i = 58 \<and> z ! (i + 1) = 58 \<and> \<not> IdChar (z ! i)")
      case True
      then obtain k2 n2 t2 where "varLoop z (i + 2) n = Some (k2, n2, t2)" "i + 2 \<le> k2" "k2 \<le> length s"
        using b by blast
      with True i show ?thesis
        by (subst varLoop.simps) (simp add: r)
    next
      case ne: False
      from ne False i a(2, 3) j(2, 3) j1 less.prems show ?thesis
        by (subst varLoop.simps) (simp add: r a(1) [simplified] j(1) [simplified])
    qed
  qed
qed

lemma tokVarAlpha_ok:
  assumes "sqlText z s"
  shows "tokenOf s (tokVarAlpha z)"
  using varLoop_ok [of z s 1 0] sqlTextD [OF assms] by (auto simp: tokVarAlpha_def)

lemma tokHexPrefix_ok:
  assumes "sqlText z s"
  shows "\<exists>h. tokHexPrefix z = Some h \<and> (h \<longrightarrow> 3 \<le> length s)"
proof -
  note z = sqlTextD [OF assms]
  have l: "z ! 1 = 120 \<or> z ! 1 = 88 \<Longrightarrow> 2 \<le> length s"
    using cstring_less [OF z(1, 3)] by auto
  moreover have "2 \<le> length s \<Longrightarrow> sqlite3Isxdigit (z ! 2) \<Longrightarrow> 3 \<le> length s"
    using cstring_0 [OF z(1), of 2] class_0(3) by fastforce
  ultimately show ?thesis
    using z cstring_rd [OF z(1), of 2] by (auto simp: tokHexPrefix_def)
qed

lemma tokExponent_ok:
  assumes z: "cstring z s" and "i \<le> length s"
  shows "\<exists>e. tokExponent z i = Some e \<and> (e \<longrightarrow> i + 2 \<le> length s)"
proof -
  have r: "rd z i = Some (z ! i)"
    using assms by (simp add: cstring_rd)
  have i1: "z ! i = 101 \<or> z ! i = 69 \<Longrightarrow> i + 1 \<le> length s"
    using cstring_less [OF assms] by auto
  have i2: "i + 1 \<le> length s \<Longrightarrow> sqlite3Isdigit (z ! (i + 1)) \<or> z ! (i + 1) = 43 \<or> z ! (i + 1) = 45 \<Longrightarrow> i + 2 \<le> length s"
    using cstring_0 [OF z, of "i + 1"] class_0(2) by fastforce
  show ?thesis
    using i1 i2 cstring_rd [OF z, of "i + 1"] cstring_rd [OF z, of "i + 2"]
    by (auto simp: tokExponent_def r)
qed

text \<open>The end of a number: the exponent and the check for trailing identifier characters.\<close>

lemma tokDigit_tail:
  assumes z: "cstring z s" and i: "0 < i" "i \<le> length s"
  shows "tokenOf s (do { e \<leftarrow> tokExponent z i;
    (i, t) \<leftarrow> (if e then do { i \<leftarrow> scan sqlite3Isdigit z (i + 2); Some (i, TK_FLOAT) } else Some (i, t));
    j \<leftarrow> scan IdChar z i; Some (j, if j > i then TK_ILLEGAL else t) })"
proof -
  obtain e where e: "tokExponent z i = Some e" "e \<Longrightarrow> i + 2 \<le> length s"
    using tokExponent_ok [OF z i(2)] by blast
  show ?thesis
  proof (cases e)
    case True
    then obtain k where k: "scan sqlite3Isdigit z (i + 2) = Some k" "i + 2 \<le> k" "k \<le> length s"
      using scan_ok [OF z, of sqlite3Isdigit "i + 2"] e by auto
    then obtain j where "scan IdChar z k = Some j" "k \<le> j" "j \<le> length s"
      using scan_ok [OF z, of IdChar k] by auto
    with True e k show ?thesis by simp
  next
    case False
    obtain j where "scan IdChar z i = Some j" "i \<le> j" "j \<le> length s"
      using scan_ok [OF z, of IdChar i] i by auto
    with False e i show ?thesis by simp
  qed
qed

lemma tokDigit_ok:
  assumes "sqlText z s" "sqlite3Isdigit (z ! 0) \<or> z ! 0 = 46"
  shows "tokenOf s (tokDigit z)"
proof -
  note z = sqlTextD [OF assms(1)]
  obtain h where h: "tokHexPrefix z = Some h" "h \<Longrightarrow> 3 \<le> length s"
    using tokHexPrefix_ok [OF assms(1)] by blast
  show ?thesis
  proof (cases h)
    case True
    then obtain k where "scan sqlite3Isxdigit z 3 = Some k" "3 \<le> k" "k \<le> length s"
      using scan_ok [OF z(1), of sqlite3Isxdigit 3] h by auto
    with True h show ?thesis
      by (simp add: tokDigit_def)
  next
    case False
    obtain k where k: "scan sqlite3Isdigit z 0 = Some k" "k \<le> length s" "\<not> sqlite3Isdigit (z ! k)"
      using scan_ok [OF z(1), of sqlite3Isdigit 0] by auto
    have r: "rd z k = Some (z ! k)"
      using k z by (simp add: cstring_rd)
    show ?thesis
    proof (cases "z ! k = 46")
      case True
      then have "k + 1 \<le> length s"
        using cstring_less [OF z(1) k(2)] by simp
      then obtain m where m: "scan sqlite3Isdigit z (k + 1) = Some m" "k + 1 \<le> m" "m \<le> length s"
        using scan_ok [OF z(1), of sqlite3Isdigit "k + 1"] by auto
      have "0 < m" using m by simp
      from tokDigit_tail [OF z(1) this m(3), of TK_FLOAT] show ?thesis
        unfolding tokDigit_def using h False k(1) r True m(1) by simp
    next
      case ne: False
      have "0 < k"
        using ne k assms(2) by (cases k) auto
      from tokDigit_tail [OF z(1) this k(2), of TK_INTEGER] show ?thesis
        unfolding tokDigit_def using h False k(1) r ne by simp
    qed
  qed
qed

lemma tokDot_ok:
  assumes "sqlText z s" "z ! 0 = 46"
  shows "tokenOf s (tokDot z)"
  using sqlTextD [OF assms(1)] tokDigit_ok [OF assms(1)] assms(2) by (simp add: tokDot_def)

lemma tokKywd_ok:
  assumes "sqlText z s"
  shows "tokenOf s (tokKywd z)"
proof -
  note z = sqlTextD [OF assms]
  obtain k where k: "scan kywdChar z 1 = Some k" "1 \<le> k" "k \<le> length s"
    using scan_ok [OF z(1), of kywdChar 1] z by auto
  have r: "rd z k = Some (z ! k)"
    using k z by (simp add: cstring_rd)
  have "k \<le> length z"
    using z(1) k by (simp add: cstring_def)
  then obtain t where t: "keywordCode z k TK_ID = Some t"
    by (simp add: keyword_lookup_any)
  have "IdChar (z ! k) \<Longrightarrow> k + 1 \<le> length s"
    using cstring_0 [OF z(1) k(3)] class_0(4) k(3) by fastforce
  then show ?thesis
    using k r t tokId_ok [OF assms, of "k + 1"] by (simp add: tokKywd_def)
qed

lemma tokX_ok:
  assumes "sqlText z s"
  shows "tokenOf s (tokX z)"
proof (cases "z ! 1 = 39")
  case True
  note z = sqlTextD [OF assms]
  have "2 \<le> length s"
    using cstring_less [OF z(1, 3)] True by simp
  then obtain k where k: "scan sqlite3Isxdigit z 2 = Some k" "2 \<le> k" "k \<le> length s"
    using scan_ok [OF z(1), of sqlite3Isxdigit 2] by auto
  then obtain m where m: "scan (\<lambda>c. c \<noteq> 0 \<and> c \<noteq> 39) z k = Some m" "k \<le> m" "m \<le> length s"
    using scan_ok [OF z(1), of "\<lambda>c. c \<noteq> 0 \<and> c \<noteq> 39" k] by auto
  have "z ! k \<noteq> 0 \<Longrightarrow> k < length s" "z ! m \<noteq> 0 \<Longrightarrow> m < length s"
    using k m cstring_less [OF z(1)] by auto
  then show ?thesis
    using True z k m cstring_rd [OF z(1), of k] cstring_rd [OF z(1), of m] by (auto simp: tokX_def)
next
  case False
  then show ?thesis
    using sqlTextD [OF assms] tokId_ok [OF assms, of 1] by (simp add: tokX_def)
qed

lemma length_aiClass [simp]: "length aiClass = 256"
  by (simp add: aiClass_def)

lemma aiClass_all2:
  assumes "list_all2 P all_u8 aiClass"
  shows "P c (aiClass ! unat c)"
proof -
  have "\<forall>i < 256. P (word_of_nat i) (aiClass ! i)"
    using assms by (auto simp: list_all2_conv_all_nth all_u8_def)
  from this [rule_format, of "unat c"] show ?thesis by simp
qed

lemma charClasses_nth: "k < 29 \<Longrightarrow> m < 29 \<Longrightarrow> charClasses ! k = charClasses ! m \<longleftrightarrow> k = m"
  using nth_eq_iff_index_eq [of charClasses k m] by (simp add: charClasses_def)

lemma aiClass_less: "aiClass ! unat (c :: u8) < 29"
proof -
  have "list_all (\<lambda>k. k < 29) aiClass"
    by (simp add: aiClass_def)
  then show ?thesis
    using unat_u8_less [of c] by (simp add: list_all_length)
qed

lemma classOf_iff: "k < 29 \<Longrightarrow> classOf c = charClasses ! k \<longleftrightarrow> aiClass ! unat c = k"
  by (simp add: classOf_def charClasses_nth aiClass_less)

lemma classOf_first:
  "classOf c = CC_DIGIT \<longleftrightarrow> 48 \<le> c \<and> c \<le> 57" "classOf c = CC_DOT \<longleftrightarrow> c = 46"
  "classOf c = CC_NUL \<longleftrightarrow> c = 0" "classOf c = CC_QUOTE \<longleftrightarrow> c = 34 \<or> c = 39 \<or> c = 96"
  "classOf c = CC_KYWD \<longleftrightarrow> kywdChar c \<and> c \<noteq> 120 \<and> c \<noteq> 88"
proof -
  let ?P = "\<lambda>c k. (k = 3 \<longleftrightarrow> 48 \<le> c \<and> c \<le> 57) \<and> (k = 26 \<longleftrightarrow> c = 46) \<and> (k = 28 \<longleftrightarrow> c = 0) \<and>
    (k = 8 \<longleftrightarrow> c = 34 \<or> c = 39 \<or> c = 96) \<and> (k = 1 \<longleftrightarrow> k \<le> 1 \<and> c \<noteq> 120 \<and> c \<noteq> 88)"
  have "list_all2 ?P all_u8 aiClass" by code_simp
  from aiClass_all2 [OF this] have "?P c (aiClass ! unat c)" .
  then show "classOf c = CC_DIGIT \<longleftrightarrow> 48 \<le> c \<and> c \<le> 57" "classOf c = CC_DOT \<longleftrightarrow> c = 46"
    "classOf c = CC_NUL \<longleftrightarrow> c = 0" "classOf c = CC_QUOTE \<longleftrightarrow> c = 34 \<or> c = 39 \<or> c = 96"
    "classOf c = CC_KYWD \<longleftrightarrow> kywdChar c \<and> c \<noteq> 120 \<and> c \<noteq> 88"
    using classOf_iff [of 3 c] classOf_iff [of 26 c] classOf_iff [of 28 c] classOf_iff [of 8 c]
      classOf_iff [of 1 c] by (simp_all add: charClasses_def kywdChar_def)
qed

lemma two_byte_ok:
  assumes "sqlText z s" "f \<noteq> 0"
  shows "tokenOf s (Some (if z ! Suc 0 = f then 2 else 1, t))" "z ! Suc 0 = f \<Longrightarrow> 2 \<le> length s"
  using sqlTextD [OF assms(1)] cstring_less [of z s "Suc 0"] assms(2) by auto

lemma getToken_ok:
  assumes "sqlText z s"
  shows "tokenOf s (sqlite3GetToken z)"
proof -
  note z = sqlTextD [OF assms]
  have l: "z ! Suc 0 = 61 \<or> z ! Suc 0 = 62 \<or> z ! Suc 0 = 60 \<or> z ! Suc 0 = 124 \<Longrightarrow> 2 \<le> length s"
    using two_byte_ok(2) [OF assms] by fastforce
  show ?thesis
  proof (cases "classOf (z ! 0)")
    case CC_DIGIT
    show ?thesis
      using tokDigit_ok [OF assms] classOf_first(1) [THEN iffD1, OF CC_DIGIT]
      by (simp add: sqlite3GetToken_def z(6) isdigit_iff CC_DIGIT)
  next
    case CC_DOT
    show ?thesis
      using tokDot_ok [OF assms classOf_first(2) [THEN iffD1, OF CC_DOT]]
      by (simp only: sqlite3GetToken_def z(6) CC_DOT option.case charClass.case)
  next
    case CC_NUL
    then show ?thesis
      using classOf_first(3) z(9) by simp
  qed (use l z tokSpace_ok [OF assms] tokMinus_ok [OF assms] tokSlash_ok [OF assms] tokQuote_ok [OF assms]
      tokBracket_ok [OF assms] tokVarnum_ok [OF assms] tokVarAlpha_ok [OF assms] tokKywd_ok [OF assms]
      tokX_ok [OF assms] tokId_ok [OF assms, of 1] in \<open>simp_all add: sqlite3GetToken_def tokLt_def tokGt_def\<close>)
qed

section \<open>Quoted strings and words\<close>

lemma rd_length: "rd (pre @ c # r) (length pre) = Some c"
  by simp

lemma quoteLoop_enquote:
  assumes "0 \<notin> set s" "q \<noteq> 0" "c \<noteq> q"
  shows "quoteLoop q (pre @ enquote q s @ q # c # r) (length pre) = Some (length pre + length (enquote q s), q)"
  using assms(1)
proof (induction s arbitrary: pre)
  case Nil
  then show ?case
    using assms(2, 3) by (subst quoteLoop.simps) simp
next
  case (Cons b s)
  show ?case
  proof (cases "b = q")
    case True
    with Cons.IH [of "pre @ [q, q]"] Cons.prems assms(2) show ?thesis
      by (subst quoteLoop.simps) simp
  next
    case False
    with Cons.IH [of "pre @ [b]"] Cons.prems show ?thesis
      by (subst quoteLoop.simps) simp
  qed
qed

lemma getToken_quoted:
  assumes "0 \<notin> set s" "q = 34 \<or> q = 39 \<or> q = 96" "c \<noteq> q"
  shows "sqlite3GetToken (q # enquote q s @ q # c # r) =
    Some (length (enquote q s) + 2, if q = 39 then TK_STRING else TK_ID)"
proof -
  have "quoteLoop q (q # enquote q s @ q # c # r) 1 = Some (1 + length (enquote q s), q)"
    using quoteLoop_enquote [of s q c "[q]" r] assms by auto
  moreover have "classOf q = CC_QUOTE"
    using assms(2) by (simp add: classOf_first)
  ultimately show ?thesis
    using assms(2) by (auto simp: sqlite3GetToken_def tokQuote_def)
qed

lemma scan_run:
  assumes "list_all P w" "\<not> P c"
  shows "scan P (pre @ w @ c # r) (length pre) = Some (length pre + length w)"
  using assms(1)
proof (induction w arbitrary: pre)
  case Nil
  then show ?case
    using assms(2) by (subst scan.simps) simp
next
  case (Cons b w)
  with Cons.IH [of "pre @ [b]"] show ?case
    by (subst scan.simps) simp
qed

lemma kywdChar_IdChar: "kywdChar c \<Longrightarrow> IdChar c"
proof -
  have "list_all2 (\<lambda>k m. k \<le> 1 \<longrightarrow> m AND 0x46 \<noteq> 0) aiClass sqlite3CtypeMap"
    by code_simp
  then have "aiClass ! unat c \<le> 1 \<longrightarrow> sqlite3CtypeMap ! unat c AND 0x46 \<noteq> 0"
    by (auto simp: list_all2_conv_all_nth)
  then show "kywdChar c \<Longrightarrow> IdChar c"
    by (simp add: kywdChar_def IdChar_def)
qed

lemma getToken_word:
  assumes "w \<noteq> []" "list_all kywdChar w" "hd w \<noteq> 120" "hd w \<noteq> 88" "\<not> IdChar c"
  shows "sqlite3GetToken (w @ c # r) =
    Some (length w, case map_of (map (\<lambda>(k, t). (map of_char k, t)) sqlKeywords) (kwFold w) of
      None \<Rightarrow> TK_ID | Some t \<Rightarrow> t)"
proof -
  obtain a v where w: "w = a # v" using assms(1) by (cases w) auto
  have nk: "\<not> kywdChar c" using assms(5) kywdChar_IdChar by blast
  have "scan kywdChar (w @ c # r) 1 = Some (length w)"
    using scan_run [of kywdChar v c "[a]" r] assms(2) nk by (simp add: w)
  moreover have "classOf a = CC_KYWD"
    using assms by (simp add: w classOf_first)
  moreover have "keywordCode (w @ c # r) (length w) TK_ID =
    Some (case map_of (map (\<lambda>(k, t). (map of_char k, t)) sqlKeywords) (kwFold w) of
      None \<Rightarrow> TK_ID | Some t \<Rightarrow> t)"
    by (simp add: keyword_lookup_any)
  ultimately show ?thesis
    using assms(5) by (simp add: sqlite3GetToken_def tokKywd_def w)
qed

section \<open>Properties\<close>

text \<open>C7: On every zero-terminated text the tokenizer returns a token without reading past the
  terminator; the token is not empty and ends within the text, except at the end of the text, where
  it is the empty illegal token. Advancing token by token therefore reaches the terminator.\<close>

theorem getToken_progress:
  assumes "0 \<notin> set s"
  shows "\<exists>n t. sqlite3GetToken (s @ [0]) = Some (n, t) \<and> n \<le> length s \<and>
    (n = 0 \<longleftrightarrow> s = []) \<and> (s = [] \<longrightarrow> t = TK_ILLEGAL)"
proof (cases "s = []")
  case True
  then show ?thesis
    by (simp add: sqlite3GetToken_def classOf_first(3) [of 0, simplified])
next
  case False
  then have "sqlText (s @ [0]) s"
    using assms by (simp add: sqlText_def cstring_def)
  from getToken_ok [OF this] False show ?thesis
    by (auto simp: tokenOf_def)
qed

theorem getToken_progress_witness:
  "\<exists>n t. sqlite3GetToken ([46, 53, 101] @ [0]) = Some (n, t) \<and> n \<le> length [46, 53, 101 :: u8] \<and>
    (n = 0 \<longleftrightarrow> [46, 53, 101 :: u8] = []) \<and> ([46, 53, 101 :: u8] = [] \<longrightarrow> t = TK_ILLEGAL)"
  by (rule getToken_progress) simp

text \<open>C37: The literal that \<^verbatim>\<open>quote()\<close> writes for a text is read back by the tokenizer as one string
  token, whatever follows it other than a further quote, and \<^verbatim>\<open>sqlite3Dequote\<close> gives the text again.\<close>

theorem quote_is_one_token:
  assumes "0 \<notin> set s" "alloc w = (True, w')" "c \<noteq> 39"
  shows "\<exists>z n rest. quoteText w (s @ 0 # r) = (Some (Some (z @ [0], n)), w') \<and>
    sqlite3GetToken (z @ c # r') = Some (n, TK_STRING) \<and> sqlite3Dequote (z @ [0]) = Some (s @ 0 # rest)"
proof -
  have "sqlite3Isquote 39" by (simp add: isquote_iff)
  then show ?thesis
    using quoteText_result [OF assms(1, 2), of r] dequote_enquote [of 39 s "[]"]
      getToken_quoted [OF assms(1), of 39 c r'] assms(3)
    by (intro exI [of _ "39 # enquote 39 s @ [39]"]) (auto simp: close_quote_def)
qed

theorem quote_is_one_token_witness:
  "\<exists>z n rest. quoteText [True] ([0x4c, 39, 0x61] @ 0 # []) = (Some (Some (z @ [0], n)), []) \<and>
    sqlite3GetToken (z @ 0x29 # []) = Some (n, TK_STRING) \<and>
    sqlite3Dequote (z @ [0]) = Some ([0x4c, 39, 0x61] @ 0 # rest)"
  by (rule quote_is_one_token) simp_all

text \<open>C38: A maximal word of keyword characters that does not start with x is one token, whose code is
  the one the list of SQL keywords gives to its upper-case form, or \<open>TK_ID\<close>.\<close>

theorem word_token:
  assumes "w \<noteq> []" "list_all kywdChar w" "hd w \<noteq> 120" "hd w \<noteq> 88" "\<not> IdChar c"
  shows "sqlite3GetToken (w @ c # r) =
    Some (length w, case map_of (map (\<lambda>(k, t). (map of_char k, t)) sqlKeywords)
      (map (\<lambda>c. c AND NOT 0x20) w) of None \<Rightarrow> TK_ID | Some t \<Rightarrow> t)"
  using getToken_word [OF assms] unfolding kwFold_def .

theorem word_token_witness: "sqlite3GetToken (map of_char ''From'' @ 0x20 # []) = Some (4, TK_FROM)"
proof -
  have "list_all kywdChar (map of_char ''From'')" "\<not> IdChar 0x20"
    by code_simp+
  then have "sqlite3GetToken (map of_char ''From'' @ 0x20 # []) =
    Some (length (map of_char ''From'' :: u8 list), case map_of (map (\<lambda>(k, t). (map of_char k, t)) sqlKeywords)
      (map (\<lambda>c. c AND NOT 0x20 :: u8) (map of_char ''From'')) of None \<Rightarrow> TK_ID | Some t \<Rightarrow> t)"
    by (intro word_token) simp_all
  then show ?thesis
    by (simp add: sqlKeywords_def)
qed

end
