(* ===== verification/RunParser.thy ===== *)
theory RunParser
  imports Tokenize "HOL-Library.Sublist"
begin

text \<open>
  The loop of \<^verbatim>\<open>sqlite3RunParser\<close> (\<^verbatim>\<open>tokenize.c\<close>) that feeds the tokens of an SQL text to the
  parser, with the look-ahead that decides whether WINDOW, OVER and FILTER are keywords.

  The parser engine is a parameter: \<open>feed p t x\<close> is the engine after the token of type \<open>t\<close> with
  text \<open>x\<close>, and whether \<^verbatim>\<open>pParse->rc\<close> is then an error. The interrupt flag, which another thread
  may set, is a list with one entry for each time the loop reads it. The loop takes fuel; the
  theorems show how much is enough. Cleaning up after the loop is not modelled. \<open>runLoop\<close> also returns
  the sequence of the tokens passed on, which the code does not keep; the theorem shows that the
  engine it returns is the one after exactly these tokens.
\<close>

section \<open>Fallback of keywords to identifiers\<close>

definition yyFallback :: "nat list" where
  "yyFallback =
    [0, 0, 59, 59, 59, 59, 0, 59, 59, 59, 0, 59, 59, 59, 59, 0, 0, 0, 59, 0, 0, 59, 0, 0, 0,
     59, 0, 59, 59, 59, 59, 59, 59, 59, 59, 59, 59, 59, 59, 59, 59, 59, 59, 0, 0, 0, 59, 59, 0,
     0, 0, 0, 0, 0, 0, 0, 0, 0, 0, 0, 59, 59, 59, 59, 59, 59, 59, 59, 59, 59, 59, 59, 59, 59,
     59, 59, 59, 59, 59, 59, 59, 59, 59, 59, 59, 59, 59, 59, 59, 59, 59, 59, 59, 59, 59, 59,
     59, 59, 0, 0, 0, 0, 0, 0, 0, 0, 0, 0, 0, 0, 0, 0, 0, 0, 0, 0, 0, 0, 0, 0, 0, 0, 0, 0, 0,
     0, 0, 0, 0, 0, 0, 0, 0, 0, 0, 0, 0, 0, 0, 0, 0, 0, 0, 0, 0, 0, 0, 0, 0, 0, 0, 0, 0, 0, 0,
     0, 0, 0, 0, 0, 0, 0, 0, 0, 0, 0, 0, 0, 0, 0, 0, 0, 0, 0, 0, 0, 0, 0, 0]"

definition sqlite3ParserFallback :: "nat \<Rightarrow> nat option" where
  "sqlite3ParserFallback iToken = rd yyFallback iToken"

section \<open>Look-ahead\<close>

text \<open>The loop of \<^verbatim>\<open>getToken\<close> that skips white space and comments.\<close>

fun getTokenSkip :: "nat \<Rightarrow> u8 list \<Rightarrow> (nat \<times> u8 list) option" where
  "getTokenSkip 0 z = None"
| "getTokenSkip (Suc k) z =
     do {
       (n, t) \<leftarrow> sqlite3GetToken z;
       if t = TK_SPACE then getTokenSkip k (drop n z) else Some (t, drop n z)
     }"

definition getToken :: "u8 list \<Rightarrow> (nat \<times> u8 list) option" where
  "getToken z =
     do {
       (t, z) \<leftarrow> getTokenSkip (length z) z;
       if t = TK_ID \<or> t = TK_STRING \<or> t = TK_JOIN_KW \<or> t = TK_WINDOW \<or> t = TK_OVER then Some (TK_ID, z)
       else do {
         f \<leftarrow> sqlite3ParserFallback t;
         Some (if f = TK_ID then TK_ID else t, z)
       }
     }"

definition analyzeWindowKeyword :: "u8 list \<Rightarrow> nat option" where
  "analyzeWindowKeyword z =
     do {
       (t, z) \<leftarrow> getToken z;
       if t \<noteq> TK_ID then Some TK_ID
       else do {
         (t, z) \<leftarrow> getToken z;
         Some (if t \<noteq> TK_AS then TK_ID else TK_WINDOW)
       }
     }"

definition analyzeOverKeyword :: "u8 list \<Rightarrow> int \<Rightarrow> nat option" where
  "analyzeOverKeyword z lastToken =
     (if lastToken = int TK_RP then
        do { (t, z) \<leftarrow> getToken z; Some (if t = TK_LP \<or> t = TK_ID then TK_OVER else TK_ID) }
      else Some TK_ID)"

definition analyzeFilterKeyword :: "u8 list \<Rightarrow> int \<Rightarrow> nat option" where
  "analyzeFilterKeyword z lastToken =
     (if lastToken = int TK_RP then
        do { (t, z) \<leftarrow> getToken z; Some (if t = TK_LP then TK_FILTER else TK_ID) }
      else Some TK_ID)"

section \<open>The loop\<close>

text \<open>Why the loop ends.\<close>

datatype runEnd =
    RunDone          \<comment> \<open>the end of the input has been passed to the parser\<close>
  | RunTooBig        \<comment> \<open>\<^verbatim>\<open>SQLITE_TOOBIG\<close>\<close>
  | RunInterrupt     \<comment> \<open>\<^verbatim>\<open>SQLITE_INTERRUPT\<close>\<close>
  | RunUnrecognized  \<comment> \<open>an illegal token\<close>
  | RunParseError    \<comment> \<open>the parser has set an error\<close>

text \<open>What the loop does with a token of type \<^verbatim>\<open>TK_WINDOW\<close> or more that is not white space: end, or
  pass on a token of some length and type.\<close>

definition runSpecial :: "u8 list \<Rightarrow> nat \<Rightarrow> nat \<Rightarrow> int \<Rightarrow> (runEnd + nat \<times> nat) option" where
  "runSpecial z n t lastTok =
     do {
       c \<leftarrow> rd z 0;
       if c = 0 then
         Some (if lastTok = int TK_SEMI then Inr (0, 0)
               else if lastTok = 0 then Inl RunDone
               else Inr (0, TK_SEMI))
       else if t = TK_WINDOW then map_option (\<lambda>t. Inr (n, t)) (analyzeWindowKeyword (drop 6 z))
       else if t = TK_OVER then map_option (\<lambda>t. Inr (n, t)) (analyzeOverKeyword (drop 4 z) lastTok)
       else if t = TK_FILTER then map_option (\<lambda>t. Inr (n, t)) (analyzeFilterKeyword (drop 6 z) lastTok)
       else Some (Inl RunUnrecognized)
     }"

text \<open>The value of \<^verbatim>\<open>db->u1.isInterrupted\<close> at its next read.\<close>

fun poll :: "bool list \<Rightarrow> bool \<times> bool list" where
  "poll [] = (False, [])"
| "poll (b # bs) = (b, bs)"

text \<open>The result is the reason of the end, the rest of the text, the parser engine, and the sequence
  of the tokens it was given (type and text).\<close>

fun runLoop :: "('p \<Rightarrow> nat \<Rightarrow> u8 list \<Rightarrow> 'p \<times> bool) \<Rightarrow> nat \<Rightarrow> u8 list \<Rightarrow> int \<Rightarrow> int \<Rightarrow> bool list \<Rightarrow> 'p \<Rightarrow>
    (runEnd \<times> u8 list \<times> 'p \<times> (nat \<times> u8 list) list) option" where
  "runLoop feed 0 z mxSqlLen lastTok intr p = None"
| "runLoop feed (Suc k) z mxSqlLen lastTok intr p =
     do {
       (n, t) \<leftarrow> sqlite3GetToken z;
       let mxSqlLen = mxSqlLen - int n;
       if mxSqlLen < 0 then Some (RunTooBig, z, p, [])
       else do {
         let (stop, intr) = (if t \<ge> TK_WINDOW then poll intr else (False, intr));
         if stop then Some (RunInterrupt, z, p, [])
         else if t = TK_SPACE then runLoop feed k (drop n z) mxSqlLen lastTok intr p
         else do {
           act \<leftarrow> (if t \<ge> TK_WINDOW then runSpecial z n t lastTok else Some (Inr (n, t)));
           (case act of
              Inl e \<Rightarrow> Some (e, z, p, [])
            | Inr (n, t) \<Rightarrow>
                let (p, err) = feed p t (take n z) in
                if err then Some (RunParseError, drop n z, p, [(t, take n z)])
                else do {
                  (e, rest, p, tr) \<leftarrow> runLoop feed k (drop n z) mxSqlLen (int t) intr p;
                  Some (e, rest, p, (t, take n z) # tr)
                })
         }
       }
     }"

text \<open>From the start of an SQL text, with fuel for every token and for the end of the input.\<close>

definition sqlite3RunParser :: "('p \<Rightarrow> nat \<Rightarrow> u8 list \<Rightarrow> 'p \<times> bool) \<Rightarrow> u8 list \<Rightarrow> int \<Rightarrow> bool list \<Rightarrow> 'p \<Rightarrow>
    (runEnd \<times> u8 list \<times> 'p \<times> (nat \<times> u8 list) list) option" where
  "sqlite3RunParser feed zSql mxSqlLen intr p = runLoop feed (length zSql + 3) zSql mxSqlLen (-1) intr p"

section \<open>Token types\<close>

text \<open>What the assertions of \<^verbatim>\<open>sqlite3RunParser\<close> demand of a token.\<close>

definition tokenTypeOK :: "nat \<Rightarrow> nat \<Rightarrow> bool" where
  "tokenTypeOK n t \<longleftrightarrow> 0 < t \<and> t < 179 \<and>
     (t \<ge> TK_WINDOW \<longrightarrow> t \<in> {TK_WINDOW, TK_OVER, TK_FILTER, TK_SPACE, TK_ILLEGAL}) \<and>
     (t = TK_WINDOW \<longrightarrow> n = 6) \<and> (t = TK_OVER \<longrightarrow> n = 4) \<and> (t = TK_FILTER \<longrightarrow> n = 6)"

lemma keyword_types: "list_all (\<lambda>(w, t). tokenTypeOK (length w) t) sqlKeywords"
  by (simp add: sqlKeywords_def tokenTypeOK_def)

lemma keywordCode_type:
  assumes "keywordCode z n TK_ID = Some t" "n \<le> length z"
  shows "tokenTypeOK n t"
proof (cases "map_of (map (\<lambda>(w, t). (map of_char w, t)) sqlKeywords) (kwFold (take n z))")
  case None
  then have "t = TK_ID"
    using assms by (simp add: keyword_lookup_any)
  then show ?thesis by (simp add: tokenTypeOK_def)
next
  case (Some u)
  then have "(kwFold (take n z), u) \<in> set (map (\<lambda>(w, t). (map of_char w, t)) sqlKeywords)"
    by (rule map_of_SomeD)
  then obtain w where w: "kwFold (take n z) = map of_char w" "(w, u) \<in> set sqlKeywords"
    by auto
  have "length w = n"
    using arg_cong [OF w(1), of length] assms(2) by (simp add: kwFold_def)
  moreover have "u = t"
    using assms Some by (simp add: keyword_lookup_any)
  ultimately show ?thesis
    using w(2) keyword_types by (auto simp: list_all_iff)
qed

lemma tokKywd_type: "tokKywd z = Some (n, t) \<Longrightarrow> tokenTypeOK n t"
proof -
  assume "tokKywd z = Some (n, t)"
  then obtain i c where "scan kywdChar z 1 = Some i" "rd z i = Some c"
    "if IdChar c then tokId z (i + 1) = Some (n, t) else keywordCode z i TK_ID = Some t \<and> n = i"
    by (auto simp: tokKywd_def split: bind_splits if_splits)
  then show "tokenTypeOK n t"
    using keywordCode_type [of z i t]
    by (auto simp: rd_def tokId_def tokenTypeOK_def split: if_splits bind_splits)
qed

lemma varLoop_type: "varLoop z i n = Some (k, m, t) \<Longrightarrow> t = TK_VARIABLE \<or> t = TK_ILLEGAL"
proof (induction z i n rule: varLoop.induct)
  case (1 z i n)
  from 1(3) show ?case
    by (subst (asm) varLoop.simps)
      (use 1(1, 2) in \<open>auto split: option.splits if_splits bind_splits\<close>)
qed

lemma getToken_type: "sqlite3GetToken z = Some (n, t) \<Longrightarrow> tokenTypeOK n t"
proof -
  assume g: "sqlite3GetToken z = Some (n, t)"
  then obtain c where c: "rd z 0 = Some c" by (auto simp: sqlite3GetToken_def split: option.splits)
  have dig: "tokDigit z = Some (n, t) \<Longrightarrow> tokenTypeOK n t"
    by (auto simp: tokDigit_def tokenTypeOK_def split: bind_splits if_splits)
  have id: "tokId z i = Some (n, t) \<Longrightarrow> tokenTypeOK n t" for i
    by (auto simp: tokId_def tokenTypeOK_def split: bind_splits)
  show "tokenTypeOK n t"
  proof (cases "classOf c")
    case CC_KYWD
    then show ?thesis using g tokKywd_type by (simp add: sqlite3GetToken_def c)
  next
    case CC_DIGIT
    then show ?thesis using g dig by (simp add: sqlite3GetToken_def c)
  next
    case CC_DOT
    then show ?thesis
      using g dig by (auto simp: sqlite3GetToken_def c tokDot_def tokenTypeOK_def split: bind_splits if_splits)
  next
    case CC_DOLLAR
    then show ?thesis
      using g varLoop_type by (fastforce simp: sqlite3GetToken_def c tokVarAlpha_def tokenTypeOK_def split: bind_splits if_splits)
  next
    case CC_VARALPHA
    then show ?thesis
      using g varLoop_type by (fastforce simp: sqlite3GetToken_def c tokVarAlpha_def tokenTypeOK_def split: bind_splits if_splits)
  next
    case CC_X
    then show ?thesis
      using g id by (auto simp: sqlite3GetToken_def c tokX_def tokenTypeOK_def split: bind_splits if_splits)
  next
    case CC_ID
    then show ?thesis using g id by (simp add: sqlite3GetToken_def c)
  qed (use g in \<open>auto simp: sqlite3GetToken_def c tokSpace_def tokMinus_def tokSlash_def tokLt_def tokGt_def
      tokQuote_def tokBracket_def tokVarnum_def tokenTypeOK_def split: bind_splits if_splits\<close>)
qed

section \<open>Look-ahead stays in the text\<close>

lemma getToken_cstring:
  assumes "cstring z s"
  obtains n t where "sqlite3GetToken z = Some (n, t)" "n \<le> length s" "n = 0 \<longleftrightarrow> s = []"
    "s = [] \<Longrightarrow> t = TK_ILLEGAL" "tokenTypeOK n t" "cstring (drop n z) (drop n s)"
proof (cases "s = []")
  case True
  then have "sqlite3GetToken z = Some (0, TK_ILLEGAL)"
    using assms by (simp add: cstring_def sqlite3GetToken_def classOf_first(3) [of 0, simplified])
  with True assms show thesis
    by (intro that [of 0 TK_ILLEGAL]) (auto intro: getToken_type)
next
  case False
  with assms have "tokenOf s (sqlite3GetToken z)"
    by (intro getToken_ok) (simp add: sqlText_def)
  then obtain n t where "sqlite3GetToken z = Some (n, t)" "0 < n" "n \<le> length s"
    by (auto simp: tokenOf_def)
  moreover from this have "cstring (drop n z) (drop n s)"
    using assms by (auto simp: cstring_def dest: in_set_dropD)
  ultimately show thesis
    using False by (intro that [of n t]) (auto intro: getToken_type)
qed

lemma length_yyFallback: "length yyFallback = 179"
  by (simp add: yyFallback_def)

lemma cstring_drop: "cstring z s \<Longrightarrow> m \<le> length s \<Longrightarrow> cstring (drop m z) (drop m s)"
  by (auto simp: cstring_def dest: in_set_dropD)

text \<open>The next token of a text that is not white space or a comment, and the text behind it.\<close>

inductive nextSig :: "u8 list \<Rightarrow> nat \<Rightarrow> u8 list \<Rightarrow> bool" where
  nextSig_here: "sqlite3GetToken z = Some (n, t) \<Longrightarrow> t \<noteq> TK_SPACE \<Longrightarrow> nextSig z t (drop n z)"
| nextSig_skip: "sqlite3GetToken z = Some (n, TK_SPACE) \<Longrightarrow> nextSig (drop n z) t y \<Longrightarrow> nextSig z t y"

inductive_cases nextSigE: "nextSig z t y"

lemma nextSig_unique: "nextSig z t y \<Longrightarrow> nextSig z u x \<Longrightarrow> t = u \<and> y = x"
proof (induction arbitrary: u x rule: nextSig.induct)
  case (nextSig_here z n t)
  from nextSig_here(3) show ?case
    by (rule nextSigE) (use nextSig_here(1, 2) in auto)
next
  case (nextSig_skip z n t y)
  from nextSig_skip(4) show ?case
    by (rule nextSigE) (use nextSig_skip(1, 3) in auto)
qed

lemma getTokenSkip_ok:
  assumes "cstring z s" "length s < k"
  shows "\<exists>t m. getTokenSkip k z = Some (t, drop m z) \<and> m \<le> length s \<and> t < 179 \<and> nextSig z t (drop m z)"
  using assms
proof (induction k arbitrary: z s)
  case (Suc k)
  obtain n t where n: "sqlite3GetToken z = Some (n, t)" "n \<le> length s" "n = 0 \<longleftrightarrow> s = []"
    "s = [] \<Longrightarrow> t = TK_ILLEGAL" "tokenTypeOK n t" "cstring (drop n z) (drop n s)"
    using getToken_cstring [OF Suc.prems(1)] by blast
  show ?case
  proof (cases "t = TK_SPACE")
    case True
    then have "s \<noteq> []" using n(4) by auto
    then have "length (drop n s) < k"
      using n(3) Suc.prems(2) by (cases s) auto
    with Suc.IH [OF n(6)] obtain t' m where r:
      "getTokenSkip k (drop n z) = Some (t', drop m (drop n z))" "m \<le> length s - n" "t' < 179"
      "nextSig (drop n z) t' (drop m (drop n z))"
      by auto
    with True n nextSig_skip [of z n t' "drop (m + n) z"] show ?thesis
      by (auto intro!: exI [of _ "m + n"])
  next
    case False
    with n nextSig_here [OF n(1)] show ?thesis
      by (auto simp: tokenTypeOK_def)
  qed
qed simp

text \<open>A token that may stand for a name: an identifier, a string, or a keyword that falls back to an
  identifier.\<close>

definition isName :: "nat \<Rightarrow> bool" where
  "isName t \<longleftrightarrow> t \<in> {TK_ID, TK_STRING, TK_JOIN_KW, TK_WINDOW, TK_OVER} \<or> rd yyFallback t = Some TK_ID"

lemma isName_simps: "isName TK_ID" "\<not> isName TK_AS" "\<not> isName TK_LP"
  by (simp_all add: isName_def yyFallback_def)

lemma getToken_next:
  assumes "cstring z s"
  shows "\<exists>t m. getToken z = Some (if isName t then TK_ID else t, drop m z) \<and> m \<le> length s \<and> nextSig z t (drop m z)"
proof -
  have "length s < length z"
    using assms by (simp add: cstring_def)
  then obtain t m where t: "getTokenSkip (length z) z = Some (t, drop m z)" "m \<le> length s" "t < 179" "nextSig z t (drop m z)"
    using getTokenSkip_ok [OF assms] by blast
  then obtain f where "rd yyFallback t = Some f"
    by (simp add: rd_def length_yyFallback)
  with t(1) have "getToken z = Some (if isName t then TK_ID else t, drop m z)"
    by (simp add: getToken_def isName_def sqlite3ParserFallback_def)
  with t show ?thesis by blast
qed

section \<open>When WINDOW, OVER and FILTER are keywords\<close>

text \<open>WINDOW starts a window clause when a name and AS follow; OVER and FILTER belong to a function
  call, so a closing parenthesis comes before them, and behind them a parenthesis (or, for OVER, the
  name of a window).\<close>

definition asWindow :: "u8 list \<Rightarrow> bool" where
  "asWindow z \<longleftrightarrow> (\<exists>t y y'. nextSig z t y \<and> isName t \<and> nextSig y TK_AS y')"

definition asOver :: "int \<Rightarrow> u8 list \<Rightarrow> bool" where
  "asOver l z \<longleftrightarrow> l = int TK_RP \<and> (\<exists>t y. nextSig z t y \<and> (t = TK_LP \<or> isName t))"

definition asFilter :: "int \<Rightarrow> u8 list \<Rightarrow> bool" where
  "asFilter l z \<longleftrightarrow> l = int TK_RP \<and> (\<exists>y. nextSig z TK_LP y)"

lemma analyze_ok:
  assumes "cstring z s"
  shows "analyzeWindowKeyword z = Some (if asWindow z then TK_WINDOW else TK_ID)"
    "analyzeOverKeyword z l = Some (if asOver l z then TK_OVER else TK_ID)"
    "analyzeFilterKeyword z l = Some (if asFilter l z then TK_FILTER else TK_ID)"
proof -
  obtain t m where t: "getToken z = Some (if isName t then TK_ID else t, drop m z)" "m \<le> length s" "nextSig z t (drop m z)"
    using getToken_next [OF assms] by blast
  obtain u k where u: "getToken (drop m z) = Some (if isName u then TK_ID else u, drop k (drop m z))" "nextSig (drop m z) u (drop k (drop m z))"
    using getToken_next [OF cstring_drop [OF assms t(2)]] by blast
  have e: "nextSig z t' y \<longleftrightarrow> t' = t \<and> y = drop m z" "nextSig (drop m z) t' y \<longleftrightarrow> t' = u \<and> y = drop k (drop m z)" for t' y
    using nextSig_unique t(3) u(2) by blast+
  have c: "(if isName t then TK_ID else t) = TK_ID \<longleftrightarrow> isName t" "(if isName t then TK_ID else t) = TK_LP \<longleftrightarrow> t = TK_LP"
    "(if isName u then TK_ID else u) = TK_AS \<longleftrightarrow> u = TK_AS"
    using isName_simps by auto
  have "asWindow z \<longleftrightarrow> isName t \<and> u = TK_AS" "asOver l z \<longleftrightarrow> l = int TK_RP \<and> (t = TK_LP \<or> isName t)" "asFilter l z \<longleftrightarrow> l = int TK_RP \<and> t = TK_LP"
    by (auto simp: asWindow_def asOver_def asFilter_def e)
  then show "analyzeWindowKeyword z = Some (if asWindow z then TK_WINDOW else TK_ID)"
    "analyzeOverKeyword z l = Some (if asOver l z then TK_OVER else TK_ID)"
    "analyzeFilterKeyword z l = Some (if asFilter l z then TK_FILTER else TK_ID)"
    by (simp_all add: analyzeWindowKeyword_def analyzeOverKeyword_def analyzeFilterKeyword_def t(1) u(1) c)
qed

text \<open>The type that a token behind one of type \<open>l\<close> and before the text \<open>z\<close> is passed on with.\<close>

definition role :: "int \<Rightarrow> nat \<Rightarrow> u8 list \<Rightarrow> nat" where
  "role l t z =
     (if t = TK_WINDOW \<and> \<not> asWindow z \<or> t = TK_OVER \<and> \<not> asOver l z \<or> t = TK_FILTER \<and> \<not> asFilter l z then TK_ID else t)"

lemma runSpecial_ok:
  assumes "cstring z s" "s \<noteq> []" "n \<le> length s" "tokenTypeOK n t" "TK_WINDOW \<le> t" "t \<noteq> TK_SPACE"
  shows "runSpecial z n t l = Some (if t = TK_ILLEGAL then Inl RunUnrecognized else Inr (n, role l t (drop n z)))"
proof -
  have z: "rd z 0 = Some (z ! 0)" "z ! 0 \<noteq> 0"
    using sqlTextD [of z s] assms by (simp_all add: sqlText_def)
  have d: "cstring (drop n z) (drop n s)"
    using cstring_drop [OF assms(1)] assms(3) by simp
  note a = analyze_ok(1) [OF d] analyze_ok(2, 3) [OF d, of l]
  show ?thesis
    using z assms(4-6) a by (auto simp: runSpecial_def tokenTypeOK_def role_def)
qed

lemma role_type: "tokenTypeOK n t \<Longrightarrow> role l t z \<noteq> 0"
  by (simp add: role_def tokenTypeOK_def)

section \<open>The token sequence of a text\<close>

lemma getToken_end: "sqlite3GetToken [0] = Some (0, TK_ILLEGAL)"
  by (simp add: sqlite3GetToken_def classOf_first(3) [of 0, simplified])

inductive lexes :: "u8 list \<Rightarrow> (nat \<times> u8 list) list \<Rightarrow> u8 list \<Rightarrow> bool" where
  lexes_Nil: "lexes z [] z"
| lexes_Cons: "sqlite3GetToken z = Some (n, t) \<Longrightarrow> 0 < n \<Longrightarrow> lexes (drop n z) ts rest \<Longrightarrow>
    lexes z ((t, take n z) # ts) rest"

lemma lexes_concat: "lexes z ts rest \<Longrightarrow> concat (map snd ts) @ rest = z"
  by (induction rule: lexes.induct) auto

text \<open>What the parser is given for the tokens \<open>ts\<close> behind a token of type \<open>l\<close> and before the text
  \<open>rest\<close>: white space and comments are left out, and the three special keywords have their role.\<close>

fun roles :: "int \<Rightarrow> (nat \<times> u8 list) list \<Rightarrow> u8 list \<Rightarrow> (nat \<times> u8 list) list" where
  "roles l [] rest = []"
| "roles l ((t, x) # ts) rest =
     (if t = TK_SPACE then roles l ts rest
      else (role l t (concat (map snd ts) @ rest), x) # roles (int (role l t (concat (map snd ts) @ rest))) ts rest)"

text \<open>The type of the last token passed on, and what is passed on at the end of the input.\<close>

definition lastType :: "int \<Rightarrow> (nat \<times> u8 list) list \<Rightarrow> int" where
  "lastType l tr = last (l # map (int \<circ> fst) tr)"

definition endMarks :: "int \<Rightarrow> (nat \<times> u8 list) list" where
  "endMarks l = (if l = 0 then [] else if l = int TK_SEMI then [(0, [])] else [(TK_SEMI, []), (0, [])])"

lemma lastType_Cons [simp]: "lastType l ((t, x) # tr) = lastType (int t) tr" "lastType l [] = l"
  by (simp_all add: lastType_def)

text \<open>The engine after a sequence of tokens, of which only the last one may give an error.\<close>

fun feedAll :: "('p \<Rightarrow> nat \<Rightarrow> u8 list \<Rightarrow> 'p \<times> bool) \<Rightarrow> 'p \<Rightarrow> (nat \<times> u8 list) list \<Rightarrow> ('p \<times> bool) option" where
  "feedAll feed p [] = Some (p, False)"
| "feedAll feed p ((t, x) # tr) =
     (case feed p t x of
        (p, err) \<Rightarrow> if err then if tr = [] then Some (p, True) else None else feedAll feed p tr)"

text \<open>The bytes of some tokens, and how often the interrupt flag is read for them.\<close>

definition bytes :: "(nat \<times> u8 list) list \<Rightarrow> int" where
  "bytes ts = int (length (concat (map snd ts)))"

definition flagReads :: "(nat \<times> u8 list) list \<Rightarrow> nat" where
  "flagReads ts = length (filter (\<lambda>x. TK_WINDOW \<le> fst x) ts)"

lemma bytes_simps [simp]: "bytes [] = 0" "bytes ((t, x) # ts) = int (length x) + bytes ts"
  by (simp_all add: bytes_def)

lemma flagReads_simps [simp]: "flagReads [] = 0"
  "flagReads ((t, x) # ts) = (if TK_WINDOW \<le> t then Suc (flagReads ts) else flagReads ts)"
  by (simp_all add: flagReads_def)

text \<open>Why the loop may stop in front of the text \<open>rest\<close> with \<open>mx\<close> bytes allowed and the values \<open>intr\<close> of
  the interrupt flag to come.\<close>

definition stopCause :: "runEnd \<Rightarrow> u8 list \<Rightarrow> int \<Rightarrow> bool list \<Rightarrow> bool" where
  "stopCause e rest mx intr =
     (case e of
        RunDone \<Rightarrow> rest = [0] \<and> 0 \<le> mx \<and> \<not> fst (poll intr)
      | RunTooBig \<Rightarrow> \<exists>n t. sqlite3GetToken rest = Some (n, t) \<and> mx < int n
      | RunInterrupt \<Rightarrow> \<exists>n t. sqlite3GetToken rest = Some (n, t) \<and> int n \<le> mx \<and> TK_WINDOW \<le> t \<and> fst (poll intr)
      | RunUnrecognized \<Rightarrow> \<exists>n. sqlite3GetToken rest = Some (n, TK_ILLEGAL) \<and> rest \<noteq> [0] \<and> int n \<le> mx \<and> \<not> fst (poll intr)
      | RunParseError \<Rightarrow> True)"

definition traceRun :: "u8 list \<Rightarrow> int \<Rightarrow> int \<Rightarrow> bool list \<Rightarrow> runEnd \<Rightarrow> u8 list \<Rightarrow> (nat \<times> u8 list) list \<Rightarrow> bool" where
  "traceRun z l mx intr e rest tr \<longleftrightarrow>
     (\<exists>ts marks. lexes z ts rest \<and> tr = roles l ts rest @ marks \<and>
        prefix marks (endMarks (lastType l (roles l ts rest))) \<and> (marks \<noteq> [] \<longrightarrow> rest = [0]) \<and>
        (e = RunDone \<longrightarrow> marks = endMarks (lastType l (roles l ts rest))) \<and>
        (ts @ marks \<noteq> [] \<longrightarrow> bytes ts \<le> mx) \<and> True \<notin> set (take (flagReads ts + length marks) intr) \<and>
        stopCause e rest (mx - bytes ts) (drop (flagReads ts + length marks) intr))"

lemma traceRun_stop: "stopCause e z mx intr \<Longrightarrow> (e = RunDone \<Longrightarrow> l = 0) \<Longrightarrow> traceRun z l mx intr e z []"
  unfolding traceRun_def by (intro exI [of _ "[]"]) (auto simp: lexes_Nil endMarks_def)

lemma poll_False: "poll intr = (False, intr') \<Longrightarrow> True \<notin> set (take (Suc k) intr) \<longleftrightarrow> True \<notin> set (take k intr')"
  "poll intr = (False, intr') \<Longrightarrow> drop (Suc k) intr = drop k intr'"
  by (cases intr; simp)+

lemma traceRun_skip:
  assumes "sqlite3GetToken z = Some (n, t)" "0 < n" "n \<le> length z" "int n \<le> mx"
    and "(if TK_WINDOW \<le> t then poll intr else (False, intr)) = (False, intr')"
    and "traceRun (drop n z) l' (mx - int n) intr' e rest tr"
    and "\<And>ts marks. lexes (drop n z) ts rest \<Longrightarrow> tr = roles l' ts rest @ marks \<Longrightarrow>
      tr' = roles l ((t, take n z) # ts) rest @ marks \<and>
      lastType l (roles l ((t, take n z) # ts) rest) = lastType l' (roles l' ts rest)"
  shows "traceRun z l mx intr e rest tr'"
proof -
  obtain ts marks where r: "lexes (drop n z) ts rest" "tr = roles l' ts rest @ marks"
      "prefix marks (endMarks (lastType l' (roles l' ts rest)))" "marks \<noteq> [] \<longrightarrow> rest = [0]"
      "e = RunDone \<longrightarrow> marks = endMarks (lastType l' (roles l' ts rest))"
      "ts @ marks \<noteq> [] \<longrightarrow> bytes ts \<le> mx - int n" "True \<notin> set (take (flagReads ts + length marks) intr')"
      "stopCause e rest (mx - int n - bytes ts) (drop (flagReads ts + length marks) intr')"
    using assms(6) unfolding traceRun_def by blast
  let ?ts = "(t, take n z) # ts"
  have tr: "tr' = roles l ?ts rest @ marks" "lastType l (roles l ?ts rest) = lastType l' (roles l' ts rest)"
    using assms(7) [OF r(1, 2)] by auto
  have b: "bytes ?ts = int n + bytes ts" using assms(3) by simp
  have i: "True \<notin> set (take (flagReads ?ts + length marks) intr)"
      "drop (flagReads ?ts + length marks) intr = drop (flagReads ts + length marks) intr'"
    using r(7) poll_False [of intr intr'] assms(5) by (auto split: if_splits)
  have "?ts @ marks \<noteq> [] \<longrightarrow> bytes ?ts \<le> mx" using r(6) assms(4) b by (cases "ts @ marks = []") auto
  moreover have "prefix marks (endMarks (lastType l (roles l ?ts rest)))"
    "e = RunDone \<longrightarrow> marks = endMarks (lastType l (roles l ?ts rest))"
    unfolding tr(2) using r(3, 5) by blast+
  moreover have "stopCause e rest (mx - bytes ?ts) (drop (flagReads ?ts + length marks) intr)"
    using r(8) unfolding b i(2) by (simp add: algebra_simps)
  ultimately show ?thesis
    unfolding traceRun_def using lexes_Cons [OF assms(1, 2) r(1)] tr(1) r(4) i(1) by blast
qed

lemma traceRun_mark:
  assumes "poll intr = (False, intr')" "0 \<le> mx" "traceRun [0] (int t) mx intr' e rest tr"
    and "endMarks l = (t, []) # endMarks (int t)"
  shows "traceRun [0] l mx intr e rest ((t, []) # tr)"
proof -
  obtain ts marks where r: "lexes [0] ts rest" "tr = roles (int t) ts rest @ marks"
      "prefix marks (endMarks (lastType (int t) (roles (int t) ts rest)))" "marks \<noteq> [] \<longrightarrow> rest = [0]"
      "e = RunDone \<longrightarrow> marks = endMarks (lastType (int t) (roles (int t) ts rest))"
      "ts @ marks \<noteq> [] \<longrightarrow> bytes ts \<le> mx" "True \<notin> set (take (flagReads ts + length marks) intr')"
      "stopCause e rest (mx - bytes ts) (drop (flagReads ts + length marks) intr')"
    using assms(3) unfolding traceRun_def by blast
  have ts: "ts = []" "rest = [0]" using r(1) getToken_end by (auto elim: lexes.cases)
  show ?thesis
    unfolding traceRun_def
    using r poll_False [OF assms(1)] assms(2, 4) unfolding ts
    by (intro exI [of _ "[]"] exI [of _ "(t, []) # marks"]) (auto simp: lexes_Nil)
qed

section \<open>The loop returns\<close>

definition fuelFor :: "u8 list \<Rightarrow> int \<Rightarrow> nat" where
  "fuelFor s l = (if s = [] then (if l = 0 then 1 else if l = int TK_SEMI then 2 else 3) else length s + 3)"

lemma fuelFor_le: "fuelFor s l \<le> length s + 3"
  by (simp add: fuelFor_def)

definition runs where
  "runs feed p r z l mx intr \<longleftrightarrow>
     (\<exists>e rest p' tr. r = Some (e, rest, p', tr) \<and> traceRun z l mx intr e rest tr \<and> feedAll feed p tr = Some (p', e = RunParseError))"

lemma runs_stop: "stopCause e z mx intr \<Longrightarrow> (e = RunDone \<Longrightarrow> l = 0) \<Longrightarrow> e \<noteq> RunParseError \<Longrightarrow>
    runs feed p (Some (e, z, p, [])) z l mx intr"
  by (simp add: runs_def traceRun_stop)

text \<open>One token passed to the parser.\<close>

definition feedThen where
  "feedThen feed p t x z' cont =
     (let (p, err) = feed p t x in
      if err then Some (RunParseError, z', p, [(t, x)])
      else do { (e, rest, p, tr) \<leftarrow> cont p; Some (e, rest, p, (t, x) # tr) })"

lemma runs_feed:
  assumes "\<And>p. runs feed p (cont p) z' (int t) mx' intr'"
    and "\<And>e rest tr. traceRun z' (int t) mx' intr' e rest tr \<Longrightarrow> traceRun z l mx intr e rest ((t, x) # tr)"
  shows "runs feed p (feedThen feed p t x z' cont) z l mx intr"
proof -
  obtain p' err where f: "feed p t x = (p', err)" by fastforce
  obtain e rest q tr where c: "cont p' = Some (e, rest, q, tr)" "traceRun z' (int t) mx' intr' e rest tr"
      "feedAll feed p' tr = Some (q, e = RunParseError)"
    using assms(1) [of p'] by (auto simp: runs_def)
  have s: "traceRun z l mx intr RunParseError z' [(t, x)]"
    by (rule assms(2), rule traceRun_stop) (simp_all add: stopCause_def)
  show ?thesis
    using assms(2) [OF c(2)] s c(3)
    by (simp add: feedThen_def f c(1) runs_def)
qed

lemma runLoop_step:
  assumes "sqlite3GetToken z = Some (n, t)"
    and "(if t \<ge> TK_WINDOW then poll intr else (False, intr)) = (b, intr')"
    and "(if t \<ge> TK_WINDOW then runSpecial z n t l else Some (Inr (n, t))) = act"
  shows "runLoop feed (Suc k) z mx l intr p =
    (if mx - int n < 0 then Some (RunTooBig, z, p, [])
     else if b then Some (RunInterrupt, z, p, [])
     else if t = TK_SPACE then runLoop feed k (drop n z) (mx - int n) l intr' p
     else (case act of
         None \<Rightarrow> None
       | Some (Inl e) \<Rightarrow> Some (e, z, p, [])
       | Some (Inr (m, u)) \<Rightarrow>
           feedThen feed p u (take m z) (drop m z)
             (\<lambda>p. runLoop feed k (drop m z) (mx - int n) (int u) intr' p)))"
  unfolding runLoop.simps assms(1) feedThen_def Let_def
  by (simp only: Option.bind.simps prod.case assms(2, 3) split: option.splits sum.splits prod.splits) auto

lemma runLoop_end:
  assumes "fuelFor [] l \<le> k"
  shows "runs feed p (runLoop feed k [0] mx l intr p) [0] l mx intr"
  using assms
proof (induction k arbitrary: l intr p)
  case (Suc k)
  obtain b intr' where po: "poll intr = (b, intr')" by fastforce
  have sp: "(if TK_ILLEGAL \<ge> TK_WINDOW then runSpecial [0] 0 TK_ILLEGAL l else Some (Inr (0, TK_ILLEGAL))) =
      Some (if l = int TK_SEMI then Inr (0, 0) else if l = 0 then Inl RunDone else Inr (0, TK_SEMI))"
    by (simp add: runSpecial_def)
  have "(if TK_ILLEGAL \<ge> TK_WINDOW then poll intr else (False, intr)) = (b, intr')"
    using po by simp
  note step = runLoop_step [OF getToken_end this sp]
  have mark: "runs feed p (feedThen feed p t [] [0] (\<lambda>p. runLoop feed k [0] mx (int t) intr' p)) [0] l mx intr"
    if "0 \<le> mx" "\<not> b" "l \<noteq> 0" "t = (if l = int TK_SEMI then 0 else TK_SEMI)" for t
    using Suc.IH [of "int t"] Suc.prems that po
    by (intro runs_feed [where mx' = mx and intr' = intr'] traceRun_mark [where intr' = intr']) (auto simp: fuelFor_def endMarks_def)
  show ?case
  proof (cases "mx < 0 \<or> b \<or> l = 0")
    case True
    then show ?thesis
      unfolding step using po by (auto simp: getToken_end stopCause_def intro!: runs_stop)
  next
    case False
    then show ?thesis
      unfolding step using mark [of 0] mark [of TK_SEMI] by (cases "l = int TK_SEMI") simp_all
  qed
qed (simp add: fuelFor_def split: if_splits)

lemma runLoop_ok:
  assumes "cstring z s" "fuelFor s l \<le> k"
  shows "runs feed p (runLoop feed k z mx l intr p) z l mx intr"
  using assms
proof (induction k arbitrary: z s l mx intr p)
  case 0
  then show ?case by (simp add: fuelFor_def split: if_splits)
next
  case (Suc k)
  show ?case
  proof (cases "s = []")
    case True
    with Suc.prems have "z = [0]" by (simp add: cstring_def)
    with True runLoop_end [of l "Suc k"] Suc.prems(2) show ?thesis by (simp del: runLoop.simps)
  next
    case False
    obtain n t where n: "sqlite3GetToken z = Some (n, t)" "n \<le> length s" "n = 0 \<longleftrightarrow> s = []"
      "tokenTypeOK n t" "cstring (drop n z) (drop n s)"
      using getToken_cstring [OF Suc.prems(1)] by blast
    have n0: "0 < n" "n \<le> length z" "z \<noteq> [0]" using n(2, 3) False Suc.prems(1) by (auto simp: cstring_def)
    have "length (drop n s) + 3 \<le> k"
      using Suc.prems(2) False n0 n(2) by (simp add: fuelFor_def)
    then have f: "fuelFor (drop n s) l' \<le> k" for l'
      using fuelFor_le [of "drop n s" l'] by simp
    have rec: "runs feed p' (runLoop feed k (drop n z) mx' l' intr' p') (drop n z) l' mx' intr'" for mx' l' intr' p'
      using Suc.IH [OF n(5) f] .
    obtain b intr' where po: "(if t \<ge> TK_WINDOW then poll intr else (False, intr)) = (b, intr')" by fastforce
    have act: "(if t \<ge> TK_WINDOW then runSpecial z n t l else Some (Inr (n, t))) =
        Some (if t = TK_ILLEGAL then Inl RunUnrecognized else Inr (n, role l t (drop n z)))" if "t \<noteq> TK_SPACE"
      using runSpecial_ok [OF Suc.prems(1) False n(2, 4) _ that, of l] by (auto simp: role_def)
    note step = runLoop_step [OF n(1) po refl, where feed = feed and k = k and mx = mx and p = p]
    consider "mx - int n < 0 \<or> b" | "int n \<le> mx" "\<not> b" "t = TK_SPACE" | "int n \<le> mx" "\<not> b" "t = TK_ILLEGAL"
      | "int n \<le> mx" "\<not> b" "t \<noteq> TK_SPACE" "t \<noteq> TK_ILLEGAL" by linarith
    then show ?thesis
    proof cases
      case 1
      then show ?thesis
        unfolding step using n(1) po by (auto simp: stopCause_def intro!: runs_stop split: if_splits)
    next
      case 2
      have "traceRun z l mx intr e rest tr" if "traceRun (drop n z) l (mx - int n) intr' e rest tr" for e rest tr
        by (rule traceRun_skip [OF n(1) n0(1, 2) 2(1) _ that]) (use po 2 in simp_all)
      with 2 rec [where mx' = "mx - int n" and l' = l and intr' = intr' and p' = p] show ?thesis
        unfolding step by (auto simp: runs_def)
    next
      case 3
      then show ?thesis
        unfolding step using n(1) n0(3) po act by (auto simp: stopCause_def intro!: runs_stop)
    next
      case 4
      let ?u = "role l t (drop n z)"
      have "traceRun z l mx intr e rest ((?u, take n z) # tr)" if "traceRun (drop n z) (int ?u) (mx - int n) intr' e rest tr" for e rest tr
        by (rule traceRun_skip [OF n(1) n0(1, 2) 4(1) _ that]) (use po 4 lexes_concat in auto)
      then have "runs feed p (feedThen feed p ?u (take n z) (drop n z) (\<lambda>p. runLoop feed k (drop n z) (mx - int n) (int ?u) intr' p)) z l mx intr"
        by (rule runs_feed [OF rec])
      with 4 act show ?thesis unfolding step by simp
    qed
  qed
qed

section \<open>Properties\<close>

text \<open>C4: Feeding an SQL text to the parser terminates for every behaviour of the parser, every length
  limit and every pattern of interrupts, without reading past the text. It has then read the tokens
  \<open>ts\<close> of a prefix of the text, which fit into the length limit and during which no interrupt was seen. The
  parser has been given exactly these tokens in order, without white space and comments, WINDOW,
  OVER and FILTER as keywords or identifiers by what stands around them, and at the end of the text a
  semicolon, unless there was one, and the end marker; the engine is the one after these calls, none of
  which but the last gave an error. The reason for the end is the true one: the next token exceeds
  the limit, the interrupt flag is set at the next special token, the next token is illegal, the last call
  of the parser gave an error, or the whole text with its end marks has been passed on.\<close>

theorem runParser_feeds_tokens:
  assumes "0 \<notin> set s"
  shows "\<exists>e rest p' tr ts marks. sqlite3RunParser feed (s @ [0]) mxSqlLen intr p = Some (e, rest, p', tr) \<and>
    lexes (s @ [0]) ts rest \<and> concat (map snd ts) @ rest = s @ [0] \<and>
    tr = roles (-1) ts rest @ marks \<and> prefix marks (endMarks (lastType (-1) (roles (-1) ts rest))) \<and>
    (marks \<noteq> [] \<longrightarrow> rest = [0]) \<and> (e = RunDone \<longrightarrow> marks = endMarks (lastType (-1) (roles (-1) ts rest))) \<and>
    feedAll feed p tr = Some (p', e = RunParseError) \<and>
    (ts @ marks \<noteq> [] \<longrightarrow> bytes ts \<le> mxSqlLen) \<and> True \<notin> set (take (flagReads ts + length marks) intr) \<and>
    stopCause e rest (mxSqlLen - bytes ts) (drop (flagReads ts + length marks) intr)"
proof -
  have c: "cstring (s @ [0]) s" using assms by (simp add: cstring_def)
  have "fuelFor s (-1) \<le> length (s @ [0]) + 3"
    using fuelFor_le [of s "-1"] by simp
  from runLoop_ok [OF c this, of feed p mxSqlLen intr] obtain e rest p' tr where r:
    "sqlite3RunParser feed (s @ [0]) mxSqlLen intr p = Some (e, rest, p', tr)"
    "traceRun (s @ [0]) (-1) mxSqlLen intr e rest tr" "feedAll feed p tr = Some (p', e = RunParseError)"
    unfolding runs_def sqlite3RunParser_def by blast
  from r(2) obtain ts marks where t: "lexes (s @ [0]) ts rest" "tr = roles (-1) ts rest @ marks"
      "prefix marks (endMarks (lastType (-1) (roles (-1) ts rest)))" "marks \<noteq> [] \<longrightarrow> rest = [0]"
      "e = RunDone \<longrightarrow> marks = endMarks (lastType (-1) (roles (-1) ts rest))"
      "ts @ marks \<noteq> [] \<longrightarrow> bytes ts \<le> mxSqlLen" "True \<notin> set (take (flagReads ts + length marks) intr)"
      "stopCause e rest (mxSqlLen - bytes ts) (drop (flagReads ts + length marks) intr)"
    unfolding traceRun_def by blast
  show ?thesis
    using r(1, 3) t lexes_concat [OF t(1)] by blast
qed

theorem runParser_feeds_tokens_witness:
  "\<exists>ts. sqlite3RunParser (\<lambda>p t x. (p @ [t], False)) ([0x41, 0x3b] @ [0]) 10 [] [] =
      Some (RunDone, [0], [TK_ID, TK_SEMI, 0], [(TK_ID, [0x41]), (TK_SEMI, [0x3b]), (0, [])]) \<and>
    lexes ([0x41, 0x3b] @ [0]) ts [0] \<and>
    [(TK_ID, [0x41]), (TK_SEMI, [0x3b]), (0, [])] = roles (-1) ts [0] @ endMarks (lastType (-1) (roles (-1) ts [0])) \<and>
    bytes ts \<le> 10"
proof -
  have r: "sqlite3RunParser (\<lambda>p t x. (p @ [t], False)) ([0x41, 0x3b] @ [0]) 10 [] [] =
      Some (RunDone, [0], [TK_ID, TK_SEMI, 0], [(TK_ID, [0x41]), (TK_SEMI, [0x3b]), (0, [])])"
    by code_simp
  have "0 \<notin> set [0x41, 0x3b :: u8]" by simp
  from runParser_feeds_tokens [OF this, of "\<lambda>p t x. (p @ [t], False)" 10 "[]" "[]"] obtain ts marks where
    "lexes ([0x41, 0x3b] @ [0]) ts [0]" "[(TK_ID, [0x41]), (TK_SEMI, [0x3b]), (0, [])] = roles (-1) ts [0] @ marks"
    "marks = endMarks (lastType (-1) (roles (-1) ts [0]))" "ts @ marks \<noteq> [] \<longrightarrow> bytes ts \<le> 10"
    unfolding r by auto
  then show ?thesis using r by (intro exI [of _ ts]) auto
qed

text \<open>C39: The assertions of the loop hold: every token type is a parser code, a type from
  \<^verbatim>\<open>TK_WINDOW\<close> on is one of the five special ones, and WINDOW, OVER and FILTER tokens have six, four
  and six bytes, so that the look-ahead starts behind them.\<close>

theorem getToken_type_assertions:
  assumes "sqlite3GetToken z = Some (n, t)"
  shows "t < length yyFallback \<and>
    (t \<ge> TK_WINDOW \<longrightarrow> t \<in> {TK_WINDOW, TK_OVER, TK_FILTER, TK_SPACE, TK_ILLEGAL}) \<and>
    (t = TK_WINDOW \<longrightarrow> n = 6) \<and> (t = TK_OVER \<longrightarrow> n = 4) \<and> (t = TK_FILTER \<longrightarrow> n = 6)"
  using getToken_type [OF assms] by (simp add: tokenTypeOK_def length_yyFallback)

text \<open>The keyword WINDOW, in lower case.\<close>

theorem getToken_type_assertions_witness:
  "\<exists>n t. sqlite3GetToken [0x77, 0x69, 0x6e, 0x64, 0x6f, 0x77, 0] = Some (n, t) \<and> t = TK_WINDOW \<and> n = 6 \<and>
    t < length yyFallback \<and> t \<in> {TK_WINDOW, TK_OVER, TK_FILTER, TK_SPACE, TK_ILLEGAL}"
proof -
  have "sqlite3GetToken [0x77, 0x69, 0x6e, 0x64, 0x6f, 0x77, 0] = Some (6, TK_WINDOW)"
    by code_simp
  with getToken_type_assertions [OF this] show ?thesis by simp
qed

end
