(* ===== verification/Complete.thy ===== *)
theory Complete
  imports Tokenize "HOL-Library.Sublist"
begin

text \<open>
  \<^verbatim>\<open>sqlite3_complete\<close> (\<^verbatim>\<open>complete.c\<close>), which decides whether a text ends a statement: a small lexer
  and a state machine with eight states, which must not take the semicolons inside a
  CREATE TRIGGER for the end.

  The answer is specified in two steps that share no code with the program: \<open>sigTokens\<close> is the lexical
  structure of a text, with list functions in the place of pointers, and \<open>statements\<close> says which
  sequences of tokens are whole statements, without states.
\<close>

section \<open>The state machine\<close>

datatype ctoken = tkSEMI | tkWS | tkOTHER | tkEXPLAIN | tkCREATE | tkTEMP | tkTRIGGER | tkEND

fun tkCode :: "ctoken \<Rightarrow> nat" where
  "tkCode tkSEMI = 0" | "tkCode tkWS = 1" | "tkCode tkOTHER = 2" | "tkCode tkEXPLAIN = 3"
| "tkCode tkCREATE = 4" | "tkCode tkTEMP = 5" | "tkCode tkTRIGGER = 6" | "tkCode tkEND = 7"

definition transTab :: "nat list list" where
  "transTab =
    [[1, 0, 2, 3, 4, 2, 2, 2],
     [1, 1, 2, 3, 4, 2, 2, 2],
     [1, 2, 2, 2, 2, 2, 2, 2],
     [1, 3, 3, 2, 4, 2, 2, 2],
     [1, 4, 2, 2, 2, 4, 5, 2],
     [6, 5, 5, 5, 5, 5, 5, 5],
     [6, 6, 5, 5, 5, 5, 5, 7],
     [1, 7, 5, 5, 5, 5, 5, 5]]"

definition transition :: "nat \<Rightarrow> ctoken \<Rightarrow> nat option" where
  "transition state token = do { row \<leftarrow> rd transTab state; rd row (tkCode token) }"

section \<open>The lexer\<close>

text \<open>\<^verbatim>\<open>while( zSql[0] && (zSql[0]!='*' || zSql[1]!='/') ){ zSql++; }\<close>\<close>

function cCommentLoop :: "u8 list \<Rightarrow> nat \<Rightarrow> nat option" where
  "cCommentLoop z i =
     (case rd z i of
        None \<Rightarrow> None
      | Some c \<Rightarrow>
          if c = 0 then Some i
          else if c \<noteq> 42 then cCommentLoop z (i + 1)
          else (case rd z (i + 1) of
                  None \<Rightarrow> None
                | Some d \<Rightarrow> if d \<noteq> 47 then cCommentLoop z (i + 1) else Some i))"
  by pat_completeness auto
termination by (relation "measure (\<lambda>(z, i). length z - i)") (auto simp: rd_def split: if_splits)

declare cCommentLoop.simps [simp del]

text \<open>\<^verbatim>\<open>sqlite3StrNICmp(zSql, zWord, n)==0\<close>\<close>

definition isWord :: "u8 list \<Rightarrow> nat \<Rightarrow> string \<Rightarrow> bool option" where
  "isWord z nId word =
     (if nId = length word
      then map_option (\<lambda>r. r = 0) (sqlite3_strnicmp (Some z) (Some (map of_char word @ [0])) (int nId))
      else Some False)"

definition cIdToken :: "u8 list \<Rightarrow> nat \<Rightarrow> ctoken option" where
  "cIdToken z nId =
     do {
       c \<leftarrow> rd z 0;
       if c = 99 \<or> c = 67 then
         do { a \<leftarrow> isWord z nId ''create''; Some (if a then tkCREATE else tkOTHER) }
       else if c = 116 \<or> c = 84 then
         do {
           a \<leftarrow> isWord z nId ''trigger'';
           if a then Some tkTRIGGER
           else do {
             b \<leftarrow> isWord z nId ''temp'';
             if b then Some tkTEMP
             else do { d \<leftarrow> isWord z nId ''temporary''; Some (if d then tkTEMP else tkOTHER) }
           }
         }
       else if c = 101 \<or> c = 69 then
         do {
           a \<leftarrow> isWord z nId ''end'';
           if a then Some tkEND
           else do { b \<leftarrow> isWord z nId ''explain''; Some (if b then tkEXPLAIN else tkOTHER) }
         }
       else Some tkOTHER
     }"

text \<open>One pass through the body of the loop: a token with the number of bytes that \<^verbatim>\<open>zSql\<close> is
  advanced before its last increment, \<^verbatim>\<open>return 0\<close>, or \<^verbatim>\<open>return state==1\<close>.\<close>

datatype cstep = CToken ctoken nat | CUnterminated | CLineComment

definition completeStep :: "u8 list \<Rightarrow> cstep option" where
  "completeStep z =
     do {
       c \<leftarrow> rd z 0;
       if c = 59 then Some (CToken tkSEMI 0)
       else if c = 32 \<or> c = 13 \<or> c = 9 \<or> c = 10 \<or> c = 12 then Some (CToken tkWS 0)
       else if c = 47 then
         do {
           d \<leftarrow> rd z 1;
           if d \<noteq> 42 then Some (CToken tkOTHER 0)
           else do {
             i \<leftarrow> cCommentLoop z 2;
             e \<leftarrow> rd z i;
             Some (if e = 0 then CUnterminated else CToken tkWS (i + 1))
           }
         }
       else if c = 45 then
         do {
           d \<leftarrow> rd z 1;
           if d \<noteq> 45 then Some (CToken tkOTHER 0)
           else do {
             i \<leftarrow> scan (\<lambda>c. c \<noteq> 0 \<and> c \<noteq> 10) z 0;
             e \<leftarrow> rd z i;
             Some (if e = 0 then CLineComment else CToken tkWS i)
           }
         }
       else if c = 91 then
         do {
           i \<leftarrow> scan (\<lambda>d. d \<noteq> 0 \<and> d \<noteq> 93) z 1;
           e \<leftarrow> rd z i;
           Some (if e = 0 then CUnterminated else CToken tkOTHER i)
         }
       else if c = 96 \<or> c = 34 \<or> c = 39 then
         do {
           i \<leftarrow> scan (\<lambda>d. d \<noteq> 0 \<and> d \<noteq> c) z 1;
           e \<leftarrow> rd z i;
           Some (if e = 0 then CUnterminated else CToken tkOTHER i)
         }
       else if IdChar c then
         do {
           nId \<leftarrow> scan IdChar z 1;
           t \<leftarrow> cIdToken z nId;
           Some (CToken t (nId - 1))
         }
       else Some (CToken tkOTHER 0)
     }"

function completeLoop :: "u8 list \<Rightarrow> nat \<Rightarrow> bool option" where
  "completeLoop z state =
     (case rd z 0 of
        None \<Rightarrow> None
      | Some c \<Rightarrow>
          if c = 0 then Some (state = 1)
          else (case completeStep z of
                  None \<Rightarrow> None
                | Some CUnterminated \<Rightarrow> Some False
                | Some CLineComment \<Rightarrow> Some (state = 1)
                | Some (CToken token i) \<Rightarrow>
                    (case transition state token of
                       None \<Rightarrow> None
                     | Some state' \<Rightarrow> completeLoop (drop (i + 1) z) state')))"
  by pat_completeness auto
termination by (relation "measure (\<lambda>(z, q). length z)") (auto simp: rd_def split: if_splits)

declare completeLoop.simps [simp del]

definition sqlite3_complete :: "u8 list \<Rightarrow> bool option" where
  "sqlite3_complete zSql = completeLoop zSql 0"

section \<open>The significant tokens of a text\<close>

text \<open>The lexical structure that the answer depends on, for a text without its terminator and without
  pointers: white space and comments are dropped, a quoted string or name is one token, a maximal
  run of identifier characters is a word. \<open>None\<close> is a text that ends inside a comment of C style or
  a quoted string; a comment to the end of the line may also end the text.\<close>

fun commentEnd :: "u8 list \<Rightarrow> u8 list option" where
  "commentEnd (a # b # z) = (if a = 42 \<and> b = 47 then Some z else commentEnd (b # z))"
| "commentEnd _ = None"

lemma commentEnd_length: "commentEnd z = Some y \<Longrightarrow> length y < length z"
  by (induction z rule: commentEnd.induct) (auto split: if_splits)

lemma commentEnd_split: "commentEnd z = Some y \<Longrightarrow> \<exists>p. z = p @ 42 # 47 # y"
proof (induction z rule: commentEnd.induct)
  case (1 a b z)
  show ?case
  proof (cases "a = 42 \<and> b = 47")
    case True
    with 1(2) show ?thesis by simp
  next
    case False
    with 1 obtain p where "b # z = p @ 42 # 47 # y" by auto
    then have "a # b # z = (a # p) @ 42 # 47 # y" by simp
    then show ?thesis by blast
  qed
qed simp_all

lemma dropWhile_Cons_length: "dropWhile P z = d # y \<Longrightarrow> length y < length z"
  using length_dropWhile_le [of P z] by simp

definition completeWords :: "(string \<times> ctoken) list" where
  "completeWords = [(''create'', tkCREATE), (''trigger'', tkTRIGGER), (''temp'', tkTEMP), (''temporary'', tkTEMP),
     (''end'', tkEND), (''explain'', tkEXPLAIN)]"

definition wordToken :: "u8 list \<Rightarrow> ctoken" where
  "wordToken w =
     (case map_of (map (\<lambda>(v, t). (map of_char v, t)) completeWords) (map sqlite3UpperToLower w) of
        None \<Rightarrow> tkOTHER | Some t \<Rightarrow> t)"

function sigTokens :: "u8 list \<Rightarrow> ctoken list option" where
  "sigTokens [] = Some []"
| "sigTokens (c # z) =
     (if c = 59 then map_option (Cons tkSEMI) (sigTokens z)
      else if c \<in> {9, 10, 12, 13, 32} then sigTokens z
      else if c = 47 \<and> z \<noteq> [] \<and> hd z = 42 then
        (case commentEnd (tl z) of None \<Rightarrow> None | Some y \<Rightarrow> sigTokens y)
      else if c = 45 \<and> z \<noteq> [] \<and> hd z = 45 then sigTokens (dropWhile (\<lambda>d. d \<noteq> 10) z)
      else if c \<in> {91, 96, 34, 39} then
        (case dropWhile (\<lambda>d. d \<noteq> close_quote c) z of
           [] \<Rightarrow> None | d # y \<Rightarrow> map_option (Cons tkOTHER) (sigTokens y))
      else if IdChar c then
        map_option (Cons (wordToken (takeWhile IdChar (c # z)))) (sigTokens (dropWhile IdChar z))
      else map_option (Cons tkOTHER) (sigTokens z))"
  by pat_completeness auto
termination
  by (relation "measure length")
    (auto simp: le_imp_less_Suc length_dropWhile_le dest: commentEnd_length dropWhile_Cons_length)

declare sigTokens.simps(2) [simp del]

section \<open>The lexer finds the significant tokens\<close>

lemma scan_takeWhile:
  assumes "\<not> P 0" "i \<le> length s"
  shows "scan P (s @ [0]) i = Some (i + length (takeWhile P (drop i s)))"
  using assms(2)
proof (induction "length s - i" arbitrary: i)
  case 0
  then have "i = length s" by simp
  then show ?case using assms(1) by (subst scan.simps) (simp add: rd_def)
next
  case (Suc n)
  then have "i < length s" by simp
  then have d: "drop i s = s ! i # drop (Suc i) s" "rd (s @ [0]) i = Some (s ! i)"
    by (simp_all add: Cons_nth_drop_Suc)
  show ?case
    using Suc(1) [of "Suc i"] Suc(2, 3) \<open>i < length s\<close> by (subst scan.simps) (simp add: d del: rd_append)
qed

lemma cCommentLoop_commentEnd:
  assumes "0 \<notin> set s" "i \<le> length s"
  shows "cCommentLoop (s @ [0]) i =
    (case commentEnd (drop i s) of None \<Rightarrow> Some (length s) | Some y \<Rightarrow> Some (length s - length y - 2))"
  using assms(2)
proof (induction "length s - i" arbitrary: i)
  case 0
  then have "i = length s" by simp
  then show ?case by (subst cCommentLoop.simps) (simp add: rd_def)
next
  case (Suc n)
  then have "i < length s" by simp
  then have d: "drop i s = s ! i # drop (Suc i) s" "rd (s @ [0]) i = Some (s ! i)"
    by (simp_all add: Cons_nth_drop_Suc)
  have nz: "s ! i \<noteq> 0" using assms(1) Suc(2) by (metis nth_mem zero_less_Suc zero_less_diff)
  have IH: "cCommentLoop (s @ [0]) (Suc i) =
    (case commentEnd (drop (Suc i) s) of None \<Rightarrow> Some (length s) | Some y \<Rightarrow> Some (length s - length y - 2))"
    using Suc(1) [of "Suc i"] Suc(2) by simp
  show ?case
  proof (cases "drop (Suc i) s")
    case Nil
    then have "length s = Suc i" using Suc(2) by simp
    then have "rd (s @ [0]) (Suc i) = Some 0" by simp
    with Nil IH d nz show ?thesis by (subst cCommentLoop.simps) simp
  next
    case (Cons a z)
    then have l: "Suc i < length s" by (metis drop_all list.distinct(1) not_le)
    then have "s ! Suc i = a" "z = drop (Suc (Suc i)) s" using Cons Cons_nth_drop_Suc [OF l] by simp_all
    with l have r: "rd (s @ [0]) (Suc i) = Some a" "length s - length z - 2 = i" by simp_all
    with Cons IH d nz show ?thesis by (subst cCommentLoop.simps) auto
  qed
qed

lemma strnicmpLoop_0:
  "n \<le> length a \<Longrightarrow> n \<le> length b \<Longrightarrow> 0 \<notin> set (take n a) \<Longrightarrow>
    \<exists>r. strnicmpLoop a b n = Some r \<and> (r = 0 \<longleftrightarrow> map sqlite3UpperToLower (take n a) = map sqlite3UpperToLower (take n b))"
  by (induction a b n rule: strnicmpLoop.induct) auto

lemma isWord_eq:
  assumes "n \<le> length z" "0 \<notin> set (take n z)" "map sqlite3UpperToLower (map of_char w) = map of_char w"
  shows "isWord z n w = Some (map sqlite3UpperToLower (take n z) = map of_char w)"
proof (cases "n = length w")
  case True
  with strnicmpLoop_0 [of n z "map of_char w @ [0]"] assms show ?thesis
    by (auto simp: isWord_def sqlite3_strnicmp_def)
next
  case False
  then have "map sqlite3UpperToLower (take n z) \<noteq> map of_char w"
    using assms(1) by (metis length_map length_take min_absorb2)
  with False show ?thesis by (simp add: isWord_def)
qed

lemma lower_words: "list_all (\<lambda>(w, t). map sqlite3UpperToLower (map of_char w) = map of_char w) completeWords"
  by (simp add: completeWords_def upperToLower_iff)

lemma lower_first: "(sqlite3UpperToLower c = 99) = (c = 99 \<or> c = 67) \<and> (sqlite3UpperToLower c = 116) = (c = 116 \<or> c = 84) \<and>
    (sqlite3UpperToLower c = 101) = (c = 101 \<or> c = 69)"
  by (rule u8_allI) code_simp

lemma wordToken_cases:
  "wordToken w =
     (if map sqlite3UpperToLower w = map of_char ''create'' then tkCREATE
      else if map sqlite3UpperToLower w = map of_char ''trigger'' then tkTRIGGER
      else if map sqlite3UpperToLower w = map of_char ''temp'' then tkTEMP
      else if map sqlite3UpperToLower w = map of_char ''temporary'' then tkTEMP
      else if map sqlite3UpperToLower w = map of_char ''end'' then tkEND
      else if map sqlite3UpperToLower w = map of_char ''explain'' then tkEXPLAIN else tkOTHER)"
  by (simp only: wordToken_def completeWords_def list.map map_of.simps prod.case fun_upd_apply fst_conv snd_conv)
    (simp del: list.map)

lemma cIdToken_word:
  assumes "0 < n" "n \<le> length z" "0 \<notin> set (take n z)"
  shows "cIdToken z n = Some (wordToken (take n z))"
proof -
  obtain c y where z: "z = c # y" using assms by (cases z) auto
  define W where "W = map sqlite3UpperToLower (take n z)"
  define v where "v w = (map of_char w :: u8 list)" for w
  have h: "hd W = sqlite3UpperToLower c" "rd z 0 = Some c" using assms(1) by (cases n; simp add: W_def z)+
  have "map sqlite3UpperToLower (map of_char w) = (map of_char w :: u8 list)"
    if "w \<in> {''create'', ''trigger'', ''temp'', ''temporary'', ''end'', ''explain''}" for w
    using that lower_words by (auto simp: completeWords_def)
  then have w: "isWord z n w = Some (W = v w)"
    if "w \<in> {''create'', ''trigger'', ''temp'', ''temporary'', ''end'', ''explain''}" for w
    using isWord_eq [OF assms(2, 3)] that by (simp add: W_def v_def)
  have i: "isWord z n ''create'' = Some (W = v ''create'')" "isWord z n ''trigger'' = Some (W = v ''trigger'')"
    "isWord z n ''temp'' = Some (W = v ''temp'')" "isWord z n ''temporary'' = Some (W = v ''temporary'')"
    "isWord z n ''end'' = Some (W = v ''end'')" "isWord z n ''explain'' = Some (W = v ''explain'')"
    by (rule w, simp)+
  have f: "hd (v ''create'') = 99" "hd (v ''trigger'') = 116" "hd (v ''temp'') = 116" "hd (v ''temporary'') = 116"
    "hd (v ''end'') = 101" "hd (v ''explain'') = 101"
    by (simp_all add: v_def)
  have ne: "hd W \<noteq> 99 \<Longrightarrow> W \<noteq> v ''create''" "hd W \<noteq> 116 \<Longrightarrow> W \<noteq> v ''trigger'' \<and> W \<noteq> v ''temp'' \<and> W \<noteq> v ''temporary''"
    "hd W \<noteq> 101 \<Longrightarrow> W \<noteq> v ''end'' \<and> W \<noteq> v ''explain''"
    using f by metis+
  have wt: "wordToken (take n z) =
     (if W = v ''create'' then tkCREATE else if W = v ''trigger'' then tkTRIGGER
      else if W = v ''temp'' then tkTEMP else if W = v ''temporary'' then tkTEMP
      else if W = v ''end'' then tkEND else if W = v ''explain'' then tkEXPLAIN else tkOTHER)"
    by (simp only: wordToken_cases W_def v_def)
  note lf = lower_first [of c, folded h(1)]
  consider "c = 99 \<or> c = 67" | "c = 116 \<or> c = 84" | "c = 101 \<or> c = 69"
    | "\<not> (c = 99 \<or> c = 67)" "\<not> (c = 116 \<or> c = 84)" "\<not> (c = 101 \<or> c = 69)"
    by blast
  then show ?thesis
  proof cases
    case 1
    then have "hd W = 99" using lf by blast
    with 1 ne show ?thesis by (simp add: cIdToken_def h(2) i wt)
  next
    case 2
    then have "hd W = 116" "\<not> (c = 99 \<or> c = 67)" using lf by auto
    with 2 ne show ?thesis by (simp add: cIdToken_def h(2) i wt)
  next
    case 3
    then have "hd W = 101" "\<not> (c = 99 \<or> c = 67)" "\<not> (c = 116 \<or> c = 84)" using lf by auto
    with 3 ne show ?thesis by (simp add: cIdToken_def h(2) i wt)
  next
    case 4
    then have "hd W \<noteq> 99" "hd W \<noteq> 116" "hd W \<noteq> 101" using lf by auto
    with 4 ne show ?thesis by (simp add: cIdToken_def h(2) i wt)
  qed
qed


text \<open>Two lists are split alike by a condition that fails on the zero byte.\<close>

lemma drop_takeWhile: "drop (length (takeWhile P xs)) xs = dropWhile P xs"
  by (metis dropWhile_eq_drop)

lemma nth_takeWhile: "dropWhile P xs = d # ys \<Longrightarrow> length (takeWhile P xs) < length xs \<and> xs ! length (takeWhile P xs) = d"
  by (metis drop_takeWhile drop_all list.distinct(1) not_le nth_via_drop)

lemma dropWhile_Nil: "dropWhile P xs = [] \<longleftrightarrow> length (takeWhile P xs) = length xs"
  by (metis append_Nil2 takeWhile_dropWhile_id append_eq_conv_conj drop_takeWhile drop_all order_refl)

lemma takeWhile_eq_on: "(\<And>x. x \<in> set xs \<Longrightarrow> P x = Q x) \<Longrightarrow> takeWhile P xs = takeWhile Q xs \<and> dropWhile P xs = dropWhile Q xs"
  by (induction xs) auto

section \<open>The automaton\<close>

definition move :: "nat \<Rightarrow> ctoken \<Rightarrow> nat" where
  "move q t = transTab ! q ! tkCode t"

lemma less_8: "(q :: nat) < 8 \<longleftrightarrow> q = 0 \<or> q = 1 \<or> q = 2 \<or> q = 3 \<or> q = 4 \<or> q = 5 \<or> q = 6 \<or> q = 7"
  by auto

lemma transition_move: "q < 8 \<Longrightarrow> transition q t = Some (move q t) \<and> move q t < 8"
  by (cases t) (auto simp: less_8 transition_def move_def transTab_def)

lemma move_WS: "q < 8 \<Longrightarrow> move q tkWS = q"
  by (auto simp: less_8 move_def transTab_def)

text \<open>The loop on a text is the run of the automaton on its significant tokens.\<close>

definition answers :: "nat \<Rightarrow> ctoken list option \<Rightarrow> bool" where
  "answers q r = (case r of None \<Rightarrow> False | Some us \<Rightarrow> foldl move q us = 1)"

lemma answers_simps [simp]:
  "answers q None = False" "answers q (Some us) = (foldl move q us = 1)"
  "answers q (map_option (Cons t) r) = answers (move q t) r"
  by (cases r; simp add: answers_def)+

lemma completeStep_quote:
  "c = 91 \<or> c = 96 \<or> c = 34 \<or> c = 39 \<Longrightarrow> completeStep (c # z) = do {
        i \<leftarrow> scan (\<lambda>d. d \<noteq> 0 \<and> d \<noteq> close_quote c) (c # z) 1;
        e \<leftarrow> rd (c # z) i;
        Some (if e = 0 then CUnterminated else CToken tkOTHER i) }"
  by (elim disjE) (simp_all add: completeStep_def close_quote_def)

lemma sigTokens_quote:
  "c = 91 \<or> c = 96 \<or> c = 34 \<or> c = 39 \<Longrightarrow> sigTokens (c # z) =
     (case dropWhile (\<lambda>d. d \<noteq> close_quote c) z of [] \<Rightarrow> None | d # y \<Rightarrow> map_option (Cons tkOTHER) (sigTokens y))"
  by (elim disjE) (simp_all add: sigTokens.simps(2))

lemma completeLoop_token:
  assumes "completeStep (c # y @ [0]) = Some (CToken t i)" "c \<noteq> 0" "i \<le> length y" "q < 8"
    and "completeLoop (drop i y @ [0]) (move q t) = Some b"
  shows "completeLoop (c # y @ [0]) q = Some b"
  using assms transition_move [OF assms(4), of t] by (subst completeLoop.simps) simp

definition lexed :: "u8 list \<Rightarrow> nat \<Rightarrow> bool" where
  "lexed s q \<longleftrightarrow> completeLoop (s @ [0]) q = Some (answers q (sigTokens s))"

text \<open>One step, when the shorter texts behind it are known.\<close>

definition shorter_lexed :: "u8 list \<Rightarrow> bool" where
  "shorter_lexed s \<longleftrightarrow> (\<forall>y q. length y < length s \<longrightarrow> 0 \<notin> set y \<longrightarrow> q < 8 \<longrightarrow> lexed y q)"

lemma lexed_token:
  assumes "completeStep (c # z @ [0]) = Some (CToken t i)" "0 \<notin> set (c # z)" "i \<le> length z" "q < 8" "shorter_lexed (c # z)"
    and "answers q (sigTokens (c # z)) = answers (move q t) (sigTokens (drop i z))"
  shows "lexed (c # z) q"
proof -
  have "0 \<notin> set (drop i z)" using assms(2) by (auto dest: in_set_dropD)
  then have "lexed (drop i z) (move q t)"
    using assms(5) transition_move [OF assms(4), of t] by (simp add: shorter_lexed_def less_Suc_eq_le)
  then show ?thesis
    using completeLoop_token [OF assms(1) _ assms(3, 4)] assms(2, 6) by (simp add: lexed_def)
qed

lemma lexed_stop:
  assumes "completeStep (c # z @ [0]) = Some CUnterminated \<and> sigTokens (c # z) = None \<or>
      completeStep (c # z @ [0]) = Some CLineComment \<and> sigTokens (c # z) = Some []" "c \<noteq> 0"
  shows "lexed (c # z) q"
  using assms unfolding lexed_def by (subst completeLoop.simps) auto

text \<open>Where a scan for a character behind the first one stops.\<close>

lemma scan_for:
  assumes "0 \<notin> set z" "e \<noteq> 0"
  defines "P \<equiv> \<lambda>d. d \<noteq> 0 \<and> d \<noteq> e"
  shows "(dropWhile (\<lambda>d. d \<noteq> e) z = [] \<and> scan P (c # z @ [0]) 1 = Some (Suc (length z))) \<or>
    (\<exists>k. k < length z \<and> z ! k = e \<and> dropWhile (\<lambda>d. d \<noteq> e) z = e # drop (Suc k) z \<and> scan P (c # z @ [0]) 1 = Some (Suc k))"
proof -
  have P: "takeWhile P z = takeWhile (\<lambda>d. d \<noteq> e) z" "dropWhile P z = dropWhile (\<lambda>d. d \<noteq> e) z"
    using takeWhile_eq_on [of z P "\<lambda>d. d \<noteq> e"] assms(1) by (auto simp: P_def)
  have sc: "scan P (c # z @ [0]) 1 = Some (Suc (length (takeWhile P z)))"
    using scan_takeWhile [of P 1 "c # z"] by (simp add: P_def)
  show ?thesis
  proof (cases "dropWhile P z")
    case Nil
    then show ?thesis using dropWhile_Nil [of P z] sc P by simp
  next
    case (Cons d y)
    have l: "length (takeWhile P z) < length z" "z ! length (takeWhile P z) = d" using nth_takeWhile [OF Cons] by auto
    have "\<not> P d" using Cons by (metis hd_dropWhile list.distinct(1) list.sel(1))
    moreover have "d \<noteq> 0" using l assms(1) nth_mem by metis
    ultimately have d: "d = e" by (simp add: P_def)
    have "drop (Suc (length (takeWhile P z))) z = y"
      using Cons drop_takeWhile [of P z] by (metis drop_Suc list.sel(3) tl_drop)
    with l d Cons sc P show ?thesis by auto
  qed
qed

lemma lexed_quote:
  assumes c: "c = 91 \<or> c = 96 \<or> c = 34 \<or> c = 39" and z: "0 \<notin> set (c # z)" "q < 8" "shorter_lexed (c # z)"
  shows "lexed (c # z) q"
proof -
  have e: "close_quote c \<noteq> 0" using c by (auto simp: close_quote_def)
  note st = completeStep_quote [OF c, of "z @ [0]"] and sg = sigTokens_quote [OF c, of z]
  from scan_for [OF _ e, of z c] z(1) consider
    (unclosed) "dropWhile (\<lambda>d. d \<noteq> close_quote c) z = []"
      "scan (\<lambda>d. d \<noteq> 0 \<and> d \<noteq> close_quote c) (c # z @ [0]) 1 = Some (Suc (length z))"
    | (closed) k where "k < length z" "z ! k = close_quote c"
      "dropWhile (\<lambda>d. d \<noteq> close_quote c) z = close_quote c # drop (Suc k) z"
      "scan (\<lambda>d. d \<noteq> 0 \<and> d \<noteq> close_quote c) (c # z @ [0]) 1 = Some (Suc k)"
    by auto
  then show ?thesis
  proof cases
    case unclosed
    then have "completeStep (c # z @ [0]) = Some CUnterminated" "sigTokens (c # z) = None"
      unfolding st sg by (simp_all only: unclosed list.case) simp
    then show ?thesis using z(1) by (intro lexed_stop) simp_all
  next
    case closed
    then have "completeStep (c # z @ [0]) = Some (CToken tkOTHER (Suc k))" unfolding st using e by simp
    then show ?thesis by (rule lexed_token) (use z closed in \<open>simp_all add: sg\<close>)
  qed
qed

lemma lexed_lineComment:
  assumes c: "c = 45" "z = 45 # y" and z: "0 \<notin> set (c # z)" "q < 8" "shorter_lexed (c # z)"
  shows "lexed (c # z) q"
proof -
  have st: "completeStep (c # z @ [0]) = do {
      i \<leftarrow> scan (\<lambda>d. d \<noteq> 0 \<and> d \<noteq> 10) (c # z @ [0]) 1;
      e \<leftarrow> rd (c # z @ [0]) i;
      Some (if e = 0 then CLineComment else CToken tkWS i) }"
  proof -
    have "scan (\<lambda>d. d \<noteq> 0 \<and> d \<noteq> 10) (c # z @ [0]) 0 = scan (\<lambda>d. d \<noteq> 0 \<and> d \<noteq> 10) (c # z @ [0]) 1"
      using c by (subst scan.simps) simp
    with c show ?thesis by (simp add: completeStep_def)
  qed
  have sg: "sigTokens (c # z) = sigTokens (dropWhile (\<lambda>d. d \<noteq> 10) z)"
    using c by (simp add: sigTokens.simps(2))
  from scan_for [of z 10 c] z(1) consider
    (unclosed) "dropWhile (\<lambda>d. d \<noteq> 10) z = []" "scan (\<lambda>d. d \<noteq> 0 \<and> d \<noteq> 10) (c # z @ [0]) 1 = Some (Suc (length z))"
    | (closed) k where "k < length z" "z ! k = 10" "dropWhile (\<lambda>d. d \<noteq> 10) z = 10 # drop (Suc k) z"
      "scan (\<lambda>d. d \<noteq> 0 \<and> d \<noteq> 10) (c # z @ [0]) 1 = Some (Suc k)"
    by auto
  then show ?thesis
  proof cases
    case unclosed
    then have "completeStep (c # z @ [0]) = Some CLineComment" "sigTokens (c # z) = Some []"
      unfolding st sg by (simp_all only: unclosed sigTokens.simps(1)) simp
    then show ?thesis using z(1) by (intro lexed_stop) simp_all
  next
    case closed
    then have s1: "completeStep (c # z @ [0]) = Some (CToken tkWS (Suc k))" unfolding st by simp
    have "sigTokens (c # z) = sigTokens (drop (Suc k) z)"
      unfolding sg closed(3) by (simp add: sigTokens.simps(2))
    then show ?thesis using z closed(1) by (intro lexed_token [OF s1]) (simp_all add: move_WS)
  qed
qed

lemma lexed_blockComment:
  assumes c: "c = 47" "z = 42 # y" and z: "0 \<notin> set (c # z)" "q < 8" "shorter_lexed (c # z)"
  shows "lexed (c # z) q"
proof -
  have cl: "cCommentLoop (c # z @ [0]) 2 =
      (case commentEnd y of None \<Rightarrow> Some (Suc (length z)) | Some x \<Rightarrow> Some (Suc (length z) - length x - 2))"
    using cCommentLoop_commentEnd [of "c # z" 2] z c by (simp split: option.split)
  have sg: "sigTokens (c # z) = (case commentEnd y of None \<Rightarrow> None | Some x \<Rightarrow> sigTokens x)"
    using c by (simp add: sigTokens.simps(2))
  show ?thesis
  proof (cases "commentEnd y")
    case None
    then have "completeStep (c # z @ [0]) = Some CUnterminated"
      using cl c by (simp add: completeStep_def)
    then show ?thesis using z(1) sg None by (intro lexed_stop) simp_all
  next
    case (Some x)
    obtain p where p: "y = p @ 42 # 47 # x" using commentEnd_split [OF Some] by blast
    have "completeStep (c # z @ [0]) = Some (CToken tkWS (length p + 3))"
      using cl c Some p by (simp add: completeStep_def)
    then show ?thesis
    proof (rule lexed_token)
      have d: "drop (length p + 3) z = x" using c p by (simp add: numeral_3_eq_3)
      show "answers q (sigTokens (c # z)) = answers (move q tkWS) (sigTokens (drop (length p + 3) z))"
        unfolding d sg using z(2) by (simp add: Some move_WS)
    qed (use z c p in simp_all)
  qed
qed

lemma lexed_word:
  assumes c: "IdChar c" "c \<notin> {59, 9, 10, 12, 13, 32, 47, 45, 91, 96, 34, 39}"
    and z: "0 \<notin> set (c # z)" "q < 8" "shorter_lexed (c # z)"
  shows "lexed (c # z) q"
proof -
  define n where "n = length (takeWhile IdChar z)"
  have n: "n \<le> length z" "drop n z = dropWhile IdChar z" by (simp_all add: n_def length_takeWhile_le drop_takeWhile)
  have sc: "scan IdChar (c # z @ [0]) 1 = Some (Suc n)"
    using scan_takeWhile [of IdChar 1 "c # z"] by (simp add: n_def)
  have tk: "take (Suc n) (c # z @ [0]) = takeWhile IdChar (c # z)"
    using c takeWhile_eq_take [of IdChar z] n by (simp add: n_def)
  have "cIdToken (c # z @ [0]) (Suc n) = Some (wordToken (takeWhile IdChar (c # z)))"
  proof -
    have "0 \<notin> set (takeWhile IdChar (c # z))" using z(1) set_takeWhileD by metis
    then show ?thesis using cIdToken_word [of "Suc n" "c # z @ [0]"] n unfolding tk by simp
  qed
  then have "completeStep (c # z @ [0]) = Some (CToken (wordToken (takeWhile IdChar (c # z))) n)"
    using c sc by (simp add: completeStep_def)
  then show ?thesis
    by (rule lexed_token) (use c z n in \<open>simp_all add: sigTokens.simps(2)\<close>)
qed

lemma completeLoop_sig:
  assumes "0 \<notin> set s" "q < 8"
  shows "lexed s q"
  using assms
proof (induction s arbitrary: q rule: length_induct)
  case (1 s)
  show ?case
  proof (cases s)
    case Nil
    then show ?thesis unfolding lexed_def by (subst completeLoop.simps) simp
  next
    case (Cons c z)
    have z: "0 \<notin> set (c # z)" "q < 8" "shorter_lexed (c # z)"
      using 1 by (simp_all add: Cons shorter_lexed_def)
    have id: "\<not> IdChar 47" "\<not> IdChar 45" by code_simp+
    have hd: "z \<noteq> [] \<and> hd z = d \<longleftrightarrow> (\<exists>y. z = d # y)" for d by (cases z) auto
    have one: "completeStep (c # z @ [0]) = Some (CToken t 0) \<Longrightarrow>
        answers q (sigTokens (c # z)) = answers (move q t) (sigTokens z) \<Longrightarrow> lexed (c # z) q" for t
      using lexed_token [of c z t 0] z by simp
    consider "c = 59" | "c \<in> {9, 10, 12, 13, 32}" | y where "c = 47" "z = 42 # y" | "c = 47" "\<not> (z \<noteq> [] \<and> hd z = 42)"
      | y where "c = 45" "z = 45 # y" | "c = 45" "\<not> (z \<noteq> [] \<and> hd z = 45)" | "c = 91 \<or> c = 96 \<or> c = 34 \<or> c = 39"
      | "IdChar c" "c \<notin> {59, 9, 10, 12, 13, 32, 47, 45, 91, 96, 34, 39}"
      | "\<not> IdChar c" "c \<notin> {59, 9, 10, 12, 13, 32, 47, 45, 91, 96, 34, 39}"
      unfolding hd by blast
    then have "lexed (c # z) q"
    proof cases
      case 1
      then show ?thesis by (intro one [of tkSEMI]) (simp_all add: completeStep_def sigTokens.simps(2))
    next
      case 2
      then show ?thesis using z(2) by (intro one [of tkWS]) (auto simp: completeStep_def sigTokens.simps(2) move_WS)
    next
      case 4
      then show ?thesis using id by (intro one [of tkOTHER]) (cases z; simp add: completeStep_def sigTokens.simps(2))+
    next
      case 6
      then show ?thesis using id by (intro one [of tkOTHER]) (cases z; simp add: completeStep_def sigTokens.simps(2))+
    next
      case 9
      then show ?thesis by (intro one [of tkOTHER]) (simp_all add: completeStep_def sigTokens.simps(2))
    qed (erule (1) lexed_blockComment [OF _ _ z] lexed_lineComment [OF _ _ z] lexed_word [OF _ _ z] | erule lexed_quote [OF _ z])+
    then show ?thesis by (simp add: Cons)
  qed
qed

lemma wordToken_not_WS: "wordToken w \<noteq> tkWS"
proof (cases "map_of (map (\<lambda>(v, t). (map of_char v, t)) completeWords) (map sqlite3UpperToLower w)")
  case (Some t)
  then have "t \<in> snd ` set (map (\<lambda>(v, t). (map of_char v :: u8 list, t)) completeWords)"
    by (metis image_eqI map_of_SomeD snd_conv)
  with Some show ?thesis by (auto simp: wordToken_def completeWords_def)
qed (simp add: wordToken_def)

definition noWS :: "ctoken list option \<Rightarrow> bool" where
  "noWS r \<longleftrightarrow> (\<forall>us. r = Some us \<longrightarrow> tkWS \<notin> set us)"

lemma noWS_intros:
  "(b \<Longrightarrow> noWS x) \<Longrightarrow> (\<not> b \<Longrightarrow> noWS y) \<Longrightarrow> noWS (if b then x else y)"
  "noWS None" "noWS r \<Longrightarrow> t \<noteq> tkWS \<Longrightarrow> noWS (map_option (Cons t) r)"
  by (auto simp: noWS_def)

lemma sigTokens_noWS: "noWS (sigTokens s)"
proof (induction s rule: sigTokens.induct)
  case 1
  then show ?case by (simp add: noWS_def)
next
  case (2 c z)
  show ?case
    unfolding sigTokens.simps(2)
    by (intro noWS_intros wordToken_not_WS)
      (use 2 in \<open>auto intro: noWS_intros split: option.split list.split\<close>)
qed

lemma sigTokens_no_WS: "sigTokens s = Some us \<Longrightarrow> tkWS \<notin> set us"
  using sigTokens_noWS [of s] by (simp add: noWS_def)

section \<open>Statements\<close>

text \<open>The body of a trigger up to the first \<^verbatim>\<open>;END;\<close>.\<close>

lemma suffix_two: "suffix [a, b] (us @ [t]) \<longleftrightarrow> t = b \<and> us \<noteq> [] \<and> last us = a"
  by (cases us rule: rev_cases) (auto simp: suffix_def)

lemma suffix_three: "suffix [a, b, c] (us @ [t]) \<longleftrightarrow> t = c \<and> suffix [a, b] us"
  by (cases us rule: rev_cases) (auto simp: suffix_def)

lemma run_trigger_body:
  assumes "tkWS \<notin> set b" "\<not> sublist [tkSEMI, tkEND, tkSEMI] b"
  shows "foldl move 5 b = (if b \<noteq> [] \<and> last b = tkSEMI then 6 else if suffix [tkSEMI, tkEND] b then 7 else 5)"
  using assms
proof (induction b rule: rev_induct)
  case (snoc t b)
  have "\<not> sublist [tkSEMI, tkEND, tkSEMI] b"
    using snoc.prems(2) unfolding sublist_def by (metis append.assoc)
  with snoc have IH: "foldl move 5 b = (if b \<noteq> [] \<and> last b = tkSEMI then 6 else if suffix [tkSEMI, tkEND] b then 7 else 5)"
    by simp
  have "\<not> (t = tkSEMI \<and> suffix [tkSEMI, tkEND] b)"
    using snoc.prems(2) suffix_three [of tkSEMI tkEND tkSEMI b t] suffix_imp_sublist by blast
  moreover have "suffix [tkSEMI, tkEND] b \<Longrightarrow> last b = tkEND"
    by (auto simp: suffix_def)
  moreover have "t \<noteq> tkWS" using snoc.prems(1) by auto
  ultimately show ?case
    unfolding foldl_append IH suffix_two
    by (cases t) (auto simp: move_def transTab_def)
qed simp

lemma run_trigger_complete:
  assumes "tkWS \<notin> set b" "\<not> sublist [tkSEMI, tkEND, tkSEMI] (butlast b)"
  shows "foldl move 5 b = 1 \<longleftrightarrow> suffix [tkSEMI, tkEND, tkSEMI] b"
proof (cases b rule: rev_cases)
  case (snoc a t)
  have "suffix [tkSEMI, tkEND] a \<Longrightarrow> last a = tkEND"
    by (auto simp: suffix_def)
  then show ?thesis
    using run_trigger_body [of a] assms unfolding snoc suffix_three
    by (cases t) (auto simp: move_def transTab_def)
qed simp

text \<open>The beginning of a trigger definition: an optional EXPLAIN with further words, CREATE, any
  number of TEMP, TRIGGER.\<close>

definition triggerHead :: "ctoken list \<Rightarrow> bool" where
  "triggerHead h \<longleftrightarrow> (\<exists>ex tm. h = ex @ tkCREATE # tm @ [tkTRIGGER] \<and> set tm \<subseteq> {tkTEMP} \<and>
     (ex = [] \<or> (\<exists>os. ex = tkEXPLAIN # os \<and> set os \<subseteq> {tkOTHER})))"

lemma run_triggerHead:
  assumes "triggerHead h" "q = 0 \<or> q = 1"
  shows "foldl move q h = 5"
proof -
  obtain ex tm where h: "h = ex @ tkCREATE # tm @ [tkTRIGGER]" "set tm \<subseteq> {tkTEMP}"
    "ex = [] \<or> (\<exists>os. ex = tkEXPLAIN # os \<and> set os \<subseteq> {tkOTHER})"
    using assms(1) by (auto simp: triggerHead_def)
  have tm: "foldl move 4 tm = 4"
    using h(2) by (induction tm) (auto simp: move_def transTab_def)
  have os: "set os \<subseteq> {tkOTHER} \<Longrightarrow> foldl move 3 os = 3" for os
    by (induction os) (auto simp: move_def transTab_def)
  have m: "move q tkEXPLAIN = 3" "move q tkCREATE = 4" "move 3 tkCREATE = 4" "move 4 tkTRIGGER = 5"
    using assms(2) by (auto simp: move_def transTab_def)
  show ?thesis
    using h tm os m by auto
qed

text \<open>What ends a statement: an ordinary statement is everything up to its first semicolon; a statement
  that starts as a trigger definition extends to its first \<^verbatim>\<open>;END;\<close>. A complete text is a sequence of at
  least one such statement.\<close>

definition statement :: "ctoken list \<Rightarrow> bool" where
  "statement u \<longleftrightarrow>
     (\<exists>v. u = v @ [tkSEMI] \<and> tkSEMI \<notin> set v \<and> \<not> (\<exists>h. triggerHead h \<and> prefix h v)) \<or>
     (\<exists>h body. u = h @ body \<and> triggerHead h \<and> suffix [tkSEMI, tkEND, tkSEMI] body \<and>
        \<not> sublist [tkSEMI, tkEND, tkSEMI] (butlast body))"

definition statements :: "ctoken list \<Rightarrow> bool" where
  "statements us \<longleftrightarrow> (\<exists>sts. sts \<noteq> [] \<and> list_all statement sts \<and> us = concat sts)"

text \<open>What the first states say of the tokens since the last statement.\<close>

definition explainHead :: "ctoken list \<Rightarrow> bool" where
  "explainHead v \<longleftrightarrow> (\<exists>os. v = tkEXPLAIN # os \<and> set os \<subseteq> {tkOTHER})"

definition createHead :: "ctoken list \<Rightarrow> bool" where
  "createHead v \<longleftrightarrow> (\<exists>ex tm. v = ex @ tkCREATE # tm \<and> set tm \<subseteq> {tkTEMP} \<and> (ex = [] \<or> explainHead ex))"

lemma explainHead_grow: "explainHead [tkEXPLAIN]" "explainHead v \<Longrightarrow> explainHead (v @ [tkOTHER])"
  by (auto simp: explainHead_def)

lemma createHead_grow: "createHead [tkCREATE]" "explainHead v \<Longrightarrow> createHead (v @ [tkCREATE])" "createHead v \<Longrightarrow> createHead (v @ [tkTEMP])"
proof -
  show "createHead [tkCREATE]" unfolding createHead_def by (intro exI [of _ "[]"]) simp
  show "explainHead v \<Longrightarrow> createHead (v @ [tkCREATE])" unfolding createHead_def by (intro exI [of _ v] exI [of _ "[]"]) simp
  assume "createHead v"
  then obtain ex tm where "v = ex @ tkCREATE # tm" "set tm \<subseteq> {tkTEMP}" "ex = [] \<or> explainHead ex" by (auto simp: createHead_def)
  then show "createHead (v @ [tkTEMP])" unfolding createHead_def by (intro exI [of _ ex] exI [of _ "tm @ [tkTEMP]"]) simp
qed

lemma createHead_trigger: "createHead v \<Longrightarrow> triggerHead (v @ [tkTRIGGER])"
  unfolding createHead_def explainHead_def triggerHead_def by (elim exE conjE) (simp, blast)

lemma run_statement_start:
  assumes "tkSEMI \<notin> set v" "tkWS \<notin> set v" "q = 0 \<or> q = 1"
  shows "(foldl move q v < 2 \<and> v = []) \<or> foldl move q v = 2 \<or> (foldl move q v = 3 \<and> explainHead v) \<or>
    (foldl move q v = 4 \<and> createHead v) \<or> (\<exists>h. triggerHead h \<and> prefix h v)"
  using assms(1, 2)
proof (induction v rule: rev_induct)
  case (snoc t v)
  from snoc have IH: "(foldl move q v < 2 \<and> v = []) \<or> foldl move q v = 2 \<or> (foldl move q v = 3 \<and> explainHead v) \<or>
    (foldl move q v = 4 \<and> createHead v) \<or> (\<exists>h. triggerHead h \<and> prefix h v)" and t: "t \<noteq> tkSEMI" "t \<noteq> tkWS" by auto
  have m: "move p t = (if p < 2 then if t = tkEXPLAIN then 3 else if t = tkCREATE then 4 else 2
      else if p = 2 then 2
      else if p = 3 then if t = tkOTHER then 3 else if t = tkCREATE then 4 else 2
      else if t = tkTEMP then 4 else if t = tkTRIGGER then 5 else 2)" if "p < 5" for p
  proof -
    have "p = 0 \<or> p = 1 \<or> p = 2 \<or> p = 3 \<or> p = 4" using that by auto
    with t show ?thesis by (cases t) (auto simp: move_def transTab_def)
  qed
  from IH consider "foldl move q v < 2" "v = []" | "foldl move q v = 2" | "foldl move q v = 3" "explainHead v"
    | "foldl move q v = 4" "createHead v" | h where "triggerHead h" "prefix h v" by blast
  then show ?case
  proof cases
    case 1
    then show ?thesis using assms(3) explainHead_grow(1) createHead_grow(1) by (auto simp: m)
  next
    case 2
    then show ?thesis by (simp add: m)
  next
    case 3
    then show ?thesis using explainHead_grow(2) [OF 3(2)] createHead_grow(2) [OF 3(2)] by (simp add: m)
  next
    case 4
    then show ?thesis using createHead_grow(3) [OF 4(2)] createHead_trigger [OF 4(2)] by (auto simp: m)
  next
    case 5
    then show ?thesis by (auto intro: prefix_order.trans)
  qed
qed (use assms(3) in auto)

lemma run_plain_statement:
  assumes "tkSEMI \<notin> set v" "tkWS \<notin> set v" "\<not> (\<exists>h. triggerHead h \<and> prefix h v)" "q = 0 \<or> q = 1"
  shows "foldl move q (v @ [tkSEMI]) = 1"
proof -
  have "foldl move q v < 2 \<or> foldl move q v = 2 \<or> foldl move q v = 3 \<or> foldl move q v = 4"
    using run_statement_start [OF assms(1, 2, 4)] assms(3) by blast
  then have "foldl move q v = 0 \<or> foldl move q v = 1 \<or> foldl move q v = 2 \<or> foldl move q v = 3 \<or> foldl move q v = 4" by linarith
  then show ?thesis by (auto simp: move_def transTab_def)
qed

lemma run_statement:
  assumes "statement u" "tkWS \<notin> set u" "q = 0 \<or> q = 1"
  shows "foldl move q u = 1"
proof -
  from assms(1) consider v where "u = v @ [tkSEMI]" "tkSEMI \<notin> set v" "\<not> (\<exists>h. triggerHead h \<and> prefix h v)"
    | h body where "u = h @ body" "triggerHead h" "suffix [tkSEMI, tkEND, tkSEMI] body" "\<not> sublist [tkSEMI, tkEND, tkSEMI] (butlast body)"
    unfolding statement_def by blast
  then show ?thesis
  proof cases
    case 1
    with run_plain_statement [of v q] assms show ?thesis by simp
  next
    case 2
    with run_triggerHead [of h q] run_trigger_complete [of body] assms show ?thesis by simp
  qed
qed

lemma run_statements:
  assumes "list_all statement sts" "tkWS \<notin> set (concat sts)" "sts \<noteq> []" "q = 0 \<or> q = 1"
  shows "foldl move q (concat sts) = 1"
  using assms
proof (induction sts arbitrary: q)
  case (Cons u sts)
  then have "foldl move q u = 1" using run_statement by simp
  with Cons show ?case by (cases "sts = []") auto
qed simp


text \<open>Conversely, the tokens of a run that ends in START are a sequence of statements.\<close>

lemma sublist_snoc:
  assumes "sublist p (xs @ [x])"
  shows "sublist p xs \<or> suffix p (xs @ [x])"
proof -
  obtain u v where uv: "xs @ [x] = u @ p @ v" using assms by (auto simp: sublist_def)
  show ?thesis
  proof (cases v rule: rev_cases)
    case Nil
    with uv show ?thesis by (auto simp: suffix_def)
  next
    case (snoc w y)
    with uv have "xs = u @ p @ w" by simp
    then show ?thesis by (auto simp: sublist_def)
  qed
qed

lemma first_occurrence:
  assumes "sublist [a, b, c] xs"
  obtains ys zs where "xs = ys @ zs" "suffix [a, b, c] ys" "\<not> sublist [a, b, c] (butlast ys)"
proof -
  have "\<exists>ys zs. xs = ys @ zs \<and> suffix [a, b, c] ys \<and> \<not> sublist [a, b, c] (butlast ys)"
    using assms
  proof (induction xs rule: rev_induct)
    case (snoc x xs)
    show ?case
    proof (cases "sublist [a, b, c] xs")
      case True
      from snoc.IH [OF this] obtain ys zs where "xs = ys @ zs" "suffix [a, b, c] ys" "\<not> sublist [a, b, c] (butlast ys)" by blast
      then show ?thesis by (intro exI [of _ ys] exI [of _ "zs @ [x]"]) simp
    next
      case False
      then have "suffix [a, b, c] (xs @ [x])" using sublist_snoc [OF snoc.prems] by blast
      with False show ?thesis by (intro exI [of _ "xs @ [x]"] exI [of _ "[]"]) simp
    qed
  qed simp
  then show thesis using that by blast
qed

lemma next_statement:
  assumes "foldl move q us = 1" "us \<noteq> []" "tkWS \<notin> set us" "q = 0 \<or> q = 1"
  obtains u vs where "us = u @ vs" "statement u" "u \<noteq> []"
proof (cases "\<exists>h. triggerHead h \<and> prefix h us")
  case True
  then obtain h body where h: "triggerHead h" "us = h @ body" by (auto elim: prefixE)
  have "sublist [tkSEMI, tkEND, tkSEMI] body"
  proof (rule ccontr)
    assume "\<not> sublist [tkSEMI, tkEND, tkSEMI] body"
    then have "foldl move 5 body \<noteq> 1" using run_trigger_body [of body] assms(3) h by simp
    then show False using assms(1, 4) run_triggerHead [OF h(1), of q] h(2) by simp
  qed
  then obtain ys zs where "body = ys @ zs" "suffix [tkSEMI, tkEND, tkSEMI] ys" "\<not> sublist [tkSEMI, tkEND, tkSEMI] (butlast ys)"
    by (rule first_occurrence)
  with h have "us = (h @ ys) @ zs" "statement (h @ ys)" by (auto simp: statement_def)
  then show thesis using h(1) by (intro that [of "h @ ys" zs]) (auto simp: triggerHead_def)
next
  case False
  have "tkSEMI \<in> set us"
  proof (rule ccontr)
    assume "tkSEMI \<notin> set us"
    then show False using run_statement_start [of us q] False assms by auto
  qed
  then obtain v vs where v: "us = v @ tkSEMI # vs" "tkSEMI \<notin> set v" by (metis split_list_first)
  then have "\<not> (\<exists>h. triggerHead h \<and> prefix h v)" using False by (auto intro: prefix_order.trans)
  with v that [of "v @ [tkSEMI]" vs] show thesis by (auto simp: statement_def)
qed

lemma run_complete_iff:
  assumes "tkWS \<notin> set us" "us \<noteq> []" "q = 0 \<or> q = 1"
  shows "foldl move q us = 1 \<longleftrightarrow> statements us"
proof
  assume "foldl move q us = 1"
  then show "statements us"
    using assms
  proof (induction us arbitrary: q rule: length_induct)
    case (1 us)
    from 1 obtain u vs where u: "us = u @ vs" "statement u" "u \<noteq> []" using next_statement by metis
    show ?case
    proof (cases "vs = []")
      case True
      with u show ?thesis unfolding statements_def by (intro exI [of _ "[u]"]) simp
    next
      case False
      have "foldl move q u = 1" using run_statement [OF u(2)] 1 u(1) by simp
      then have "foldl move 1 vs = 1" using 1(2) u(1) by simp
      then have "statements vs" using 1(1) u 1(3) False by simp
      then obtain sts where "list_all statement sts" "vs = concat sts" by (auto simp: statements_def)
      with u show ?thesis unfolding statements_def by (intro exI [of _ "u # sts"]) simp
    qed
  qed
next
  assume "statements us"
  then show "foldl move q us = 1"
    using run_statements assms by (auto simp: statements_def)
qed

lemma statements_not_Nil: "\<not> statements []"
proof -
  have "\<not> statement []" by (simp add: statement_def triggerHead_def)
  then show ?thesis unfolding statements_def by (metis concat_eq_Nil_conv list.exhaust list.set_intros(1) list_all_iff)
qed

section \<open>Properties\<close>

text \<open>C8: \<^verbatim>\<open>sqlite3_complete\<close> returns an answer for every zero-terminated text without reading past its
  end or outside its table, and the answer is exact: yes if and only if the text does not end inside a
  C comment or a quoted string and its significant tokens are a sequence of at least one complete
  statement, where an ordinary statement ends at its first semicolon and a trigger definition at its
  first semicolon, END, semicolon.\<close>

theorem complete_statements:
  assumes "0 \<notin> set s"
  shows "sqlite3_complete (s @ [0]) = Some (case sigTokens s of None \<Rightarrow> False | Some us \<Rightarrow> statements us)"
proof -
  have "sqlite3_complete (s @ [0]) = Some (answers 0 (sigTokens s))"
    using completeLoop_sig [OF assms, of 0] by (simp add: sqlite3_complete_def lexed_def)
  moreover have "foldl move 0 us = 1 \<longleftrightarrow> statements us" if "sigTokens s = Some us" for us
    using run_complete_iff [OF sigTokens_no_WS [OF that], of 0] statements_not_Nil by (cases "us = []") auto
  ultimately show ?thesis by (simp split: option.split)
qed

text \<open>Dropping a trigger is an ordinary statement; a trigger definition needs its END.\<close>

theorem complete_statements_witness:
  "sqlite3_complete (map of_char ''DROP TRIGGER x;'' @ [0]) = Some True \<and>
   sqlite3_complete (map of_char ''CREATE TRIGGER x BEGIN a;'' @ [0]) = Some False"
proof -
  have "sigTokens (map of_char ''DROP TRIGGER x;'') = Some [tkOTHER, tkTRIGGER, tkOTHER, tkSEMI]"
    "sigTokens (map of_char ''CREATE TRIGGER x BEGIN a;'') = Some [tkCREATE, tkTRIGGER, tkOTHER, tkOTHER, tkOTHER, tkSEMI]"
    by code_simp+
  moreover have "statements [tkOTHER, tkTRIGGER, tkOTHER, tkSEMI]"
    using run_complete_iff [of "[tkOTHER, tkTRIGGER, tkOTHER, tkSEMI]" 0] by (simp add: move_def transTab_def)
  moreover have "\<not> statements [tkCREATE, tkTRIGGER, tkOTHER, tkOTHER, tkOTHER, tkSEMI]"
    using run_complete_iff [of "[tkCREATE, tkTRIGGER, tkOTHER, tkOTHER, tkOTHER, tkSEMI]" 0] by (simp add: move_def transTab_def)
  moreover have "0 \<notin> set (map of_char ''DROP TRIGGER x;'' :: u8 list)" "0 \<notin> set (map of_char ''CREATE TRIGGER x BEGIN a;'' :: u8 list)"
    by simp_all
  ultimately show ?thesis
    using complete_statements [of "map of_char ''DROP TRIGGER x;''"] complete_statements [of "map of_char ''CREATE TRIGGER x BEGIN a;''"]
    by (simp del: list.map)
qed

text \<open>C40: The states of the machine keep what they mean: after any sequence of significant tokens the
  state is one of the eight, and once the head of a trigger has been read from START the machine
  stays in the states TRIGGER, SEMI and END until semicolon, END, semicolon have come in a row.\<close>

theorem complete_trigger_invariant:
  assumes "triggerHead h" "tkWS \<notin> set body" "\<not> sublist [tkSEMI, tkEND, tkSEMI] body" "q = 0 \<or> q = 1"
  shows "foldl move q (h @ body) \<in> {5, 6, 7} \<and> foldl move q (h @ body @ [tkWS]) = foldl move q (h @ body)"
  using run_triggerHead [OF assms(1, 4)] run_trigger_body [OF assms(2, 3)] by (auto simp: move_WS)

theorem complete_trigger_invariant_witness:
  "foldl move 1 ([tkCREATE, tkTEMP, tkTRIGGER] @ [tkOTHER, tkSEMI, tkEND]) \<in> {5, 6, 7} \<and>
   foldl move 1 ([tkCREATE, tkTEMP, tkTRIGGER] @ [tkOTHER, tkSEMI, tkEND] @ [tkWS]) =
     foldl move 1 ([tkCREATE, tkTEMP, tkTRIGGER] @ [tkOTHER, tkSEMI, tkEND])"
proof (rule complete_trigger_invariant)
  show "triggerHead [tkCREATE, tkTEMP, tkTRIGGER]"
    unfolding triggerHead_def by (intro exI [of _ "[]"] exI [of _ "[tkTEMP]"]) simp
  show "\<not> sublist [tkSEMI, tkEND, tkSEMI] [tkOTHER, tkSEMI, tkEND]"
    by (auto simp: sublist_Cons_right)
qed simp_all

end
