(* ===== verification/VdbeMem.thy ===== *)
theory VdbeMem
  imports Prelude
begin

text \<open>
  The buffer of a \<^verbatim>\<open>Mem\<close> cell (\<^verbatim>\<open>vdbemem.c\<close>): growing it, making it writeable, terminating it and
  expanding a zero-filled tail.

  The record has the fields of \<^verbatim>\<open>struct sqlite3_value\<close> that hold a string or a blob. \<open>mem_z\<close> is the
  object that \<^verbatim>\<open>z\<close> points to, up to its end (\<open>[]\<close> for a null pointer), \<open>mem_own\<close> says that
  \<^verbatim>\<open>z==zMalloc\<close>. The destructor \<^verbatim>\<open>xDel\<close> and the contexts of aggregates (\<^verbatim>\<open>MEM_Agg\<close>) are not
  modelled. Fresh memory is not initialised: \<open>junk i\<close> is what it holds at offset \<open>i\<close>, and every
  theorem is for any \<open>junk\<close>. The allocator returns exactly the bytes asked for, the worst case for
  the accesses. \<open>None\<close> is an access outside the object. Sizes are natural numbers where the source
  has \<^verbatim>\<open>int\<close>: every value is at most \<^verbatim>\<open>SQLITE_MAX_LENGTH\<close> (one thousand million) bytes long, so that the sums
  with a terminator of three bytes or with a zero-filled tail are below \<open>2^31\<close>.
\<close>

section \<open>The cell\<close>

datatype enc = SQLITE_UTF8 | SQLITE_UTF16LE | SQLITE_UTF16BE

record mem =
  mem_nZero :: nat
  mem_flags :: u16
  mem_enc :: enc
  mem_n :: nat
  mem_z :: "u8 list"
  mem_own :: bool
  mem_szMalloc :: nat

definition MEM_Null :: u16 where "MEM_Null = 0x0001"
definition MEM_Str :: u16 where "MEM_Str = 0x0002"
definition MEM_Int :: u16 where "MEM_Int = 0x0004"
definition MEM_Real :: u16 where "MEM_Real = 0x0008"
definition MEM_Blob :: u16 where "MEM_Blob = 0x0010"
definition MEM_IntReal :: u16 where "MEM_IntReal = 0x0020"
definition MEM_AffMask :: u16 where "MEM_AffMask = 0x003f"
definition MEM_Term :: u16 where "MEM_Term = 0x0200"
definition MEM_Dyn :: u16 where "MEM_Dyn = 0x0400"
definition MEM_Static :: u16 where "MEM_Static = 0x0800"
definition MEM_Ephem :: u16 where "MEM_Ephem = 0x1000"
definition MEM_Zero :: u16 where "MEM_Zero = 0x4000"
definition MEM_Subtype :: u16 where "MEM_Subtype = 0x8000"

lemmas MEM_defs = MEM_Null_def MEM_Str_def MEM_Int_def MEM_Real_def MEM_Blob_def MEM_IntReal_def MEM_AffMask_def
  MEM_Term_def MEM_Dyn_def MEM_Static_def MEM_Ephem_def MEM_Zero_def MEM_Subtype_def

section \<open>Operations\<close>

definition sqlite3VdbeMemSetNull :: "mem \<Rightarrow> mem" where
  "sqlite3VdbeMemSetNull pMem = pMem\<lparr>mem_flags := MEM_Null\<rparr>"

text \<open>The content of the block of \<open>n\<close> bytes: reallocated, or new with the old text copied into it.\<close>

definition growBlock :: "(nat \<Rightarrow> u8) \<Rightarrow> mem \<Rightarrow> nat \<Rightarrow> bool \<Rightarrow> u8 list option" where
  "growBlock junk pMem n bPreserve =
     (if mem_szMalloc pMem > 0 \<and> bPreserve \<and> mem_own pMem
      then Some (take n (mem_z pMem) @ map junk [length (mem_z pMem)..<n])
      else if bPreserve \<and> mem_z pMem \<noteq> [] then
        (if mem_n pMem \<le> length (mem_z pMem) \<and> mem_n pMem \<le> n
         then Some (take (mem_n pMem) (mem_z pMem) @ map junk [mem_n pMem..<n]) else None)
      else Some (map junk [0..<n]))"

definition sqlite3VdbeMemGrow ::
  "(nat \<Rightarrow> u8) \<Rightarrow> oom \<Rightarrow> mem \<Rightarrow> nat \<Rightarrow> bool \<Rightarrow> (result_code \<times> mem \<times> oom) option" where
  "sqlite3VdbeMemGrow junk w pMem n bPreserve =
     (case alloc w of
        (False, w) \<Rightarrow>
          Some (SQLITE_NOMEM, (sqlite3VdbeMemSetNull pMem)\<lparr>mem_z := [], mem_own := True, mem_szMalloc := 0\<rparr>, w)
      | (True, w) \<Rightarrow>
          do {
            z \<leftarrow> growBlock junk pMem n bPreserve;
            Some (SQLITE_OK,
              pMem\<lparr>mem_z := z, mem_own := True, mem_szMalloc := n,
                   mem_flags := mem_flags pMem AND NOT (MEM_Dyn OR MEM_Ephem OR MEM_Static)\<rparr>, w)
          })"

text \<open>\<open>zMalloc\<close> is the old private buffer when \<^verbatim>\<open>z\<close> does not point to it.\<close>

definition sqlite3VdbeMemClearAndResize ::
  "(nat \<Rightarrow> u8) \<Rightarrow> oom \<Rightarrow> u8 list \<Rightarrow> mem \<Rightarrow> nat \<Rightarrow> (result_code \<times> mem \<times> oom) option" where
  "sqlite3VdbeMemClearAndResize junk w zMalloc pMem szNew =
     (if mem_szMalloc pMem < szNew then sqlite3VdbeMemGrow junk w pMem szNew False
      else Some (SQLITE_OK,
        pMem\<lparr>mem_z := (if mem_own pMem then mem_z pMem else zMalloc), mem_own := True,
             mem_flags := mem_flags pMem AND (MEM_Null OR MEM_Int OR MEM_Real OR MEM_IntReal)\<rparr>, w))"

definition vdbeMemAddTerminator :: "(nat \<Rightarrow> u8) \<Rightarrow> oom \<Rightarrow> mem \<Rightarrow> (result_code \<times> mem \<times> oom) option" where
  "vdbeMemAddTerminator junk w pMem =
     do {
       (rc, pMem, w) \<leftarrow> sqlite3VdbeMemGrow junk w pMem (mem_n pMem + 3) True;
       if rc \<noteq> SQLITE_OK then Some (SQLITE_NOMEM, pMem, w)
       else
         do {
           z \<leftarrow> wr (mem_z pMem) (mem_n pMem) 0;
           z \<leftarrow> wr z (mem_n pMem + 1) 0;
           z \<leftarrow> wr z (mem_n pMem + 2) 0;
           Some (SQLITE_OK, pMem\<lparr>mem_z := z, mem_flags := mem_flags pMem OR MEM_Term\<rparr>, w)
         }
     }"

definition sqlite3VdbeMemExpandBlob :: "(nat \<Rightarrow> u8) \<Rightarrow> oom \<Rightarrow> mem \<Rightarrow> (result_code \<times> mem \<times> oom) option" where
  "sqlite3VdbeMemExpandBlob junk w pMem =
     (let nByte = mem_n pMem + mem_nZero pMem
      in if nByte = 0 \<and> mem_flags pMem AND MEM_Blob = 0 then Some (SQLITE_OK, pMem, w)
         else
           do {
             (rc, pMem, w) \<leftarrow> sqlite3VdbeMemGrow junk w pMem (if nByte = 0 then 1 else nByte) True;
             if rc \<noteq> SQLITE_OK then Some (SQLITE_NOMEM, pMem, w)
             else if mem_n pMem + mem_nZero pMem \<le> length (mem_z pMem) then
               Some (SQLITE_OK,
                 pMem\<lparr>mem_z := take (mem_n pMem) (mem_z pMem) @ replicate (mem_nZero pMem) 0 @
                                  drop (mem_n pMem + mem_nZero pMem) (mem_z pMem),
                      mem_n := mem_n pMem + mem_nZero pMem,
                      mem_flags := mem_flags pMem AND NOT (MEM_Zero OR MEM_Term)\<rparr>, w)
             else None
           })"

definition ExpandBlob :: "(nat \<Rightarrow> u8) \<Rightarrow> oom \<Rightarrow> mem \<Rightarrow> (result_code \<times> mem \<times> oom) option" where
  "ExpandBlob junk w pMem =
     (if mem_flags pMem AND MEM_Zero \<noteq> 0 then sqlite3VdbeMemExpandBlob junk w pMem else Some (SQLITE_OK, pMem, w))"

definition sqlite3VdbeMemMakeWriteable :: "(nat \<Rightarrow> u8) \<Rightarrow> oom \<Rightarrow> mem \<Rightarrow> (result_code \<times> mem \<times> oom) option" where
  "sqlite3VdbeMemMakeWriteable junk w pMem =
     do {
       (rc, pMem, w) \<leftarrow>
         (if mem_flags pMem AND (MEM_Str OR MEM_Blob) \<noteq> 0 then
            do {
              (rc, pMem, w) \<leftarrow> ExpandBlob junk w pMem;
              if rc \<noteq> SQLITE_OK then Some (SQLITE_NOMEM, pMem, w)
              else if mem_szMalloc pMem = 0 \<or> \<not> mem_own pMem then vdbeMemAddTerminator junk w pMem
              else Some (SQLITE_OK, pMem, w)
            }
          else Some (SQLITE_OK, pMem, w));
       if rc \<noteq> SQLITE_OK then Some (rc, pMem, w)
       else Some (SQLITE_OK, pMem\<lparr>mem_flags := mem_flags pMem AND NOT MEM_Ephem\<rparr>, w)
     }"

definition sqlite3VdbeMemNulTerminate :: "(nat \<Rightarrow> u8) \<Rightarrow> oom \<Rightarrow> mem \<Rightarrow> (result_code \<times> mem \<times> oom) option" where
  "sqlite3VdbeMemNulTerminate junk w pMem =
     (if mem_flags pMem AND (MEM_Term OR MEM_Str) \<noteq> MEM_Str then Some (SQLITE_OK, pMem, w)
      else vdbeMemAddTerminator junk w pMem)"

section \<open>What the operations promise\<close>

text \<open>The value of the cell, with the zeros that are still to be appended.\<close>

definition memText :: "mem \<Rightarrow> u8 list" where
  "memText pMem = take (mem_n pMem) (mem_z pMem)"

definition memBlob :: "mem \<Rightarrow> u8 list" where
  "memBlob pMem = memText pMem @ (if mem_flags pMem AND MEM_Zero \<noteq> 0 then replicate (mem_nZero pMem) 0 else [])"

text \<open>The invariant of a string or blob: the text lies in the object, a private buffer has the size
  recorded for it, \<^verbatim>\<open>MEM_Term\<close> on a string is true, and only a blob has a zero-filled tail.\<close>

definition mem_wf :: "mem \<Rightarrow> bool" where
  "mem_wf pMem \<longleftrightarrow>
     (mem_flags pMem AND (MEM_Str OR MEM_Blob) \<noteq> 0 \<longrightarrow> mem_n pMem \<le> length (mem_z pMem)) \<and>
     (mem_own pMem \<and> mem_szMalloc pMem > 0 \<longrightarrow> mem_szMalloc pMem = length (mem_z pMem)) \<and>
     (mem_flags pMem AND (MEM_Str OR MEM_Term) = MEM_Str OR MEM_Term \<longrightarrow> rd (mem_z pMem) (mem_n pMem) = Some 0) \<and>
     (mem_flags pMem AND MEM_Zero \<noteq> 0 \<longrightarrow> mem_flags pMem AND MEM_Blob \<noteq> 0)"

section \<open>Flags\<close>

lemma and_not_disjoint: "m AND k = 0 \<Longrightarrow> (f AND NOT m) AND k = (f :: 'a::len word) AND k"
  by (simp add: bit_eq_iff bit_simps) blast

lemma or_disjoint: "m AND k = 0 \<Longrightarrow> (f OR m) AND k = (f :: 'a::len word) AND k"
  by (simp add: bit_eq_iff bit_simps) blast

lemma and_not_self: "(f AND NOT m) AND k = 0" if "k AND NOT m = 0" for f :: "'a::len word"
  using that by (simp add: bit_eq_iff bit_simps) blast

lemma and_sub_nonzero: "(f :: 'a::len word) AND k \<noteq> 0 \<Longrightarrow> f AND (j OR k) \<noteq> 0" "f AND k \<noteq> 0 \<Longrightarrow> f AND (k OR j) \<noteq> 0"
  by (auto simp: bit_eq_iff bit_simps)

text \<open>The flags of a block in private memory.\<close>

definition blockFlags :: "u16 \<Rightarrow> u16" where
  "blockFlags f = f AND NOT (MEM_Dyn OR MEM_Ephem OR MEM_Static)"

lemma blockFlags [simp]:
  "blockFlags f AND MEM_Zero = f AND MEM_Zero" "blockFlags f AND MEM_Blob = f AND MEM_Blob"
  "blockFlags f AND MEM_Str = f AND MEM_Str" "blockFlags f AND MEM_Ephem = 0"
  "blockFlags f AND (MEM_Str OR MEM_Blob) = f AND (MEM_Str OR MEM_Blob)"
  unfolding blockFlags_def by (rule and_not_disjoint and_not_self; simp add: MEM_defs)+

section \<open>The buffer operations\<close>

lemma growBlock_ok:
  assumes "mem_n p \<le> length (mem_z p)" "mem_n p \<le> n"
  shows "\<exists>z. growBlock junk p n True = Some z \<and> length z = n \<and> take (mem_n p) z = memText p"
  using assms by (auto simp: growBlock_def memText_def min_def)

lemma grow_ok:
  assumes "mem_n p \<le> length (mem_z p)" "mem_n p \<le> n" "alloc w = (True, w')"
  shows "\<exists>z. sqlite3VdbeMemGrow junk w p n True =
      Some (SQLITE_OK, p\<lparr>mem_z := z, mem_own := True, mem_szMalloc := n, mem_flags := blockFlags (mem_flags p)\<rparr>, w') \<and>
      length z = n \<and> take (mem_n p) z = memText p"
  using growBlock_ok [OF assms(1, 2), of junk] assms(3) by (auto simp: sqlite3VdbeMemGrow_def blockFlags_def)

definition memFailed :: "mem \<Rightarrow> mem" where
  "memFailed p = p\<lparr>mem_flags := MEM_Null, mem_z := [], mem_own := True, mem_szMalloc := 0\<rparr>"

lemma grow_fails:
  "alloc w = (False, w') \<Longrightarrow> sqlite3VdbeMemGrow junk w p n b = Some (SQLITE_NOMEM, memFailed p, w')"
  by (simp add: sqlite3VdbeMemGrow_def memFailed_def sqlite3VdbeMemSetNull_def)

lemma memFailed_wf: "mem_wf (memFailed p)"
  by (simp add: mem_wf_def memFailed_def MEM_defs)

text \<open>Three zeros behind the text.\<close>

lemma wr3:
  assumes "length z = n + 3"
  shows "\<exists>z1 z2. wr z n 0 = Some z1 \<and> wr z1 (n + 1) 0 = Some z2 \<and> wr z2 (n + 2) 0 = Some (take n z @ [0, 0, 0])"
proof -
  have "length (drop n z) = Suc (Suc (Suc 0))" using assms by simp
  then obtain a b c where "drop n z = [a, b, c]" unfolding length_Suc_conv by blast
  then have z: "z = take n z @ [a, b, c]" by (metis append_take_drop_id)
  moreover have "length (take n z) = n" using assms by simp
  ultimately obtain t where "z = t @ [a, b, c]" "length t = n" by metis
  then show ?thesis
    by (auto simp: wr_def list_update_append nth_append)
qed

lemma addTerminator_ok:
  assumes "mem_n p \<le> length (mem_z p)" "alloc w = (True, w')"
  shows "vdbeMemAddTerminator junk w p =
    Some (SQLITE_OK, p\<lparr>mem_z := memText p @ [0, 0, 0], mem_own := True, mem_szMalloc := mem_n p + 3,
                  mem_flags := blockFlags (mem_flags p) OR MEM_Term\<rparr>, w')"
proof -
  obtain z where z: "sqlite3VdbeMemGrow junk w p (mem_n p + 3) True =
      Some (SQLITE_OK, p\<lparr>mem_z := z, mem_own := True, mem_szMalloc := mem_n p + 3, mem_flags := blockFlags (mem_flags p)\<rparr>, w')"
    "length z = mem_n p + 3" "take (mem_n p) z = memText p"
    using grow_ok [OF assms(1) le_add1 assms(2), of junk 3] by blast
  then show ?thesis
    using wr3 [OF z(2)] by (auto simp: vdbeMemAddTerminator_def)
qed

lemma addTerminator_fails:
  "alloc w = (False, w') \<Longrightarrow> vdbeMemAddTerminator junk w p = Some (SQLITE_NOMEM, memFailed p, w')"
  by (simp add: vdbeMemAddTerminator_def grow_fails)

text \<open>The cell with its zeros appended and \<open>z\<close> behind them.\<close>

definition expandFlags :: "u16 \<Rightarrow> u16" where
  "expandFlags f = blockFlags f AND NOT (MEM_Zero OR MEM_Term)"

definition expandedCell :: "mem \<Rightarrow> u8 list \<Rightarrow> mem" where
  "expandedCell p z =
     p\<lparr>mem_z := memText p @ replicate (mem_nZero p) 0 @ z, mem_own := True,
       mem_szMalloc := length (memText p @ replicate (mem_nZero p) 0 @ z), mem_n := mem_n p + mem_nZero p,
       mem_flags := expandFlags (mem_flags p)\<rparr>"

lemma expandBlob_ok:
  assumes "mem_n p \<le> length (mem_z p)" "alloc w = (True, w')" "mem_flags p AND MEM_Blob \<noteq> 0"
  shows "\<exists>z. sqlite3VdbeMemExpandBlob junk w p = Some (SQLITE_OK, expandedCell p z, w') \<and>
    mem_n p + mem_nZero p + length z > 0"
proof -
  let ?n = "if mem_n p + mem_nZero p = 0 then 1 else mem_n p + mem_nZero p"
  have "mem_n p \<le> ?n" by simp
  from grow_ok [OF assms(1) this assms(2), of junk] obtain z where z: "sqlite3VdbeMemGrow junk w p ?n True =
      Some (SQLITE_OK, p\<lparr>mem_z := z, mem_own := True, mem_szMalloc := ?n, mem_flags := blockFlags (mem_flags p)\<rparr>, w')"
    "length z = ?n" "take (mem_n p) z = memText p"
    by blast
  then have "length (memText p) = mem_n p" using assms(1) by (simp add: memText_def)
  with z assms(3) show ?thesis
    by (auto simp: sqlite3VdbeMemExpandBlob_def expandedCell_def expandFlags_def Let_def
        intro!: exI [of _ "drop (mem_n p + mem_nZero p) z"])
qed

lemma expandBlob_fails:
  "alloc w = (False, w') \<Longrightarrow> mem_flags p AND MEM_Blob \<noteq> 0 \<Longrightarrow>
    sqlite3VdbeMemExpandBlob junk w p = Some (SQLITE_NOMEM, memFailed p, w')"
  by (simp add: sqlite3VdbeMemExpandBlob_def Let_def grow_fails)

section \<open>Writeable and terminated cells\<close>

lemma term_flag: "f AND (MEM_Str OR MEM_Term) = MEM_Str OR MEM_Term \<Longrightarrow> f AND MEM_Term \<noteq> 0"
proof
  assume f: "f AND (MEM_Str OR MEM_Term) = MEM_Str OR MEM_Term" and "f AND MEM_Term = 0"
  moreover have "(f AND (MEM_Str OR MEM_Term)) AND MEM_Term = f AND MEM_Term"
    by (simp only: and.assoc) (simp add: MEM_defs)
  ultimately show False
    by (simp add: MEM_defs)
qed

lemma flags_noephem [simp]: "(f AND NOT MEM_Ephem) AND MEM_Zero = f AND MEM_Zero" "(f AND NOT MEM_Ephem) AND MEM_Blob = f AND MEM_Blob"
  "(f AND NOT MEM_Ephem) AND MEM_Term = f AND MEM_Term" "(f AND NOT MEM_Ephem) AND MEM_Ephem = 0"
  "(f AND NOT MEM_Ephem) AND (MEM_Str OR MEM_Blob) = f AND (MEM_Str OR MEM_Blob)"
  "(f AND NOT MEM_Ephem) AND (MEM_Str OR MEM_Term) = f AND (MEM_Str OR MEM_Term)"
  "(f AND NOT MEM_Ephem) AND MEM_Str = f AND MEM_Str"
  by (rule and_not_disjoint and_not_self; simp add: MEM_defs)+

lemma flags_term [simp]: "(f OR MEM_Term) AND MEM_Zero = f AND MEM_Zero" "(f OR MEM_Term) AND MEM_Blob = f AND MEM_Blob"
  "(f OR MEM_Term) AND (MEM_Str OR MEM_Blob) = f AND (MEM_Str OR MEM_Blob)" "(f OR MEM_Term) AND MEM_Str = f AND MEM_Str"
  by (rule or_disjoint; simp add: MEM_defs)+

text \<open>What a cell whose text has been stored in private memory looks like.\<close>

definition terminated :: "mem \<Rightarrow> mem \<Rightarrow> bool" where
  "terminated p q \<longleftrightarrow>
     mem_wf q \<and> memText q = memText p \<and> mem_n q = mem_n p \<and> mem_enc q = mem_enc p \<and>
     mem_z q = memText p @ [0, 0, 0] \<and> mem_own q \<and> mem_szMalloc q > 0"

lemma addTerminator_terminated:
  assumes "mem_n p \<le> length (mem_z p)" "mem_flags p AND MEM_Zero \<noteq> 0 \<longrightarrow> mem_flags p AND MEM_Blob \<noteq> 0"
  shows "\<exists>rc q. vdbeMemAddTerminator junk w p = Some (rc, q, snd (alloc w)) \<and>
    (if fst (alloc w)
     then rc = SQLITE_OK \<and> terminated p q \<and> mem_flags q = blockFlags (mem_flags p) OR MEM_Term
     else rc = SQLITE_NOMEM \<and> q = memFailed p)"
proof (cases "alloc w")
  case (Pair b w')
  have l: "length (memText p) = mem_n p" using assms(1) by (simp add: memText_def)
  show ?thesis
  proof (cases b)
    case True
    then show ?thesis
      using Pair assms l by (auto simp: addTerminator_ok terminated_def mem_wf_def memText_def)
  next
    case False
    then show ?thesis
      using Pair by (simp add: addTerminator_fails)
  qed
qed

text \<open>A cell is writeable when its value is in private memory without a zero-filled tail.\<close>

definition writeable :: "mem \<Rightarrow> bool" where
  "writeable q \<longleftrightarrow> mem_wf q \<and> mem_flags q AND MEM_Ephem = 0 \<and>
     (mem_flags q AND (MEM_Str OR MEM_Blob) \<noteq> 0 \<longrightarrow> mem_own q \<and> mem_szMalloc q > 0 \<and> mem_flags q AND MEM_Zero = 0)"

lemma expandFlags [simp]:
  "expandFlags f AND (MEM_Str OR MEM_Blob) = f AND (MEM_Str OR MEM_Blob)" "expandFlags f AND MEM_Str = f AND MEM_Str"
  "expandFlags f AND MEM_Zero = 0" "expandFlags f AND MEM_Term = 0"
proof -
  have d: "(MEM_Zero OR MEM_Term) AND (MEM_Str OR MEM_Blob) = 0" "(MEM_Zero OR MEM_Term) AND MEM_Str = 0"
    and c: "MEM_Zero AND NOT (MEM_Zero OR MEM_Term) = 0" "MEM_Term AND NOT (MEM_Zero OR MEM_Term) = 0"
    by (simp_all add: MEM_defs)
  show "expandFlags f AND (MEM_Str OR MEM_Blob) = f AND (MEM_Str OR MEM_Blob)" "expandFlags f AND MEM_Str = f AND MEM_Str"
    unfolding expandFlags_def and_not_disjoint [OF d(1)] and_not_disjoint [OF d(2)] by (rule blockFlags)+
  show "expandFlags f AND MEM_Zero = 0" "expandFlags f AND MEM_Term = 0"
    unfolding expandFlags_def by (rule and_not_self [OF c(1)] and_not_self [OF c(2)])+
qed

text \<open>The value of \<open>p\<close> in private memory, with its zeros.\<close>

definition expanded :: "mem \<Rightarrow> mem \<Rightarrow> bool" where
  "expanded p q \<longleftrightarrow>
     mem_wf q \<and> memText q = memBlob p \<and> memBlob q = memBlob p \<and> mem_enc q = mem_enc p \<and> mem_own q \<and>
     mem_szMalloc q > 0 \<and> mem_flags q AND MEM_Zero = 0 \<and>
     mem_flags q AND (MEM_Str OR MEM_Blob) = mem_flags p AND (MEM_Str OR MEM_Blob)"

lemma expanded_cell:
  assumes "length (memText p) = mem_n p" "mem_flags p AND MEM_Zero \<noteq> 0" "mem_n p + mem_nZero p + length z > 0"
  shows "expanded p (expandedCell p z)"
proof -
  define q where "q = expandedCell p z"
  note q = q_def expandedCell_def
  have t: "memText q = memBlob p"
    using assms(1, 2) unfolding memBlob_def memText_def [of q] by (simp add: q)
  have f: "mem_flags q AND MEM_Zero = 0" "mem_flags q AND MEM_Term = 0"
    by (simp_all add: q)
  have "mem_wf q"
    unfolding mem_wf_def using assms(1, 3) f term_flag [of "mem_flags q"] by (auto simp: q)
  moreover have "memBlob q = memBlob p"
    unfolding memBlob_def [of q] f t by simp
  moreover have "mem_szMalloc q > 0" "mem_own q" "mem_enc q = mem_enc p"
    "mem_flags q AND (MEM_Str OR MEM_Blob) = mem_flags p AND (MEM_Str OR MEM_Blob)"
    using assms(1, 3) by (auto simp: q)
  ultimately show ?thesis
    unfolding expanded_def q_def [symmetric] using t f by blast
qed

lemma expandBlob_spec:
  assumes "mem_wf p" "mem_flags p AND MEM_Zero \<noteq> 0"
  shows "\<exists>rc q. sqlite3VdbeMemExpandBlob junk w p = Some (rc, q, snd (alloc w)) \<and>
    (if fst (alloc w) then rc = SQLITE_OK \<and> expanded p q else rc = SQLITE_NOMEM \<and> q = memFailed p)"
proof -
  have b: "mem_flags p AND MEM_Blob \<noteq> 0" and n: "mem_n p \<le> length (mem_z p)"
    using assms and_sub_nonzero(1) [of "mem_flags p" MEM_Blob MEM_Str] by (auto simp: mem_wf_def)
  obtain b' w' where a: "alloc w = (b', w')" by fastforce
  show ?thesis
  proof (cases b')
    case True
    then have "alloc w = (True, w')" using a by simp
    from expandBlob_ok [OF n this b, of junk] obtain z where
      z: "sqlite3VdbeMemExpandBlob junk w p = Some (SQLITE_OK, expandedCell p z, w')" "mem_n p + mem_nZero p + length z > 0"
      by (elim exE conjE)
    have "length (memText p) = mem_n p" using n by (simp add: memText_def)
    then have "expanded p (expandedCell p z)"
      using assms(2) z(2) by (rule expanded_cell)
    then show ?thesis
      using a True z(1) by (intro exI [of _ SQLITE_OK] exI [of _ "expandedCell p z"]) simp
  next
    case False
    then show ?thesis
      using a b by (simp add: expandBlob_fails)
  qed
qed

text \<open>Clearing \<^verbatim>\<open>MEM_Ephem\<close>.\<close>

definition noEphem :: "mem \<Rightarrow> mem" where
  "noEphem q = q\<lparr>mem_flags := mem_flags q AND NOT MEM_Ephem\<rparr>"

lemma noEphem [simp]: "mem_wf (noEphem q) = mem_wf q" "memText (noEphem q) = memText q" "memBlob (noEphem q) = memBlob q"
  "mem_enc (noEphem q) = mem_enc q" "mem_z (noEphem q) = mem_z q" "mem_n (noEphem q) = mem_n q"
  "mem_flags (noEphem q) AND (MEM_Str OR MEM_Blob) = mem_flags q AND (MEM_Str OR MEM_Blob)"
  by (simp_all add: noEphem_def mem_wf_def memText_def memBlob_def)

lemma writeable_noEphem:
  assumes "mem_wf q" "mem_flags q AND (MEM_Str OR MEM_Blob) \<noteq> 0 \<longrightarrow> mem_own q \<and> mem_szMalloc q > 0 \<and> mem_flags q AND MEM_Zero = 0"
  shows "writeable (noEphem q)"
  using assms unfolding writeable_def by (simp) (simp add: noEphem_def)

lemma makeWriteable_cases:
  "mem_flags p AND (MEM_Str OR MEM_Blob) = 0 \<Longrightarrow> sqlite3VdbeMemMakeWriteable junk w p = Some (SQLITE_OK, noEphem p, w)"
  "mem_flags p AND (MEM_Str OR MEM_Blob) \<noteq> 0 \<Longrightarrow> mem_flags p AND MEM_Zero = 0 \<Longrightarrow> mem_own p \<Longrightarrow> mem_szMalloc p > 0 \<Longrightarrow>
    sqlite3VdbeMemMakeWriteable junk w p = Some (SQLITE_OK, noEphem p, w)"
  "mem_flags p AND (MEM_Str OR MEM_Blob) \<noteq> 0 \<Longrightarrow> mem_flags p AND MEM_Zero = 0 \<Longrightarrow> mem_szMalloc p = 0 \<or> \<not> mem_own p \<Longrightarrow>
    vdbeMemAddTerminator junk w p = Some (rc, q, w') \<Longrightarrow>
    sqlite3VdbeMemMakeWriteable junk w p = Some (rc, if rc = SQLITE_OK then noEphem q else q, w')"
  "mem_flags p AND (MEM_Str OR MEM_Blob) \<noteq> 0 \<Longrightarrow> mem_flags p AND MEM_Zero \<noteq> 0 \<Longrightarrow>
    sqlite3VdbeMemExpandBlob junk w p = Some (SQLITE_OK, q, w') \<Longrightarrow> mem_own q \<Longrightarrow> mem_szMalloc q > 0 \<Longrightarrow>
    sqlite3VdbeMemMakeWriteable junk w p = Some (SQLITE_OK, noEphem q, w')"
  "mem_flags p AND (MEM_Str OR MEM_Blob) \<noteq> 0 \<Longrightarrow> mem_flags p AND MEM_Zero \<noteq> 0 \<Longrightarrow>
    sqlite3VdbeMemExpandBlob junk w p = Some (SQLITE_NOMEM, q, w') \<Longrightarrow>
    sqlite3VdbeMemMakeWriteable junk w p = Some (SQLITE_NOMEM, q, w')"
  by (simp_all add: sqlite3VdbeMemMakeWriteable_def ExpandBlob_def noEphem_def)

lemma memFailed_fields [simp]: "mem_flags (memFailed p) = MEM_Null" "mem_enc (memFailed p) = mem_enc p"
  by (simp_all add: memFailed_def)

lemma makeWriteable_spec:
  assumes "mem_wf p"
  shows "\<exists>rc q w'. sqlite3VdbeMemMakeWriteable junk w p = Some (rc, q, w') \<and> mem_wf q \<and>
    (rc = SQLITE_OK \<longrightarrow> writeable q \<and> memBlob q = memBlob p \<and> mem_enc q = mem_enc p \<and>
      mem_flags q AND (MEM_Str OR MEM_Blob) = mem_flags p AND (MEM_Str OR MEM_Blob)) \<and>
    (rc \<noteq> SQLITE_OK \<longrightarrow> rc = SQLITE_NOMEM \<and> \<not> fst (alloc w) \<and> q = memFailed p)"
proof -
  let ?f = "mem_flags p"
  consider (none) "?f AND (MEM_Str OR MEM_Blob) = 0" | (zero) "?f AND (MEM_Str OR MEM_Blob) \<noteq> 0" "?f AND MEM_Zero \<noteq> 0"
    | (own) "?f AND (MEM_Str OR MEM_Blob) \<noteq> 0" "?f AND MEM_Zero = 0" "mem_own p" "mem_szMalloc p > 0"
    | (copy) "?f AND (MEM_Str OR MEM_Blob) \<noteq> 0" "?f AND MEM_Zero = 0" "mem_szMalloc p = 0 \<or> \<not> mem_own p"
    by blast
  then show ?thesis
  proof cases
    case none
    then show ?thesis
      using assms by (simp add: makeWriteable_cases(1) writeable_noEphem)
  next
    case zero
    obtain rc q where e: "sqlite3VdbeMemExpandBlob junk w p = Some (rc, q, snd (alloc w))"
      "if fst (alloc w) then rc = SQLITE_OK \<and> expanded p q else rc = SQLITE_NOMEM \<and> q = memFailed p"
      using expandBlob_spec [OF assms zero(2)] by blast
    show ?thesis
    proof (cases "fst (alloc w)")
      case True
      with e have "sqlite3VdbeMemMakeWriteable junk w p = Some (SQLITE_OK, noEphem q, snd (alloc w))"
        by (intro makeWriteable_cases(4) zero) (simp_all add: expanded_def)
      with e True show ?thesis
        by (simp add: expanded_def writeable_noEphem)
    next
      case False
      with e have "sqlite3VdbeMemMakeWriteable junk w p = Some (SQLITE_NOMEM, q, snd (alloc w))"
        by (intro makeWriteable_cases(5) zero) simp
      with e False show ?thesis
        by (simp add: memFailed_wf)
    qed
  next
    case own
    then show ?thesis
      using assms by (simp add: makeWriteable_cases(2) writeable_noEphem)
  next
    case copy
    have n: "mem_n p \<le> length (mem_z p)" using assms copy by (simp add: mem_wf_def)
    obtain rc q where t: "vdbeMemAddTerminator junk w p = Some (rc, q, snd (alloc w))"
      "if fst (alloc w) then rc = SQLITE_OK \<and> terminated p q \<and> mem_flags q = blockFlags (mem_flags p) OR MEM_Term
       else rc = SQLITE_NOMEM \<and> q = memFailed p"
      using addTerminator_terminated [OF n, of junk w] copy(2) by blast
    then have "memBlob q = memBlob p" if "fst (alloc w)"
      using that copy(2) by (simp add: terminated_def memBlob_def)
    then show ?thesis
      using t copy makeWriteable_cases(3) [OF copy t(1)]
      by (simp add: terminated_def writeable_noEphem memFailed_wf split: if_splits)
  qed
qed

lemma and_exp_cases: "f AND 2 ^ k = 0 \<or> f AND 2 ^ k = (2 ^ k :: 'a::len word)"
proof (cases "bit f k")
  case True
  then have "f AND 2 ^ k = 2 ^ k"
    by (intro bit_word_eqI) (auto simp: bit_simps)
  then show ?thesis ..
qed (simp add: and_exp_eq_0_iff_not_bit)

lemma nulTerminate_spec:
  assumes "mem_wf p"
  shows "\<exists>rc q w'. sqlite3VdbeMemNulTerminate junk w p = Some (rc, q, w') \<and> mem_wf q \<and>
    (rc = SQLITE_OK \<longrightarrow> memBlob q = memBlob p \<and> mem_enc q = mem_enc p \<and>
       (mem_flags p AND MEM_Str \<noteq> 0 \<longrightarrow> rd (mem_z q) (mem_n q) = Some 0)) \<and>
    (rc \<noteq> SQLITE_OK \<longrightarrow> rc = SQLITE_NOMEM \<and> \<not> fst (alloc w) \<and> q = memFailed p)"
proof (cases "mem_flags p AND (MEM_Term OR MEM_Str) = MEM_Str")
  case True
  then have "(mem_flags p AND (MEM_Term OR MEM_Str)) AND (MEM_Str OR MEM_Blob) \<noteq> 0"
    by (simp add: MEM_defs)
  then have "mem_flags p AND (MEM_Str OR MEM_Blob) \<noteq> 0"
    by (auto simp: bit_eq_iff bit_simps)
  then have n: "mem_n p \<le> length (mem_z p)"
    using assms by (simp add: mem_wf_def)
  moreover have z: "mem_flags p AND MEM_Zero \<noteq> 0 \<longrightarrow> mem_flags p AND MEM_Blob \<noteq> 0"
    using assms by (simp add: mem_wf_def)
  ultimately obtain rc q where t: "vdbeMemAddTerminator junk w p = Some (rc, q, snd (alloc w))"
    "if fst (alloc w) then rc = SQLITE_OK \<and> terminated p q \<and> mem_flags q = blockFlags (mem_flags p) OR MEM_Term
     else rc = SQLITE_NOMEM \<and> q = memFailed p"
    using addTerminator_terminated [of p junk w] by blast
  have "memBlob q = memBlob p \<and> rd (mem_z q) (mem_n q) = Some 0 \<and> mem_wf q \<and> mem_enc q = mem_enc p" if a: "fst (alloc w)"
  proof -
    have "mem_flags q AND MEM_Zero = mem_flags p AND MEM_Zero" "terminated p q" "length (memText p) = mem_n p"
      using a t(2) n by (simp_all add: memText_def)
    moreover have "mem_nZero q = mem_nZero p"
      using t a n by (cases "alloc w") (auto simp: addTerminator_ok)
    ultimately show ?thesis
      by (simp add: terminated_def memBlob_def)
  qed
  with True t show ?thesis
    by (simp add: sqlite3VdbeMemNulTerminate_def memFailed_wf split: if_splits)
next
  case False
  have "mem_flags p AND (MEM_Str OR MEM_Term) = MEM_Str OR MEM_Term" if "mem_flags p AND MEM_Str \<noteq> 0"
  proof -
    have "mem_flags p AND (MEM_Term OR MEM_Str) = (mem_flags p AND MEM_Term) OR (mem_flags p AND MEM_Str)"
      by (simp add: bit_eq_iff bit_simps) blast
    moreover have "mem_flags p AND MEM_Str = MEM_Str" "mem_flags p AND MEM_Term = 0 \<or> mem_flags p AND MEM_Term = MEM_Term"
      using that and_exp_cases [of "mem_flags p" 1] and_exp_cases [of "mem_flags p" 9] by (simp_all add: MEM_defs)
    ultimately show ?thesis
      using False by (auto simp: ac_simps)
  qed
  then show ?thesis
    using False assms by (simp add: sqlite3VdbeMemNulTerminate_def) (simp add: mem_wf_def)
qed

text \<open>
  The contract that the operations on the buffer of a cell share: they never leave the object, keep
  the invariant and the value, and fail only when an allocation fails, leaving a NULL.
\<close>

locale mem_buffer_op =
  fixes buffer_op :: "(nat \<Rightarrow> u8) \<Rightarrow> oom \<Rightarrow> mem \<Rightarrow> (result_code \<times> mem \<times> oom) option"
  assumes op_safe: "mem_wf p \<Longrightarrow> \<exists>rc q w'. buffer_op junk w p = Some (rc, q, w') \<and> mem_wf q \<and>
    (rc = SQLITE_OK \<longrightarrow> memBlob q = memBlob p \<and> mem_enc q = mem_enc p) \<and>
    (rc \<noteq> SQLITE_OK \<longrightarrow> rc = SQLITE_NOMEM \<and> \<not> fst (alloc w) \<and> q = memFailed p)"
begin

lemma op_keeps_value:
  assumes "mem_wf p" "buffer_op junk w p = Some (SQLITE_OK, q, w')"
  shows "mem_wf q \<and> memBlob q = memBlob p \<and> mem_enc q = mem_enc p"
  using op_safe [OF assms(1), of junk w] assms(2) by auto

lemma op_succeeds:
  assumes "mem_wf p" "fst (alloc w)"
  shows "\<exists>q w'. buffer_op junk w p = Some (SQLITE_OK, q, w')"
  using op_safe [OF assms(1), of junk w] assms(2) by auto

lemma op_failure_is_null:
  assumes "mem_wf p" "buffer_op junk w p = Some (rc, q, w')" "rc \<noteq> SQLITE_OK"
  shows "rc = SQLITE_NOMEM \<and> \<not> fst (alloc w) \<and> mem_flags q = MEM_Null \<and> mem_wf q"
  using op_safe [OF assms(1), of junk w] assms(2, 3) by auto

end

interpretation writeable_op: mem_buffer_op sqlite3VdbeMemMakeWriteable
  by unfold_locales (use makeWriteable_spec in blast)

interpretation terminate_op: mem_buffer_op sqlite3VdbeMemNulTerminate
  by unfold_locales (use nulTerminate_spec in blast)

text \<open>C19: The routines that manage the buffer of a \<^verbatim>\<open>Mem\<close> cell (\<^verbatim>\<open>sqlite3VdbeMemMakeWriteable\<close>,
  \<^verbatim>\<open>sqlite3VdbeMemNulTerminate\<close>, \<^verbatim>\<open>sqlite3VdbeMemExpandBlob\<close>) never read or write outside the buffer,
  for every pattern of allocation failures and every content of fresh memory. They keep the
  invariant of the cell and its value (with the zeros of its tail). On success the first leaves a
  private buffer that may be written, the second a terminating zero, the third no zero-filled tail;
  the only error is \<^verbatim>\<open>SQLITE_NOMEM\<close>, after an allocation failed, and the cell is then NULL.\<close>

theorem mem_buffer_safe:
  assumes "mem_wf p"
  shows "(\<exists>rc q w'. sqlite3VdbeMemMakeWriteable junk w p = Some (rc, q, w') \<and> mem_wf q \<and>
      (rc = SQLITE_OK \<longrightarrow> writeable q \<and> memBlob q = memBlob p \<and> mem_enc q = mem_enc p) \<and>
      (rc \<noteq> SQLITE_OK \<longrightarrow> rc = SQLITE_NOMEM \<and> \<not> fst (alloc w) \<and> mem_flags q = MEM_Null)) \<and>
    (\<exists>rc q w'. sqlite3VdbeMemNulTerminate junk w p = Some (rc, q, w') \<and> mem_wf q \<and>
      (rc = SQLITE_OK \<longrightarrow> memBlob q = memBlob p \<and> mem_enc q = mem_enc p \<and>
         (mem_flags p AND MEM_Str \<noteq> 0 \<longrightarrow> rd (mem_z q) (mem_n q) = Some 0)) \<and>
      (rc \<noteq> SQLITE_OK \<longrightarrow> rc = SQLITE_NOMEM \<and> \<not> fst (alloc w) \<and> mem_flags q = MEM_Null)) \<and>
    (mem_flags p AND MEM_Zero \<noteq> 0 \<longrightarrow>
      (\<exists>rc q w'. sqlite3VdbeMemExpandBlob junk w p = Some (rc, q, w') \<and> mem_wf q \<and>
        (rc = SQLITE_OK \<longrightarrow> memText q = memBlob p \<and> mem_flags q AND MEM_Zero = 0) \<and>
        (rc \<noteq> SQLITE_OK \<longrightarrow> rc = SQLITE_NOMEM \<and> \<not> fst (alloc w) \<and> mem_flags q = MEM_Null)))"
proof (intro conjI impI)
  show "\<exists>rc q w'. sqlite3VdbeMemMakeWriteable junk w p = Some (rc, q, w') \<and> mem_wf q \<and>
      (rc = SQLITE_OK \<longrightarrow> writeable q \<and> memBlob q = memBlob p \<and> mem_enc q = mem_enc p) \<and>
      (rc \<noteq> SQLITE_OK \<longrightarrow> rc = SQLITE_NOMEM \<and> \<not> fst (alloc w) \<and> mem_flags q = MEM_Null)"
    using makeWriteable_spec [OF assms, of junk w] writeable_op.op_failure_is_null [OF assms, of junk w] by blast
  show "\<exists>rc q w'. sqlite3VdbeMemNulTerminate junk w p = Some (rc, q, w') \<and> mem_wf q \<and>
      (rc = SQLITE_OK \<longrightarrow> memBlob q = memBlob p \<and> mem_enc q = mem_enc p \<and>
         (mem_flags p AND MEM_Str \<noteq> 0 \<longrightarrow> rd (mem_z q) (mem_n q) = Some 0)) \<and>
      (rc \<noteq> SQLITE_OK \<longrightarrow> rc = SQLITE_NOMEM \<and> \<not> fst (alloc w) \<and> mem_flags q = MEM_Null)"
    using nulTerminate_spec [OF assms, of junk w] terminate_op.op_failure_is_null [OF assms, of junk w] by blast
  assume "mem_flags p AND MEM_Zero \<noteq> 0"
  from expandBlob_spec [OF assms this, of junk w] obtain rc q where
    "sqlite3VdbeMemExpandBlob junk w p = Some (rc, q, snd (alloc w))"
    "if fst (alloc w) then rc = SQLITE_OK \<and> expanded p q else rc = SQLITE_NOMEM \<and> q = memFailed p"
    by (elim exE conjE)
  then show "\<exists>rc q w'. sqlite3VdbeMemExpandBlob junk w p = Some (rc, q, w') \<and> mem_wf q \<and>
        (rc = SQLITE_OK \<longrightarrow> memText q = memBlob p \<and> mem_flags q AND MEM_Zero = 0) \<and>
        (rc \<noteq> SQLITE_OK \<longrightarrow> rc = SQLITE_NOMEM \<and> \<not> fst (alloc w) \<and> mem_flags q = MEM_Null)"
    by (simp add: expanded_def memFailed_wf split: if_splits)
qed

definition sampleMem :: mem where
  "sampleMem = \<lparr>mem_nZero = 0, mem_flags = MEM_Str OR MEM_Static, mem_enc = SQLITE_UTF8, mem_n = 2,
    mem_z = [0x61, 0x62, 0x63], mem_own = False, mem_szMalloc = 0\<rparr>"

theorem mem_buffer_safe_witness:
  "mem_wf sampleMem \<and>
   (\<exists>rc q w'. sqlite3VdbeMemNulTerminate (\<lambda>_. 7) [True] sampleMem = Some (rc, q, w') \<and> mem_wf q \<and> rc = SQLITE_OK \<and>
      memBlob q = memBlob sampleMem \<and> mem_z q = [0x61, 0x62, 0, 0, 0])"
proof -
  have wf: "mem_wf sampleMem" by (simp add: mem_wf_def sampleMem_def MEM_defs)
  have "map_option (\<lambda>(rc, q, w'). (rc, mem_z q)) (sqlite3VdbeMemNulTerminate (\<lambda>_. 7) [True] sampleMem) =
      Some (SQLITE_OK, [0x61, 0x62, 0, 0, 0])"
    by code_simp
  with mem_buffer_safe [OF wf, of "\<lambda>_. 7" "[True]"] wf show ?thesis
    by auto
qed

end
