(* ===== verification/Utf.thy ===== *)
theory Utf
  imports VdbeMem
begin

text \<open>
  The text encodings of \<^verbatim>\<open>utf.c\<close>: reading and writing single characters in UTF-8 and in both
  byte orders of UTF-16, translating a value between the encodings, and counting characters.

  A character is a 32-bit word, as in the code; the readers accept malformed input. The input of a
  reader is the list of bytes up to \<^verbatim>\<open>zTerm\<close>, and its result the character and the bytes that are
  left. The output buffer of the translation has the computed size, and \<open>None\<close> is a write behind
  its end.
\<close>

section \<open>Writing characters\<close>

definition WRITE_UTF8 :: "u32 \<Rightarrow> u8 list" where
  "WRITE_UTF8 c =
     (if c < 0x80 then [ucast (c AND 0xFF)]
      else if c < 0x800 then
        [0xC0 + ucast (drop_bit 6 c AND 0x1F), 0x80 + ucast (c AND 0x3F)]
      else if c < 0x10000 then
        [0xE0 + ucast (drop_bit 12 c AND 0x0F), 0x80 + ucast (drop_bit 6 c AND 0x3F),
         0x80 + ucast (c AND 0x3F)]
      else
        [0xF0 + ucast (drop_bit 18 c AND 0x07), 0x80 + ucast (drop_bit 12 c AND 0x3F),
         0x80 + ucast (drop_bit 6 c AND 0x3F), 0x80 + ucast (c AND 0x3F)])"

definition WRITE_UTF16LE :: "u32 \<Rightarrow> u8 list" where
  "WRITE_UTF16LE c =
     (if c \<le> 0xFFFF then [ucast (c AND 0xFF), ucast (drop_bit 8 c AND 0xFF)]
      else
        [ucast ((drop_bit 10 c AND 0x3F) + (drop_bit 10 (c - 0x10000) AND 0xC0)),
         ucast (0xD8 + (drop_bit 18 (c - 0x10000) AND 0x03)),
         ucast (c AND 0xFF),
         ucast (0xDC + (drop_bit 8 c AND 0x03))])"

definition WRITE_UTF16BE :: "u32 \<Rightarrow> u8 list" where
  "WRITE_UTF16BE c =
     (if c \<le> 0xFFFF then [ucast (drop_bit 8 c AND 0xFF), ucast (c AND 0xFF)]
      else
        [ucast (0xD8 + (drop_bit 18 (c - 0x10000) AND 0x03)),
         ucast ((drop_bit 10 c AND 0x3F) + (drop_bit 10 (c - 0x10000) AND 0xC0)),
         ucast (0xDC + (drop_bit 8 c AND 0x03)),
         ucast (c AND 0xFF)])"

section \<open>Reading characters\<close>

definition sqlite3Utf8Trans1 :: "u8 list" where
  "sqlite3Utf8Trans1 =
    [0x00, 0x01, 0x02, 0x03, 0x04, 0x05, 0x06, 0x07,
     0x08, 0x09, 0x0a, 0x0b, 0x0c, 0x0d, 0x0e, 0x0f,
     0x10, 0x11, 0x12, 0x13, 0x14, 0x15, 0x16, 0x17,
     0x18, 0x19, 0x1a, 0x1b, 0x1c, 0x1d, 0x1e, 0x1f,
     0x00, 0x01, 0x02, 0x03, 0x04, 0x05, 0x06, 0x07,
     0x08, 0x09, 0x0a, 0x0b, 0x0c, 0x0d, 0x0e, 0x0f,
     0x00, 0x01, 0x02, 0x03, 0x04, 0x05, 0x06, 0x07,
     0x00, 0x01, 0x02, 0x03, 0x00, 0x01, 0x00, 0x00]"

text \<open>\<^verbatim>\<open>c<0x80 || (c&0xFFFFF800)==0xD800 || (c&0xFFFFFFFE)==0xFFFE\<close>\<close>

definition utf8Invalid :: "u32 \<Rightarrow> bool" where
  "utf8Invalid c \<longleftrightarrow> c < 0x80 \<or> c AND 0xFFFFF800 = 0xD800 \<or> c AND 0xFFFFFFFE = 0xFFFE"

text \<open>The loop over the continuation bytes of \<^verbatim>\<open>READ_UTF8\<close>.\<close>

fun utf8Cont :: "u32 \<Rightarrow> u8 list \<Rightarrow> u32 \<times> u8 list" where
  "utf8Cont c [] = (c, [])"
| "utf8Cont c (b # zIn) =
     (if b AND 0xc0 = 0x80 then utf8Cont (push_bit 6 c + ucast (0x3f AND b)) zIn else (c, b # zIn))"

fun READ_UTF8 :: "u8 list \<Rightarrow> (u32 \<times> u8 list) option" where
  "READ_UTF8 [] = None"
| "READ_UTF8 (b # zIn) =
     (if b \<ge> 0xc0 then
        (case rd sqlite3Utf8Trans1 (unat (b - 0xc0)) of
           None \<Rightarrow> None
         | Some t \<Rightarrow>
             (case utf8Cont (ucast t) zIn of
                (c, zIn) \<Rightarrow> Some (if utf8Invalid c then 0xFFFD else c, zIn)))
      else Some (ucast b, zIn))"

text \<open>The same loop in \<^verbatim>\<open>sqlite3Utf8Read\<close>, which relies on the terminator.\<close>

fun utf8ReadCont :: "u32 \<Rightarrow> u8 list \<Rightarrow> (u32 \<times> u8 list) option" where
  "utf8ReadCont c [] = None"
| "utf8ReadCont c (b # z) =
     (if b AND 0xc0 = 0x80 then utf8ReadCont (push_bit 6 c + ucast (0x3f AND b)) z
      else Some (c, b # z))"

fun sqlite3Utf8Read :: "u8 list \<Rightarrow> (u32 \<times> u8 list) option" where
  "sqlite3Utf8Read [] = None"
| "sqlite3Utf8Read (b # z) =
     (if b \<ge> 0xc0 then
        do {
          t \<leftarrow> rd sqlite3Utf8Trans1 (unat (b - 0xc0));
          (c, z) \<leftarrow> utf8ReadCont (ucast t) z;
          Some (if utf8Invalid c then 0xFFFD else c, z)
        }
      else Some (ucast b, z))"

text \<open>The combination of two surrogates.\<close>

definition utf16Pair :: "u32 \<Rightarrow> u32 \<Rightarrow> u32" where
  "utf16Pair c c2 = (c2 AND 0x03FF) + push_bit 10 (c AND 0x003F) + push_bit 10 ((c AND 0x03C0) + 0x0040)"

definition le16 :: "u8 \<Rightarrow> u8 \<Rightarrow> u32" where "le16 b0 b1 = ucast b0 + push_bit 8 (ucast b1)"
definition be16 :: "u8 \<Rightarrow> u8 \<Rightarrow> u32" where "be16 b0 b1 = push_bit 8 (ucast b0) + ucast b1"

text \<open>\<open>term z\<close> is the condition \<^verbatim>\<open>TERM\<close> at the pointer \<open>z\<close>.\<close>

definition READ_UTF16 :: "(u8 \<Rightarrow> u8 \<Rightarrow> u32) \<Rightarrow> (u8 list \<Rightarrow> bool) \<Rightarrow> u8 list \<Rightarrow> (u32 \<times> u8 list) option" where
  "READ_UTF16 pair term zIn =
     do {
       b0 \<leftarrow> rd zIn 0;
       b1 \<leftarrow> rd zIn 1;
       let c = pair b0 b1;
       let zIn = drop 2 zIn;
       if 0xD800 \<le> c \<and> c < 0xE000 \<and> term zIn then
         do {
           b2 \<leftarrow> rd zIn 0;
           b3 \<leftarrow> rd zIn 1;
           Some (utf16Pair c (pair b2 b3), drop 2 zIn)
         }
       else Some (c, zIn)
     }"

definition READ_UTF16LE :: "(u8 list \<Rightarrow> bool) \<Rightarrow> u8 list \<Rightarrow> (u32 \<times> u8 list) option" where
  "READ_UTF16LE = READ_UTF16 le16"

definition READ_UTF16BE :: "(u8 list \<Rightarrow> bool) \<Rightarrow> u8 list \<Rightarrow> (u32 \<times> u8 list) option" where
  "READ_UTF16BE = READ_UTF16 be16"

section \<open>Translation\<close>

text \<open>The loops of the translation: read characters until \<^verbatim>\<open>zTerm\<close> and write each to a buffer of
  \<open>len\<close> bytes, of which \<open>out\<close> has been written. A reader that did not advance would loop forever;
  this is \<open>None\<close> as well.\<close>

function transLoop ::
  "(u8 list \<Rightarrow> (u32 \<times> u8 list) option) \<Rightarrow> (u32 \<Rightarrow> u8 list) \<Rightarrow> nat \<Rightarrow> u8 list \<Rightarrow> u8 list \<Rightarrow> u8 list option" where
  "transLoop reader writer len out zIn =
     (if zIn = [] then Some out
      else
        case reader zIn of
          None \<Rightarrow> None
        | Some (c, zIn') \<Rightarrow>
            if length out + length (writer c) \<le> len \<and> length zIn' < length zIn
            then transLoop reader writer len (out @ writer c) zIn'
            else None)"
  by pat_completeness auto
termination by (relation "measure (\<lambda>(r, w, l, out, zIn). length zIn)") auto

declare transLoop.simps [simp del]

text \<open>The exchange of the byte order in place, two bytes at a time.\<close>

fun swapLoop :: "u8 list \<Rightarrow> u8 list" where
  "swapLoop (a # b # zIn) = b # a # swapLoop zIn"
| "swapLoop zIn = zIn"

fun translateChars :: "enc \<Rightarrow> enc \<Rightarrow> nat \<Rightarrow> u8 list \<Rightarrow> u8 list option" where
  "translateChars SQLITE_UTF8 SQLITE_UTF16LE len zIn = transLoop READ_UTF8 WRITE_UTF16LE len [] zIn"
| "translateChars SQLITE_UTF8 _ len zIn = transLoop READ_UTF8 WRITE_UTF16BE len [] zIn"
| "translateChars SQLITE_UTF16LE _ len zIn = transLoop (READ_UTF16LE (\<lambda>z. z \<noteq> [])) WRITE_UTF8 len [] zIn"
| "translateChars SQLITE_UTF16BE _ len zIn = transLoop (READ_UTF16BE (\<lambda>z. z \<noteq> [])) WRITE_UTF8 len [] zIn"

text \<open>The result is a new block of \<open>len\<close> bytes, with two zeros behind UTF-16 and one behind UTF-8.\<close>

definition sqlite3VdbeMemTranslate ::
  "(nat \<Rightarrow> u8) \<Rightarrow> oom \<Rightarrow> mem \<Rightarrow> enc \<Rightarrow> (result_code \<times> mem \<times> oom) option" where
  "sqlite3VdbeMemTranslate junk w pMem desiredEnc =
     (if mem_enc pMem \<noteq> SQLITE_UTF8 \<and> desiredEnc \<noteq> SQLITE_UTF8 then
        do {
          (rc, pMem, w) \<leftarrow> sqlite3VdbeMemMakeWriteable junk w pMem;
          if rc \<noteq> SQLITE_OK then Some (SQLITE_NOMEM, pMem, w)
          else
            let m = mem_n pMem - mem_n pMem mod 2
            in if m \<le> length (mem_z pMem) then
                 Some (SQLITE_OK,
                   pMem\<lparr>mem_z := swapLoop (take m (mem_z pMem)) @ drop m (mem_z pMem), mem_enc := desiredEnc\<rparr>, w)
               else None
        }
      else
        (let pMem = (if desiredEnc = SQLITE_UTF8 then pMem\<lparr>mem_n := mem_n pMem - mem_n pMem mod 2\<rparr> else pMem);
             len = (if desiredEnc = SQLITE_UTF8 then 2 * mem_n pMem + 1 else 2 * mem_n pMem + 2)
         in case alloc w of
              (False, w) \<Rightarrow> Some (SQLITE_NOMEM, pMem, w)
            | (True, w) \<Rightarrow>
                if mem_n pMem \<le> length (mem_z pMem) then
                  do {
                    zOut \<leftarrow> translateChars (mem_enc pMem) desiredEnc len (take (mem_n pMem) (mem_z pMem));
                    let z = zOut @ (if mem_enc pMem = SQLITE_UTF8 then [0, 0] else [0]);
                    if length z \<le> len then
                      Some (SQLITE_OK,
                        pMem\<lparr>mem_flags := MEM_Str OR MEM_Term OR (mem_flags pMem AND (MEM_AffMask OR MEM_Subtype)),
                             mem_enc := desiredEnc, mem_n := length zOut,
                             mem_z := z @ map junk [length z..<len], mem_own := True, mem_szMalloc := len\<rparr>, w)
                    else None
                  }
                else None))"

definition sqlite3VdbeChangeEncoding ::
  "(nat \<Rightarrow> u8) \<Rightarrow> oom \<Rightarrow> mem \<Rightarrow> enc \<Rightarrow> (result_code \<times> mem \<times> oom) option" where
  "sqlite3VdbeChangeEncoding junk w pMem desiredEnc =
     (if mem_flags pMem AND MEM_Str = 0 \<or> mem_enc pMem = desiredEnc then Some (SQLITE_OK, pMem, w)
      else sqlite3VdbeMemTranslate junk w pMem desiredEnc)"

definition bomOf :: "u8 \<Rightarrow> u8 \<Rightarrow> enc option" where
  "bomOf b1 b2 =
     (if b1 = 0xFE \<and> b2 = 0xFF then Some SQLITE_UTF16BE
      else if b1 = 0xFF \<and> b2 = 0xFE then Some SQLITE_UTF16LE else None)"

definition sqlite3VdbeMemHandleBom :: "(nat \<Rightarrow> u8) \<Rightarrow> oom \<Rightarrow> mem \<Rightarrow> (result_code \<times> mem \<times> oom) option" where
  "sqlite3VdbeMemHandleBom junk w pMem =
     do {
       bom \<leftarrow>
         (if mem_n pMem > 1 then
            do { b1 \<leftarrow> rd (mem_z pMem) 0; b2 \<leftarrow> rd (mem_z pMem) 1; Some (bomOf b1 b2) }
          else Some None);
       case bom of
         None \<Rightarrow> Some (SQLITE_OK, pMem, w)
       | Some bom \<Rightarrow>
           do {
             (rc, pMem, w) \<leftarrow> sqlite3VdbeMemMakeWriteable junk w pMem;
             if rc \<noteq> SQLITE_OK then Some (rc, pMem, w)
             else
               let n = mem_n pMem - 2
               in if n + 2 \<le> length (mem_z pMem) then
                    do {
                      z \<leftarrow> wr (take n (drop 2 (mem_z pMem)) @ drop n (mem_z pMem)) n 0;
                      z \<leftarrow> wr z (n + 1) 0;
                      Some (SQLITE_OK,
                        pMem\<lparr>mem_n := n, mem_z := z, mem_flags := mem_flags pMem OR MEM_Term, mem_enc := bom\<rparr>, w)
                    }
                  else None
           }
     }"

section \<open>Counting\<close>

text \<open>\<^verbatim>\<open>SQLITE_SKIP_UTF8\<close> at the position \<open>i\<close>.\<close>

function skipCont :: "u8 list \<Rightarrow> nat \<Rightarrow> nat option" where
  "skipCont z i = (case rd z i of None \<Rightarrow> None | Some b \<Rightarrow> if b AND 0xc0 = 0x80 then skipCont z (i + 1) else Some i)"
  by pat_completeness auto
termination by (relation "measure (\<lambda>(z, i). length z - i)") (auto simp: rd_def split: if_splits)

declare skipCont.simps [simp del]

definition SQLITE_SKIP_UTF8 :: "u8 list \<Rightarrow> nat \<Rightarrow> nat option" where
  "SQLITE_SKIP_UTF8 z i =
     (case rd z i of None \<Rightarrow> None | Some b \<Rightarrow> if b \<ge> 0xc0 then skipCont z (i + 1) else Some (i + 1))"

text \<open>The loop of \<^verbatim>\<open>sqlite3Utf8CharLen\<close>; \<open>zTerm\<close> is \<open>None\<close> for a negative \<^verbatim>\<open>nByte\<close>.\<close>

fun charLenLoop :: "nat \<Rightarrow> u8 list \<Rightarrow> nat option \<Rightarrow> nat \<Rightarrow> int \<Rightarrow> int option" where
  "charLenLoop fuel z zTerm i r =
     (case rd z i of
        None \<Rightarrow> None
      | Some b \<Rightarrow>
          if b \<noteq> 0 \<and> (case zTerm of None \<Rightarrow> True | Some t \<Rightarrow> i < t) then
            (case fuel of
               0 \<Rightarrow> None
             | Suc fuel \<Rightarrow>
                 (case SQLITE_SKIP_UTF8 z i of
                    None \<Rightarrow> None
                  | Some j \<Rightarrow> charLenLoop fuel z zTerm j (r + 1)))
          else Some r)"

declare charLenLoop.simps [simp del]

definition sqlite3Utf8CharLen :: "u8 list \<Rightarrow> int \<Rightarrow> int option" where
  "sqlite3Utf8CharLen zIn nByte =
     charLenLoop (length zIn) zIn (if nByte \<ge> 0 then Some (nat nByte) else None) 0 0"

fun utf16Skip :: "nat \<Rightarrow> u8 list \<Rightarrow> u8 list option" where
  "utf16Skip 0 z = Some z"
| "utf16Skip (Suc k) z = (case READ_UTF16LE (\<lambda>z. True) z of None \<Rightarrow> None | Some (c, z) \<Rightarrow> utf16Skip k z)"

text \<open>The native byte order is little-endian.\<close>

definition sqlite3Utf16ByteLen :: "u8 list \<Rightarrow> int \<Rightarrow> int option" where
  "sqlite3Utf16ByteLen zIn nChar =
     map_option (\<lambda>z. int (length zIn) - int (length z)) (utf16Skip (nat nChar) zIn)"

section \<open>Masks as remainders\<close>

lemma unat_and_mask: "unat ((x :: 'a::len word) AND mask k) = unat x mod 2 ^ k"
  by (simp only: take_bit_eq_mask [symmetric] unsigned_take_bit_eq) (simp add: take_bit_eq_mod)

lemma unat_shift: "unat (drop_bit k (c :: 'a::len word)) = unat c div 2 ^ k"
  by (simp only: unat_drop_bit_eq) (simp only: drop_bit_eq_div)

lemma masks:
  "(0x3F :: 'a::len word) = mask 6" "(0x1F :: 'a::len word) = mask 5" "(0x0F :: 'a::len word) = mask 4"
  "(0x07 :: 'a::len word) = mask 3" "(0x03 :: 'a::len word) = mask 2" "(0xFF :: 'a::len word) = mask 8"
  "(0x3FF :: 'a::len word) = mask 10"
  by (simp_all add: mask_eq_exp_minus_1)

lemma unat_and:
  fixes x :: "'a::len word"
  shows "unat (x AND 0x3F) = unat x mod 64" "unat (x AND 0x1F) = unat x mod 32" "unat (x AND 0x0F) = unat x mod 16"
    "unat (x AND 0x07) = unat x mod 8" "unat (x AND 0x03) = unat x mod 4" "unat (x AND 0xFF) = unat x mod 256"
    "unat (x AND 0x3FF) = unat x mod 1024"
  unfolding masks by (simp_all add: unat_and_mask)

lemma and_shifted_mask: "(x :: 'a::len word) AND push_bit j (mask k) = push_bit j (drop_bit j x AND mask k)"
  by (rule bit_word_eqI) (auto simp: bit_simps)

lemma unat_and_shifted:
  fixes x :: u32
  shows "unat (x AND 0xC0) = unat x div 64 mod 4 * 64" "unat (x AND 0x3C0) = unat x div 64 mod 16 * 64"
proof -
  have m: "(0xC0 :: u32) = push_bit 6 (mask 2)" "(0x3C0 :: u32) = push_bit 6 (mask 4)"
    by (simp_all add: mask_eq_exp_minus_1 push_bit_eq_mult)
  have "unat (push_bit 6 (y AND mask k)) = unat y mod 2 ^ k * 64" if "k \<le> 4" for y :: u32 and k
  proof -
    have "unat y mod 2 ^ k < 2 ^ k" by simp
    also have "(2 :: nat) ^ k \<le> 2 ^ 4" using that by (intro power_increasing) simp_all
    finally have "unat y mod 2 ^ k < 16" by simp
    then show ?thesis
      by (simp add: push_bit_eq_mult unat_word_ariths unat_and_mask mult.commute)
  qed
  from this [of 2 "drop_bit 6 x"] this [of 4 "drop_bit 6 x"]
  show "unat (x AND 0xC0) = unat x div 64 mod 4 * 64" "unat (x AND 0x3C0) = unat x div 64 mod 16 * 64"
    unfolding m and_shifted_mask unat_shift by simp_all
qed

lemma unat_ucast_u8: "unat (ucast (x :: u32) :: u8) = unat x mod 256"
  by (simp add: unsigned_ucast_eq take_bit_eq_mod)

lemma unat_ucast_up [simp]: "unat (ucast (b :: u8) :: u32) = unat b"
  using unat_u8_less [of b] by (simp add: unsigned_ucast_eq take_bit_nat_eq_self_iff del: unat_u8_less)

section \<open>UTF-8\<close>

definition small :: "nat \<Rightarrow> u8 list" where "small m = map of_nat [0..<m]"

lemma smallI: "unat (k :: u8) < m \<Longrightarrow> k \<in> set (small m)"
proof -
  assume "unat k < m"
  then have "k = of_nat (unat k)" "unat k \<in> set [0..<m]" by simp_all
  then show ?thesis unfolding small_def by (metis image_eqI list.set_map)
qed

lemma cont_byte:
  assumes "unat (k :: u8) < 64"
  shows "(0x80 + k) AND 0xc0 = 0x80" "0x3f AND (0x80 + k) = k"
proof -
  have "list_all (\<lambda>k :: u8. (0x80 + k) AND 0xc0 = 0x80 \<and> 0x3f AND (0x80 + k) = k) (small 64)"
    by code_simp
  then show "(0x80 + k) AND 0xc0 = 0x80" "0x3f AND (0x80 + k) = k"
    using smallI [OF assms] by (auto simp: list_all_iff)
qed

lemma lead_byte:
  "unat (k :: u8) < 32 \<Longrightarrow> 0xc0 \<le> 0xC0 + k \<and> rd sqlite3Utf8Trans1 (unat (0xC0 + k - 0xc0)) = Some k"
  "unat (k :: u8) < 16 \<Longrightarrow> 0xc0 \<le> 0xE0 + k \<and> rd sqlite3Utf8Trans1 (unat (0xE0 + k - 0xc0)) = Some k"
  "unat (k :: u8) < 8 \<Longrightarrow> 0xc0 \<le> 0xF0 + k \<and> rd sqlite3Utf8Trans1 (unat (0xF0 + k - 0xc0)) = Some k"
proof -
  have "list_all (\<lambda>k :: u8. 0xc0 \<le> 0xC0 + k \<and> rd sqlite3Utf8Trans1 (unat (0xC0 + k - 0xc0)) = Some k) (small 32)"
    "list_all (\<lambda>k :: u8. 0xc0 \<le> 0xE0 + k \<and> rd sqlite3Utf8Trans1 (unat (0xE0 + k - 0xc0)) = Some k) (small 16)"
    "list_all (\<lambda>k :: u8. 0xc0 \<le> 0xF0 + k \<and> rd sqlite3Utf8Trans1 (unat (0xF0 + k - 0xc0)) = Some k) (small 8)"
    by code_simp+
  then show "unat k < 32 \<Longrightarrow> 0xc0 \<le> 0xC0 + k \<and> rd sqlite3Utf8Trans1 (unat (0xC0 + k - 0xc0)) = Some k"
    "unat k < 16 \<Longrightarrow> 0xc0 \<le> 0xE0 + k \<and> rd sqlite3Utf8Trans1 (unat (0xE0 + k - 0xc0)) = Some k"
    "unat k < 8 \<Longrightarrow> 0xc0 \<le> 0xF0 + k \<and> rd sqlite3Utf8Trans1 (unat (0xF0 + k - 0xc0)) = Some k"
    using smallI by (auto simp: list_all_iff)
qed

text \<open>The six bits of a character from position \<open>j\<close> on.\<close>

definition six :: "nat \<Rightarrow> u32 \<Rightarrow> u8" where "six j c = ucast (drop_bit j c AND 0x3F)"

lemma unat_six: "unat (six j c) = unat c div 2 ^ j mod 64"
proof -
  have "unat c div 2 ^ j mod 64 < 64" by simp
  then have "unat c div 2 ^ j mod 64 < 256" by linarith
  then show ?thesis
    by (simp add: six_def unat_ucast_u8 unat_and unat_shift)
qed

lemma six_less: "unat (six j c) < 64"
  by (simp add: unat_six)

lemma cont_step:
  "utf8Cont a ((0x80 + six j c) # r) = utf8Cont (push_bit 6 a + ucast (six j c)) r"
  "utf8ReadCont a ((0x80 + six j c) # r) = utf8ReadCont (push_bit 6 a + ucast (six j c)) r"
  using cont_byte [OF six_less, of j c] by simp_all

text \<open>Appending the next six bits.\<close>

lemma six_append:
  assumes "unat c < 2 ^ 32"
  shows "push_bit 6 (drop_bit (j + 6) c) + ucast (six j c) = drop_bit j c"
proof (rule unsigned_word_eqI [where 'a = nat])
  let ?n = "unat c div 2 ^ j"
  have d: "unat c div 2 ^ (j + 6) = ?n div 64"
    by (simp add: power_add div_mult2_eq)
  have "?n < 2 ^ 32"
    using assms div_le_dividend [of "unat c" "2 ^ j"] by linarith
  moreover have "?n div 64 * 64 + ?n mod 64 = ?n" by simp
  ultimately show "unat (push_bit 6 (drop_bit (j + 6) c) + ucast (six j c)) = unat (drop_bit j c)"
    unfolding push_bit_eq_mult
    by (simp add: unat_word_ariths unat_shift unat_six d mult.commute)
qed

lemma lead_eq:
  "c < 0x800 \<Longrightarrow> ucast (ucast (drop_bit 6 c AND 0x1F) :: u8) = (drop_bit 6 c :: u32) \<and> unat (ucast (drop_bit 6 c AND 0x1F) :: u8) < 32"
  "c < 0x10000 \<Longrightarrow> ucast (ucast (drop_bit 12 c AND 0x0F) :: u8) = (drop_bit 12 c :: u32) \<and> unat (ucast (drop_bit 12 c AND 0x0F) :: u8) < 16"
  "c < 0x200000 \<Longrightarrow> ucast (ucast (drop_bit 18 c AND 0x07) :: u8) = (drop_bit 18 c :: u32) \<and> unat (ucast (drop_bit 18 c AND 0x07) :: u8) < 8"
proof -
  have e: "ucast (ucast (drop_bit j c AND m) :: u8) = (drop_bit j c :: u32) \<and> unat (ucast (drop_bit j c AND m) :: u8) < b"
    if "unat (drop_bit j c AND m) = unat c div 2 ^ j mod b" "unat c div 2 ^ j < b" "b \<le> 256" for j b and c m :: u32
  proof -
    have l: "unat c div 2 ^ j < 256" using that by linarith
    have u: "unat (ucast (drop_bit j c AND m) :: u8) = unat c div 2 ^ j"
      using that l by (simp add: unat_ucast_u8)
    then have "ucast (ucast (drop_bit j c AND m) :: u8) = (drop_bit j c :: u32)"
      by (intro unsigned_word_eqI [where 'a = nat]) (simp add: unat_shift)
    with u that show ?thesis by simp
  qed
  show "c < 0x800 \<Longrightarrow> ucast (ucast (drop_bit 6 c AND 0x1F) :: u8) = (drop_bit 6 c :: u32) \<and> unat (ucast (drop_bit 6 c AND 0x1F) :: u8) < 32"
    by (rule e) (auto simp: unat_and unat_shift word_less_nat_alt)
  show "c < 0x10000 \<Longrightarrow> ucast (ucast (drop_bit 12 c AND 0x0F) :: u8) = (drop_bit 12 c :: u32) \<and> unat (ucast (drop_bit 12 c AND 0x0F) :: u8) < 16"
    by (rule e) (auto simp: unat_and unat_shift word_less_nat_alt)
  show "c < 0x200000 \<Longrightarrow> ucast (ucast (drop_bit 18 c AND 0x07) :: u8) = (drop_bit 18 c :: u32) \<and> unat (ucast (drop_bit 18 c AND 0x07) :: u8) < 8"
    by (rule e) (auto simp: unat_and unat_shift word_less_nat_alt)
qed

lemma write_six:
  "WRITE_UTF8 c =
     (if c < 0x80 then [ucast c]
      else if c < 0x800 then [0xC0 + ucast (drop_bit 6 c AND 0x1F), 0x80 + six 0 c]
      else if c < 0x10000 then [0xE0 + ucast (drop_bit 12 c AND 0x0F), 0x80 + six 6 c, 0x80 + six 0 c]
      else [0xF0 + ucast (drop_bit 18 c AND 0x07), 0x80 + six 12 c, 0x80 + six 6 c, 0x80 + six 0 c])"
proof -
  have "ucast (c AND 0xFF) = (ucast c :: u8)"
    by (intro unsigned_word_eqI [where 'a = nat]) (simp add: unat_ucast_u8 unat_and)
  then show ?thesis
    by (simp add: WRITE_UTF8_def six_def)
qed

text \<open>Not a continuation byte next.\<close>

definition boundary :: "u8 list \<Rightarrow> bool" where
  "boundary r \<longleftrightarrow> (case r of [] \<Rightarrow> True | b # _ \<Rightarrow> b AND 0xc0 \<noteq> 0x80)"

lemma cont_boundary: "boundary r \<Longrightarrow> utf8Cont c r = (c, r)"
  by (cases r) (auto simp: boundary_def)

lemma readCont_boundary: "boundary r \<Longrightarrow> r \<noteq> [] \<Longrightarrow> utf8ReadCont c r = Some (c, r)"
  by (cases r) (auto simp: boundary_def)

lemma six_bits: "push_bit 6 (drop_bit 6 c) + ucast (six 0 c) = c" "push_bit 6 (drop_bit 12 c) + ucast (six 6 c) = drop_bit 6 c"
  "push_bit 6 (drop_bit 18 c) + ucast (six 12 c) = drop_bit 12 c"
  using six_append [of c 0] six_append [of c 6] six_append [of c 12] unsigned_less [of c, where 'a = nat] by simp_all

lemma low_byte: "c < (0x80 :: u32) \<Longrightarrow> \<not> 0xc0 \<le> (ucast c :: u8) \<and> ucast (ucast c :: u8) = c"
proof -
  assume "c < 0x80"
  then have u: "unat (ucast c :: u8) = unat c" "unat c < 128"
    by (simp_all add: unat_ucast_u8 word_less_nat_alt)
  then have "ucast (ucast c :: u8) = c"
    by (intro unsigned_word_eqI [where 'a = nat]) simp
  with u show ?thesis
    by (simp add: word_le_nat_alt)
qed

lemma read_write_utf8:
  assumes "c < 0x200000" "boundary r"
  shows "READ_UTF8 (WRITE_UTF8 c @ r) = Some (if 0x80 \<le> c \<and> utf8Invalid c then 0xFFFD else c, r)"
    and "r \<noteq> [] \<Longrightarrow> sqlite3Utf8Read (WRITE_UTF8 c @ r) = Some (if 0x80 \<le> c \<and> utf8Invalid c then 0xFFFD else c, r)"
proof -
  consider "c < 0x80" | "\<not> c < 0x80" "c < 0x800" | "\<not> c < 0x80" "\<not> c < 0x800" "c < 0x10000"
    | "\<not> c < 0x80" "\<not> c < 0x800" "\<not> c < 0x10000"
    by blast
  then have "READ_UTF8 (WRITE_UTF8 c @ r) = Some (if 0x80 \<le> c \<and> utf8Invalid c then 0xFFFD else c, r) \<and>
    (r \<noteq> [] \<longrightarrow> sqlite3Utf8Read (WRITE_UTF8 c @ r) = Some (if 0x80 \<le> c \<and> utf8Invalid c then 0xFFFD else c, r))"
  proof cases
    case 1
    then show ?thesis
      using low_byte [OF 1] by (auto simp: write_six)
  next
    case 2
    then have ge: "0x80 \<le> c" by (simp add: linorder_not_less)
    from 2 show ?thesis
      using lead_eq(1) [OF 2(2)] lead_byte(1) [of "ucast (drop_bit 6 c AND 0x1F)"] assms(2)
      by (simp add: write_six cont_step cont_boundary readCont_boundary six_bits ge del: utf8Cont.simps utf8ReadCont.simps)
  next
    case 3
    then have ge: "0x80 \<le> c" by (simp add: linorder_not_less)
    from 3 show ?thesis
      using lead_eq(2) [OF 3(3)] lead_byte(2) [of "ucast (drop_bit 12 c AND 0x0F)"] assms(2)
      by (simp add: write_six cont_step cont_boundary readCont_boundary six_bits ge del: utf8Cont.simps utf8ReadCont.simps)
  next
    case 4
    then have ge: "0x80 \<le> c" by (simp add: linorder_not_less)
    from 4 show ?thesis
      using lead_eq(3) [OF assms(1)] lead_byte(3) [of "ucast (drop_bit 18 c AND 0x07)"] assms(2)
      by (simp add: write_six cont_step cont_boundary readCont_boundary six_bits ge del: utf8Cont.simps utf8ReadCont.simps)
  qed
  then show "READ_UTF8 (WRITE_UTF8 c @ r) = Some (if 0x80 \<le> c \<and> utf8Invalid c then 0xFFFD else c, r)"
    "r \<noteq> [] \<Longrightarrow> sqlite3Utf8Read (WRITE_UTF8 c @ r) = Some (if 0x80 \<le> c \<and> utf8Invalid c then 0xFFFD else c, r)"
    by blast+
qed

section \<open>UTF-16\<close>

lemma unat_le16: "unat (le16 a b) = unat a + unat b * 256"
proof -
  have "unat a < 256" "unat b < 256" by simp_all
  then have "unat a + unat b * 256 < 4294967296" by linarith
  then show ?thesis
    by (simp add: le16_def push_bit_eq_mult unat_word_ariths mult.commute)
qed

lemma be16_le16: "be16 a b = le16 b a"
  by (simp add: be16_def le16_def add.commute)

lemma le16_bmp:
  assumes "c \<le> 0xFFFF"
  shows "le16 (ucast (c AND 0xFF)) (ucast (drop_bit 8 c AND 0xFF)) = c"
proof (rule unsigned_word_eqI [where 'a = nat])
  have "unat c < 65536" using assms by (simp add: word_le_nat_alt)
  then have "unat c div 256 mod 256 = unat c div 256" by simp
  then show "unat (le16 (ucast (c AND 0xFF)) (ucast (drop_bit 8 c AND 0xFF))) = unat c"
    by (simp add: unat_le16 unat_ucast_u8 unat_and unat_shift)
qed

text \<open>The four bytes of a surrogate pair.\<close>

definition sur0 :: "u32 \<Rightarrow> u8" where
  "sur0 c = ucast ((drop_bit 10 c AND 0x3F) + (drop_bit 10 (c - 0x10000) AND 0xC0))"
definition sur1 :: "u32 \<Rightarrow> u8" where "sur1 c = ucast (0xD8 + (drop_bit 18 (c - 0x10000) AND 0x03))"
definition sur2 :: "u32 \<Rightarrow> u8" where "sur2 c = ucast (c AND 0xFF)"
definition sur3 :: "u32 \<Rightarrow> u8" where "sur3 c = ucast (0xDC + (drop_bit 8 c AND 0x03))"

lemma surrogates:
  assumes "0x10000 \<le> c" "c < 0x110000"
  shows "unat (le16 (sur0 c) (sur1 c)) = 0xD800 + (unat c - 65536) div 1024"
    and "unat (le16 (sur2 c) (sur3 c)) = 0xDC00 + unat c mod 1024"
proof -
  define m where "m = unat c - 65536"
  have n: "unat c = m + 65536" "m < 1048576"
    using assms by (simp_all add: m_def word_le_nat_alt word_less_nat_alt)
  have sub: "unat (c - 0x10000) = m"
    using assms n by (simp add: unat_sub)
  define h where "h = m div 1024"
  have h: "h < 1024" using n(2) by (simp add: h_def)
  have d10: "unat c div 1024 = h + 64" using n(1) by (simp add: h_def)
  have d18: "m div 262144 = h div 256" by (simp add: h_def div_mult2_eq [symmetric])
  have hd: "h div 256 < 4" using h by simp
  have "h mod 64 + h div 64 mod 4 * 64 = h mod 256"
    using mod_mult2_eq [of h 64 4] by (simp add: mult.commute)
  moreover have "h mod 256 < 256" by simp
  moreover have "h mod 64 + h div 64 mod 4 * 64 < 4294967296"
    using calculation by simp
  ultimately have s0: "unat (sur0 c) = h mod 256"
    unfolding sur0_def by (simp add: unat_ucast_u8 unat_word_ariths unat_and unat_and_shifted unat_shift sub d10 flip: h_def)
  have s1: "unat (sur1 c) = 216 + h div 256"
    using hd unfolding sur1_def by (simp add: unat_ucast_u8 unat_word_ariths unat_and unat_shift sub d18)
  have "216 * 256 + h div 256 * 256 + h mod 256 = 55296 + h" by simp
  then show "unat (le16 (sur0 c) (sur1 c)) = 0xD800 + (unat c - 65536) div 1024"
    by (simp add: unat_le16 s0 s1 h_def m_def)
  have s2: "unat (sur2 c) = unat c mod 256"
    by (simp add: sur2_def unat_ucast_u8 unat_and)
  have s3: "unat (sur3 c) = 220 + unat c div 256 mod 4"
    by (simp add: sur3_def unat_ucast_u8 unat_word_ariths unat_and unat_shift)
  show "unat (le16 (sur2 c) (sur3 c)) = 0xDC00 + unat c mod 1024"
    using mod_mult2_eq [of "unat c" 256 4] by (simp add: unat_le16 s2 s3 mult.commute)
qed

lemma utf16Pair_surrogates:
  assumes "0x10000 \<le> c" "c < 0x110000"
  shows "utf16Pair (le16 (sur0 c) (sur1 c)) (le16 (sur2 c) (sur3 c)) = c"
proof (rule unsigned_word_eqI [where 'a = nat])
  let ?a = "le16 (sur0 c) (sur1 c)" and ?b = "le16 (sur2 c) (sur3 c)"
  define h where "h = (unat c - 65536) div 1024"
  have n: "65536 \<le> unat c" "unat c < 1114112"
    using assms by (simp_all add: word_le_nat_alt word_less_nat_alt)
  then have h: "h < 1024" by (simp add: h_def)
  have a: "unat ?a mod 64 = h mod 64" "unat ?a div 64 mod 16 = h div 64"
  proof -
    have u: "unat ?a = h + 64 * 864"
      using surrogates(1) [OF assms] by (simp flip: h_def)
    show "unat ?a mod 64 = h mod 64"
      unfolding u by (rule mod_mult_self2)
    have "(h + 64 * 864) div 64 = h div 64 + 16 * 54" by simp
    then have "(h + 64 * 864) div 64 mod 16 = h div 64 mod 16"
      by (simp only: mod_mult_self2)
    then show "unat ?a div 64 mod 16 = h div 64"
      unfolding u using h by simp
  qed
  have "unat ?b = unat c mod 1024 + 1024 * 55"
    using surrogates(2) [OF assms] by simp
  then have b: "unat ?b mod 1024 = unat c mod 1024"
    by (simp only: mod_mult_self2 mod_mod_trivial)
  have "unat c mod 1024 = (unat c - 65536) mod 1024"
    using n mod_mult_self1 [of "unat c - 65536" 64 1024] by simp
  moreover have "(unat c - 65536) mod 1024 + h * 1024 = unat c - 65536"
    by (simp add: h_def)
  moreover have "h mod 64 * 1024 + h div 64 * 64 * 1024 = h * 1024"
    using div_mult_mod_eq [of h 64] by linarith
  ultimately have "unat c mod 1024 + h mod 64 * 1024 + (h div 64 * 64 + 64) * 1024 = unat c"
    using n by (simp only: add_mult_distrib) linarith
  moreover have "h div 64 * 64 + 64 < 2000" using h by simp
  ultimately show "unat (utf16Pair ?a ?b) = unat c"
    using n unfolding utf16Pair_def push_bit_eq_mult
    by (simp add: unat_word_ariths unat_and unat_and_shifted a b mult.commute)
qed

definition scalar :: "u32 \<Rightarrow> bool" where
  "scalar c \<longleftrightarrow> c < 0x110000 \<and> \<not> (0xD800 \<le> c \<and> c < 0xE000)"

lemma read_write_utf16:
  assumes "scalar c" "\<And>b2 b3. term (b2 # b3 # r)"
  shows "READ_UTF16LE term (WRITE_UTF16LE c @ r) = Some (c, r)" "READ_UTF16BE term (WRITE_UTF16BE c @ r) = Some (c, r)"
proof -
  have "READ_UTF16LE term (WRITE_UTF16LE c @ r) = Some (c, r) \<and> READ_UTF16BE term (WRITE_UTF16BE c @ r) = Some (c, r)"
  proof (cases "c \<le> 0xFFFF")
    case True
    then show ?thesis
      using assms(1) by (auto simp: READ_UTF16LE_def READ_UTF16BE_def READ_UTF16_def WRITE_UTF16LE_def
          WRITE_UTF16BE_def be16_le16 le16_bmp scalar_def Let_def)
  next
    case False
    then have c: "0x10000 \<le> c" "c < 0x110000"
      using assms(1) by (auto simp: scalar_def word_le_nat_alt)
    have w: "WRITE_UTF16LE c = [sur0 c, sur1 c, sur2 c, sur3 c]" "WRITE_UTF16BE c = [sur1 c, sur0 c, sur3 c, sur2 c]"
      using False by (simp_all add: WRITE_UTF16LE_def WRITE_UTF16BE_def sur0_def sur1_def sur2_def sur3_def)
    have "(unat c - 65536) div 1024 < 1024"
      using c(2) by (simp add: word_less_nat_alt)
    then have "0xD800 \<le> le16 (sur0 c) (sur1 c)" "le16 (sur0 c) (sur1 c) < 0xE000"
      using surrogates(1) [OF c] by (simp_all add: word_le_nat_alt word_less_nat_alt)
    then show ?thesis
      using assms(2) utf16Pair_surrogates [OF c]
      by (simp add: READ_UTF16LE_def READ_UTF16BE_def READ_UTF16_def w be16_le16 Let_def)
  qed
  then show "READ_UTF16LE term (WRITE_UTF16LE c @ r) = Some (c, r)" "READ_UTF16BE term (WRITE_UTF16BE c @ r) = Some (c, r)"
    by simp_all
qed

section \<open>The translation stays in its buffer\<close>

lemma transLoop_ok:
  assumes step: "\<And>z. z \<noteq> [] \<Longrightarrow> I z \<Longrightarrow> \<exists>c z'. reader z = Some (c, z') \<and> I z' \<and> length z' < length z \<and>
      length (writer c) \<le> 2 * (length z - length z')"
    and "I zIn" "length out + 2 * length zIn \<le> len"
  shows "\<exists>ys. transLoop reader writer len out zIn = Some (out @ ys) \<and> length ys \<le> 2 * length zIn"
  using assms(2, 3)
proof (induction "length zIn" arbitrary: zIn out rule: less_induct)
  case less
  show ?case
  proof (cases "zIn = []")
    case True
    then show ?thesis
      by (subst transLoop.simps) simp
  next
    case False
    with step less.prems obtain c z' where c: "reader zIn = Some (c, z')" "I z'" "length z' < length zIn"
      "length (writer c) \<le> 2 * (length zIn - length z')"
      by blast
    then have "length (out @ writer c) + 2 * length z' \<le> len"
      using less.prems by simp
    from less.hyps [OF c(3, 2) this] obtain ys where
      "transLoop reader writer len (out @ writer c) z' = Some (out @ writer c @ ys)" "length ys \<le> 2 * length z'"
      by auto
    then show ?thesis
      using False c less.prems by (subst transLoop.simps) (auto intro!: exI [of _ "writer c @ ys"])
  qed
qed

lemma utf8Cont_shrinks: "utf8Cont c z = (c', z') \<Longrightarrow> length z' \<le> length z \<and> (length z' = length z \<longrightarrow> c' = c)"
  by (induction c z rule: utf8Cont.induct) (fastforce split: if_splits)+

lemma trans1_less: "t \<in> set sqlite3Utf8Trans1 \<Longrightarrow> (ucast t :: u32) < 0x80"
  by (auto simp: sqlite3Utf8Trans1_def word_less_nat_alt)

lemma trans1_length: "length sqlite3Utf8Trans1 = 64"
  by (simp add: sqlite3Utf8Trans1_def)

lemma write16_length:
  "length (WRITE_UTF16LE c) = (if c \<le> 0xFFFF then 2 else 4)" "length (WRITE_UTF16BE c) = (if c \<le> 0xFFFF then 2 else 4)"
  by (simp_all add: WRITE_UTF16LE_def WRITE_UTF16BE_def)

lemma read_utf8_step:
  assumes "z \<noteq> []"
  shows "\<exists>c z'. READ_UTF8 z = Some (c, z') \<and> length z' < length z \<and> (c \<le> 0xFFFF \<or> length z' + 2 \<le> length z)"
proof -
  obtain b r where z: "z = b # r" using assms by (cases z) auto
  show ?thesis
  proof (cases "0xc0 \<le> b")
    case True
    have "unat (b - 0xc0) < 64"
      using True unat_u8_less [of b] by (simp add: unat_sub word_le_nat_alt del: unat_u8_less)
    then have t: "rd sqlite3Utf8Trans1 (unat (b - 0xc0)) = Some (sqlite3Utf8Trans1 ! unat (b - 0xc0))"
      "sqlite3Utf8Trans1 ! unat (b - 0xc0) \<in> set sqlite3Utf8Trans1"
      by (simp_all add: rd_def trans1_length)
    obtain c z' where c: "utf8Cont (ucast (sqlite3Utf8Trans1 ! unat (b - 0xc0))) r = (c, z')" by fastforce
    have "length z' = length r \<Longrightarrow> utf8Invalid c"
      using utf8Cont_shrinks [OF c] trans1_less [OF t(2)] by (simp add: utf8Invalid_def)
    then show ?thesis
      using True t c utf8Cont_shrinks [OF c] by (fastforce simp: z)
  next
    case False
    have "unat (ucast b :: u32) \<le> 65535" using unat_u8_less [of b] by (simp del: unat_u8_less)
    with False show ?thesis
      by (simp add: z word_le_nat_alt)
  qed
qed

lemma read_utf16_step:
  assumes "z \<noteq> []" "even (length z)"
  shows "\<exists>c z'. READ_UTF16 pair (\<lambda>z. z \<noteq> []) z = Some (c, z') \<and> even (length z') \<and> length z' + 2 \<le> length z"
proof -
  obtain a b r where z: "z = a # b # r" "even (length r)"
    using assms by (cases z; cases "tl z") auto
  show ?thesis
  proof (cases r)
    case (Cons d s)
    with z(2) obtain e s' where "s = e # s'" by (cases s) auto
    with z Cons show ?thesis
      by (auto simp: READ_UTF16_def Let_def)
  qed (auto simp: READ_UTF16_def Let_def z)
qed

lemma write8_length: "length (WRITE_UTF8 c) \<le> 4"
  by (simp add: WRITE_UTF8_def)

lemma trans_8_16:
  assumes "writer = WRITE_UTF16LE \<or> writer = WRITE_UTF16BE" "2 * length zIn \<le> len"
  shows "\<exists>ys. transLoop READ_UTF8 writer len [] zIn = Some ys \<and> length ys \<le> 2 * length zIn"
proof -
  have "\<exists>c z'. READ_UTF8 z = Some (c, z') \<and> True \<and> length z' < length z \<and> length (writer c) \<le> 2 * (length z - length z')"
    if "z \<noteq> []" for z
    using read_utf8_step [OF that] assms(1) by (fastforce simp: write16_length)
  then show ?thesis
    using transLoop_ok [where I = "\<lambda>_. True" and reader = READ_UTF8 and writer = writer and zIn = zIn and out = "[]"
        and len = len] assms(2)
    by simp
qed

lemma trans_16_8:
  assumes "even (length zIn)" "2 * length zIn \<le> len"
  shows "\<exists>ys. transLoop (READ_UTF16 pair (\<lambda>z. z \<noteq> [])) WRITE_UTF8 len [] zIn = Some ys \<and> length ys \<le> 2 * length zIn"
proof -
  have "\<exists>c z'. READ_UTF16 pair (\<lambda>z. z \<noteq> []) z = Some (c, z') \<and> even (length z') \<and> length z' < length z \<and>
      length (WRITE_UTF8 c) \<le> 2 * (length z - length z')"
    if nz: "z \<noteq> []" and ev: "even (length z)" for z
  proof -
    obtain c z' where c: "READ_UTF16 pair (\<lambda>z. z \<noteq> []) z = Some (c, z')" "even (length z')" "length z' + 2 \<le> length z"
      using read_utf16_step [OF nz ev] by blast
    moreover have "length (WRITE_UTF8 c) \<le> 2 * (length z - length z')"
      using write8_length [of c] c(3) by linarith
    moreover have "length z' < length z" using c(3) by simp
    ultimately show ?thesis by blast
  qed
  then show ?thesis
    using transLoop_ok [where I = "\<lambda>z. even (length z)" and reader = "READ_UTF16 pair (\<lambda>z. z \<noteq> [])"
        and writer = WRITE_UTF8 and zIn = zIn and out = "[]" and len = len] assms
    by simp
qed

section \<open>The translation of a text\<close>

lemma transLoop_chars:
  assumes "transLoop reader writer len out (concat (map w cs)) = Some ys"
    and "\<And>c r. c \<in> set cs \<Longrightarrow> (\<exists>ds. r = concat (map w ds) \<and> set ds \<subseteq> set cs) \<Longrightarrow> reader (w c @ r) = Some (c, r) \<and> w c \<noteq> []"
  shows "ys = out @ concat (map writer cs)"
  using assms
proof (induction cs arbitrary: out)
  case Nil
  then show ?case by (subst (asm) transLoop.simps) simp
next
  case (Cons c cs)
  have r: "reader (w c @ concat (map w cs)) = Some (c, concat (map w cs))" "w c \<noteq> []"
    using Cons.prems(2) [of c "concat (map w cs)"] by (auto intro!: exI [of _ cs])
  then have "transLoop reader writer len (out @ writer c) (concat (map w cs)) = Some ys"
    using Cons.prems(1) by (subst (asm) transLoop.simps) (auto split: if_splits)
  then have "ys = (out @ writer c) @ concat (map writer cs)"
  proof (rule Cons.IH)
    fix d r
    assume "d \<in> set cs" "\<exists>ds. r = concat (map w ds) \<and> set ds \<subseteq> set cs"
    then show "reader (w d @ r) = Some (d, r) \<and> w d \<noteq> []"
      by (intro Cons.prems(2)) auto
  qed
  then show ?case by simp
qed

text \<open>A text in each of the encodings.\<close>

fun writer :: "enc \<Rightarrow> u32 \<Rightarrow> u8 list" where
  "writer SQLITE_UTF8 = WRITE_UTF8"
| "writer SQLITE_UTF16LE = WRITE_UTF16LE"
| "writer SQLITE_UTF16BE = WRITE_UTF16BE"

definition encode :: "enc \<Rightarrow> u32 list \<Rightarrow> u8 list" where
  "encode e cs = concat (map (writer e) cs)"

text \<open>The characters that every reader accepts: not a surrogate and not \<^verbatim>\<open>U+FFFE\<close> or \<^verbatim>\<open>U+FFFF\<close>.\<close>

definition textChar :: "u32 \<Rightarrow> bool" where
  "textChar c \<longleftrightarrow> scalar c \<and> c \<noteq> 0xFFFE \<and> c \<noteq> 0xFFFF"

lemma translateChars_ok:
  assumes "e \<noteq> d" "e = SQLITE_UTF8 \<or> d = SQLITE_UTF8" "d = SQLITE_UTF8 \<longrightarrow> even (length z)" "2 * length z \<le> len"
  shows "\<exists>ys. translateChars e d len z = Some ys \<and> length ys \<le> 2 * length z"
  using assms trans_8_16 [of WRITE_UTF16LE z len] trans_8_16 [of WRITE_UTF16BE z len] trans_16_8 [of z len le16] trans_16_8 [of z len be16]
  by (cases e; cases d) (simp_all add: READ_UTF16LE_def READ_UTF16BE_def)

lemma write16_even: "even (length (WRITE_UTF16LE c))" "even (length (WRITE_UTF16BE c))"
  by (simp_all add: write16_length)

lemma encode16_even: "e \<noteq> SQLITE_UTF8 \<Longrightarrow> even (length (encode e cs))"
  by (cases e; induction cs) (simp_all add: encode_def write16_even)

lemma swap_write: "swapLoop (WRITE_UTF16LE c @ r) = WRITE_UTF16BE c @ swapLoop r" "swapLoop (WRITE_UTF16BE c @ r) = WRITE_UTF16LE c @ swapLoop r"
  by (simp_all add: WRITE_UTF16LE_def WRITE_UTF16BE_def)

lemma swap_encode: "swapLoop (encode SQLITE_UTF16LE cs) = encode SQLITE_UTF16BE cs" "swapLoop (encode SQLITE_UTF16BE cs) = encode SQLITE_UTF16LE cs"
  by (induction cs) (simp_all add: encode_def swap_write)

lemma length_swapLoop [simp]: "length (swapLoop z) = length z"
  by (induction z rule: swapLoop.induct) auto

text \<open>The first byte of a character in UTF-8 is not a continuation byte.\<close>

lemma lead_boundary:
  "unat (k :: u8) < 128 \<Longrightarrow> k AND 0xc0 \<noteq> 0x80" "unat (k :: u8) < 32 \<Longrightarrow> (0xC0 + k) AND 0xc0 \<noteq> 0x80"
  "unat (k :: u8) < 16 \<Longrightarrow> (0xE0 + k) AND 0xc0 \<noteq> 0x80" "unat (k :: u8) < 8 \<Longrightarrow> (0xF0 + k) AND 0xc0 \<noteq> 0x80"
proof -
  have "list_all (\<lambda>k :: u8. k AND 0xc0 \<noteq> 0x80) (small 128)" "list_all (\<lambda>k :: u8. (0xC0 + k) AND 0xc0 \<noteq> 0x80) (small 32)"
    "list_all (\<lambda>k :: u8. (0xE0 + k) AND 0xc0 \<noteq> 0x80) (small 16)" "list_all (\<lambda>k :: u8. (0xF0 + k) AND 0xc0 \<noteq> 0x80) (small 8)"
    by code_simp+
  then show "unat k < 128 \<Longrightarrow> k AND 0xc0 \<noteq> 0x80" "unat k < 32 \<Longrightarrow> (0xC0 + k) AND 0xc0 \<noteq> 0x80"
    "unat k < 16 \<Longrightarrow> (0xE0 + k) AND 0xc0 \<noteq> 0x80" "unat k < 8 \<Longrightarrow> (0xF0 + k) AND 0xc0 \<noteq> 0x80"
    using smallI by (auto simp: list_all_iff)
qed

lemma write8_boundary: "c < 0x200000 \<Longrightarrow> boundary (WRITE_UTF8 c @ r)" "WRITE_UTF8 c \<noteq> []"
proof -
  show "WRITE_UTF8 c \<noteq> []" by (simp add: WRITE_UTF8_def)
  assume "c < 0x200000"
  then have "(if c < 0x80 then unat (ucast c :: u8) < 128 else if c < 0x800 then unat (ucast (drop_bit 6 c AND 0x1F) :: u8) < 32
     else if c < 0x10000 then unat (ucast (drop_bit 12 c AND 0x0F) :: u8) < 16 else unat (ucast (drop_bit 18 c AND 0x07) :: u8) < 8)"
    using lead_eq [of c] by (simp add: unat_ucast_u8 word_less_nat_alt)
  then show "boundary (WRITE_UTF8 c @ r)"
    by (simp add: write_six boundary_def lead_boundary split: if_splits)
qed

lemma and_high: "unat (drop_bit k (c AND push_bit k (mask j))) = unat c div 2 ^ k mod 2 ^ j" if "k + j = 32" for c :: u32
proof -
  have "drop_bit k (c AND push_bit k (mask j)) = drop_bit k c AND mask j"
    using that by (intro bit_word_eqI) (auto simp: bit_simps)
  then show ?thesis by (simp add: unat_and_mask unat_shift)
qed

lemma textChar_valid:
  assumes "textChar c" "0x80 \<le> c"
  shows "\<not> utf8Invalid c"
proof
  assume "utf8Invalid c"
  then consider "c AND 0xFFFFF800 = 0xD800" | "c AND 0xFFFFFFFE = 0xFFFE"
    using assms(2) by (auto simp: utf8Invalid_def)
  then show False
  proof cases
    case 1
    have "(0xFFFFF800 :: u32) = push_bit 11 (mask 21)" by (simp add: mask_eq_exp_minus_1 push_bit_eq_mult)
    with 1 and_high [of 11 21 c] have "unat c div 2048 mod 2097152 = unat (drop_bit 11 (0xD800 :: u32))" by simp
    moreover have "unat c div 2048 < 2097152" using unsigned_less [of c, where 'a = nat] by simp
    ultimately have "unat c div 2048 = 27" by simp
    then have "55296 \<le> unat c" "unat c < 57344" by (auto simp: div_nat_eqI)
    then show False using assms(1) by (simp add: textChar_def scalar_def word_le_nat_alt word_less_nat_alt)
  next
    case 2
    have "(0xFFFFFFFE :: u32) = push_bit 1 (mask 31)" by (simp add: mask_eq_exp_minus_1 push_bit_eq_mult)
    with 2 and_high [of 1 31 c] have "unat c div 2 mod 2147483648 = unat (drop_bit 1 (0xFFFE :: u32))" by simp
    moreover have "unat c div 2 < 2147483648" using unsigned_less [of c, where 'a = nat] by simp
    ultimately have "unat c div 2 = 32767" by simp
    then have "unat c = 65534 \<or> unat c = 65535" by linarith
    then have "c = 0xFFFE \<or> c = 0xFFFF" by (auto intro!: unsigned_word_eqI [where 'a = nat])
    then show False using assms(1) by (auto simp: textChar_def)
  qed
qed

lemma textChar_less: "textChar c \<Longrightarrow> c < 0x200000"
  by (simp add: textChar_def scalar_def word_less_nat_alt)

lemma encode8_boundary: "\<forall>c\<in>set cs. textChar c \<Longrightarrow> boundary (encode SQLITE_UTF8 cs)"
  by (cases cs) (auto simp: encode_def boundary_def [of "[]"] intro!: write8_boundary textChar_less)

lemma encode_Cons [simp]: "encode e (c # cs) = writer e c @ encode e cs" and encode_Nil [simp]: "encode e [] = []"
  by (simp_all add: encode_def)

lemma read8_encode:
  assumes "textChar c" "boundary r"
  shows "READ_UTF8 (WRITE_UTF8 c @ r) = Some (c, r)" "r \<noteq> [] \<Longrightarrow> sqlite3Utf8Read (WRITE_UTF8 c @ r) = Some (c, r)"
  using read_write_utf8 [OF textChar_less [OF assms(1)] assms(2)] textChar_valid [OF assms(1)] by auto

lemma write16_nonempty: "WRITE_UTF16LE c \<noteq> []" "WRITE_UTF16BE c \<noteq> []"
  by (simp_all add: WRITE_UTF16LE_def WRITE_UTF16BE_def)

lemma translateChars_encode:
  assumes "translateChars e d len (encode e cs) = Some ys" "\<forall>c\<in>set cs. textChar c" "e \<noteq> d" "e = SQLITE_UTF8 \<or> d = SQLITE_UTF8"
  shows "ys = encode d cs"
proof -
  have 8: "READ_UTF8 (WRITE_UTF8 c @ r) = Some (c, r) \<and> WRITE_UTF8 c \<noteq> []"
    if "c \<in> set cs" "\<exists>ds. r = concat (map WRITE_UTF8 ds) \<and> set ds \<subseteq> set cs" for c r
    using that assms(2) encode8_boundary by (fastforce simp: encode_def intro!: read8_encode write8_boundary)
  have 16: "READ_UTF16LE (\<lambda>z. z \<noteq> []) (WRITE_UTF16LE c @ r) = Some (c, r) \<and> WRITE_UTF16LE c \<noteq> []"
    "READ_UTF16BE (\<lambda>z. z \<noteq> []) (WRITE_UTF16BE c @ r) = Some (c, r) \<and> WRITE_UTF16BE c \<noteq> []"
    if "c \<in> set cs" for c r
    using that assms(2) by (auto simp: read_write_utf16 textChar_def write16_nonempty)
  consider "e = SQLITE_UTF8" "d = SQLITE_UTF16LE" | "e = SQLITE_UTF8" "d = SQLITE_UTF16BE"
    | "e = SQLITE_UTF16LE" "d = SQLITE_UTF8" | "e = SQLITE_UTF16BE" "d = SQLITE_UTF8"
    using assms(3, 4) by (cases e; cases d) auto
  then show ?thesis
  proof cases
    case 1
    then show ?thesis
      using assms(1) transLoop_chars [of READ_UTF8 WRITE_UTF16LE len "[]" WRITE_UTF8 cs ys] 8 by (simp add: encode_def)
  next
    case 2
    then show ?thesis
      using assms(1) transLoop_chars [of READ_UTF8 WRITE_UTF16BE len "[]" WRITE_UTF8 cs ys] 8 by (simp add: encode_def)
  next
    case 3
    then show ?thesis
      using assms(1) transLoop_chars [of "READ_UTF16LE (\<lambda>z. z \<noteq> [])" WRITE_UTF8 len "[]" WRITE_UTF16LE cs ys] 16(1)
      by (simp add: encode_def)
  next
    case 4
    then show ?thesis
      using assms(1) transLoop_chars [of "READ_UTF16BE (\<lambda>z. z \<noteq> [])" WRITE_UTF8 len "[]" WRITE_UTF16BE cs ys] 16(2)
      by (simp add: encode_def)
  qed
qed

section \<open>The translation of a cell\<close>

lemma str_flag: "f AND MEM_Str \<noteq> 0 \<Longrightarrow> f AND (MEM_Str OR MEM_Blob) \<noteq> 0"
  by (rule and_sub_nonzero)

lemma str_of_both: "f AND (MEM_Str OR MEM_Blob) = g AND (MEM_Str OR MEM_Blob) \<Longrightarrow> f AND MEM_Str = g AND MEM_Str"
proof -
  have "(h AND (MEM_Str OR MEM_Blob)) AND MEM_Str = h AND MEM_Str" for h
    by (simp only: and.assoc) (simp add: MEM_defs)
  then show "f AND (MEM_Str OR MEM_Blob) = g AND (MEM_Str OR MEM_Blob) \<Longrightarrow> f AND MEM_Str = g AND MEM_Str"
    by metis
qed

definition newFlags :: "u16 \<Rightarrow> u16" where
  "newFlags f = MEM_Str OR MEM_Term OR (f AND (MEM_AffMask OR MEM_Subtype))"

lemma newFlags [simp]: "newFlags f AND MEM_Str \<noteq> 0" "newFlags f AND MEM_Zero = 0"
proof -
  have "newFlags f AND MEM_Str = MEM_Str"
    by (rule bit_word_eqI) (auto simp: newFlags_def bit_simps)
  then show "newFlags f AND MEM_Str \<noteq> 0" by (simp add: MEM_defs)
  have "MEM_Zero AND (MEM_Str OR MEM_Term OR MEM_AffMask OR MEM_Subtype) = 0" by (simp add: MEM_defs)
  then show "newFlags f AND MEM_Zero = 0"
    by (simp add: newFlags_def bit_eq_iff bit_simps) blast
qed

text \<open>What holds of the cell \<open>q\<close> after an attempt to translate \<open>p\<close> to \<open>d\<close>.\<close>

definition translated :: "oom \<Rightarrow> mem \<Rightarrow> enc \<Rightarrow> result_code \<Rightarrow> mem \<Rightarrow> bool" where
  "translated w p d rc q \<longleftrightarrow>
     (if rc = SQLITE_OK then mem_wf q \<and> mem_enc q = d \<and> mem_flags q AND MEM_Str \<noteq> 0
      else rc = SQLITE_NOMEM \<and> \<not> fst (alloc w) \<and> mem_enc q = mem_enc p \<and>
        (q = memFailed p \<or> q = p\<lparr>mem_n := mem_n q\<rparr> \<and> mem_n q \<le> mem_n p))"

lemma translate_swap:
  assumes "mem_wf p" "mem_flags p AND MEM_Str \<noteq> 0" "mem_enc p \<noteq> SQLITE_UTF8" "d \<noteq> SQLITE_UTF8"
  shows "\<exists>rc q w'. sqlite3VdbeMemTranslate junk w p d = Some (rc, q, w') \<and> translated w p d rc q \<and>
    (rc = SQLITE_OK \<and> even (length (memBlob p)) \<longrightarrow> memText q = swapLoop (memBlob p))"
proof -
  obtain rc q w' where m: "sqlite3VdbeMemMakeWriteable junk w p = Some (rc, q, w')" "mem_wf q"
    "rc = SQLITE_OK \<longrightarrow> writeable q \<and> memBlob q = memBlob p \<and> mem_enc q = mem_enc p \<and>
      mem_flags q AND (MEM_Str OR MEM_Blob) = mem_flags p AND (MEM_Str OR MEM_Blob)"
    "rc \<noteq> SQLITE_OK \<longrightarrow> rc = SQLITE_NOMEM \<and> \<not> fst (alloc w) \<and> q = memFailed p"
    using makeWriteable_spec [OF assms(1), of junk w] by (elim exE conjE)
  show ?thesis
  proof (cases "rc = SQLITE_OK")
    case True
    let ?m = "mem_n q - mem_n q mod 2"
    define z where "z = swapLoop (take ?m (mem_z q)) @ drop ?m (mem_z q)"
    let ?q = "q\<lparr>mem_z := z, mem_enc := d\<rparr>"
    have f: "mem_flags q AND MEM_Str \<noteq> 0" "mem_flags q AND MEM_Zero = 0"
      using m(3) True assms(2) str_of_both [of "mem_flags q" "mem_flags p"] str_flag [of "mem_flags q"] by (auto simp: writeable_def)
    then have n: "mem_n q \<le> length (mem_z q)" using m(2) str_flag by (simp add: mem_wf_def)
    then have le: "?m \<le> length (mem_z q)" by linarith
    then have z: "length z = length (mem_z q)" "rd z (mem_n q) = rd (mem_z q) (mem_n q)"
      by (auto simp: z_def rd_def nth_append)
    then have "mem_wf ?q" using m(2) by (simp add: mem_wf_def)
    moreover have "memText ?q = swapLoop (memBlob p)" if "even (length (memBlob p))"
    proof -
      have "memBlob p = take (mem_n q) (mem_z q)" using m(3) True f(2) by (simp add: memBlob_def memText_def)
      then show ?thesis using that n by (simp add: memText_def z_def)
    qed
    ultimately show ?thesis
      using True m(1) assms(3, 4) le f by (simp add: sqlite3VdbeMemTranslate_def translated_def Let_def z_def)
  next
    case False
    then show ?thesis
      using m assms(3, 4) by (simp add: sqlite3VdbeMemTranslate_def translated_def)
  qed
qed

lemma translate_unfold:
  assumes "\<not> (mem_enc p \<noteq> SQLITE_UTF8 \<and> d \<noteq> SQLITE_UTF8)" "alloc w = (True, w')"
    and p1: "p1 = (if d = SQLITE_UTF8 then p\<lparr>mem_n := mem_n p - mem_n p mod 2\<rparr> else p)"
    and len: "len = (if d = SQLITE_UTF8 then 2 * mem_n p1 + 1 else 2 * mem_n p1 + 2)"
    and "mem_n p1 \<le> length (mem_z p1)" "translateChars (mem_enc p1) d len (take (mem_n p1) (mem_z p1)) = Some ys"
    and z: "z = ys @ (if mem_enc p1 = SQLITE_UTF8 then [0, 0] else [0])" and "length z \<le> len"
  shows "sqlite3VdbeMemTranslate junk w p d = Some (SQLITE_OK,
    p1\<lparr>mem_flags := newFlags (mem_flags p1), mem_enc := d, mem_n := length ys,
       mem_z := z @ map junk [length z..<len], mem_own := True, mem_szMalloc := len\<rparr>, w')"
proof -
  have "(case translateChars (mem_enc p1) d len (take (mem_n p1) (mem_z p1)) of None \<Rightarrow> None | Some x \<Rightarrow> f x) = f ys"
    for f :: "u8 list \<Rightarrow> (result_code \<times> mem \<times> oom) option"
    by (simp add: assms(6))
  then show ?thesis
    unfolding sqlite3VdbeMemTranslate_def Let_def p1 [symmetric] len [symmetric] newFlags_def
    using assms(1, 2, 5, 8) by (simp only: if_False if_True assms(6) prod.case bool.case bind.bind_lunit z [symmetric])
qed

lemma translate_chars:
  assumes "mem_n p \<le> length (mem_z p)" "mem_enc p \<noteq> d" "mem_enc p = SQLITE_UTF8 \<or> d = SQLITE_UTF8" "fst (alloc w)"
  defines "n \<equiv> if d = SQLITE_UTF8 then mem_n p - mem_n p mod 2 else mem_n p"
  shows "\<exists>q len ys. sqlite3VdbeMemTranslate junk w p d = Some (SQLITE_OK, q, snd (alloc w)) \<and> mem_wf q \<and> mem_enc q = d \<and>
    mem_flags q = newFlags (mem_flags p) \<and> translateChars (mem_enc p) d len (take n (mem_z p)) = Some ys \<and> memText q = ys"
proof -
  define len where "len = (if d = SQLITE_UTF8 then 2 * n + 1 else 2 * n + 2)"
  have n: "n \<le> length (mem_z p)" "d = SQLITE_UTF8 \<longrightarrow> even n"
    using assms(1) le_trans [OF diff_le_self assms(1), of "mem_n p mod 2"] by (simp_all add: n_def)
  moreover have "2 * n \<le> len" by (simp add: len_def)
  ultimately obtain ys where ys: "translateChars (mem_enc p) d len (take n (mem_z p)) = Some ys" "length ys \<le> 2 * n"
    using translateChars_ok [OF assms(2, 3), of "take n (mem_z p)" len] by auto
  define z where "z = ys @ (if mem_enc p = SQLITE_UTF8 then [0, 0] else [0])"
  define q where "q = p\<lparr>mem_flags := newFlags (mem_flags p), mem_enc := d, mem_n := length ys,
      mem_z := z @ map junk [length z..<len], mem_own := True, mem_szMalloc := len\<rparr>"
  have l: "length z \<le> len" using ys(2) assms(2, 3) by (auto simp: z_def len_def)
  obtain w' where a: "alloc w = (True, w')" using assms(4) by (cases "alloc w") auto
  have p1: "p\<lparr>mem_n := n\<rparr> = (if d = SQLITE_UTF8 then p\<lparr>mem_n := mem_n p - mem_n p mod 2\<rparr> else p)"
    by (simp add: n_def)
  have b: "\<not> (mem_enc p \<noteq> SQLITE_UTF8 \<and> d \<noteq> SQLITE_UTF8)" using assms(3) by blast
  have e: "len = (if d = SQLITE_UTF8 then 2 * mem_n (p\<lparr>mem_n := n\<rparr>) + 1 else 2 * mem_n (p\<lparr>mem_n := n\<rparr>) + 2)"
    by (simp add: len_def)
  have "sqlite3VdbeMemTranslate junk w p d = Some (SQLITE_OK, q, w')"
    using translate_unfold [OF b a p1 e, of ys z junk] n(1) ys(1) l by (simp add: q_def) (simp add: z_def)
  moreover have "mem_wf q" using l by (auto simp: mem_wf_def q_def z_def)
  ultimately show ?thesis
    using a ys by (auto simp: q_def memText_def z_def)
qed

lemma translate_nomem:
  assumes "mem_enc p = SQLITE_UTF8 \<or> d = SQLITE_UTF8" "\<not> fst (alloc w)"
  shows "sqlite3VdbeMemTranslate junk w p d =
    Some (SQLITE_NOMEM, if d = SQLITE_UTF8 then p\<lparr>mem_n := mem_n p - mem_n p mod 2\<rparr> else p, snd (alloc w))"
  using assms by (cases "alloc w") (auto simp: sqlite3VdbeMemTranslate_def Let_def)

lemma translate_translated:
  assumes "mem_wf p" "mem_flags p AND MEM_Str \<noteq> 0" "mem_enc p \<noteq> d"
  shows "\<exists>rc q w'. sqlite3VdbeMemTranslate junk w p d = Some (rc, q, w') \<and> translated w p d rc q"
proof (cases "mem_enc p \<noteq> SQLITE_UTF8 \<and> d \<noteq> SQLITE_UTF8")
  case True
  with assms translate_swap [of p d junk w] show ?thesis by blast
next
  case False
  show ?thesis
  proof (cases "fst (alloc w)")
    case True
    have "mem_n p \<le> length (mem_z p)" using assms(1, 2) str_flag by (simp add: mem_wf_def)
    moreover have "mem_enc p = SQLITE_UTF8 \<or> d = SQLITE_UTF8" using False by blast
    ultimately obtain q where "sqlite3VdbeMemTranslate junk w p d = Some (SQLITE_OK, q, snd (alloc w))"
      "mem_wf q" "mem_enc q = d" "mem_flags q = newFlags (mem_flags p)"
      using translate_chars [of p d w junk] assms(3) True by blast
    then show ?thesis
      by (auto simp: translated_def)
  next
    case f: False
    with False show ?thesis
      by (simp add: translate_nomem translated_def)
  qed
qed

lemma take_encode: "memText p = encode e cs \<Longrightarrow> mem_n p \<le> length (mem_z p) \<Longrightarrow> mem_n p = length (encode e cs)"
  by (metis length_take memText_def min.absorb2)

lemma translate_encode:
  assumes "mem_wf p" "mem_flags p AND MEM_Str \<noteq> 0" "mem_flags p AND MEM_Zero = 0" "mem_enc p \<noteq> d"
    "memText p = encode (mem_enc p) cs" "\<forall>c\<in>set cs. textChar c" "fst (alloc w)"
  shows "\<exists>q w'. sqlite3VdbeMemTranslate junk w p d = Some (SQLITE_OK, q, w') \<and> mem_wf q \<and> mem_enc q = d \<and>
    mem_flags q AND MEM_Str \<noteq> 0 \<and> memText q = encode d cs"
proof -
  have n: "mem_n p \<le> length (mem_z p)" using assms(1, 2) str_flag by (simp add: mem_wf_def)
  show ?thesis
  proof (cases "mem_enc p \<noteq> SQLITE_UTF8 \<and> d \<noteq> SQLITE_UTF8")
    case True
    then obtain rc q w' where q: "sqlite3VdbeMemTranslate junk w p d = Some (rc, q, w')" "translated w p d rc q"
      "rc = SQLITE_OK \<and> even (length (memBlob p)) \<longrightarrow> memText q = swapLoop (memBlob p)"
      using translate_swap [OF assms(1, 2), of d junk w] by blast
    have ok: "rc = SQLITE_OK" using q(2) assms(7) by (auto simp: translated_def split: if_splits)
    have b: "memBlob p = encode (mem_enc p) cs" using assms(3, 5) by (simp add: memBlob_def)
    then have "memText q = swapLoop (memBlob p)"
      using q(3) ok encode16_even True by simp
    moreover have "swapLoop (encode (mem_enc p) cs) = encode d cs"
      using True assms(4) swap_encode [of cs] by (cases "mem_enc p"; cases d) auto
    ultimately show ?thesis
      using q ok b by (auto simp: translated_def)
  next
    case False
    then have e: "mem_enc p = SQLITE_UTF8 \<or> d = SQLITE_UTF8" by blast
    have l: "mem_n p = length (encode (mem_enc p) cs)" using take_encode [OF assms(5) n] .
    have "(if d = SQLITE_UTF8 then mem_n p - mem_n p mod 2 else mem_n p) = mem_n p"
      using encode16_even [of "mem_enc p" cs] assms(4) l by auto
    from translate_chars [OF n assms(4) e assms(7), of junk, unfolded this] obtain q len ys where
      "sqlite3VdbeMemTranslate junk w p d = Some (SQLITE_OK, q, snd (alloc w))" "mem_wf q" "mem_enc q = d"
      "mem_flags q = newFlags (mem_flags p)" "translateChars (mem_enc p) d len (take (mem_n p) (mem_z p)) = Some ys" "memText q = ys"
      by (elim exE conjE)
    moreover from this(5) have "ys = encode d cs"
      using translateChars_encode [OF _ assms(6, 4) e, of len ys] assms(5) by (simp add: memText_def)
    ultimately show ?thesis by simp
  qed
qed

section \<open>Counting characters\<close>

lemma skipCont_skip:
  "\<forall>b\<in>set bs. b AND 0xc0 = 0x80 \<Longrightarrow> boundary r \<Longrightarrow> r \<noteq> [] \<Longrightarrow> skipCont (p @ bs @ r) (length p) = Some (length p + length bs)"
proof (induction bs arbitrary: p)
  case Nil
  then show ?case by (cases r) (simp_all add: skipCont.simps [of _ "length p"] boundary_def)
next
  case (Cons b bs)
  then show ?case
    using Cons.IH [of "p @ [b]"] by (simp add: skipCont.simps [of _ "length p"])
qed

lemma write8_shape:
  assumes "c < 0x200000"
  shows "if c < 0x80 then WRITE_UTF8 c = [ucast c] \<and> \<not> 0xc0 \<le> (ucast c :: u8)
    else \<exists>b bs. WRITE_UTF8 c = b # bs \<and> b \<ge> 0xc0 \<and> (\<forall>b\<in>set bs. b AND 0xc0 = 0x80)"
  using lead_eq [of c] lead_byte [of "ucast (drop_bit 6 c AND 0x1F)"] lead_byte [of "ucast (drop_bit 12 c AND 0x0F)"]
    lead_byte [of "ucast (drop_bit 18 c AND 0x07)"] low_byte [of c] assms
  by (simp add: write_six cont_byte six_less)

lemma skip_char:
  assumes "c < 0x200000" "boundary r" "r \<noteq> []"
  shows "SQLITE_SKIP_UTF8 (p @ WRITE_UTF8 c @ r) (length p) = Some (length p + length (WRITE_UTF8 c))"
proof (cases "c < 0x80")
  case True
  then show ?thesis
    using write8_shape [OF assms(1)] by (simp add: SQLITE_SKIP_UTF8_def)
next
  case False
  then obtain b bs where b: "WRITE_UTF8 c = b # bs" "b \<ge> 0xc0" "\<forall>b\<in>set bs. b AND 0xc0 = 0x80"
    using write8_shape [OF assms(1)] by auto
  with skipCont_skip [OF b(3) assms(2, 3), of "p @ [b]"] show ?thesis
    by (simp add: SQLITE_SKIP_UTF8_def)
qed

lemma charLen_step:
  assumes "textChar c" "c \<noteq> 0" "boundary r" "r \<noteq> []" "case zTerm of None \<Rightarrow> True | Some t \<Rightarrow> length p < t"
  shows "charLenLoop (Suc fuel) (p @ WRITE_UTF8 c @ r) zTerm (length p) n =
    charLenLoop fuel (p @ WRITE_UTF8 c @ r) zTerm (length p + length (WRITE_UTF8 c)) (n + 1)"
proof -
  obtain b bs where b: "WRITE_UTF8 c = b # bs" using write8_boundary(2) [of c] by (cases "WRITE_UTF8 c") auto
  have "b \<noteq> 0"
  proof
    assume "b = 0"
    then have "READ_UTF8 (WRITE_UTF8 c @ r) = Some (0, bs @ r)" using b by simp
    with read8_encode(1) [OF assms(1, 3)] assms(2) show False by simp
  qed
  moreover have "rd (p @ WRITE_UTF8 c @ r) (length p) = Some b" using b by simp
  ultimately show ?thesis
    using skip_char [OF textChar_less [OF assms(1)] assms(3, 4), of p] assms(5)
    by (subst charLenLoop.simps) (simp split: option.splits)
qed

lemma boundary_append: "boundary x \<Longrightarrow> boundary y \<Longrightarrow> boundary (x @ y)"
  by (cases x) (simp_all add: boundary_def)

lemma charLenLoop_encode:
  assumes "\<forall>c\<in>set cs. textChar c \<and> c \<noteq> 0" "length cs \<le> fuel" "boundary r" "r \<noteq> []"
    "if zTerm = Some (length p + length (encode SQLITE_UTF8 cs)) then True else zTerm = None \<and> hd r = 0"
  shows "charLenLoop fuel (p @ encode SQLITE_UTF8 cs @ r) zTerm (length p) n = Some (n + int (length cs))"
  using assms
proof (induction cs arbitrary: p fuel n)
  case Nil
  then show ?case by (cases r; subst charLenLoop.simps) (auto split: if_splits)
next
  case (Cons c cs)
  obtain f where f: "fuel = Suc f" using Cons.prems(2) by (cases fuel) auto
  have c: "textChar c" "c \<noteq> 0" "boundary (encode SQLITE_UTF8 cs @ r)" "encode SQLITE_UTF8 cs @ r \<noteq> []"
    using Cons.prems encode8_boundary [of cs] by (auto intro: boundary_append)
  have l: "length (WRITE_UTF8 c) > 0" using write8_boundary(2) [of c] by simp
  then have t: "case zTerm of None \<Rightarrow> True | Some t \<Rightarrow> length p < t"
    using Cons.prems(5) by (auto split: if_splits)
  have "charLenLoop f ((p @ WRITE_UTF8 c) @ encode SQLITE_UTF8 cs @ r) zTerm (length (p @ WRITE_UTF8 c)) (n + 1) =
      Some (n + 1 + int (length cs))"
    by (rule Cons.IH) (use Cons.prems f in \<open>auto split: if_splits\<close>)
  with charLen_step [OF c t, of f n] show ?case
    by (simp add: f)
qed

lemma length_encode: "length cs \<le> length (encode SQLITE_UTF8 cs)"
proof (induction cs)
  case (Cons c cs)
  moreover have "length (WRITE_UTF8 c) > 0" using write8_boundary(2) [of c] by simp
  ultimately show ?case by (simp del: length_greater_0_conv)
qed simp

lemma charLen_encode:
  assumes "\<forall>c\<in>set cs. textChar c \<and> c \<noteq> 0" "boundary r" "r \<noteq> []"
  shows "sqlite3Utf8CharLen (encode SQLITE_UTF8 cs @ r) (int (length (encode SQLITE_UTF8 cs))) = Some (int (length cs))"
    and "hd r = 0 \<Longrightarrow> sqlite3Utf8CharLen (encode SQLITE_UTF8 cs @ r) (- 1) = Some (int (length cs))"
  using charLenLoop_encode [OF assms(1) _ assms(2, 3), of "length (encode SQLITE_UTF8 cs @ r)" _ "[]" 0] length_encode [of cs]
  by (simp_all add: sqlite3Utf8CharLen_def)

lemma byteLen_encode:
  assumes "\<forall>c\<in>set cs. textChar c"
  shows "sqlite3Utf16ByteLen (encode SQLITE_UTF16LE cs @ r) (int (length cs)) = Some (int (length (encode SQLITE_UTF16LE cs)))"
proof -
  have "utf16Skip (length cs) (encode SQLITE_UTF16LE cs @ r) = Some r"
    using assms by (induction cs) (auto simp: read_write_utf16 textChar_def)
  then show ?thesis by (simp add: sqlite3Utf16ByteLen_def)
qed

section \<open>The byte-order mark\<close>

lemma shift_two:
  assumes "n + 2 \<le> length z"
  shows "\<exists>y1 y2. wr (take n (drop 2 z) @ drop n z) n 0 = Some y1 \<and> wr y1 (n + 1) 0 = Some y2 \<and>
    length y2 = length z \<and> take n y2 = take n (drop 2 z) \<and> rd y2 n = Some 0 \<and> rd y2 (n + 1) = Some (0 :: u8)"
proof -
  let ?y = "take n (drop 2 z) @ drop n z"
  have "length ?y = length z" using assms by simp
  then show ?thesis
    using assms by (auto simp: wr_def rd_def)
qed

text \<open>The cell \<open>q\<close> with the text \<open>t\<close> behind its mark moved to the front of the buffer.\<close>

definition bomCell :: "mem \<Rightarrow> u8 list \<Rightarrow> u8 list \<Rightarrow> enc \<Rightarrow> mem" where
  "bomCell q t z e = q\<lparr>mem_n := length t, mem_z := z, mem_flags := mem_flags q OR MEM_Term, mem_enc := e\<rparr>"

definition noBom :: "u8 list \<Rightarrow> mem \<Rightarrow> bool" where
  "noBom t q \<longleftrightarrow> mem_wf q \<and> memText q = t \<and> rd (mem_z q) (mem_n q) = Some 0 \<and> rd (mem_z q) (mem_n q + 1) = Some 0"

lemma bom_cell:
  assumes "mem_wf q" "mem_flags q AND (MEM_Str OR MEM_Blob) \<noteq> 0" "mem_flags q AND MEM_Zero = 0" "memText q = b1 # b2 # t"
  shows "\<exists>y1 y2. mem_n q = length t + 2 \<and> mem_n q \<le> length (mem_z q) \<and>
    wr (take (length t) (drop 2 (mem_z q)) @ drop (length t) (mem_z q)) (length t) 0 = Some y1 \<and>
    wr y1 (length t + 1) 0 = Some y2 \<and> noBom t (bomCell q t y2 e)"
proof -
  have nz: "mem_n q \<le> length (mem_z q)" "mem_own q \<and> 0 < mem_szMalloc q \<longrightarrow> mem_szMalloc q = length (mem_z q)"
    using assms(1, 2) by (simp_all add: mem_wf_def)
  then have nq: "mem_n q = length t + 2"
    using assms(4) by (metis add_2_eq_Suc' length_Cons length_take memText_def min.absorb2)
  have dt: "take (length t) (drop 2 (mem_z q)) = t" using assms(4) nq by (simp add: memText_def take_drop)
  obtain y1 y2 where y: "wr (take (length t) (drop 2 (mem_z q)) @ drop (length t) (mem_z q)) (length t) 0 = Some y1"
    "wr y1 (length t + 1) 0 = Some y2" "length y2 = length (mem_z q)" "take (length t) y2 = t" "rd y2 (length t) = Some 0"
    "rd y2 (length t + 1) = Some 0"
    using shift_two [of "length t" "mem_z q"] nq nz(1) dt by auto
  have "mem_wf (bomCell q t y2 e)" using nz y nq assms(3) by (auto simp: mem_wf_def bomCell_def)
  then show ?thesis
    using y nq nz(1) by (simp add: noBom_def bomCell_def memText_def)
qed

lemma handleBom_spec:
  assumes "mem_wf p" "mem_flags p AND MEM_Str \<noteq> 0" "mem_flags p AND MEM_Zero = 0"
  shows "\<exists>rc q w'. sqlite3VdbeMemHandleBom junk w p = Some (rc, q, w') \<and>
    (case memText p of
       b1 # b2 # t \<Rightarrow>
         (case bomOf b1 b2 of
            None \<Rightarrow> rc = SQLITE_OK \<and> q = p
          | Some e \<Rightarrow>
              (if rc = SQLITE_OK then mem_enc q = e \<and> noBom t q
               else rc = SQLITE_NOMEM \<and> \<not> fst (alloc w) \<and> q = memFailed p))
     | _ \<Rightarrow> rc = SQLITE_OK \<and> q = p)"
proof -
  have n: "mem_n p \<le> length (mem_z p)" using assms(1, 2) str_flag by (simp add: mem_wf_def)
  then have lp: "length (memText p) = mem_n p" by (simp add: memText_def)
  show ?thesis
  proof (cases "mem_n p > 1")
    case False
    then have "memText p = [] \<or> (\<exists>b. memText p = [b])" using lp by (cases "memText p"; cases "tl (memText p)") auto
    then show ?thesis
      using False by (auto simp: sqlite3VdbeMemHandleBom_def)
  next
    case True
    then obtain b1 b2 t where b: "memText p = b1 # b2 # t" using lp by (cases "memText p"; cases "tl (memText p)") auto
    then obtain r where z: "mem_z p = b1 # b2 # r" using True n by (cases "mem_z p"; cases "tl (mem_z p)") (auto simp: memText_def take_Cons split: nat.splits)
    show ?thesis
    proof (cases "bomOf b1 b2")
      case None
      then show ?thesis using True b z by (simp add: sqlite3VdbeMemHandleBom_def)
    next
      case (Some e)
      obtain rc q w' where m: "sqlite3VdbeMemMakeWriteable junk w p = Some (rc, q, w')" "mem_wf q"
        "rc = SQLITE_OK \<longrightarrow> writeable q \<and> memBlob q = memBlob p \<and> mem_enc q = mem_enc p \<and>
          mem_flags q AND (MEM_Str OR MEM_Blob) = mem_flags p AND (MEM_Str OR MEM_Blob)"
        "rc \<noteq> SQLITE_OK \<longrightarrow> rc = SQLITE_NOMEM \<and> \<not> fst (alloc w) \<and> q = memFailed p"
        using makeWriteable_spec [OF assms(1), of junk w] by (elim exE conjE)
      show ?thesis
      proof (cases "rc = SQLITE_OK")
        case False
        then show ?thesis using True b z Some m by (simp add: sqlite3VdbeMemHandleBom_def)
      next
        case ok: True
        have f: "mem_flags q AND (MEM_Str OR MEM_Blob) \<noteq> 0" using m(3) ok assms(2) str_flag by simp
        then have "mem_flags q AND MEM_Zero = 0" using m(3) ok by (simp add: writeable_def)
        then have tx: "memText q = b1 # b2 # t" using m(3) ok assms(3) b by (simp add: memBlob_def)
        obtain y1 y2 where y: "mem_n q = length t + 2" "mem_n q \<le> length (mem_z q)"
          "wr (take (length t) (drop 2 (mem_z q)) @ drop (length t) (mem_z q)) (length t) 0 = Some y1"
          "wr y1 (length t + 1) 0 = Some y2" "noBom t (bomCell q t y2 e)"
          using bom_cell [OF m(2) f \<open>mem_flags q AND MEM_Zero = 0\<close> tx, of e] by (elim exE conjE)
        then have "sqlite3VdbeMemHandleBom junk w p = Some (SQLITE_OK, bomCell q t y2 e, w')"
          using True z Some m(1) ok by (simp add: sqlite3VdbeMemHandleBom_def bomCell_def Let_def)
        then show ?thesis
          using b Some y(5) by (simp add: noBom_def) (simp add: bomCell_def)
      qed
    qed
  qed
qed

section \<open>Properties\<close>

text \<open>C21: Every code point below \<^verbatim>\<open>0x110000\<close> that is written in UTF-8 is read back by \<^verbatim>\<open>READ_UTF8\<close> and
  \<^verbatim>\<open>sqlite3Utf8Read\<close> as itself, except that surrogates and \<^verbatim>\<open>U+FFFE\<close>, \<^verbatim>\<open>U+FFFF\<close> come back as the replacement
  character \<^verbatim>\<open>U+FFFD\<close>; in both byte orders of UTF-16 every scalar value is read back as itself. Each
  reader consumes exactly the bytes of the character.\<close>

theorem utf_char_roundtrip:
  assumes "c < 0x110000" "boundary r" "r \<noteq> []"
  shows "READ_UTF8 (WRITE_UTF8 c @ r) = Some (if 0x80 \<le> c \<and> utf8Invalid c then 0xFFFD else c, r) \<and>
    sqlite3Utf8Read (WRITE_UTF8 c @ r) = READ_UTF8 (WRITE_UTF8 c @ r) \<and>
    (scalar c \<longrightarrow>
      READ_UTF16LE (\<lambda>z. z \<noteq> []) (WRITE_UTF16LE c @ r) = Some (c, r) \<and>
      READ_UTF16BE (\<lambda>z. z \<noteq> []) (WRITE_UTF16BE c @ r) = Some (c, r)) \<and>
    (textChar c \<longrightarrow> READ_UTF8 (WRITE_UTF8 c @ r) = Some (c, r))"
proof -
  have "c < 0x200000" using assms(1) by (simp add: word_less_nat_alt)
  with assms(2, 3) show ?thesis
    using read_write_utf8 [of c r] read_write_utf16 [of c "\<lambda>z. z \<noteq> []" r] read8_encode(1) [of c r] by simp
qed

theorem utf_char_roundtrip_witness:
  "WRITE_UTF8 0x1F64F = [0xF0, 0x9F, 0x99, 0x8F] \<and> READ_UTF8 (WRITE_UTF8 0x1F64F @ [0]) = Some (0x1F64F, [0]) \<and>
   READ_UTF16LE (\<lambda>z. z \<noteq> []) (WRITE_UTF16LE 0x1F64F @ [0]) = Some (0x1F64F, [0]) \<and>
   READ_UTF8 (WRITE_UTF8 0xD800 @ [0]) = Some (0xFFFD, [0])"
proof -
  have r: "boundary [0]" "[0] \<noteq> ([] :: u8 list)" by (simp_all add: boundary_def)
  have "scalar 0x1F64F" "textChar 0x1F64F" "utf8Invalid 0xD800" "\<not> utf8Invalid 0x1F64F" "WRITE_UTF8 0x1F64F = [0xF0, 0x9F, 0x99, 0x8F]"
    by code_simp+
  then show ?thesis
    using utf_char_roundtrip [OF _ r, of "0x1F64F"] utf_char_roundtrip [OF _ r, of "0xD800"] by simp
qed

text \<open>C16: On every well-formed string, valid text or not, \<^verbatim>\<open>sqlite3VdbeChangeEncoding\<close> and
  \<^verbatim>\<open>sqlite3VdbeMemHandleBom\<close> return without reading outside the text or writing outside the computed
  output buffer. A successful conversion leaves a well-formed string in the requested encoding; a
  failed one is \<^verbatim>\<open>SQLITE_NOMEM\<close> after an allocation failed, as the caller asserts, and leaves the cell
  in another encoding. A byte-order mark is removed, sets the encoding, and the rest of the text is
  kept with two zeros behind it; without one the cell is not changed.\<close>

theorem utf_translate_safe:
  assumes "mem_wf p" "mem_flags p AND MEM_Str \<noteq> 0" "mem_flags p AND MEM_Zero = 0"
  shows "(\<exists>rc q w'. sqlite3VdbeChangeEncoding junk w p d = Some (rc, q, w') \<and>
      (if rc = SQLITE_OK then mem_wf q \<and> mem_enc q = d \<and> mem_flags q AND MEM_Str \<noteq> 0
       else rc = SQLITE_NOMEM \<and> \<not> fst (alloc w) \<and> mem_enc q \<noteq> d \<and>
         (mem_flags q = MEM_Null \<or> mem_z q = mem_z p \<and> mem_n q \<le> mem_n p))) \<and>
    (\<exists>rc q w'. sqlite3VdbeMemHandleBom junk w p = Some (rc, q, w') \<and>
      (case memText p of
         b1 # b2 # t \<Rightarrow>
           (case bomOf b1 b2 of
              None \<Rightarrow> rc = SQLITE_OK \<and> q = p
            | Some e \<Rightarrow>
                (if rc = SQLITE_OK then mem_enc q = e \<and> noBom t q
                 else rc = SQLITE_NOMEM \<and> \<not> fst (alloc w) \<and> q = memFailed p))
       | _ \<Rightarrow> rc = SQLITE_OK \<and> q = p))"
proof
  show "\<exists>rc q w'. sqlite3VdbeChangeEncoding junk w p d = Some (rc, q, w') \<and>
      (if rc = SQLITE_OK then mem_wf q \<and> mem_enc q = d \<and> mem_flags q AND MEM_Str \<noteq> 0
       else rc = SQLITE_NOMEM \<and> \<not> fst (alloc w) \<and> mem_enc q \<noteq> d \<and>
         (mem_flags q = MEM_Null \<or> mem_z q = mem_z p \<and> mem_n q \<le> mem_n p))"
  proof (cases "mem_enc p = d")
    case True
    then show ?thesis using assms by (simp add: sqlite3VdbeChangeEncoding_def)
  next
    case False
    obtain rc q w' where t: "sqlite3VdbeMemTranslate junk w p d = Some (rc, q, w')" "translated w p d rc q"
      using translate_translated [OF assms(1, 2) False, of junk w] by (elim exE conjE)
    have "mem_z q = mem_z p" if "q = p\<lparr>mem_n := mem_n q\<rparr>"
      using arg_cong [OF that, of mem_z] by simp
    with t False assms(2) show ?thesis
      by (auto simp: sqlite3VdbeChangeEncoding_def translated_def)
  qed
qed (rule handleBom_spec [OF assms])

text \<open>C17: A string that holds a text of valid characters in any of the three encodings holds the same
  text in the requested encoding after \<^verbatim>\<open>sqlite3VdbeChangeEncoding\<close>, for all nine pairs of encodings;
  so a conversion and its inverse give the original bytes.\<close>

theorem utf_change_encoding:
  assumes "mem_wf p" "mem_flags p AND MEM_Str \<noteq> 0" "mem_flags p AND MEM_Zero = 0" "fst (alloc w)"
    "memText p = encode (mem_enc p) cs" "\<forall>c\<in>set cs. textChar c"
  shows "\<exists>q w'. sqlite3VdbeChangeEncoding junk w p d = Some (SQLITE_OK, q, w') \<and> mem_wf q \<and> mem_enc q = d \<and>
    memText q = encode d cs"
proof (cases "mem_enc p = d")
  case True
  then show ?thesis using assms by (simp add: sqlite3VdbeChangeEncoding_def)
next
  case False
  then show ?thesis
    using translate_encode [OF assms(1-3) False assms(5, 6, 4), of junk] assms(2)
    by (auto simp: sqlite3VdbeChangeEncoding_def)
qed

definition sampleText :: "enc \<Rightarrow> mem" where
  "sampleText e = \<lparr>mem_nZero = 0, mem_flags = MEM_Str OR MEM_Static, mem_enc = e,
    mem_n = length (encode e [0x41, 0xE9, 0x1F64F]), mem_z = encode e [0x41, 0xE9, 0x1F64F], mem_own = False, mem_szMalloc = 0\<rparr>"

lemma sampleText_ok: "mem_wf (sampleText e)" "mem_flags (sampleText e) AND MEM_Str \<noteq> 0" "mem_flags (sampleText e) AND MEM_Zero = 0"
  "memText (sampleText e) = encode (mem_enc (sampleText e)) [0x41, 0xE9, 0x1F64F]"
  by (simp_all add: mem_wf_def sampleText_def MEM_defs memText_def)

theorem utf_translate_safe_witness:
  "\<exists>rc q w'. sqlite3VdbeChangeEncoding (\<lambda>_. 7) [False] (sampleText SQLITE_UTF8) SQLITE_UTF16BE = Some (rc, q, w') \<and>
     (if rc = SQLITE_OK then mem_wf q else mem_enc q \<noteq> SQLITE_UTF16BE)"
  using utf_translate_safe [OF sampleText_ok(1-3), of "\<lambda>_. 7" "[False]" SQLITE_UTF8 SQLITE_UTF16BE]
  by (fastforce split: if_splits)

theorem utf_change_encoding_witness:
  "\<exists>q w'. sqlite3VdbeChangeEncoding (\<lambda>_. 7) [] (sampleText SQLITE_UTF16LE) SQLITE_UTF8 = Some (SQLITE_OK, q, w') \<and>
     mem_wf q \<and> memText q = [0x41, 0xC3, 0xA9, 0xF0, 0x9F, 0x99, 0x8F]"
proof -
  have "\<forall>c\<in>set [0x41, 0xE9, 0x1F64F :: u32]. textChar c" "encode SQLITE_UTF8 [0x41, 0xE9, 0x1F64F] = [0x41, 0xC3, 0xA9, 0xF0, 0x9F, 0x99, 0x8F]"
    by code_simp+
  then show ?thesis
    using utf_change_encoding [OF sampleText_ok(1-3), of "[]" SQLITE_UTF16LE "[0x41, 0xE9, 0x1F64F]" "\<lambda>_. 7" SQLITE_UTF8] sampleText_ok(4)
    by auto
qed

text \<open>\<^verbatim>\<open>sqlite3Utf8CharLen\<close> counts the characters of a text of valid non-zero characters, whether it
  is given the length in bytes or stops at the terminator, and \<^verbatim>\<open>sqlite3Utf16ByteLen\<close> is the number of
  bytes of its first characters in UTF-16.\<close>

lemma utf_char_counts:
  assumes "\<forall>c\<in>set cs. textChar c \<and> c \<noteq> 0" "boundary r" "r \<noteq> []"
  shows "sqlite3Utf8CharLen (encode SQLITE_UTF8 cs @ r) (int (length (encode SQLITE_UTF8 cs))) = Some (int (length cs)) \<and>
    sqlite3Utf8CharLen (encode SQLITE_UTF8 cs @ 0 # r) (- 1) = Some (int (length cs)) \<and>
    sqlite3Utf16ByteLen (encode SQLITE_UTF16LE cs @ r) (int (length cs)) = Some (int (length (encode SQLITE_UTF16LE cs)))"
proof -
  have "boundary (0 # r)" by (simp add: boundary_def)
  with assms show ?thesis
    using charLen_encode [OF assms(1), of "0 # r"] charLen_encode(1) [OF assms] byteLen_encode [of cs r] by simp
qed

end
