(* ===== verification/Like.thy ===== *)
theory Like
  imports Utf Strings
begin

text \<open>
  The LIKE and GLOB operators (\<^verbatim>\<open>func.c\<close>): the pattern matcher \<^verbatim>\<open>patternCompare\<close> on bytes, with the
  character reader of \<open>Utf\<close> and the case tables of \<open>Strings\<close>, and the SQL function in front of it.

  A pointer is the list of bytes from it to the end of its object. \<open>patternCompare\<close> has a fuel that
  each iteration of its main loop and each recursive call uses up; as they all consume the pattern,
  its length in bytes is enough.
\<close>

section \<open>The matcher\<close>

record compareInfo =
  matchAll :: u8
  matchOne :: u8
  matchSet :: u8
  noCase :: bool

definition globInfo :: compareInfo where
  "globInfo = \<lparr>matchAll = 0x2a, matchOne = 0x3f, matchSet = 0x5b, noCase = False\<rparr>"

definition likeInfoNorm :: compareInfo where
  "likeInfoNorm = \<lparr>matchAll = 0x25, matchOne = 0x5f, matchSet = 0, noCase = True\<rparr>"

definition likeInfoAlt :: compareInfo where
  "likeInfoAlt = \<lparr>matchAll = 0x25, matchOne = 0x5f, matchSet = 0, noCase = False\<rparr>"

datatype match_result = SQLITE_MATCH | SQLITE_NOMATCH | SQLITE_NOWILDCARDMATCH

definition Utf8Read :: "u8 list \<Rightarrow> (u32 \<times> u8 list) option" where
  "Utf8Read z =
     (case z of [] \<Rightarrow> None | b # z' \<Rightarrow> if b < 0x80 then Some (ucast b, z') else sqlite3Utf8Read z)"

lemma utf8ReadCont_shorter: "utf8ReadCont c z = Some (c', z') \<Longrightarrow> length z' \<le> length z"
  by (induction c z rule: utf8ReadCont.induct) (auto split: if_splits)

lemma utf8Read_shorter: "sqlite3Utf8Read z = Some (c, z') \<Longrightarrow> length z' < length z"
  by (cases z) (auto simp: le_imp_less_Suc dest!: utf8ReadCont_shorter split: if_splits Option.bind_splits)

lemma Utf8Read_eq: "Utf8Read z = sqlite3Utf8Read z"
  by (cases z) (auto simp: Utf8Read_def dest: order.strict_trans1 [of "0xc0" _ "0x80 :: u8"])

text \<open>The loop that skips the wildcards behind a \<^verbatim>\<open>*\<close>: no match, or the next character, the pattern from
  it on and behind it, and the rest of the string.\<close>

datatype star =
    StarFail
  | StarNext u32 "u8 list" "u8 list" "u8 list"

function skipStars :: "compareInfo \<Rightarrow> u8 list \<Rightarrow> u8 list \<Rightarrow> star option" where
  "skipStars pInfo zPattern zString =
     (case Utf8Read zPattern of
        None \<Rightarrow> None
      | Some (c, zNext) \<Rightarrow>
          if c = ucast (matchAll pInfo) \<or> c = ucast (matchOne pInfo) then
            (if c = ucast (matchOne pInfo) then
               (case sqlite3Utf8Read zString of
                  None \<Rightarrow> None
                | Some (d, zString) \<Rightarrow> if d = 0 then Some StarFail else skipStars pInfo zNext zString)
             else skipStars pInfo zNext zString)
          else Some (StarNext c zPattern zNext zString))"
  by pat_completeness auto
termination
  by (relation "measure (\<lambda>(i, p, s). length p)") (auto simp: Utf8Read_eq dest: utf8Read_shorter)

declare skipStars.simps [simp del]

text \<open>The three searches behind a \<^verbatim>\<open>*\<close>, for the recursive call \<open>f\<close>: for one of the bytes of \<^verbatim>\<open>zStop\<close>
  (the loop around \<^verbatim>\<open>strcspn\<close>), for a character, and for a position where a set matches.\<close>

fun stopSearch :: "(u8 list \<Rightarrow> match_result option) \<Rightarrow> u8 list \<Rightarrow> u8 list \<Rightarrow> match_result option" where
  "stopSearch f zStop [] = None"
| "stopSearch f zStop (b # zString) =
     (if b = 0 then Some SQLITE_NOWILDCARDMATCH
      else if b \<in> set zStop then
        (case f zString of
           None \<Rightarrow> None
         | Some bMatch \<Rightarrow> if bMatch \<noteq> SQLITE_NOMATCH then Some bMatch else stopSearch f zStop zString)
      else stopSearch f zStop zString)"

function charSearch :: "(u8 list \<Rightarrow> match_result option) \<Rightarrow> u32 \<Rightarrow> u8 list \<Rightarrow> match_result option" where
  "charSearch f c zString =
     (case Utf8Read zString of
        None \<Rightarrow> None
      | Some (c2, zString) \<Rightarrow>
          if c2 = 0 then Some SQLITE_NOWILDCARDMATCH
          else if c2 \<noteq> c then charSearch f c zString
          else
            (case f zString of
               None \<Rightarrow> None
             | Some bMatch \<Rightarrow> if bMatch \<noteq> SQLITE_NOMATCH then Some bMatch else charSearch f c zString))"
  by pat_completeness auto
termination
  by (relation "measure (\<lambda>(f, c, s). length s)") (auto simp: Utf8Read_eq dest: utf8Read_shorter)

declare charSearch.simps [simp del]

lemma skip_shorter: "SQLITE_SKIP_UTF8 z i = Some j \<Longrightarrow> i < j"
proof -
  have "skipCont z i = Some j \<Longrightarrow> i \<le> j" for z i j
    by (induction z i rule: skipCont.induct, subst (asm) (2) skipCont.simps) (auto split: option.splits if_splits)
  then show "SQLITE_SKIP_UTF8 z i = Some j \<Longrightarrow> i < j"
    by (fastforce simp: SQLITE_SKIP_UTF8_def split: option.splits if_splits)
qed

function setSearch :: "(u8 list \<Rightarrow> match_result option) \<Rightarrow> u8 list \<Rightarrow> match_result option" where
  "setSearch f zString =
     (case rd zString 0 of
        None \<Rightarrow> None
      | Some b \<Rightarrow>
          if b = 0 then Some SQLITE_NOWILDCARDMATCH
          else
            (case f zString of
               None \<Rightarrow> None
             | Some bMatch \<Rightarrow>
                 if bMatch \<noteq> SQLITE_NOMATCH then Some bMatch
                 else
                   (case SQLITE_SKIP_UTF8 zString 0 of
                      None \<Rightarrow> None
                    | Some n \<Rightarrow> setSearch f (drop n zString))))"
  by pat_completeness auto
termination
  by (relation "measure (\<lambda>(f, s). length s)") (auto simp: rd_def dest: skip_shorter split: if_splits)

declare setSearch.simps [simp del]

text \<open>The loop over the characters of a set, and the whole of it: whether \<open>c\<close> matches, and the pattern
  behind the set.\<close>

function setLoop :: "u32 \<Rightarrow> u32 \<Rightarrow> bool \<Rightarrow> u32 \<Rightarrow> u8 list \<Rightarrow> (u32 \<times> bool \<times> u8 list) option" where
  "setLoop c prior_c seen c2 zPattern =
     (if c2 \<noteq> 0 \<and> c2 \<noteq> 0x5d then
        (case rd zPattern 0 of
           None \<Rightarrow> None
         | Some b \<Rightarrow>
             if c2 = 0x2d \<and> b \<noteq> 0x5d \<and> b \<noteq> 0 \<and> prior_c > 0 then
               (case sqlite3Utf8Read zPattern of
                  None \<Rightarrow> None
                | Some (c2, zPattern) \<Rightarrow>
                    (case sqlite3Utf8Read zPattern of
                       None \<Rightarrow> None
                     | Some (c3, zNext) \<Rightarrow> setLoop c 0 (seen \<or> c \<ge> prior_c \<and> c \<le> c2) c3 zNext))
             else
               (case sqlite3Utf8Read zPattern of
                  None \<Rightarrow> None
                | Some (c3, zNext) \<Rightarrow> setLoop c c2 (seen \<or> c = c2) c3 zNext))
      else Some (c2, seen, zPattern))"
  by pat_completeness auto
termination
  by (relation "measure (\<lambda>(c, pr, se, c2, p). length p)") (fastforce dest: utf8Read_shorter)+

declare setLoop.simps [simp del]

definition globSet :: "u32 \<Rightarrow> u8 list \<Rightarrow> (bool \<times> u8 list) option" where
  "globSet c zPattern =
     do {
       (c2, zPattern) \<leftarrow> sqlite3Utf8Read zPattern;
       let invert = (c2 = 0x5e);
       (c2, zPattern) \<leftarrow> (if invert then sqlite3Utf8Read zPattern else Some (c2, zPattern));
       let seen = (c2 = 0x5d \<and> c = 0x5d);
       (c2, zPattern) \<leftarrow> (if c2 = 0x5d then sqlite3Utf8Read zPattern else Some (c2, zPattern));
       (c2, seen, zPattern) \<leftarrow> setLoop c 0 seen c2 zPattern;
       Some (c2 \<noteq> 0 \<and> seen \<noteq> invert, zPattern)
     }"

definition zStopOf :: "compareInfo \<Rightarrow> u32 \<Rightarrow> u8 list" where
  "zStopOf pInfo c =
     (if noCase pInfo then [sqlite3Toupper (ucast c), sqlite3UpperToLower (ucast c)] else [ucast c])"

definition starSearch ::
  "compareInfo \<Rightarrow> (u8 list \<Rightarrow> match_result option) \<Rightarrow> u32 \<Rightarrow> u8 list \<Rightarrow> match_result option" where
  "starSearch pInfo f c zString =
     (if c \<le> 0x80 then stopSearch f (zStopOf pInfo c) zString else charSearch f c zString)"

text \<open>The comparison at the end of the loop body; \<open>escaped\<close> is \<^verbatim>\<open>zPattern==zEscaped\<close>.\<close>

definition charMatches :: "compareInfo \<Rightarrow> u32 \<Rightarrow> bool \<Rightarrow> u32 \<Rightarrow> bool" where
  "charMatches pInfo c escaped c2 \<longleftrightarrow>
     c = c2 \<or>
     noCase pInfo \<and> sqlite3UpperToLower (ucast c) = sqlite3UpperToLower (ucast c2) \<and> c < 0x80 \<and> c2 < 0x80 \<or>
     c = ucast (matchOne pInfo) \<and> \<not> escaped \<and> c2 \<noteq> 0"

fun patternCompare :: "nat \<Rightarrow> compareInfo \<Rightarrow> u32 \<Rightarrow> u8 list \<Rightarrow> u8 list \<Rightarrow> match_result option" where
  "patternCompare 0 pInfo matchOther zPattern zString = None"
| "patternCompare (Suc fuel) pInfo matchOther zPattern zString =
     (case Utf8Read zPattern of
        None \<Rightarrow> None
      | Some (c, zPattern) \<Rightarrow>
          if c = 0 then
            (case rd zString 0 of None \<Rightarrow> None | Some b \<Rightarrow> Some (if b = 0 then SQLITE_MATCH else SQLITE_NOMATCH))
          else if c = ucast (matchAll pInfo) then
            (case skipStars pInfo zPattern zString of
               None \<Rightarrow> None
             | Some StarFail \<Rightarrow> Some SQLITE_NOWILDCARDMATCH
             | Some (StarNext c zSet zPattern zString) \<Rightarrow>
                 if c = 0 then Some SQLITE_MATCH
                 else if c = matchOther then
                   (if matchSet pInfo = 0 then
                      (case sqlite3Utf8Read zPattern of
                         None \<Rightarrow> None
                       | Some (c, zPattern) \<Rightarrow>
                           if c = 0 then Some SQLITE_NOWILDCARDMATCH
                           else starSearch pInfo (patternCompare fuel pInfo matchOther zPattern) c zString)
                    else setSearch (patternCompare fuel pInfo matchOther zSet) zString)
                 else starSearch pInfo (patternCompare fuel pInfo matchOther zPattern) c zString)
          else if c = matchOther then
            (if matchSet pInfo = 0 then
               (case sqlite3Utf8Read zPattern of
                  None \<Rightarrow> None
                | Some (c, zPattern) \<Rightarrow>
                    if c = 0 then Some SQLITE_NOMATCH
                    else
                      (case Utf8Read zString of
                         None \<Rightarrow> None
                       | Some (c2, zString) \<Rightarrow>
                           if charMatches pInfo c True c2 then patternCompare fuel pInfo matchOther zPattern zString
                           else Some SQLITE_NOMATCH))
             else
               (case sqlite3Utf8Read zString of
                  None \<Rightarrow> None
                | Some (c, zString) \<Rightarrow>
                    if c = 0 then Some SQLITE_NOMATCH
                    else
                      (case globSet c zPattern of
                         None \<Rightarrow> None
                       | Some (ok, zPattern) \<Rightarrow>
                           if ok then patternCompare fuel pInfo matchOther zPattern zString
                           else Some SQLITE_NOMATCH)))
          else
            (case Utf8Read zString of
               None \<Rightarrow> None
             | Some (c2, zString) \<Rightarrow>
                 if charMatches pInfo c False c2 then patternCompare fuel pInfo matchOther zPattern zString
                 else Some SQLITE_NOMATCH))"

section \<open>The interfaces\<close>

definition sqlite3_strglob :: "u8 list \<Rightarrow> u8 list \<Rightarrow> match_result option" where
  "sqlite3_strglob zGlobPattern zString = patternCompare (length zGlobPattern) globInfo 0x5b zGlobPattern zString"

definition sqlite3_strlike :: "u8 list \<Rightarrow> u8 list \<Rightarrow> u32 \<Rightarrow> match_result option" where
  "sqlite3_strlike zPattern zStr esc = patternCompare (length zPattern) likeInfoNorm esc zPattern zStr"

datatype like_result = LikeNull | LikeInt bool | LikeError string

text \<open>The SQL function: the arguments are the texts (\<open>None\<close> for a null pointer), the size of the pattern
  in bytes, and the optional third argument.\<close>

definition likeFunc ::
  "nat \<Rightarrow> compareInfo \<Rightarrow> nat \<Rightarrow> u8 list option \<Rightarrow> u8 list option \<Rightarrow> u8 list option option \<Rightarrow> like_result option" where
  "likeFunc limit pInfo nPat zB zA arg2 =
     (if nPat > limit then Some (LikeError ''LIKE or GLOB pattern too complex'')
      else
        do {
          escape \<leftarrow>
            (case arg2 of
               None \<Rightarrow> Some (Inr (ucast (matchSet pInfo)))
             | Some None \<Rightarrow> Some (Inl LikeNull)
             | Some (Some zEsc) \<Rightarrow>
                 do {
                   n \<leftarrow> sqlite3Utf8CharLen zEsc (- 1);
                   if n \<noteq> 1 then Some (Inl (LikeError ''ESCAPE expression must be a single character''))
                   else do { (c, z) \<leftarrow> sqlite3Utf8Read zEsc; Some (Inr c) }
                 });
          case escape of
            Inl r \<Rightarrow> Some r
          | Inr escape \<Rightarrow>
              (case (zA, zB) of
                 (Some zA, Some zB) \<Rightarrow>
                   do {
                     r \<leftarrow> patternCompare (length zB) pInfo escape zB zA;
                     Some (LikeInt (r = SQLITE_MATCH))
                   }
               | _ \<Rightarrow> Some LikeNull)
        })"

section \<open>Patterns as sequences of tests\<close>

text \<open>A pattern is a sequence of wildcards (\<open>None\<close>), each for any sequence of characters, and of tests
  of one character.\<close>

type_synonym pat = "(u32 \<Rightarrow> bool) option list"

fun matches :: "pat \<Rightarrow> u32 list \<Rightarrow> bool" where
  "matches [] s \<longleftrightarrow> s = []"
| "matches (None # P) [] \<longleftrightarrow> matches P []"
| "matches (None # P) (x # s) \<longleftrightarrow> matches P (x # s) \<or> matches (None # P) s"
| "matches (Some t # P) [] \<longleftrightarrow> False"
| "matches (Some t # P) (x # s) \<longleftrightarrow> t x \<and> matches P s"

lemma matches_star: "matches (None # P) s \<longleftrightarrow> (\<exists>k. matches P (drop k s))"
proof (induction s)
  case (Cons x s)
  have "(\<exists>k. matches P (drop k (x # s))) \<longleftrightarrow> matches P (x # s) \<or> (\<exists>k. matches P (drop k s))"
    by (metis drop0 drop_Suc_Cons not0_implies_Suc)
  with Cons show ?case by simp
qed simp

text \<open>What a result says of the pattern: a match, or no match, or no match at any later position either.\<close>

definition sound :: "pat \<Rightarrow> u32 list \<Rightarrow> match_result \<Rightarrow> bool" where
  "sound P s r \<longleftrightarrow> (r = SQLITE_MATCH \<longleftrightarrow> matches P s) \<and> (r = SQLITE_NOWILDCARDMATCH \<longrightarrow> (\<forall>k. \<not> matches P (drop k s)))"

lemma matches_test: "matches (Some t # P) (drop k (x # s)) \<Longrightarrow> matches P (drop k s)"
proof -
  assume m: "matches (Some t # P) (drop k (x # s))"
  then obtain y r where "drop k (x # s) = y # r" by (cases "drop k (x # s)") auto
  moreover from this have "r = drop k s" by (metis drop_Suc drop_Suc_Cons list.sel(3) tl_drop)
  ultimately show ?thesis using m by simp
qed

lemma sound_test: "sound P s r \<Longrightarrow> t x \<Longrightarrow> sound (Some t # P) (x # s) r"
  using matches_test [of t P _ x s] by (auto simp: sound_def)

lemma sound_fail: "\<not> t x \<Longrightarrow> sound (Some t # P) (x # s) SQLITE_NOMATCH" "sound (Some t # P) [] SQLITE_NOMATCH"
  by (simp_all add: sound_def)

lemma sound_nil: "sound [] s (if s = [] then SQLITE_MATCH else SQLITE_NOMATCH)"
  by (simp add: sound_def)

lemma sound_star_end: "sound [None] s SQLITE_MATCH"
  by (auto simp: sound_def matches_star intro!: exI [of _ "length s"])

text \<open>Further wildcards behind a star.\<close>

lemma sound_star_star: "sound (None # P) s r \<Longrightarrow> sound (None # None # P) s r"
proof -
  have "matches (None # None # P) t \<longleftrightarrow> matches (None # P) t" for t
    by (simp add: matches_star [of "None # P"] matches_star [of P]) (metis add_0)
  then show "sound (None # P) s r \<Longrightarrow> sound (None # None # P) s r" by (simp add: sound_def)
qed

lemma matches_star_one: "matches (None # Some (\<lambda>_. True) # P) s \<longleftrightarrow> (\<exists>x r. s = x # r \<and> matches (None # P) r)"
proof (induction s)
  case (Cons x s)
  then show ?case by (cases s) auto
qed simp

lemma sound_star_one: "sound (None # P) s r \<Longrightarrow> sound (None # Some (\<lambda>_. True) # P) (x # s) r"
proof -
  assume s: "sound (None # P) s r"
  have "matches (None # P) (drop k s)" if m: "matches (None # Some (\<lambda>_. True) # P) (drop k (x # s))" for k
  proof -
    obtain y u where "drop k (x # s) = y # u" "matches (None # P) u" using m unfolding matches_star_one by blast
    moreover from this(1) have "u = drop k s" by (metis drop_Suc drop_Suc_Cons list.sel(3) tl_drop)
    ultimately show ?thesis by simp
  qed
  moreover have "matches (None # Some (\<lambda>_. True) # P) (x # s) \<longleftrightarrow> matches (None # P) s"
    by (simp only: matches_star_one list.inject) blast
  ultimately show ?thesis using s unfolding sound_def by blast
qed

lemma sound_star_short: "sound (None # Some t # P) [] SQLITE_NOWILDCARDMATCH"
  by (simp add: sound_def)

text \<open>The search for the first character that passes a test, and for the first position where \<open>f\<close> decides.\<close>

fun searchTest :: "(u32 list \<Rightarrow> match_result option) \<Rightarrow> (u32 \<Rightarrow> bool) \<Rightarrow> u32 list \<Rightarrow> match_result option" where
  "searchTest f t [] = Some SQLITE_NOWILDCARDMATCH"
| "searchTest f t (x # s) =
     (if t x then
        (case f s of
           None \<Rightarrow> None
         | Some r \<Rightarrow> if r \<noteq> SQLITE_NOMATCH then Some r else searchTest f t s)
      else searchTest f t s)"

lemma no_star: "(\<forall>k. \<not> matches P (drop k s)) \<Longrightarrow> \<not> matches (None # P) (drop k s)"
  by (simp add: matches_star)

lemma searchTest_sound:
  assumes "\<And>u. \<exists>v. s = v @ u \<Longrightarrow> \<exists>r. f u = Some r \<and> sound P u r"
  shows "\<exists>r. searchTest f t s = Some r \<and> r \<noteq> SQLITE_NOMATCH \<and> (r = SQLITE_MATCH \<longleftrightarrow> matches (None # Some t # P) s)"
  using assms
proof (induction s)
  case (Cons x s)
  have IH: "\<exists>r. searchTest f t s = Some r \<and> r \<noteq> SQLITE_NOMATCH \<and> (r = SQLITE_MATCH \<longleftrightarrow> matches (None # Some t # P) s)"
    by (rule Cons.IH) (use Cons.prems in \<open>auto intro: Cons.prems\<close>)
  obtain r where r: "f s = Some r" "sound P s r" using Cons.prems [of s] by auto
  have "\<not> matches (None # Some t # P) s" if "r = SQLITE_NOWILDCARDMATCH"
  proof
    assume "matches (None # Some t # P) s"
    then obtain k where k: "matches (Some t # P) (drop k s)" unfolding matches_star ..
    then obtain y u where u: "drop k s = y # u" "matches P u" by (cases "drop k s") auto
    then have "u = drop (Suc k) s" by (metis drop_Suc list.sel(3) tl_drop)
    with u r that show False by (auto simp: sound_def)
  qed
  with IH r show ?case
    by (cases r) (auto simp: sound_def)
qed simp

fun searchPos :: "(u32 list \<Rightarrow> match_result option) \<Rightarrow> u32 list \<Rightarrow> match_result option" where
  "searchPos f [] = Some SQLITE_NOWILDCARDMATCH"
| "searchPos f (x # s) =
     (case f (x # s) of
        None \<Rightarrow> None
      | Some r \<Rightarrow> if r \<noteq> SQLITE_NOMATCH then Some r else searchPos f s)"

lemma searchPos_sound:
  assumes "\<And>u. \<exists>v. s = v @ u \<Longrightarrow> \<exists>r. f u = Some r \<and> sound (Some t # P) u r"
  shows "\<exists>r. searchPos f s = Some r \<and> r \<noteq> SQLITE_NOMATCH \<and> (r = SQLITE_MATCH \<longleftrightarrow> matches (None # Some t # P) s)"
  using assms
proof (induction s)
  case (Cons x s)
  have IH: "\<exists>r. searchPos f s = Some r \<and> r \<noteq> SQLITE_NOMATCH \<and> (r = SQLITE_MATCH \<longleftrightarrow> matches (None # Some t # P) s)"
    by (rule Cons.IH) (use Cons.prems in \<open>auto intro: Cons.prems\<close>)
  obtain r where r: "f (x # s) = Some r" "sound (Some t # P) (x # s) r" using Cons.prems [of "x # s"] by auto
  have "\<not> matches (None # Some t # P) (x # s)" if "r = SQLITE_NOWILDCARDMATCH"
    using r(2) that unfolding matches_star [of _ "x # s"] sound_def by simp
  moreover have "matches (None # Some t # P) (x # s)" if "r = SQLITE_MATCH"
    using r(2) that by (simp add: sound_def)
  ultimately show ?case
    using IH r by (cases r) (auto simp: sound_def)
qed simp

lemma sound_star_search:
  assumes "r \<noteq> SQLITE_NOMATCH" "r = SQLITE_MATCH \<longleftrightarrow> matches (None # Q) s"
  shows "sound (None # Q) s r"
proof -
  have "\<not> matches (None # Q) (drop k s)" if "\<not> matches (None # Q) s" for k
    using that unfolding matches_star by (metis drop_drop)
  with assms show ?thesis by (cases r) (auto simp: sound_def)
qed

section \<open>The denotation of a pattern\<close>

definition charEq :: "compareInfo \<Rightarrow> u32 \<Rightarrow> u32 \<Rightarrow> bool" where
  "charEq pInfo c x \<longleftrightarrow>
     c = x \<or> noCase pInfo \<and> sqlite3UpperToLower (ucast c) = sqlite3UpperToLower (ucast x) \<and> c < 0x80 \<and> x < 0x80"

text \<open>The ranges of a set behind its optional \<^verbatim>\<open>^\<close> and \<^verbatim>\<open>]\<close>, up to the closing bracket. \<open>lo\<close> is the character a
  range may start from, \<open>0\<close> if there is none.\<close>

fun setItems :: "u32 \<Rightarrow> u32 list \<Rightarrow> ((u32 \<times> u32) list \<times> u32 list) option" where
  "setItems lo [] = None"
| "setItems lo [d] = (if d = 0x5d then Some ([], []) else None)"
| "setItems lo (d # x # p) =
     (if d = 0x5d then Some ([], x # p)
      else if d = 0x2d \<and> x \<noteq> 0x5d \<and> lo > 0 then map_option (\<lambda>(l, r). ((lo, x) # l, r)) (setItems 0 p)
      else map_option (\<lambda>(l, r). ((d, d) # l, r)) (setItems d (x # p)))"

definition setOf :: "u32 list \<Rightarrow> ((u32 \<Rightarrow> bool) \<times> u32 list) option" where
  "setOf p =
     (let invert = (case p of c # _ \<Rightarrow> c = 0x5e | [] \<Rightarrow> False);
          p = (if invert then tl p else p);
          bracket = (case p of c # _ \<Rightarrow> c = 0x5d | [] \<Rightarrow> False);
          p = (if bracket then tl p else p)
      in map_option (\<lambda>(l, r). (\<lambda>x. (bracket \<and> x = 0x5d \<or> (\<exists>(lo, hi)\<in>set l. lo \<le> x \<and> x \<le> hi)) \<noteq> invert, r)) (setItems 0 p))"

lemma setItems_shorter: "setItems lo p = Some (l, r) \<Longrightarrow> length r < length p"
  by (induction lo p arbitrary: l r rule: setItems.induct) (auto split: if_splits)

lemma setOf_shorter: "setOf p = Some (t, r) \<Longrightarrow> length r < length p"
  by (fastforce simp: setOf_def Let_def dest: setItems_shorter split: list.splits if_splits)

text \<open>An escape at the end of the pattern and a set that is not closed match nothing.\<close>

function compile :: "compareInfo \<Rightarrow> u32 \<Rightarrow> u32 list \<Rightarrow> pat" where
  "compile pInfo matchOther [] = []"
| "compile pInfo matchOther (c # p) =
     (if c = ucast (matchAll pInfo) then None # compile pInfo matchOther p
      else if c = matchOther then
        (if matchSet pInfo = 0 then
           (case p of
              [] \<Rightarrow> [Some (\<lambda>_. False)]
            | d # p \<Rightarrow> Some (charEq pInfo d) # compile pInfo matchOther p)
         else
           (case setOf p of
              None \<Rightarrow> [Some (\<lambda>_. False)]
            | Some (t, p) \<Rightarrow> Some t # compile pInfo matchOther p))
      else if c = ucast (matchOne pInfo) then Some (\<lambda>_. True) # compile pInfo matchOther p
      else Some (charEq pInfo c) # compile pInfo matchOther p)"
  by pat_completeness auto
termination by (relation "measure (\<lambda>(i, e, p). length p)") (auto dest: setOf_shorter)

section \<open>Texts as bytes\<close>

abbreviation utf8z :: "u32 list \<Rightarrow> u8 list" where "utf8z s \<equiv> encode SQLITE_UTF8 s @ [0]"

definition textual :: "u32 list \<Rightarrow> bool" where
  "textual s \<longleftrightarrow> (\<forall>c\<in>set s. textChar c \<and> c \<noteq> 0)"

lemma textual_Cons [simp]: "textual (c # s) \<longleftrightarrow> textChar c \<and> c \<noteq> 0 \<and> textual s" and textual_Nil [simp]: "textual []"
  by (auto simp: textual_def)

lemma textual_append [simp]: "textual (u @ v) \<longleftrightarrow> textual u \<and> textual v"
  by (auto simp: textual_def)

lemma utf8z_boundary: "textual s \<Longrightarrow> boundary (utf8z s)"
  by (intro boundary_append encode8_boundary) (simp_all add: textual_def boundary_def)

lemma read_utf8z [simp]:
  "textual (c # s) \<Longrightarrow> sqlite3Utf8Read (WRITE_UTF8 c @ utf8z s) = Some (c, utf8z s)"
  "sqlite3Utf8Read [0] = Some (0, [])"
  using read8_encode(2) [of c "utf8z s"] utf8z_boundary [of s] by simp_all

lemma ucast_eq [simp]: "ucast (a :: u8) = (ucast b :: u32) \<longleftrightarrow> a = b"
  by (metis unat_ucast_up word_unat_eq_iff)

lemma first_byte:
  assumes "textual (c # s)"
  shows "\<exists>b. rd (WRITE_UTF8 c @ r) 0 = Some b \<and> b \<noteq> 0 \<and> (\<forall>k<0x80. b = k \<longleftrightarrow> c = ucast k)"
proof (cases "c < 0x80")
  case True
  then have w: "WRITE_UTF8 c = [ucast c]" "ucast (ucast c :: u8) = c"
    using write8_shape [OF textChar_less, of c] assms low_byte [of c] by auto
  then have "(ucast c :: u8) = k \<longleftrightarrow> c = ucast k" for k
    by (metis ucast_eq)
  moreover have "(ucast c :: u8) \<noteq> 0" using w(2) assms by (metis textual_Cons unsigned_0)
  moreover have "rd (WRITE_UTF8 c @ r) 0 = Some (ucast c)" by (simp add: w(1))
  ultimately show ?thesis by blast
next
  case False
  then obtain b bs where b: "WRITE_UTF8 c = b # bs" "0xc0 \<le> b"
    using write8_shape [OF textChar_less, of c] assms by auto
  have "b \<noteq> k \<and> c \<noteq> ucast k" if "k < 0x80" for k
  proof -
    have "unat k < 128" using that by (simp add: word_less_nat_alt)
    then have "(ucast k :: u32) < 0x80" by (simp add: word_less_nat_alt)
    with False b(2) that show ?thesis by (auto simp: word_le_nat_alt word_less_nat_alt)
  qed
  moreover have "b \<noteq> 0" using b(2) by (auto simp: word_le_nat_alt)
  ultimately show ?thesis using b(1) by auto
qed

text \<open>The bytes of a character that is not ASCII.\<close>

lemma high_utf8z:
  assumes "textChar c" "\<not> c < 0x80" "b \<in> set (WRITE_UTF8 c)"
  shows "0x80 \<le> b"
proof -
  obtain a bs where w: "WRITE_UTF8 c = a # bs" "0xc0 \<le> a" "\<forall>b\<in>set bs. b AND 0xc0 = 0x80"
    using write8_shape [OF textChar_less, of c] assms by auto
  have "0x80 \<le> b" if "b AND 0xc0 = 0x80" for b :: u8
    using arg_cong [OF that, of "\<lambda>x. bit x 7"] by (simp add: u8_ge_0x80 bit_and_iff)
  moreover have "0x80 \<le> a" using w(2) by (auto simp: word_le_nat_alt)
  ultimately show ?thesis using w assms(3) by auto
qed

lemma toupper_table:
  "list_all2 (\<lambda>k x. unat (k AND NOT (x AND 0x20)) = (if 97 \<le> unat k \<and> unat k \<le> 122 then unat k - 32 else unat k))
     (small 128) (take 128 sqlite3CtypeMap)"
  by code_simp

lemma unat_toupper:
  "unat c < 128 \<Longrightarrow> unat (sqlite3Toupper c) = (if 97 \<le> unat c \<and> unat c \<le> 122 then unat c - 32 else unat c)"
  using list_all2_nthD [OF toupper_table, of "unat c"] by (simp add: sqlite3Toupper_def small_def)

lemma unat_tolower: "unat (sqlite3UpperToLower c) = (if 65 \<le> unat c \<and> unat c \<le> 90 then unat c + 32 else unat c)"
  unfolding upperToLower_iff by (simp add: word_le_nat_alt unat_word_ariths)

lemma zStop_iff:
  assumes "unat (c :: u8) < 128"
  shows "b = sqlite3Toupper c \<or> b = sqlite3UpperToLower c \<longleftrightarrow> sqlite3UpperToLower c = sqlite3UpperToLower b"
  using assms unat_toupper [OF assms] unat_tolower [of c] unat_tolower [of b] unfolding word_unat_eq_iff
  by (auto split: if_splits)

text \<open>For an ASCII character the bytes of \<^verbatim>\<open>zStop\<close> are the characters equal to it.\<close>

lemma zStopOf_iff:
  assumes "c < 0x80"
  shows "b \<in> set (zStopOf pInfo c) \<longleftrightarrow> charEq pInfo c (ucast b)"
proof -
  have c: "unat (ucast c :: u8) = unat c" "unat c < 128" "ucast (ucast c :: u8) = c"
    using assms low_byte [of c] by (simp_all add: unat_ucast_u8 word_less_nat_alt)
  have "(b :: u8) = ucast c \<longleftrightarrow> c = ucast b" by (metis c(3) ucast_eq)
  moreover have "(ucast b :: u32) < 0x80" if "sqlite3UpperToLower (ucast c) = sqlite3UpperToLower b"
  proof -
    have "unat (sqlite3UpperToLower (ucast c)) < 128" using c unat_tolower [of "ucast c"] by simp
    with that have "unat b < 128" using unat_tolower [of b] by (simp split: if_splits)
    then show ?thesis by (simp add: word_less_nat_alt)
  qed
  moreover have "ucast (ucast b :: u32) = b"
    by (simp add: word_unat_eq_iff unat_ucast_u8)
  ultimately show ?thesis
    using zStop_iff [of "ucast c" b] c assms by (auto simp: zStopOf_def charEq_def)
qed

lemma stopSearch_high:
  assumes "\<forall>b\<in>set bs. b \<ge> 0x80" "c < 0x80"
  shows "stopSearch f (zStopOf pInfo c) (bs @ r) = stopSearch f (zStopOf pInfo c) r"
  using assms(1)
proof (induction bs)
  case (Cons b bs)
  have "\<not> (ucast b :: u32) < 0x80" using Cons.prems by (simp add: word_le_nat_alt word_less_nat_alt)
  then have "b \<notin> set (zStopOf pInfo c)" using assms(2) by (auto simp: zStopOf_iff charEq_def)
  moreover have "b \<noteq> 0" using Cons.prems by (auto simp: word_le_nat_alt)
  ultimately show ?case using Cons by simp
qed simp

lemma stopSearch_utf8z:
  assumes "textual s" "c < 0x80"
  shows "stopSearch f (zStopOf pInfo c) (utf8z s) = searchTest (\<lambda>u. f (utf8z u)) (charEq pInfo c) s"
  using assms(1)
proof (induction s)
  case (Cons x s)
  show ?case
  proof (cases "x < 0x80")
    case True
    then have w: "WRITE_UTF8 x = [ucast x]" "ucast (ucast x :: u8) = x"
      using write8_shape [OF textChar_less, of x] Cons.prems low_byte [of x] by auto
    moreover have "(ucast x :: u8) \<noteq> 0" using w(2) Cons.prems by (metis textual_Cons unsigned_0)
    ultimately show ?thesis
      using Cons assms(2) by (simp add: zStopOf_iff split: option.splits)
  next
    case False
    then have "\<not> charEq pInfo c x" using assms(2) by (auto simp: charEq_def)
    moreover have "\<forall>b\<in>set (WRITE_UTF8 x). 0x80 \<le> b" using high_utf8z [OF _ False] Cons.prems by auto
    ultimately show ?thesis
      using Cons stopSearch_high [of "WRITE_UTF8 x" c] assms(2) by simp
  qed
qed simp

lemma charSearch_utf8z:
  assumes "textual s" "\<not> c < 0x80"
  shows "charSearch f c (utf8z s) = searchTest (\<lambda>u. f (utf8z u)) (charEq pInfo c) s"
  using assms(1)
proof (induction s)
  case (Cons x s)
  then have "charEq pInfo c x \<longleftrightarrow> x = c" using assms(2) by (auto simp: charEq_def)
  with Cons show ?case
    by (subst charSearch.simps) (auto simp: Utf8Read_eq split: option.splits)
qed (simp add: charSearch.simps Utf8Read_eq)

lemma starSearch_utf8z:
  assumes "textual s" "c \<noteq> 0x80"
  shows "starSearch pInfo f c (utf8z s) = searchTest (\<lambda>u. f (utf8z u)) (charEq pInfo c) s"
proof -
  have "c \<le> 0x80 \<longleftrightarrow> c < 0x80" using assms(2) by auto
  then show ?thesis
    using stopSearch_utf8z [OF assms(1), of c f pInfo] charSearch_utf8z [OF assms(1), of c f pInfo] by (simp add: starSearch_def)
qed

lemma setSearch_utf8z:
  assumes "textual s"
  shows "setSearch f (utf8z s) = searchPos (\<lambda>u. f (utf8z u)) s"
  using assms
proof (induction s)
  case (Cons x s)
  obtain b where "rd (WRITE_UTF8 x @ utf8z s) 0 = Some b" "b \<noteq> 0" using first_byte [OF Cons.prems] by blast
  moreover have "SQLITE_SKIP_UTF8 (WRITE_UTF8 x @ utf8z s) 0 = Some (length (WRITE_UTF8 x))"
    using skip_char [OF textChar_less, of x "utf8z s" "[]"] Cons.prems utf8z_boundary [of s] by simp
  ultimately show ?case
    using Cons by (subst setSearch.simps) (auto split: option.splits)
qed (simp add: setSearch.simps)

section \<open>Sets\<close>

lemma setLoop_utf8z:
  "textual (d # q) \<Longrightarrow>
   (case setItems lo (d # q) of
      None \<Rightarrow> \<exists>b z. setLoop c lo seen d (utf8z q) = Some (0, b, z)
    | Some (l, r) \<Rightarrow> setLoop c lo seen d (utf8z q) = Some (0x5d, seen \<or> (\<exists>(a, b)\<in>set l. a \<le> c \<and> c \<le> b), utf8z r))"
proof (induction "length q" arbitrary: lo d q seen rule: less_induct)
  case less
  show ?case
  proof (cases "d = 0x5d")
    case True
    then show ?thesis by (cases q) (simp_all add: setLoop.simps)
  next
    case d: False
    have nz: "d \<noteq> 0" using less.prems by simp
    show ?thesis
    proof (cases q)
      case Nil
      have "setLoop c lo seen d [0] = Some (0, seen \<or> c = d, [])"
        using d nz by (subst setLoop.simps) (simp add: setLoop.simps)
      with Nil d show ?thesis by simp
    next
      case (Cons x p)
      obtain b where b: "rd (WRITE_UTF8 x @ utf8z p) 0 = Some b" "b \<noteq> 0" "b = 0x5d \<longleftrightarrow> x = 0x5d"
        using first_byte [of x p "utf8z p"] less.prems Cons by fastforce
      have rx: "sqlite3Utf8Read (WRITE_UTF8 x @ utf8z p) = Some (x, utf8z p)" using less.prems Cons by (intro read_utf8z) simp
      show ?thesis
      proof (cases "d = 0x2d \<and> x \<noteq> 0x5d \<and> lo > 0")
        case False
        then have "setLoop c lo seen d (utf8z q) = setLoop c d (seen \<or> c = d) x (utf8z p)"
          using d nz b rx by (subst setLoop.simps) (auto simp: Cons)
        moreover have "setItems lo (d # q) = map_option (\<lambda>(l, r). ((d, d) # l, r)) (setItems d (x # p))"
          using False d Cons by auto
        moreover have "c = d \<longleftrightarrow> d \<le> c \<and> c \<le> d" by auto
        ultimately show ?thesis
          using less.hyps [of p x d "seen \<or> c = d"] less.prems Cons by (auto split: option.splits prod.splits)
      next
        case True
        let ?s = "seen \<or> lo \<le> c \<and> c \<le> x"
        have i: "setItems lo (d # q) = map_option (\<lambda>(l, r). ((lo, x) # l, r)) (setItems 0 p)" using True d Cons by simp
        show ?thesis
        proof (cases p)
          case Nil
          then have "setLoop c lo seen d (utf8z q) = Some (0, ?s, [])"
            using d nz b rx True by (subst setLoop.simps) (simp add: Cons setLoop.simps [of c 0])
          with i Nil show ?thesis by simp
        next
          case p: (Cons y p')
          have ry: "sqlite3Utf8Read (WRITE_UTF8 y @ utf8z p') = Some (y, utf8z p')" using less.prems Cons p by (intro read_utf8z) simp
          then have "setLoop c lo seen d (utf8z q) = setLoop c 0 ?s y (utf8z p')"
            using d nz b rx True by (subst setLoop.simps) (auto simp: Cons p)
          then show ?thesis
            using i less.hyps [of p' y 0 ?s] less.prems Cons p by (auto split: option.splits prod.splits)
        qed
      qed
    qed
  qed
qed

text \<open>The first character of a list, or the terminator.\<close>

definition headC :: "u32 list \<Rightarrow> u32" where "headC p = (case p of [] \<Rightarrow> 0 | c # _ \<Rightarrow> c)"
definition restB :: "u32 list \<Rightarrow> u8 list" where "restB p = (case p of [] \<Rightarrow> [] | _ # r \<Rightarrow> utf8z r)"

lemma read_head: "textual p \<Longrightarrow> sqlite3Utf8Read (utf8z p) = Some (headC p, restB p)"
  by (cases p) (simp_all add: headC_def restB_def)

lemma textual_tl [simp]: "textual p \<Longrightarrow> textual (tl p)"
  by (cases p) simp_all

lemma setLoop_head:
  assumes "textual p"
  shows "case setItems 0 p of
      None \<Rightarrow> \<exists>b z. setLoop c 0 seen (headC p) (restB p) = Some (0, b, z)
    | Some (l, r) \<Rightarrow> setLoop c 0 seen (headC p) (restB p) = Some (0x5d, seen \<or> (\<exists>(a, b)\<in>set l. a \<le> c \<and> c \<le> b), utf8z r)"
proof (cases p)
  case Nil
  show ?thesis unfolding Nil by (simp add: headC_def restB_def setLoop.simps)
next
  case (Cons d q)
  show ?thesis
    using assms setLoop_utf8z [where d = d and q = q and lo = 0 and c = c and seen = seen]
    unfolding Cons headC_def restB_def list.case by simp
qed

lemma globSet_utf8z:
  assumes "textual p"
  shows "case setOf p of
      None \<Rightarrow> \<exists>z. globSet c (utf8z p) = Some (False, z)
    | Some (t, r) \<Rightarrow> globSet c (utf8z p) = Some (t c, utf8z r)"
proof -
  define invert where "invert = (headC p = 0x5e)"
  define p1 where "p1 = (if invert then tl p else p)"
  define br where "br = (headC p1 = 0x5d)"
  define p2 where "p2 = (if br then tl p1 else p1)"
  have h: "headC q = k \<longleftrightarrow> (case q of c # _ \<Rightarrow> c = k | [] \<Rightarrow> False)" if "k \<noteq> 0" for q k
    using that by (cases q) (auto simp: headC_def)
  have t: "restB q = utf8z (tl q)" if "headC q \<noteq> 0" for q using that by (cases q) (simp_all add: headC_def restB_def)
  have x: "textual p1" "textual p2" using assms by (simp_all add: p1_def p2_def)
  have "setOf p = map_option (\<lambda>(l, r). (\<lambda>x. (br \<and> x = 0x5d \<or> (\<exists>(lo, hi)\<in>set l. lo \<le> x \<and> x \<le> hi)) \<noteq> invert, r)) (setItems 0 p2)"
    unfolding setOf_def Let_def p2_def br_def p1_def invert_def by (simp add: h)
  moreover have "globSet c (utf8z p) =
      do { (c2, seen, z) \<leftarrow> setLoop c 0 (br \<and> c = 0x5d) (headC p2) (restB p2); Some (c2 \<noteq> 0 \<and> seen \<noteq> invert, z) }"
  proof -
    have 1: "(if invert then sqlite3Utf8Read (restB p) else Some (headC p, restB p)) = Some (headC p1, restB p1)"
      using read_head [OF x(1)] t [of p] by (cases invert) (simp_all add: p1_def invert_def)
    have 2: "(if br then sqlite3Utf8Read (restB p1) else Some (headC p1, restB p1)) = Some (headC p2, restB p2)"
      using read_head [OF x(2)] t [of p1] by (cases br) (simp_all add: p2_def br_def)
    show ?thesis
      unfolding globSet_def Let_def using read_head [OF assms] 1 2 by (simp flip: invert_def br_def)
  qed
  moreover note setLoop_head [OF x(2), of c "br \<and> c = 0x5d"]
  ultimately show ?thesis
    by (auto split: option.splits)
qed

lemma ucast_0_iff [simp]: "(ucast (a :: u8) :: u32) = 0 \<longleftrightarrow> a = 0"
  using ucast_eq [of a 0] by (simp del: ucast_eq)

section \<open>The wildcards behind a star\<close>

text \<open>What the code assumes of the pattern characters.\<close>

definition okInfo :: "compareInfo \<Rightarrow> u32 \<Rightarrow> bool" where
  "okInfo pInfo matchOther \<longleftrightarrow>
     matchAll pInfo \<noteq> 0 \<and> matchOne pInfo \<noteq> 0 \<and> matchAll pInfo \<noteq> matchOne pInfo \<and>
     matchOther \<noteq> ucast (matchAll pInfo) \<and> matchOther \<noteq> ucast (matchOne pInfo)"

definition skipped :: "compareInfo \<Rightarrow> u32 \<Rightarrow> u32 list \<Rightarrow> u32 list \<Rightarrow> star \<Rightarrow> bool" where
  "skipped pInfo matchOther p s r \<longleftrightarrow>
     (case r of
        StarFail \<Rightarrow> sound (None # compile pInfo matchOther p) s SQLITE_NOWILDCARDMATCH
      | StarNext c z z' zs \<Rightarrow>
          (\<exists>p' s' v. z = utf8z p' \<and> zs = utf8z s' \<and> s = v @ s' \<and> c = headC p' \<and> z' = restB p' \<and> textual p' \<and>
             set p' \<subseteq> set p \<and> length p' \<le> length p \<and>
             (p' \<noteq> [] \<longrightarrow> hd p' \<noteq> ucast (matchAll pInfo) \<and> hd p' \<noteq> ucast (matchOne pInfo)) \<and>
             (\<forall>r. sound (None # compile pInfo matchOther p') s' r \<longrightarrow> sound (None # compile pInfo matchOther p) s r)))"

lemma skipped_Cons:
  assumes "skipped pInfo matchOther p s r" "v @ s = t"
    "\<And>r. sound (None # compile pInfo matchOther p) s r \<Longrightarrow> sound (None # compile pInfo matchOther (c # p)) t r"
  shows "skipped pInfo matchOther (c # p) t r"
proof (cases r)
  case StarFail
  then show ?thesis using assms(1, 3) by (simp add: skipped_def del: compile.simps)
next
  case (StarNext d z z' zs)
  then obtain p' s' u where "z = utf8z p'" "zs = utf8z s'" "s = u @ s'" "d = headC p'" "z' = restB p'" "textual p'"
    "set p' \<subseteq> set p" "length p' \<le> length p"
    "p' \<noteq> [] \<longrightarrow> hd p' \<noteq> ucast (matchAll pInfo) \<and> hd p' \<noteq> ucast (matchOne pInfo)"
    "\<forall>r. sound (None # compile pInfo matchOther p') s' r \<longrightarrow> sound (None # compile pInfo matchOther p) s r"
    using assms(1) by (auto simp: skipped_def)
  then show ?thesis
    unfolding skipped_def StarNext star.case using assms(2, 3)
    by (intro exI [of _ p'] exI [of _ s'] exI [of _ "v @ u"]) (auto simp del: compile.simps)
qed

lemma skipStars_utf8z:
  assumes "okInfo pInfo matchOther" "textual p" "textual s"
  shows "\<exists>r. skipStars pInfo (utf8z p) (utf8z s) = Some r \<and> skipped pInfo matchOther p s r"
  using assms(2, 3)
proof (induction p arbitrary: s)
  case Nil
  have "skipStars pInfo [0] (utf8z s) = Some (StarNext 0 [0] [] (utf8z s))"
    using assms(1) by (subst skipStars.simps) (auto simp: Utf8Read_eq okInfo_def)
  moreover have "skipped pInfo matchOther [] s (StarNext 0 [0] [] (utf8z s))"
    unfolding skipped_def star.case
    by (rule exI [of _ "[]"], rule exI [of _ s], rule exI [of _ "[]"]) (simp add: headC_def restB_def)
  ultimately show ?case by simp
next
  case (Cons c p)
  have rc: "sqlite3Utf8Read (WRITE_UTF8 c @ utf8z p) = Some (c, utf8z p)" using Cons.prems by (intro read_utf8z) simp
  consider (all) "c = ucast (matchAll pInfo)" | (one) "c = ucast (matchOne pInfo)" "c \<noteq> ucast (matchAll pInfo)"
    | (other) "c \<noteq> ucast (matchAll pInfo)" "c \<noteq> ucast (matchOne pInfo)" by blast
  then show ?case
  proof cases
    case all
    then have "skipStars pInfo (utf8z (c # p)) (utf8z s) = skipStars pInfo (utf8z p) (utf8z s)"
      using assms(1) rc by (subst skipStars.simps) (simp add: Utf8Read_eq okInfo_def)
    moreover obtain r where "skipStars pInfo (utf8z p) (utf8z s) = Some r" "skipped pInfo matchOther p s r"
      using Cons.IH [of s] Cons.prems by auto
    moreover have "skipped pInfo matchOther (c # p) s r"
      by (rule skipped_Cons [OF calculation(3), of "[]"]) (simp_all add: all sound_star_star)
    ultimately show ?thesis by simp
  next
    case one
    have o: "c \<noteq> matchOther" using assms(1) one by (auto simp: okInfo_def)
    then have cp: "compile pInfo matchOther (c # p) = Some (\<lambda>_. True) # compile pInfo matchOther p" using one by simp
    show ?thesis
    proof (cases s)
      case Nil
      then have "skipStars pInfo (utf8z (c # p)) (utf8z s) = Some StarFail"
        using one rc by (subst skipStars.simps) (simp add: Utf8Read_eq)
      then show ?thesis using Nil by (simp only: skipped_def cp) (simp add: sound_star_short)
    next
      case s: (Cons x s')
      then have "sqlite3Utf8Read (utf8z s) = Some (x, utf8z s')" using Cons.prems by simp
      then have "skipStars pInfo (utf8z (c # p)) (utf8z s) = skipStars pInfo (utf8z p) (utf8z s')"
        using one rc Cons.prems s by (subst skipStars.simps) (simp add: Utf8Read_eq)
      moreover obtain r where "skipStars pInfo (utf8z p) (utf8z s') = Some r" "skipped pInfo matchOther p s' r"
        using Cons.IH [of s'] Cons.prems s by auto
      moreover have "skipped pInfo matchOther (c # p) s r"
        by (rule skipped_Cons [OF calculation(3), of "[x]"]) (simp_all only: s cp sound_star_one append_Cons append_Nil)
      ultimately show ?thesis by simp
    qed
  next
    case other
    then have "skipStars pInfo (utf8z (c # p)) (utf8z s) = Some (StarNext c (utf8z (c # p)) (utf8z p) (utf8z s))"
      using rc by (subst skipStars.simps) (simp add: Utf8Read_eq)
    moreover have "skipped pInfo matchOther (c # p) s (StarNext c (utf8z (c # p)) (utf8z p) (utf8z s))"
      unfolding skipped_def star.case
      by (rule exI [of _ "c # p"], rule exI [of _ s], rule exI [of _ "[]"]) (use other Cons.prems in \<open>simp add: headC_def restB_def del: compile.simps\<close>)
    ultimately show ?thesis by blast
  qed
qed

section \<open>The matcher\<close>

text \<open>\<open>compares f\<close>: the function \<open>f\<close> decides the patterns shorter than \<open>n\<close>.\<close>

definition compares :: "compareInfo \<Rightarrow> u32 \<Rightarrow> nat \<Rightarrow> (u8 list \<Rightarrow> u8 list \<Rightarrow> match_result option) \<Rightarrow> bool" where
  "compares pInfo matchOther n f \<longleftrightarrow>
     (\<forall>p s. textual p \<and> textual s \<and> 0x80 \<notin> set p \<and> length p < n \<longrightarrow>
        (\<exists>r. f (utf8z p) (utf8z s) = Some r \<and> sound (compile pInfo matchOther p) s r))"

lemma comparesD:
  "compares pInfo matchOther n f \<Longrightarrow> textual p \<Longrightarrow> textual s \<Longrightarrow> 0x80 \<notin> set p \<Longrightarrow> length p < n \<Longrightarrow>
    \<exists>r. f (utf8z p) (utf8z s) = Some r \<and> sound (compile pInfo matchOther p) s r"
  by (auto simp: compares_def)

lemma starSearch_sound:
  assumes "compares pInfo matchOther n f" "textual (d # q)" "textual s" "0x80 \<notin> set (d # q)" "length q < n"
  shows "\<exists>r. starSearch pInfo (f (utf8z q)) d (utf8z s) = Some r \<and> sound (None # Some (charEq pInfo d) # compile pInfo matchOther q) s r"
proof -
  have "\<exists>r. f (utf8z q) (utf8z u) = Some r \<and> sound (compile pInfo matchOther q) u r" if "\<exists>v. s = v @ u" for u
    using that assms by (auto intro!: comparesD)
  from searchTest_sound [of s "\<lambda>u. f (utf8z q) (utf8z u)" "compile pInfo matchOther q" "charEq pInfo d", OF this]
  show ?thesis
    using assms(3, 4) by (auto simp: starSearch_utf8z intro: sound_star_search)
qed

lemma setSearch_sound:
  assumes "compares pInfo matchOther n f" "textual p" "textual s" "0x80 \<notin> set p" "length p < n" "compile pInfo matchOther p = Some t # P"
  shows "\<exists>r. setSearch (f (utf8z p)) (utf8z s) = Some r \<and> sound (None # compile pInfo matchOther p) s r"
proof -
  have "\<exists>r. f (utf8z p) (utf8z u) = Some r \<and> sound (Some t # P) u r" if "\<exists>v. s = v @ u" for u
    using that comparesD [OF assms(1, 2) _ assms(4, 5), of u] assms(3) unfolding assms(6) by auto
  from searchPos_sound [of s "\<lambda>u. f (utf8z p) (utf8z u)" t P, OF this]
  show ?thesis
    using assms(3) unfolding assms(6) by (auto simp: setSearch_utf8z intro: sound_star_search)
qed

text \<open>What the matcher does behind a star and its wildcards.\<close>

definition starRest :: "compareInfo \<Rightarrow> u32 \<Rightarrow> (u8 list \<Rightarrow> u8 list \<Rightarrow> match_result option) \<Rightarrow> star \<Rightarrow> match_result option" where
  "starRest pInfo matchOther f r =
     (case r of
        StarFail \<Rightarrow> Some SQLITE_NOWILDCARDMATCH
      | StarNext c zSet zPattern zString \<Rightarrow>
          if c = 0 then Some SQLITE_MATCH
          else if c = matchOther then
            (if matchSet pInfo = 0 then
               (case sqlite3Utf8Read zPattern of
                  None \<Rightarrow> None
                | Some (c, zPattern) \<Rightarrow>
                    if c = 0 then Some SQLITE_NOWILDCARDMATCH else starSearch pInfo (f zPattern) c zString)
             else setSearch (f zSet) zString)
          else starSearch pInfo (f zPattern) c zString)"

lemma matches_never: "\<not> matches [Some (\<lambda>_. False)] s"
  by (cases s) simp_all

lemma sound_never: "sound [None, Some (\<lambda>_. False)] s SQLITE_NOWILDCARDMATCH"
  by (simp add: sound_def matches_star matches_never)

lemma starRest_sound:
  assumes "okInfo pInfo matchOther" "compares pInfo matchOther n f" "textual p" "textual s" "0x80 \<notin> set p" "length p < n"
    "p \<noteq> [] \<longrightarrow> hd p \<noteq> ucast (matchAll pInfo) \<and> hd p \<noteq> ucast (matchOne pInfo)"
  shows "\<exists>r. starRest pInfo matchOther f (StarNext (headC p) (utf8z p) (restB p) (utf8z s)) = Some r \<and>
    sound (None # compile pInfo matchOther p) s r"
proof (cases p)
  case Nil
  then show ?thesis by (simp add: starRest_def headC_def sound_star_end)
next
  case (Cons c q)
  have c: "c \<noteq> 0" "headC p = c" "restB p = utf8z q" "c \<noteq> ucast (matchAll pInfo)" "c \<noteq> ucast (matchOne pInfo)"
    using Cons assms(3, 7) by (simp_all add: headC_def restB_def)
  consider (lit) "c \<noteq> matchOther" | (esc0) "c = matchOther" "matchSet pInfo = 0" "q = []"
    | (esc) d q' where "c = matchOther" "matchSet pInfo = 0" "q = d # q'" | (set) "c = matchOther" "matchSet pInfo \<noteq> 0"
    by (cases q) auto
  then show ?thesis
  proof cases
    case lit
    then have "compile pInfo matchOther p = Some (charEq pInfo c) # compile pInfo matchOther q" using c Cons by simp
    with starSearch_sound [of pInfo matchOther n f c q s] show ?thesis
      using assms c Cons lit by (simp add: starRest_def)
  next
    case esc0
    then have "compile pInfo matchOther p = [Some (\<lambda>_. False)]" using c Cons by simp
    with sound_never show ?thesis
      using c Cons esc0 by (simp add: starRest_def)
  next
    case esc
    then have "compile pInfo matchOther p = Some (charEq pInfo d) # compile pInfo matchOther q'" using c Cons by simp
    with starSearch_sound [of pInfo matchOther n f d q' s] show ?thesis
      using assms c Cons esc by (simp add: starRest_def)
  next
    case set
    then obtain t P where "compile pInfo matchOther p = Some t # P" using c Cons by (cases "setOf q") auto
    from setSearch_sound [OF assms(2-6) this] show ?thesis
      using c set by (simp add: starRest_def)
  qed
qed

lemma setItems_suffix: "setItems lo p = Some (l, r) \<Longrightarrow> set r \<subseteq> set p"
  by (induction lo p arbitrary: l r rule: setItems.induct) (auto split: if_splits)

lemma setOf_suffix: "setOf p = Some (t, r) \<Longrightarrow> set r \<subseteq> set p"
  by (fastforce simp: setOf_def Let_def dest: setItems_suffix split: list.splits if_splits)

lemma pc_star:
  "Utf8Read z = Some (c, z') \<Longrightarrow> c \<noteq> 0 \<Longrightarrow> c = ucast (matchAll pInfo) \<Longrightarrow>
   patternCompare (Suc n) pInfo matchOther z s =
     (case skipStars pInfo z' s of None \<Rightarrow> None | Some r \<Rightarrow> starRest pInfo matchOther (patternCompare n pInfo matchOther) r)"
  by (simp add: starRest_def split: option.splits star.splits)

lemma charMatches_eq: "x \<noteq> 0 \<Longrightarrow> c \<noteq> 0 \<Longrightarrow>
    charMatches pInfo c e x \<longleftrightarrow> (if c = ucast (matchOne pInfo) \<and> \<not> e then True else charEq pInfo c x)"
  by (auto simp: charMatches_def charEq_def)

lemma charMatches_0: "c \<noteq> 0 \<Longrightarrow> \<not> charMatches pInfo c e 0"
proof -
  assume "c \<noteq> 0"
  have "(ucast c :: u8) \<noteq> 0" if "c < 0x80" using low_byte [OF that] \<open>c \<noteq> 0\<close> by auto
  with \<open>c \<noteq> 0\<close> show ?thesis by (auto simp: charMatches_def)
qed

text \<open>One character against one test.\<close>

lemma one_char_sound:
  assumes "compares pInfo matchOther n f" "textual q" "textual s" "0x80 \<notin> set q" "length q < n"
    "\<And>x. x \<noteq> 0 \<Longrightarrow> g x \<longleftrightarrow> t x" "\<not> g 0"
  shows "\<exists>r. (case sqlite3Utf8Read (utf8z s) of
      None \<Rightarrow> None | Some (c2, zString) \<Rightarrow> if g c2 then f (utf8z q) zString else Some SQLITE_NOMATCH) = Some r \<and>
    sound (Some t # compile pInfo matchOther q) s r"
proof (cases s)
  case Nil
  then show ?thesis using assms(7) by (simp add: sound_fail)
next
  case (Cons x s')
  have rx: "sqlite3Utf8Read (utf8z s) = Some (x, utf8z s')" "x \<noteq> 0" "textual s'" using assms(3) Cons by simp_all
  obtain r where "f (utf8z q) (utf8z s') = Some r" "sound (compile pInfo matchOther q) s' r"
    using comparesD [OF assms(1, 2) rx(3) assms(4, 5)] by blast
  with rx assms(6) Cons show ?thesis
    by (auto intro: sound_test sound_fail)
qed

lemma skipped_sound:
  assumes "okInfo pInfo matchOther" "compares pInfo matchOther n f" "skipped pInfo matchOther q s st" "textual s" "0x80 \<notin> set q" "length q < n"
  shows "\<exists>r. starRest pInfo matchOther f st = Some r \<and> sound (None # compile pInfo matchOther q) s r"
proof (cases st)
  case StarFail
  with assms(3) show ?thesis by (simp add: skipped_def starRest_def)
next
  case (StarNext c z z' zs)
  with assms(3) obtain p' s' u where p': "z = utf8z p'" "zs = utf8z s'" "s = u @ s'" "c = headC p'" "z' = restB p'" "textual p'"
    "set p' \<subseteq> set q" "length p' \<le> length q"
    "p' \<noteq> [] \<longrightarrow> hd p' \<noteq> ucast (matchAll pInfo) \<and> hd p' \<noteq> ucast (matchOne pInfo)"
    "\<forall>r. sound (None # compile pInfo matchOther p') s' r \<longrightarrow> sound (None # compile pInfo matchOther q) s r"
    by (auto simp: skipped_def)
  have "textual s'" "0x80 \<notin> set p'" "length p' < n" using p'(3, 7, 8) assms(4-6) by auto
  from starRest_sound [OF assms(1, 2) p'(6) this p'(9)] show ?thesis
    using p'(1, 2, 4, 5, 10) StarNext by auto
qed

lemma set_sound:
  assumes "compares pInfo matchOther n f" "textual q" "textual s" "0x80 \<notin> set q" "length q < n"
  shows "\<exists>r. (case sqlite3Utf8Read (utf8z s) of
      None \<Rightarrow> None
    | Some (c, zString) \<Rightarrow>
        if c = 0 then Some SQLITE_NOMATCH
        else (case globSet c (utf8z q) of None \<Rightarrow> None | Some (ok, z) \<Rightarrow> if ok then f z zString else Some SQLITE_NOMATCH)) = Some r \<and>
    sound (case setOf q of None \<Rightarrow> [Some (\<lambda>_. False)] | Some (t, q') \<Rightarrow> Some t # compile pInfo matchOther q') s r"
proof (cases s)
  case Nil
  then show ?thesis by (auto simp: sound_fail split: option.splits)
next
  case (Cons x s')
  have rx: "sqlite3Utf8Read (utf8z s) = Some (x, utf8z s')" "x \<noteq> 0" "textual s'" using assms(3) Cons by simp_all
  show ?thesis
  proof (cases "setOf q")
    case None
    with globSet_utf8z [OF assms(2), of x] rx Cons show ?thesis by (auto simp: sound_fail)
  next
    case (Some a)
    then obtain t q' where a: "setOf q = Some (t, q')" by (cases a) auto
    have q': "textual q'" "0x80 \<notin> set q'" "length q' < n"
      using setOf_suffix [OF a] setOf_shorter [OF a] assms(2, 4, 5) by (auto simp: textual_def)
    obtain r where "f (utf8z q') (utf8z s') = Some r" "sound (compile pInfo matchOther q') s' r"
      using comparesD [OF assms(1) q'(1) rx(3) q'(2, 3)] by blast
    with globSet_utf8z [OF assms(2), of x] rx Cons a show ?thesis by (auto intro: sound_test sound_fail)
  qed
qed

lemma patternCompare_compares:
  assumes "okInfo pInfo matchOther"
  shows "compares pInfo matchOther n (patternCompare n pInfo matchOther)"
proof (induction n)
  case (Suc n)
  have "\<exists>r. patternCompare (Suc n) pInfo matchOther (utf8z p) (utf8z s) = Some r \<and> sound (compile pInfo matchOther p) s r"
    if p: "textual p" "textual s" "0x80 \<notin> set p" "length p < Suc n" for p s
  proof (cases p)
    case Nil
    have "\<exists>b. rd (utf8z s) 0 = Some b \<and> (b = 0 \<longleftrightarrow> s = [])"
      using first_byte [of "hd s" "tl s" "utf8z (tl s)"] p(2) by (cases s) (auto simp del: rd_append)
    with Nil show ?thesis using sound_nil [of s] by (auto simp: Utf8Read_eq)
  next
    case (Cons c q)
    have rc: "Utf8Read (utf8z p) = Some (c, utf8z q)" "c \<noteq> 0" "textual q" "0x80 \<notin> set q" "length q < n"
      using p Cons by (simp_all add: Utf8Read_eq)
    consider (all) "c = ucast (matchAll pInfo)" | (set) "c \<noteq> ucast (matchAll pInfo)" "c = matchOther" "matchSet pInfo \<noteq> 0"
      | (esc0) "c \<noteq> ucast (matchAll pInfo)" "c = matchOther" "matchSet pInfo = 0" "q = []"
      | (esc) d q' where "c \<noteq> ucast (matchAll pInfo)" "c = matchOther" "matchSet pInfo = 0" "q = d # q'"
      | (one) "c \<noteq> ucast (matchAll pInfo)" "c \<noteq> matchOther"
      by (cases q) auto
    then show ?thesis
    proof cases
      case all
      obtain st where st: "skipStars pInfo (utf8z q) (utf8z s) = Some st" "skipped pInfo matchOther q s st"
        using skipStars_utf8z [OF assms rc(3) p(2)] by blast
      have "\<exists>r. starRest pInfo matchOther (patternCompare n pInfo matchOther) st = Some r \<and> sound (None # compile pInfo matchOther q) s r"
        using skipped_sound [OF assms Suc.IH st(2) p(2) rc(4, 5)] .
      with all rc(1, 2) st(1) Cons show ?thesis by (simp add: pc_star del: patternCompare.simps)
    next
      case set
      then have "compile pInfo matchOther p = (case setOf q of None \<Rightarrow> [Some (\<lambda>_. False)] | Some (t, q') \<Rightarrow> Some t # compile pInfo matchOther q')"
        using Cons by simp
      with set_sound [OF Suc.IH rc(3) p(2) rc(4, 5)] show ?thesis
        using rc(1, 2) set by simp
    next
      case esc0
      then show ?thesis using rc Cons matches_never [of s] by (simp add: sound_def)
    next
      case esc
      then have "compile pInfo matchOther p = Some (charEq pInfo d) # compile pInfo matchOther q'" using Cons by simp
      with one_char_sound [OF Suc.IH, of q' s "charMatches pInfo d True" "charEq pInfo d"] show ?thesis
        using rc esc p(2) Cons charMatches_eq [of _ d pInfo True] charMatches_0 [of d pInfo True] by (simp add: Utf8Read_eq)
    next
      case one
      define t where "t = (if c = ucast (matchOne pInfo) then (\<lambda>_. True) else charEq pInfo c)"
      have "compile pInfo matchOther p = Some t # compile pInfo matchOther q" using Cons one by (simp add: t_def)
      with one_char_sound [OF Suc.IH rc(3) p(2) rc(4, 5), of "charMatches pInfo c False" t] show ?thesis
        using rc one charMatches_eq [of _ c pInfo False] charMatches_0 [of c pInfo False] by (simp add: Utf8Read_eq t_def)
    qed
  qed
  then show ?case unfolding compares_def by blast
qed (simp add: compares_def)

section \<open>Properties\<close>

lemma patternCompare_utf8z:
  assumes "okInfo pInfo matchOther" "textual p" "textual s" "0x80 \<notin> set p"
  shows "\<exists>r. patternCompare (length (utf8z p)) pInfo matchOther (utf8z p) (utf8z s) = Some r \<and>
    (r = SQLITE_MATCH \<longleftrightarrow> matches (compile pInfo matchOther p) s)"
  using comparesD [OF patternCompare_compares [OF assms(1)] assms(2-4), of "length (utf8z p)"] length_encode [of p]
  by (auto simp: sound_def)

lemma okInfos: "okInfo globInfo 0x5b" "e \<noteq> 0x25 \<Longrightarrow> e \<noteq> 0x5f \<Longrightarrow> okInfo likeInfoNorm e"
  by (simp_all add: okInfo_def globInfo_def likeInfoNorm_def)

lemma likeFunc_two:
  assumes "textual p" "textual s" "0x80 \<notin> set p"
  shows "likeFunc limit likeInfoNorm n (Some (utf8z p)) (Some (utf8z s)) None =
    Some (if n > limit then LikeError ''LIKE or GLOB pattern too complex'' else LikeInt (matches (compile likeInfoNorm 0 p) s))"
proof -
  have "ucast (matchSet likeInfoNorm) = (0 :: u32)" by (simp add: likeInfoNorm_def)
  with patternCompare_utf8z [OF okInfos(2) assms, of 0] show ?thesis
    by (auto simp: likeFunc_def)
qed

lemma likeFunc_three:
  assumes "textual p" "textual s" "0x80 \<notin> set p" "textual es" "0x25 \<notin> set es" "0x5f \<notin> set es" "n \<le> limit"
  shows "likeFunc limit likeInfoNorm n (Some (utf8z p)) (Some (utf8z s)) (Some (Some (utf8z es))) =
    Some (if length es \<noteq> 1 then LikeError ''ESCAPE expression must be a single character''
          else LikeInt (matches (compile likeInfoNorm (hd es) p) s))"
proof -
  have l: "sqlite3Utf8CharLen (utf8z es) (- 1) = Some (int (length es))"
    using charLen_encode(2) [of es "[0]"] assms(4) by (simp add: textual_def boundary_def)
  show ?thesis
  proof (cases "length es = 1")
    case False
    with l assms(7) show ?thesis by (simp add: likeFunc_def)
  next
    case True
    then obtain e where e: "es = [e]" by (auto simp: length_Suc_conv)
    then have "sqlite3Utf8Read (utf8z es) = Some (e, [0])" using read_utf8z(1) [of e "[]"] assms(4) by simp
    with patternCompare_utf8z [OF okInfos(2) assms(1-3), of e] l assms e show ?thesis
      by (auto simp: likeFunc_def)
  qed
qed

text \<open>C14: On pattern and text in UTF-8, \<^verbatim>\<open>sqlite3_strglob\<close>, \<^verbatim>\<open>sqlite3_strlike\<close> and the SQL function behind the
  LIKE operator return for every input and answer as the denotation of the pattern says: a wildcard
  is any sequence of characters, every other element tests one character (any, equal up to ASCII
  case, escaped, or in a set of characters and ranges). The early return
  \<^verbatim>\<open>SQLITE_NOWILDCARDMATCH\<close> never loses a match. Patterns above the length limit and escape strings
  that are not one character are errors. The pattern must not contain \<^verbatim>\<open>U+0080\<close>, for which the
  statement is false, and the escape character must not be a wildcard.\<close>

theorem like_glob_correct:
  assumes "textual p" "textual s" "0x80 \<notin> set p"
  shows "(\<exists>r. sqlite3_strglob (utf8z p) (utf8z s) = Some r \<and> (r = SQLITE_MATCH \<longleftrightarrow> matches (compile globInfo 0x5b p) s)) \<and>
    (e \<noteq> 0x25 \<and> e \<noteq> 0x5f \<longrightarrow>
      (\<exists>r. sqlite3_strlike (utf8z p) (utf8z s) e = Some r \<and> (r = SQLITE_MATCH \<longleftrightarrow> matches (compile likeInfoNorm e p) s))) \<and>
    likeFunc limit likeInfoNorm n (Some (utf8z p)) (Some (utf8z s)) None =
      Some (if n > limit then LikeError ''LIKE or GLOB pattern too complex''
            else LikeInt (matches (compile likeInfoNorm 0 p) s)) \<and>
    (textual es \<and> 0x25 \<notin> set es \<and> 0x5f \<notin> set es \<and> n \<le> limit \<longrightarrow>
      likeFunc limit likeInfoNorm n (Some (utf8z p)) (Some (utf8z s)) (Some (Some (utf8z es))) =
        Some (if length es \<noteq> 1 then LikeError ''ESCAPE expression must be a single character''
              else LikeInt (matches (compile likeInfoNorm (hd es) p) s)))"
  using patternCompare_utf8z [OF okInfos(1) assms] patternCompare_utf8z [OF okInfos(2) assms] likeFunc_two [OF assms]
    likeFunc_three [OF assms]
  by (simp add: sqlite3_strglob_def sqlite3_strlike_def)

text \<open>An escaped per cent sign, a letter outside ASCII and two single-character wildcards; a range in a set.\<close>

theorem like_glob_correct_witness:
  "matches (compile likeInfoNorm 0x21 [0x25, 0x21, 0x25, 0x20, 0xC9, 0x5f, 0x5f]) [0x31, 0x30, 0x30, 0x25, 0x20, 0xC9, 0x74, 0xE9] \<and>
   likeFunc 50 likeInfoNorm 8 (Some (utf8z [0x25, 0x21, 0x25, 0x20, 0xC9, 0x5f, 0x5f]))
     (Some (utf8z [0x31, 0x30, 0x30, 0x25, 0x20, 0xC9, 0x74, 0xE9])) (Some (Some (utf8z [0x21]))) = Some (LikeInt True) \<and>
   (\<exists>r. sqlite3_strglob (utf8z [0x2a, 0x5b, 0x61, 0x2d, 0x63, 0x5d]) (utf8z [0x7a, 0x62]) = Some r \<and> r = SQLITE_MATCH)"
proof -
  have t: "textual [0x25, 0x21, 0x25, 0x20, 0xC9, 0x5f, 0x5f]" "textual [0x31, 0x30, 0x30, 0x25, 0x20, 0xC9, 0x74, 0xE9]"
    "textual [0x21]" "textual [0x2a, 0x5b, 0x61, 0x2d, 0x63, 0x5d]" "textual [0x7a, 0x62]"
    by code_simp+
  have m: "matches (compile likeInfoNorm 0x21 [0x25, 0x21, 0x25, 0x20, 0xC9, 0x5f, 0x5f]) [0x31, 0x30, 0x30, 0x25, 0x20, 0xC9, 0x74, 0xE9]"
    "matches (compile globInfo 0x5b [0x2a, 0x5b, 0x61, 0x2d, 0x63, 0x5d]) [0x7a, 0x62]"
    by code_simp+
  then show ?thesis
    using like_glob_correct [OF t(1, 2), of 0 50 8 "[0x21]"] like_glob_correct [OF t(4, 5), of 0 50 8 "[0x21]"] t(3) by simp
qed

text \<open>The search for the character behind a star treats \<^verbatim>\<open>U+0080\<close> as a single byte, so it is found inside
  other characters: the pattern \<^verbatim>\<open>%\<close> followed by \<^verbatim>\<open>U+0080\<close> matches \<^verbatim>\<open>U+00C0\<close>.\<close>

lemma like_0x80_mismatch:
  "sqlite3_strlike (utf8z [0x25, 0x80]) (utf8z [0xC0]) 0 = Some SQLITE_MATCH \<and> \<not> matches (compile likeInfoNorm 0 [0x25, 0x80]) [0xC0]"
proof
  show "sqlite3_strlike (utf8z [0x25, 0x80]) (utf8z [0xC0]) 0 = Some SQLITE_MATCH" by code_simp
  show "\<not> matches (compile likeInfoNorm 0 [0x25, 0x80]) [0xC0]" by code_simp
qed

end
