(* ===== verification/MemJournal.thy ===== *)
theory MemJournal
  imports Prelude
begin

text \<open>
  The in-memory rollback journal (\<^verbatim>\<open>memjournal.c\<close>): a file kept as a list of chunks, with cursors to its
  end and to the end of the last read, which is spilled to a real file when it grows too large.

  \<^verbatim>\<open>pFirst\<close> is the list of chunks and a pointer to a chunk its index in it; a new chunk is linked behind
  the chunk of the end cursor, as the code does, so that a wrong cursor would lose chunks. \<open>None\<close> is a
  null pointer that is followed, or a copy outside a chunk. Fresh memory holds \<open>junk\<close>.

  The operating system is a parameter: a record of the calls that are made on the real file, over a
  state \<open>'w\<close> that holds it. Only the journal file is modelled, so a handle is either the memory
  journal or the real file. Nothing is assumed of the content of a file that is opened: a journal that was
  kept is opened with its old content.
\<close>

section \<open>Files\<close>

record 'w vfs =
  osOpen :: "'w \<Rightarrow> result_code \<times> 'w"
  osWrite :: "'w \<Rightarrow> u8 list \<Rightarrow> nat \<Rightarrow> result_code \<times> 'w"
  osClose :: "'w \<Rightarrow> 'w"

record memjournal =
  nChunkSize :: nat
  nSpill :: int
  nSize :: nat
  chunks :: "u8 list list"
  endOffset :: nat
  endChunk :: "nat option"
  readOffset :: nat
  readChunk :: "nat option"
  jflags :: u32

datatype journal = InMemory memjournal | OnDisk

section \<open>Reading\<close>

text \<open>The search for the chunk of an offset; the number of chunks is the null pointer.\<close>

function findChunk :: "memjournal \<Rightarrow> nat \<Rightarrow> nat \<Rightarrow> nat \<Rightarrow> nat" where
  "findChunk p k iOff iOfst =
     (if k < length (chunks p) \<and> iOff + nChunkSize p \<le> iOfst
      then findChunk p (k + 1) (iOff + nChunkSize p) iOfst else k)"
  by pat_completeness auto
termination by (relation "measure (\<lambda>(p, k, i, j). length (chunks p) - k)") auto

declare findChunk.simps [simp del]

text \<open>The copy loop, from the offset \<open>iChunkOffset\<close> of the chunk \<open>k\<close>: the bytes copied and the chunk the
  loop stops at.\<close>

function copyLoop :: "memjournal \<Rightarrow> nat \<Rightarrow> nat \<Rightarrow> nat \<Rightarrow> u8 list \<Rightarrow> (u8 list \<times> nat option) option" where
  "copyLoop p k iChunkOffset nRead zOut =
     (case rd (chunks p) k of
        None \<Rightarrow> None
      | Some zChunk \<Rightarrow>
          (let iSpace = nChunkSize p - iChunkOffset;
               nCopy = min nRead iSpace
           in if iChunkOffset + nCopy > length zChunk then None
              else
                let zOut = zOut @ take nCopy (drop iChunkOffset zChunk)
                in if nRead < iSpace then Some (zOut, Some k)
                   else if k + 1 \<ge> length (chunks p) then Some (zOut, None)
                   else if nRead - iSpace > 0 then copyLoop p (k + 1) 0 (nRead - iSpace) zOut
                   else Some (zOut, Some (k + 1))))"
  by pat_completeness auto
termination by (relation "measure (\<lambda>(p, k, i, n, z). length (chunks p) - k)") (auto simp: rd_def split: if_splits)

declare copyLoop.simps [simp del]

text \<open>A short read leaves the buffer as it is.\<close>

definition memjrnlRead :: "memjournal \<Rightarrow> nat \<Rightarrow> nat \<Rightarrow> (result_code \<times> u8 list \<times> memjournal) option" where
  "memjrnlRead p iAmt iOfst =
     (if iAmt + iOfst > endOffset p then Some (SQLITE_IOERR_SHORT_READ, [], p)
      else
        do {
          k \<leftarrow> (if readOffset p \<noteq> iOfst \<or> iOfst = 0 then Some (findChunk p 0 0 iOfst) else readChunk p);
          (zOut, pChunk) \<leftarrow> copyLoop p k (iOfst mod nChunkSize p) iAmt [];
          Some (SQLITE_OK, zOut, p\<lparr>readOffset := (if pChunk = None then 0 else iOfst + iAmt), readChunk := pChunk\<rparr>)
        })"

section \<open>Spilling\<close>

definition memjrnlFreeChunks :: "memjournal \<Rightarrow> memjournal" where
  "memjrnlFreeChunks p = p\<lparr>chunks := []\<rparr>"

fun createLoop :: "'w vfs \<Rightarrow> 'w \<Rightarrow> u8 list list \<Rightarrow> nat \<Rightarrow> nat \<Rightarrow> nat \<Rightarrow> (result_code \<times> 'w) option" where
  "createLoop V w [] iOff nChunk iEnd = Some (SQLITE_OK, w)"
| "createLoop V w (zChunk # cs) iOff nChunk iEnd =
     (let nChunk = (if iOff + nChunk > iEnd then iEnd - iOff else nChunk)
      in if nChunk > length zChunk then None
         else
           (case osWrite V w (take nChunk zChunk) iOff of
              (rc, w) \<Rightarrow> if rc \<noteq> SQLITE_OK then Some (rc, w) else createLoop V w cs (iOff + nChunk) nChunk iEnd))"

definition memjrnlCreateFile :: "'w vfs \<Rightarrow> 'w \<Rightarrow> memjournal \<Rightarrow> (result_code \<times> journal \<times> 'w) option" where
  "memjrnlCreateFile V w p =
     (case osOpen V w of
        (rc, w) \<Rightarrow>
          if rc \<noteq> SQLITE_OK then Some (rc, InMemory p, osClose V w)
          else
            do {
              (rc, w) \<leftarrow> createLoop V w (chunks p) 0 (nChunkSize p) (endOffset p);
              Some (if rc \<noteq> SQLITE_OK then (rc, InMemory p, osClose V w) else (rc, OnDisk, w))
            })"

section \<open>Writing\<close>

text \<open>A new chunk behind the chunk of the end cursor.\<close>

definition linkChunk :: "memjournal \<Rightarrow> u8 list \<Rightarrow> memjournal" where
  "linkChunk p pNew =
     (let cs = (case endChunk p of Some k \<Rightarrow> take (k + 1) (chunks p) | None \<Rightarrow> [])
      in p\<lparr>chunks := cs @ [pNew], endChunk := Some (length cs)\<rparr>)"

text \<open>The copy to the offset \<open>iChunkOffset\<close> of the last chunk.\<close>

definition putChunk :: "memjournal \<Rightarrow> nat \<Rightarrow> u8 list \<Rightarrow> memjournal option" where
  "putChunk p iChunkOffset z =
     do {
       k \<leftarrow> endChunk p;
       zChunk \<leftarrow> rd (chunks p) k;
       if iChunkOffset + length z > length zChunk then None
       else Some (p\<lparr>chunks := (chunks p)[k := take iChunkOffset zChunk @ z @ drop (iChunkOffset + length z) zChunk]\<rparr>)
     }"

text \<open>A chunk size of zero would make the loop run forever; it is \<open>None\<close> here.\<close>

function writeLoop :: "(nat \<Rightarrow> u8) \<Rightarrow> oom \<Rightarrow> memjournal \<Rightarrow> u8 list \<Rightarrow> (result_code \<times> memjournal \<times> oom) option" where
  "writeLoop junk w p zWrite =
     (if zWrite = [] then Some (SQLITE_OK, p, w)
      else if nChunkSize p = 0 then None
      else
        let iChunkOffset = endOffset p mod nChunkSize p;
            iSpace = min (length zWrite) (nChunkSize p - iChunkOffset)
        in case (if iChunkOffset = 0 then alloc w else (True, w)) of
             (False, w) \<Rightarrow> Some (SQLITE_IOERR_NOMEM, p, w)
           | (True, w) \<Rightarrow>
               (case putChunk (if iChunkOffset = 0 then linkChunk p (map junk [0..<nChunkSize p]) else p)
                       iChunkOffset (take iSpace zWrite) of
                  None \<Rightarrow> None
                | Some p \<Rightarrow> writeLoop junk w (p\<lparr>endOffset := endOffset p + iSpace\<rparr>) (drop iSpace zWrite)))"
  by pat_completeness auto
termination by (relation "measure (\<lambda>(j, w, p, z). length z)") (auto simp: min_def)

declare writeLoop.simps [simp del]

definition memjrnlWrite ::
  "(nat \<Rightarrow> u8) \<Rightarrow> 'w vfs \<Rightarrow> oom \<Rightarrow> 'w \<Rightarrow> memjournal \<Rightarrow> u8 list \<Rightarrow> nat \<Rightarrow> (result_code \<times> journal \<times> oom \<times> 'w) option" where
  "memjrnlWrite junk V w f p zBuf iOfst =
     (if nSpill p > 0 \<and> int (length zBuf + iOfst) > nSpill p then
        do {
          (rc, j, f) \<leftarrow> memjrnlCreateFile V f p;
          if rc \<noteq> SQLITE_OK then Some (rc, j, w, f)
          else (case osWrite V f zBuf iOfst of (rc, f) \<Rightarrow> Some (rc, j, w, f))
        }
      else if iOfst = 0 \<and> chunks p \<noteq> [] then
        (if length zBuf > length (hd (chunks p)) then None
         else
           Some (SQLITE_OK,
             InMemory (p\<lparr>chunks := (zBuf @ drop (length zBuf) (hd (chunks p))) # tl (chunks p)\<rparr>), w, f))
      else
        do {
          (rc, p, w) \<leftarrow> writeLoop junk w p zBuf;
          Some (rc, InMemory (if rc = SQLITE_OK then p\<lparr>nSize := length zBuf + iOfst\<rparr> else p), w, f)
        })"

section \<open>The other methods\<close>

definition memjrnlTruncate :: "memjournal \<Rightarrow> int \<Rightarrow> result_code \<times> memjournal" where
  "memjrnlTruncate p newSize =
     (SQLITE_OK,
      if newSize = 0 then
        (memjrnlFreeChunks p)\<lparr>nSize := 0, endChunk := None, endOffset := 0, readChunk := None, readOffset := 0\<rparr>
      else p)"

definition memjrnlClose :: "memjournal \<Rightarrow> result_code \<times> memjournal" where
  "memjrnlClose p = (SQLITE_OK, memjrnlFreeChunks p)"

definition memjrnlSync :: "memjournal \<Rightarrow> result_code" where
  "memjrnlSync p = SQLITE_OK"

definition memjrnlFileSize :: "memjournal \<Rightarrow> result_code \<times> nat" where
  "memjrnlFileSize p = (SQLITE_OK, endOffset p)"

definition sqlite3JournalOpen :: "'w vfs \<Rightarrow> 'w \<Rightarrow> u32 \<Rightarrow> int \<Rightarrow> result_code \<times> journal \<times> 'w" where
  "sqlite3JournalOpen V w flags spill =
     (if spill = 0 then (case osOpen V w of (rc, w) \<Rightarrow> (rc, OnDisk, w))
      else
        (SQLITE_OK,
         InMemory \<lparr>nChunkSize = (if spill > 0 then nat spill else 8 + 1024 - 16), nSpill = spill, nSize = 0, chunks = [],
           endOffset = 0, endChunk = None, readOffset = 0, readChunk = None, jflags = flags\<rparr>, w))"

definition sqlite3MemJournalOpen :: "'w vfs \<Rightarrow> 'w \<Rightarrow> result_code \<times> journal \<times> 'w" where
  "sqlite3MemJournalOpen V w = sqlite3JournalOpen V w 0 (- 1)"

definition SQLITE_OPEN_MAIN_JOURNAL :: u32 where "SQLITE_OPEN_MAIN_JOURNAL = 0x00000800"

definition sqlite3JournalCreate :: "'w vfs \<Rightarrow> 'w \<Rightarrow> journal \<Rightarrow> (result_code \<times> journal \<times> 'w) option" where
  "sqlite3JournalCreate V w j =
     (case j of
        InMemory p \<Rightarrow>
          if nSpill p > 0 \<or> jflags p AND SQLITE_OPEN_MAIN_JOURNAL \<noteq> 0 then memjrnlCreateFile V w p
          else Some (SQLITE_OK, j, w)
      | OnDisk \<Rightarrow> Some (SQLITE_OK, j, w))"

definition sqlite3JournalIsInMemory :: "journal \<Rightarrow> bool" where
  "sqlite3JournalIsInMemory j = (case j of InMemory _ \<Rightarrow> True | OnDisk \<Rightarrow> False)"

section \<open>The journal as a sequence of bytes\<close>

definition jcontent :: "memjournal \<Rightarrow> u8 list" where
  "jcontent p = take (endOffset p) (concat (chunks p))"

definition jwf :: "memjournal \<Rightarrow> bool" where
  "jwf p \<longleftrightarrow>
     0 < nChunkSize p \<and> (\<forall>c\<in>set (chunks p). length c = nChunkSize p) \<and>
     endOffset p \<le> nChunkSize p * length (chunks p) \<and> nChunkSize p * length (chunks p) < endOffset p + nChunkSize p \<and>
     endChunk p = (if chunks p = [] then None else Some (length (chunks p) - 1)) \<and>
     (readOffset p = 0 \<or> readChunk p = Some (readOffset p div nChunkSize p) \<and> readOffset p div nChunkSize p < length (chunks p))"

lemma length_concat_chunks: "\<forall>c\<in>set cs. length c = n \<Longrightarrow> length (concat cs) = n * length cs"
  by (induction cs) simp_all

lemma length_jcontent: "jwf p \<Longrightarrow> length (jcontent p) = endOffset p"
  using length_concat_chunks [of "chunks p" "nChunkSize p"] by (simp add: jcontent_def jwf_def)

lemma drop_concat_chunks:
  "\<forall>c\<in>set cs. length c = n \<Longrightarrow> k \<le> length cs \<Longrightarrow> drop (n * k + co) (concat cs) = drop co (concat (drop k cs))"
proof (induction cs arbitrary: k)
  case (Cons c cs)
  then show ?case
  proof (cases k)
    case (Suc k')
    have "drop (n * k + co) (concat (c # cs)) = drop (n * k' + co) (concat cs)" using Cons.prems Suc by simp
    also have "\<dots> = drop co (concat (drop k' cs))" by (rule Cons.IH) (use Cons.prems Suc in simp_all)
    finally show ?thesis by (simp add: Suc)
  qed simp
qed simp

section \<open>Reading\<close>

lemma findChunk_eq:
  assumes "0 < nChunkSize p" "k \<le> iOfst div nChunkSize p" "iOfst div nChunkSize p < length (chunks p)"
  shows "findChunk p k (nChunkSize p * k) iOfst = iOfst div nChunkSize p"
  using assms
proof (induction "iOfst div nChunkSize p - k" arbitrary: k)
  case 0
  then have "k = iOfst div nChunkSize p" by simp
  then have "\<not> nChunkSize p * k + nChunkSize p \<le> iOfst"
    using dividend_less_times_div [OF 0(2), of iOfst] by simp
  then show ?case using \<open>k = _\<close> by (subst findChunk.simps) simp
next
  case (Suc d)
  then have k: "k + 1 \<le> iOfst div nChunkSize p" by simp
  then have "nChunkSize p * (k + 1) \<le> iOfst"
    using mult_le_mono2 [OF k, of "nChunkSize p"] times_div_less_eq_dividend [of "nChunkSize p" iOfst] by linarith
  then have "findChunk p k (nChunkSize p * k) iOfst = findChunk p (k + 1) (nChunkSize p * (k + 1)) iOfst"
    using Suc.prems k by (subst findChunk.simps) (simp add: algebra_simps)
  then show ?case using Suc.hyps(1) [of "k + 1"] Suc.hyps(2) Suc.prems k by simp
qed

text \<open>The cursor for an offset, if it has a chunk.\<close>

definition chunkAt :: "memjournal \<Rightarrow> nat \<Rightarrow> nat option" where
  "chunkAt p i = (if i div nChunkSize p < length (chunks p) then Some (i div nChunkSize p) else None)"

lemma div_chunk: "0 < n \<Longrightarrow> x < n \<Longrightarrow> (n * k + x) div n = (k :: nat)" "0 < n \<Longrightarrow> (n * k + n) div n = Suc k"
  by simp_all

lemma copyLoop_ok:
  assumes "0 < nChunkSize p" "\<forall>c\<in>set (chunks p). length c = nChunkSize p" "k < length (chunks p)" "co < nChunkSize p" "0 < nRead"
    "nChunkSize p * k + co + nRead \<le> nChunkSize p * length (chunks p)"
  shows "copyLoop p k co nRead zOut =
    Some (zOut @ take nRead (drop co (concat (drop k (chunks p)))), chunkAt p (nChunkSize p * k + co + nRead))"
  using assms(3-6)
proof (induction "length (chunks p) - k" arbitrary: k co nRead zOut)
  case (Suc d)
  let ?n = "nChunkSize p" and ?c = "chunks p ! k"
  have c: "length ?c = ?n" "rd (chunks p) k = Some ?c" using assms(2) Suc.prems by (simp_all add: rd_def)
  have dk: "concat (drop k (chunks p)) = ?c @ concat (drop (Suc k) (chunks p))"
    using Suc.prems(1) by (simp flip: Cons_nth_drop_Suc)
  consider (less) "nRead < ?n - co" | (eq) "nRead = ?n - co" | (more) "nRead > ?n - co" by linarith
  then show ?case
  proof cases
    case less
    then have "chunkAt p (?n * k + co + nRead) = Some k"
      using div_chunk(1) [OF assms(1), of "co + nRead" k] Suc.prems by (simp add: chunkAt_def add.assoc)
    with less c dk show ?thesis by (subst copyLoop.simps) (simp add: Let_def)
  next
    case eq
    then have e: "?n * k + co + nRead = ?n * k + ?n" using Suc.prems by simp
    have "chunkAt p (?n * k + co + nRead) = (if Suc k < length (chunks p) then Some (Suc k) else None)"
      unfolding chunkAt_def e div_chunk(2) [OF assms(1)] by (rule refl)
    with eq c dk Suc.prems show ?thesis by (subst copyLoop.simps) (simp add: Let_def)
  next
    case more
    have m: "?n < nRead + co" using more Suc.prems by simp
    have b: "?n * Suc k < ?n * length (chunks p)" using more Suc.prems by simp
    then have k: "Suc k < length (chunks p)" using mult_less_cancel1 [of ?n "Suc k" "length (chunks p)"] by simp
    have "copyLoop p k co nRead zOut = copyLoop p (Suc k) 0 (nRead - (?n - co)) (zOut @ drop co ?c)"
      using more c k Suc.prems m by (subst copyLoop.simps) (simp add: Let_def min_def)
    also have "\<dots> = Some ((zOut @ drop co ?c) @ take (nRead - (?n - co)) (drop 0 (concat (drop (Suc k) (chunks p)))),
        chunkAt p (?n * Suc k + 0 + (nRead - (?n - co))))"
      by (rule Suc.hyps(1)) (use Suc.hyps(2) Suc.prems more k assms(1) in auto)
    finally show ?thesis
      using more c dk Suc.prems by (simp add: algebra_simps)
  qed
qed simp

lemma read_ok:
  assumes "jwf p" "0 < iAmt" "iAmt + iOfst \<le> endOffset p"
  shows "\<exists>q. memjrnlRead p iAmt iOfst = Some (SQLITE_OK, take iAmt (drop iOfst (jcontent p)), q) \<and> jwf q \<and>
    q = p\<lparr>readOffset := readOffset q, readChunk := readChunk q\<rparr>"
proof -
  let ?n = "nChunkSize p" and ?k = "iOfst div nChunkSize p" and ?co = "iOfst mod nChunkSize p"
  have w: "0 < ?n" "\<forall>c\<in>set (chunks p). length c = ?n" "endOffset p \<le> ?n * length (chunks p)" using assms(1) by (simp_all add: jwf_def)
  have "iOfst < ?n * length (chunks p)" using assms w by linarith
  then have k: "?k < length (chunks p)" using w(1) by (simp add: less_mult_imp_div_less mult.commute)
  have o: "?n * ?k + ?co = iOfst" by simp
  have "(if readOffset p \<noteq> iOfst \<or> iOfst = 0 then Some (findChunk p 0 0 iOfst) else readChunk p) = Some ?k"
    using findChunk_eq [OF w(1) _ k, of 0] assms(1) by (auto simp: jwf_def)
  moreover have "copyLoop p ?k ?co iAmt [] = Some (take iAmt (drop ?co (concat (drop ?k (chunks p)))), chunkAt p (iOfst + iAmt))"
    using copyLoop_ok [OF w(1, 2) k, of ?co iAmt "[]"] w assms o by simp
  moreover have "take iAmt (drop ?co (concat (drop ?k (chunks p)))) = take iAmt (drop iOfst (jcontent p))"
    using drop_concat_chunks [OF w(2), of ?k ?co] k le_diff_conv2 [of iOfst "endOffset p" iAmt] assms(3)
    by (simp add: jcontent_def drop_take min_absorb1)
  moreover have "\<not> iAmt + iOfst > endOffset p" using assms(3) by simp
  ultimately have "memjrnlRead p iAmt iOfst = Some (SQLITE_OK, take iAmt (drop iOfst (jcontent p)),
      p\<lparr>readOffset := (if chunkAt p (iOfst + iAmt) = None then 0 else iOfst + iAmt), readChunk := chunkAt p (iOfst + iAmt)\<rparr>)"
    by (simp add: memjrnlRead_def)
  then show ?thesis
    using assms(1) by (auto simp: jwf_def chunkAt_def)
qed

section \<open>Writing\<close>

text \<open>Writing at an offset up to the end of a sequence.\<close>

definition spliceAt :: "u8 list \<Rightarrow> nat \<Rightarrow> u8 list \<Rightarrow> u8 list" where
  "spliceAt xs i zs = take i xs @ zs @ drop (i + length zs) xs"

lemma spliceAt_end [simp]: "spliceAt xs (length xs) zs = xs @ zs"
  by (simp add: spliceAt_def)

lemma spliceAt_Nil [simp]: "spliceAt xs i [] = xs"
  by (simp add: spliceAt_def)

text \<open>The fields that writing to memory keeps.\<close>

definition sameFile :: "memjournal \<Rightarrow> memjournal \<Rightarrow> bool" where
  "sameFile p q \<longleftrightarrow> nChunkSize q = nChunkSize p \<and> nSpill q = nSpill p \<and> jflags q = jflags p"

lemma write_new_chunk:
  assumes "jwf p" "endOffset p mod nChunkSize p = 0" "z \<noteq> []" "length z \<le> nChunkSize p" "length c = nChunkSize p"
  shows "\<exists>q. putChunk (linkChunk p c) 0 z = Some q \<and> jwf (q\<lparr>endOffset := endOffset q + length z\<rparr>) \<and>
    jcontent (q\<lparr>endOffset := endOffset q + length z\<rparr>) = jcontent p @ z \<and> sameFile p q"
proof -
  let ?n = "nChunkSize p" and ?cs = "chunks p"
  have w: "0 < ?n" "\<forall>c\<in>set ?cs. length c = ?n" "endOffset p \<le> ?n * length ?cs" "?n * length ?cs < endOffset p + ?n"
    using assms(1) by (simp_all add: jwf_def)
  have e: "endOffset p = ?n * length ?cs"
  proof -
    obtain m where m: "endOffset p = ?n * m" using assms(2) by auto
    have "?n * length ?cs < ?n * Suc m" using w(4) m by simp
    then have "length ?cs < Suc m" using w(1) by (simp only: mult_less_cancel1)
    moreover have "m \<le> length ?cs" using w(1, 3) m by simp
    ultimately show ?thesis using m by simp
  qed
  define l where "l = z @ drop (length z) c"
  have l: "length l = ?n" using assms(4, 5) by (simp add: l_def)
  have "linkChunk p c = p\<lparr>chunks := ?cs @ [c], endChunk := Some (length ?cs)\<rparr>"
    using assms(1) by (simp add: linkChunk_def Let_def jwf_def split: option.splits)
  then have "putChunk (linkChunk p c) 0 z = Some (p\<lparr>chunks := ?cs @ [l], endChunk := Some (length ?cs)\<rparr>)"
    using assms(4, 5) by (simp add: putChunk_def l_def)
  moreover have "jwf (p\<lparr>chunks := ?cs @ [l], endChunk := Some (length ?cs), endOffset := endOffset p + length z\<rparr>)"
    using assms(1, 3, 4) w l e by (auto simp: jwf_def)
  moreover have "jcontent (p\<lparr>chunks := ?cs @ [l], endChunk := Some (length ?cs), endOffset := endOffset p + length z\<rparr>) = jcontent p @ z"
    using e length_concat_chunks [OF w(2)] by (simp add: jcontent_def l_def)
  ultimately show ?thesis
    by (simp add: sameFile_def)
qed

lemma write_old_chunk:
  assumes "jwf p" "endOffset p mod nChunkSize p = co" "co \<noteq> 0" "length z \<le> nChunkSize p - co"
  shows "\<exists>q. putChunk p co z = Some q \<and> jwf (q\<lparr>endOffset := endOffset q + length z\<rparr>) \<and>
    jcontent (q\<lparr>endOffset := endOffset q + length z\<rparr>) = jcontent p @ z \<and> sameFile p q"
proof -
  let ?n = "nChunkSize p" and ?cs = "chunks p"
  have w: "0 < ?n" "\<forall>c\<in>set ?cs. length c = ?n" "endOffset p \<le> ?n * length ?cs" "?n * length ?cs < endOffset p + ?n"
    using assms(1) by (simp_all add: jwf_def)
  have "?cs \<noteq> []" using w(3) assms(2, 3) by auto
  then obtain cs c where cs: "?cs = cs @ [c]" by (cases ?cs rule: rev_cases) auto
  have co: "co < ?n" using assms(2) w(1) by auto
  have e: "endOffset p = ?n * length cs + co"
  proof -
    define m where "m = endOffset p div ?n"
    have d: "endOffset p = ?n * m + co" using assms(2) mult_div_mod_eq [of ?n "endOffset p"] by (simp add: m_def)
    then have "?n * m < ?n * Suc (length cs)" "?n * Suc (length cs) < ?n * (m + 2)"
      using w(3, 4) co assms(3) cs by (simp_all add: algebra_simps)
    then have "m < Suc (length cs)" "Suc (length cs) < m + 2" using w(1) by (simp_all only: mult_less_cancel1)
    then show ?thesis using d by simp
  qed
  define l where "l = take co c @ z @ drop (co + length z) c"
  have c: "length c = ?n" and l: "length l = ?n" using w(2) cs assms(4) co by (simp_all add: l_def)
  have i: "length (concat cs) = ?n * length cs" using w(2) cs by (intro length_concat_chunks) simp
  have "endChunk p = Some (length cs)" using assms(1) cs by (simp add: jwf_def)
  then have "putChunk p co z = Some (p\<lparr>chunks := cs @ [l]\<rparr>)"
    using c assms(4) co cs by (simp add: putChunk_def l_def)
  moreover have "jwf (p\<lparr>chunks := cs @ [l], endOffset := endOffset p + length z\<rparr>)"
    using assms(1, 4) co w l e cs by (auto simp: jwf_def)
  moreover have "jcontent (p\<lparr>chunks := cs @ [l], endOffset := endOffset p + length z\<rparr>) = jcontent p @ z"
    using e i c co by (simp add: jcontent_def l_def cs)
  ultimately show ?thesis
    by (simp add: sameFile_def)
qed

lemma sameFile_trans: "sameFile p q \<Longrightarrow> sameFile q r \<Longrightarrow> sameFile p r"
  by (simp add: sameFile_def)

text \<open>Appending with allocations that may fail: a file in chunks of \<open>n\<close> bytes needs a new chunk for each
  started \<open>n\<close> bytes. When the first of these allocations to fail is the one with number \<open>m\<close> (from zero), the
  bytes that fit into the chunks up to it have been appended.\<close>

definition chunksFor :: "nat \<Rightarrow> nat \<Rightarrow> nat" where
  "chunksFor n l = (l + n - 1) div n"

definition appendBytes :: "nat \<Rightarrow> oom \<Rightarrow> u8 list \<Rightarrow> u8 list \<Rightarrow> result_code \<times> u8 list \<times> oom" where
  "appendBytes n w xs z =
     (let c = chunksFor n (length xs);
          k = chunksFor n (length xs + length z) - c;
          m = length (takeWhile (\<lambda>b. b) w)
      in if False \<in> set (take k w) then (SQLITE_IOERR_NOMEM, xs @ take (n * (c + m) - length xs) z, drop (Suc m) w)
         else (SQLITE_OK, xs @ z, drop k w))"

lemma appendBytes_Nil [simp]: "appendBytes n w xs [] = (SQLITE_OK, xs, w)"
  by (simp add: appendBytes_def Let_def)

lemma chunksFor_eq:
  assumes "0 < n"
  shows "chunksFor n (n * a) = a" "0 < r \<Longrightarrow> r \<le> n \<Longrightarrow> chunksFor n (n * a + r) = Suc a"
proof -
  have "(n * a + (n - 1)) div n = a" using assms by (simp add: div_nat_eqI)
  then show "chunksFor n (n * a) = a" using assms by (simp add: chunksFor_def)
  assume r: "0 < r" "r \<le> n"
  then have "n * a + r + n - 1 = n * Suc a + (r - 1)" by simp
  then show "chunksFor n (n * a + r) = Suc a" using r by (simp add: chunksFor_def div_nat_eqI)
qed

lemma chunksFor_mono: "l \<le> l' \<Longrightarrow> chunksFor n l \<le> chunksFor n l'"
  unfolding chunksFor_def by (intro div_le_mono) simp

lemma chunksFor_step:
  assumes "0 < n" "0 < i" "i \<le> n - l mod n"
  shows "chunksFor n (l + i) = (if l mod n = 0 then Suc (chunksFor n l) else chunksFor n l)"
    "l + i \<le> n * chunksFor n (l + i)" "l mod n = 0 \<Longrightarrow> n * chunksFor n l = l"
proof -
  have l: "l = n * (l div n) + l mod n" by simp
  have m: "l mod n < n" using assms(1) by simp
  have e: "l + i = n * (l div n) + (l mod n + i)" by simp
  have "chunksFor n (l + i) = Suc (l div n)"
    unfolding e by (rule chunksFor_eq(2)) (use assms m in simp_all)
  moreover have "chunksFor n l = (if l mod n = 0 then l div n else Suc (l div n))"
    using chunksFor_eq(1) [OF assms(1), of "l div n"] chunksFor_eq(2) [OF assms(1), of "l mod n" "l div n"] m
    unfolding l [symmetric] by (cases "l mod n = 0") auto
  moreover have "l + i \<le> n * Suc (l div n)" using assms(3) m l by (simp only: mult_Suc_right)
  ultimately show "chunksFor n (l + i) = (if l mod n = 0 then Suc (chunksFor n l) else chunksFor n l)"
    "l + i \<le> n * chunksFor n (l + i)" "l mod n = 0 \<Longrightarrow> n * chunksFor n l = l"
    using assms m l by auto
qed

lemma appendBytes_step:
  assumes "0 < n" "z \<noteq> []" "i = min (length z) (n - length xs mod n)"
  shows "appendBytes n w xs z =
    (case (if length xs mod n = 0 then alloc w else (True, w)) of
       (False, w) \<Rightarrow> (SQLITE_IOERR_NOMEM, xs, w)
     | (True, w) \<Rightarrow> appendBytes n w (xs @ take i z) (drop i z))"
proof -
  let ?l = "length xs"
  have i: "0 < i" "i \<le> n - ?l mod n" "i \<le> length z" using assms by simp_all
  note cs = chunksFor_step [OF assms(1) i(1, 2)]
  let ?c = "chunksFor n ?l" and ?c' = "chunksFor n (?l + i)" and ?K = "chunksFor n (?l + length z)"
  have K: "?c' \<le> ?K" using i(3) by (intro chunksFor_mono) simp
  have l: "length (xs @ take i z) = ?l + i" "?l + i + length (drop i z) = ?l + length z"
    using i(3) by simp_all
  have t: "xs @ take (n * (?c' + m) - ?l) z = (xs @ take i z) @ take (n * (?c' + m) - (?l + i)) (drop i z)" for m
  proof -
    have "?l + i \<le> n * (?c' + m)" using cs(2) by (simp add: distrib_left)
    then have "n * (?c' + m) - ?l = i + (n * (?c' + m) - (?l + i))" by simp
    then show ?thesis by (simp only: take_add append_assoc)
  qed
  have r: "appendBytes n w (xs @ take i z) (drop i z) =
      (if False \<in> set (take (?K - ?c') w) then (SQLITE_IOERR_NOMEM, xs @ take (n * (?c' + length (takeWhile (\<lambda>b. b) w)) - ?l) z,
          drop (Suc (length (takeWhile (\<lambda>b. b) w))) w)
       else (SQLITE_OK, xs @ z, drop (?K - ?c') w))" for w
    unfolding appendBytes_def Let_def l t by (simp only: append_assoc append_take_drop_id)
  have s: "appendBytes n w xs z =
      (if False \<in> set (take (?K - ?c) w) then (SQLITE_IOERR_NOMEM, xs @ take (n * (?c + length (takeWhile (\<lambda>b. b) w)) - ?l) z,
          drop (Suc (length (takeWhile (\<lambda>b. b) w))) w)
       else (SQLITE_OK, xs @ z, drop (?K - ?c) w))"
    by (simp only: appendBytes_def Let_def)
  show ?thesis
  proof (cases "?l mod n = 0")
    case True
    then have c: "?c' = Suc ?c" "?K - ?c = Suc (?K - ?c')" "n * ?c = ?l" using cs K by simp_all
    show ?thesis
      unfolding s c(2) using True c(1, 3) by (cases w rule: alloc.cases) (simp_all add: r del: mult_Suc_right)
  next
    case False
    then have "?c' = ?c" using cs(1) by simp
    with False show ?thesis by (simp only: s r if_False prod.case bool.case)
  qed
qed

text \<open>The loop appends as specified.\<close>

lemma writeLoop_ok:
  assumes "jwf p"
  shows "\<exists>rc q w'. writeLoop junk w p z = Some (rc, q, w') \<and> jwf q \<and> sameFile p q \<and>
    (rc, jcontent q, w') = appendBytes (nChunkSize p) w (jcontent p) z"
  using assms
proof (induction "length z" arbitrary: z p w rule: less_induct)
  case less
  show ?case
  proof (cases "z = []")
    case True
    then show ?thesis using less.prems by (subst writeLoop.simps) (simp add: sameFile_def)
  next
    case False
    let ?n = "nChunkSize p"
    define co where "co = endOffset p mod ?n"
    define i where "i = min (length z) (?n - co)"
    have n: "0 < ?n" using less.prems by (simp add: jwf_def)
    then have i: "0 < i" "i \<le> length z" "i \<le> ?n - co" "length (take i z) = i"
      using False by (simp_all add: i_def co_def)
    have "\<exists>q. putChunk (if co = 0 then linkChunk p (map junk [0..<?n]) else p) co (take i z) = Some q \<and>
        jwf (q\<lparr>endOffset := endOffset q + i\<rparr>) \<and> jcontent (q\<lparr>endOffset := endOffset q + i\<rparr>) = jcontent p @ take i z \<and> sameFile p q"
      using write_new_chunk [OF less.prems, of "take i z" "map junk [0..<?n]"] write_old_chunk [OF less.prems, of co "take i z"] i False
      by (auto simp: co_def)
    then obtain q where q: "putChunk (if co = 0 then linkChunk p (map junk [0..<?n]) else p) co (take i z) = Some q"
      "jwf (q\<lparr>endOffset := endOffset q + i\<rparr>)" "jcontent (q\<lparr>endOffset := endOffset q + i\<rparr>) = jcontent p @ take i z" "sameFile p q"
      by (elim exE conjE)
    obtain b w1 where al: "(if co = 0 then alloc w else (True, w)) = (b, w1)" by fastforce
    have step: "writeLoop junk w p z =
        (if b then writeLoop junk w1 (q\<lparr>endOffset := endOffset q + i\<rparr>) (drop i z) else Some (SQLITE_IOERR_NOMEM, p, w1))"
      using False n q(1) al unfolding i_def co_def by (subst writeLoop.simps) (simp add: Let_def split: bool.split)
    have ap: "appendBytes ?n w (jcontent p) z =
        (if b then appendBytes ?n w1 (jcontent p @ take i z) (drop i z) else (SQLITE_IOERR_NOMEM, jcontent p, w1))"
      using appendBytes_step [OF n False, of i "jcontent p" w] al length_jcontent [OF less.prems]
      by (simp add: i_def co_def split: bool.split)
    show ?thesis
    proof (cases b)
      case True
      have "length (drop i z) < length z" using i(1) False by simp
      from less.hyps [OF this q(2), of w1] obtain rc q2 w2 where q2:
        "writeLoop junk w1 (q\<lparr>endOffset := endOffset q + i\<rparr>) (drop i z) = Some (rc, q2, w2)" "jwf q2"
        "sameFile (q\<lparr>endOffset := endOffset q + i\<rparr>) q2"
        "(rc, jcontent q2, w2) = appendBytes (nChunkSize q) w1 (jcontent p @ take i z) (drop i z)"
        unfolding q(3) by auto
      have "sameFile p q2" "nChunkSize q = ?n" using q(4) q2(3) by (simp_all add: sameFile_def)
      with q2 True show ?thesis unfolding step ap by auto
    next
      case False
      with less.prems show ?thesis unfolding step ap by (simp add: sameFile_def)
    qed
  qed
qed

section \<open>Spilling\<close>

text \<open>What the journal relies on of the operating system, for the content \<open>C\<close> of the real file: a successful
  write replaces the bytes at its offset. Nothing is assumed of the content that a file has when it is
  opened, which may be that of an older journal.\<close>

definition vfs_ok :: "'w vfs \<Rightarrow> ('w \<Rightarrow> u8 list) \<Rightarrow> bool" where
  "vfs_ok V C \<longleftrightarrow>
     (\<forall>w z i w'. i \<le> length (C w) \<longrightarrow> osWrite V w z i = (SQLITE_OK, w') \<longrightarrow> C w' = spliceAt (C w) i z)"

text \<open>An error that comes from opening the file or from one of the writes.\<close>

definition fileError :: "'w vfs \<Rightarrow> 'w \<Rightarrow> result_code \<Rightarrow> bool" where
  "fileError V f rc \<longleftrightarrow> rc \<noteq> SQLITE_OK \<and> (fst (osOpen V f) = rc \<or> (\<exists>g y i. fst (osWrite V g y i) = rc))"

lemma vfs_write: "vfs_ok V C \<Longrightarrow> osWrite V w z i = (SQLITE_OK, w') \<Longrightarrow> i \<le> length (C w) \<Longrightarrow> C w' = spliceAt (C w) i z"
  by (simp add: vfs_ok_def)

lemma write_error: "osWrite V g y i = (rc, g') \<Longrightarrow> rc \<noteq> SQLITE_OK \<Longrightarrow> fileError V f rc"
  unfolding fileError_def by (metis fst_conv)

lemma spliceAt_append:
  "i \<le> length xs \<Longrightarrow> spliceAt (spliceAt xs i ys) (i + length ys) zs = spliceAt xs i (ys @ zs)"
  "i \<le> length xs \<Longrightarrow> i + length ys \<le> length (spliceAt xs i ys)"
  by (simp_all add: spliceAt_def add.commute add.left_commute)

lemma spliceAt_nested:
  "i \<le> length ys \<Longrightarrow> spliceAt (spliceAt xs 0 ys) i zs = spliceAt xs 0 (spliceAt ys i zs)"
proof -
  have "i + length zs - length ys + length ys = i + (length zs + (length ys - (i + length zs)))" by simp
  then show "i \<le> length ys \<Longrightarrow> spliceAt (spliceAt xs 0 ys) i zs = spliceAt xs 0 (spliceAt ys i zs)"
    by (simp add: spliceAt_def del: add_diff_inverse_nat)
qed

lemma createLoop_ok:
  assumes "vfs_ok V C" "\<forall>c\<in>set cs. length c = n" "iOff \<le> length (C w)"
    "cs = [] \<longrightarrow> iEnd = iOff" "cs \<noteq> [] \<longrightarrow> iOff + n * length cs < iEnd + n \<and> iEnd \<le> iOff + n * length cs"
  shows "\<exists>rc w'. createLoop V w cs iOff n iEnd = Some (rc, w') \<and>
    (if rc = SQLITE_OK then C w' = spliceAt (C w) iOff (take (iEnd - iOff) (concat cs)) else fileError V f rc)"
  using assms(2-5)
proof (induction cs arbitrary: w iOff)
  case (Cons c cs)
  have c: "length c = n" using Cons.prems(1) by simp
  define m where "m = (if iOff + n > iEnd then iEnd - iOff else n)"
  obtain rc w1 where o: "osWrite V w (take m c) iOff = (rc, w1)" by fastforce
  have m: "m \<le> length c" using c by (auto simp: m_def)
  have loop: "createLoop V w (c # cs) iOff n iEnd =
      (if rc \<noteq> SQLITE_OK then Some (rc, w1) else createLoop V w1 cs (iOff + m) m iEnd)"
    using o m by (simp add: m_def [symmetric] Let_def)
  show ?case
  proof (cases "rc = SQLITE_OK")
    case False
    with write_error [OF o False, of f] show ?thesis unfolding loop by simp
  next
    case ok: True
    have C1: "C w1 = spliceAt (C w) iOff (take m c)"
      using vfs_write [OF assms(1) o [unfolded ok] Cons.prems(2)] .
    show ?thesis
    proof (cases cs)
      case Nil
      then have "m = iEnd - iOff" using Cons.prems(4) by (auto simp: m_def)
      with Nil ok C1 show ?thesis unfolding loop by simp
    next
      case (Cons d ds)
      have b: "iOff + n + n * length ds < iEnd" "iEnd \<le> iOff + n + n * length cs" "m = n"
        using Cons.prems(4) Cons by (simp_all add: m_def)
      have l: "iOff + n \<le> length (C w1)"
        using spliceAt_append(2) [OF Cons.prems(2), of "take m c"] c b(3) by (simp add: C1)
      have "\<exists>rc2 w2. createLoop V w1 cs (iOff + n) n iEnd = Some (rc2, w2) \<and>
          (if rc2 = SQLITE_OK then C w2 = spliceAt (C w1) (iOff + n) (take (iEnd - (iOff + n)) (concat cs)) else fileError V f rc2)"
        by (rule Cons.IH) (use Cons.prems l b Cons in auto)
      then obtain rc2 w2 where r2: "createLoop V w1 cs (iOff + n) n iEnd = Some (rc2, w2)"
        "if rc2 = SQLITE_OK then C w2 = spliceAt (C w1) (iOff + n) (take (iEnd - (iOff + n)) (concat cs)) else fileError V f rc2"
        by (elim exE conjE)
      have sp: "spliceAt (C w1) (iOff + n) y = spliceAt (C w) iOff (c @ y)" for y
        using spliceAt_append(1) [OF Cons.prems(2), of c y] C1 c b(3) by simp
      have tk: "take (iEnd - iOff) (concat (c # cs)) = c @ take (iEnd - (iOff + n)) (concat cs)"
        using c b(1) by simp
      show ?thesis
        unfolding loop tk sp [symmetric] using r2 ok b(3) by (intro exI [of _ rc2] exI [of _ w2]) simp
    qed
  qed
qed simp

lemma createFile_ok:
  assumes "vfs_ok V C" "jwf p"
  shows "\<exists>rc j f'. memjrnlCreateFile V f p = Some (rc, j, f') \<and>
    (if rc = SQLITE_OK then j = OnDisk \<and> (\<exists>f1. osOpen V f = (SQLITE_OK, f1) \<and> C f' = spliceAt (C f1) 0 (jcontent p))
     else j = InMemory p \<and> fileError V f rc)"
proof -
  obtain rc f1 where o: "osOpen V f = (rc, f1)" by fastforce
  show ?thesis
  proof (cases "rc = SQLITE_OK")
    case False
    with o show ?thesis by (simp add: memjrnlCreateFile_def fileError_def)
  next
    case True
    have e: "chunks p = [] \<longrightarrow> endOffset p = 0" using assms(2) by (auto simp: jwf_def)
    obtain rc2 f2 where "createLoop V f1 (chunks p) 0 (nChunkSize p) (endOffset p) = Some (rc2, f2)"
      "if rc2 = SQLITE_OK then C f2 = spliceAt (C f1) 0 (jcontent p) else fileError V f rc2"
      using createLoop_ok [OF assms(1), of "chunks p" "nChunkSize p" 0 f1 "endOffset p" f] assms(2) e
      by (fastforce simp: jwf_def jcontent_def)
    then show ?thesis using o True by (simp add: memjrnlCreateFile_def)
  qed
qed

section \<open>The write method\<close>

text \<open>Overwriting the start of the first chunk.\<close>

lemma header_ok:
  assumes "jwf p" "chunks p \<noteq> []" "length z \<le> endOffset p" "length z \<le> nChunkSize p"
  defines "q \<equiv> p\<lparr>chunks := (z @ drop (length z) (hd (chunks p))) # tl (chunks p)\<rparr>"
  shows "jwf q \<and> jcontent q = spliceAt (jcontent p) 0 z \<and> length z \<le> length (hd (chunks p))"
proof -
  obtain c cs where c: "chunks p = c # cs" using assms(2) by (cases "chunks p") auto
  then have l: "length c = nChunkSize p" using assms(1) by (simp add: jwf_def)
  have "jwf q" using assms(1, 4) c l by (auto simp: jwf_def q_def)
  moreover have "jcontent q = spliceAt (jcontent p) 0 z"
    using c l assms(3, 4) by (auto simp: jcontent_def q_def spliceAt_def drop_take take_append min_def)
  ultimately show ?thesis using c l assms(4) by simp
qed

lemma write_mem_ok:
  assumes "jwf p" "iOfst = endOffset p \<or> iOfst = 0 \<and> length z \<le> endOffset p \<and> length z \<le> nChunkSize p"
    "\<not> (nSpill p > 0 \<and> int (length z + iOfst) > nSpill p)"
  shows "\<exists>rc q w'. memjrnlWrite junk V w f p z iOfst = Some (rc, InMemory q, w', f) \<and> jwf q \<and> sameFile p q \<and>
    (if iOfst = endOffset p then (rc, jcontent q, w') = appendBytes (nChunkSize p) w (jcontent p) z
     else rc = SQLITE_OK \<and> w' = w \<and> jcontent q = spliceAt (jcontent p) iOfst z)"
proof (cases "iOfst = 0 \<and> chunks p \<noteq> []")
  case True
  then have e: "endOffset p \<noteq> 0" using assms(1) by (cases "chunks p") (auto simp: jwf_def)
  with True assms(2) have "length z \<le> endOffset p" "length z \<le> nChunkSize p" by auto
  from header_ok [OF assms(1) _ this] show ?thesis
    using True assms(3) e by (auto simp: memjrnlWrite_def sameFile_def not_less)
next
  case False
  have e: "iOfst = endOffset p" using assms(1, 2) False by (auto simp: jwf_def)
  obtain rc q w' where l: "writeLoop junk w p z = Some (rc, q, w')" "jwf q" "sameFile p q"
    "(rc, jcontent q, w') = appendBytes (nChunkSize p) w (jcontent p) z"
    using writeLoop_ok [OF assms(1), of junk w z] by (elim exE conjE)
  define q2 where "q2 = (if rc = SQLITE_OK then q\<lparr>nSize := length z + iOfst\<rparr> else q)"
  have "memjrnlWrite junk V w f p z iOfst = Some (rc, InMemory q2, w', f)"
    using l(1) assms(3) False by (auto simp: memjrnlWrite_def q2_def)
  moreover have "jwf q2" "sameFile p q2" "jcontent q2 = jcontent q" using l(2, 3) by (simp_all add: q2_def jwf_def sameFile_def jcontent_def)
  ultimately show ?thesis using l(4) e by simp
qed

lemma write_spill_ok:
  assumes "vfs_ok V C" "jwf p" "iOfst \<le> endOffset p" "nSpill p > 0" "int (length z + iOfst) > nSpill p"
  shows "\<exists>rc j f'. memjrnlWrite junk V w f p z iOfst = Some (rc, j, w, f') \<and>
    (if rc = SQLITE_OK then j = OnDisk \<and>
        (\<exists>f1. osOpen V f = (SQLITE_OK, f1) \<and> C f' = spliceAt (C f1) 0 (spliceAt (jcontent p) iOfst z))
     else (j = InMemory p \<or> j = OnDisk) \<and> fileError V f rc)"
proof -
  have l: "iOfst \<le> length (jcontent p)" using length_jcontent [OF assms(2)] assms(3) by simp
  have sp: "nSpill p > 0 \<and> int (length z + iOfst) > nSpill p" using assms(4, 5) by simp
  obtain rc j f1 where c: "memjrnlCreateFile V f p = Some (rc, j, f1)"
    "if rc = SQLITE_OK then j = OnDisk \<and> (\<exists>f0. osOpen V f = (SQLITE_OK, f0) \<and> C f1 = spliceAt (C f0) 0 (jcontent p))
     else j = InMemory p \<and> fileError V f rc"
    using createFile_ok [OF assms(1, 2), of f] by (elim exE conjE)
  show ?thesis
  proof (cases "rc = SQLITE_OK")
    case False
    with c sp show ?thesis by (simp add: memjrnlWrite_def)
  next
    case True
    then obtain f0 where f0: "osOpen V f = (SQLITE_OK, f0)" "C f1 = spliceAt (C f0) 0 (jcontent p)" "j = OnDisk" using c(2) by auto
    obtain rc2 f2 where o: "osWrite V f1 z iOfst = (rc2, f2)" by fastforce
    have "iOfst \<le> length (C f1)" using l spliceAt_append(2) [of 0 "C f0" "jcontent p"] f0(2) by simp
    then have "C f2 = spliceAt (C f0) 0 (spliceAt (jcontent p) iOfst z)" if "rc2 = SQLITE_OK"
      using vfs_write [OF assms(1), of f1 z iOfst f2] o that f0(2) spliceAt_nested [OF l] by simp
    with True c(1) sp o f0 write_error [OF o, of f] show ?thesis by (simp add: memjrnlWrite_def)
  qed
qed

section \<open>The journal as a file\<close>

text \<open>The contract of a file that grows at its end, in units of \<open>file_unit\<close> bytes that are allocated one by one:
  reading a range inside it gives that range, reading beyond it is a short read, and a write appends all
  its bytes, or those before the first unit that cannot be allocated.\<close>

locale growing_file =
  fixes file_inv :: "'s \<Rightarrow> bool"
    and file_content :: "'s \<Rightarrow> u8 list"
    and file_oom :: "'s \<Rightarrow> oom"
    and file_unit :: nat
    and file_append :: "'s \<Rightarrow> u8 list \<Rightarrow> (result_code \<times> 's) option"
    and file_read :: "'s \<Rightarrow> nat \<Rightarrow> nat \<Rightarrow> (result_code \<times> u8 list \<times> 's) option"
  assumes append_spec: "file_inv s \<Longrightarrow> \<exists>rc s'. file_append s z = Some (rc, s') \<and> file_inv s' \<and>
      (rc, file_content s', file_oom s') = appendBytes file_unit (file_oom s) (file_content s) z"
    and read_spec: "file_inv s \<Longrightarrow> 0 < n \<Longrightarrow> \<exists>s'. file_read s n i =
      Some (if i + n \<le> length (file_content s) then (SQLITE_OK, take n (drop i (file_content s)), s')
            else (SQLITE_IOERR_SHORT_READ, [], s')) \<and>
      file_inv s' \<and> file_content s' = file_content s \<and> file_oom s' = file_oom s"

datatype fop = FWrite "u8 list" | FRead nat nat
datatype fout = FDone | FData "u8 list" | FError result_code

text \<open>A run of operations, which goes on after one that fails.\<close>

fun runFile ::
  "('s \<Rightarrow> u8 list \<Rightarrow> (result_code \<times> 's) option) \<Rightarrow> ('s \<Rightarrow> nat \<Rightarrow> nat \<Rightarrow> (result_code \<times> u8 list \<times> 's) option) \<Rightarrow>
   's \<Rightarrow> fop list \<Rightarrow> (fout list \<times> 's) option" where
  "runFile ap rdf s [] = Some ([], s)"
| "runFile ap rdf s (FWrite z # ops) =
     (case ap s z of
        None \<Rightarrow> None
      | Some (rc, s) \<Rightarrow>
          map_option (\<lambda>(os, s). ((if rc = SQLITE_OK then FDone else FError rc) # os, s)) (runFile ap rdf s ops))"
| "runFile ap rdf s (FRead n i # ops) =
     (case rdf s n i of
        None \<Rightarrow> None
      | Some (rc, z, s) \<Rightarrow>
          map_option (\<lambda>(os, s). ((if rc = SQLITE_OK then FData z else FError rc) # os, s)) (runFile ap rdf s ops))"

text \<open>The same run on a sequence of bytes, with the outcomes of the allocations.\<close>

fun runBytes :: "nat \<Rightarrow> oom \<Rightarrow> u8 list \<Rightarrow> fop list \<Rightarrow> fout list \<times> u8 list \<times> oom" where
  "runBytes unit w xs [] = ([], xs, w)"
| "runBytes unit w xs (FWrite z # ops) =
     (case appendBytes unit w xs z of
        (rc, xs, w) \<Rightarrow> (case runBytes unit w xs ops of (os, r) \<Rightarrow> ((if rc = SQLITE_OK then FDone else FError rc) # os, r)))"
| "runBytes unit w xs (FRead n i # ops) =
     (case runBytes unit w xs ops of
        (os, r) \<Rightarrow> ((if i + n \<le> length xs then FData (take n (drop i xs)) else FError SQLITE_IOERR_SHORT_READ) # os, r))"

fun readsSome :: "fop \<Rightarrow> bool" where
  "readsSome (FWrite z) = True"
| "readsSome (FRead n i) = (0 < n)"

context growing_file
begin

lemma run_refines:
  assumes "file_inv s" "list_all readsSome ops"
  shows "\<exists>os s'. runFile file_append file_read s ops = Some (os, s') \<and> file_inv s' \<and>
    runBytes file_unit (file_oom s) (file_content s) ops = (os, file_content s', file_oom s')"
  using assms
proof (induction ops arbitrary: s)
  case (Cons a ops)
  show ?case
  proof (cases a)
    case (FWrite z)
    obtain rc s1 where a: "file_append s z = Some (rc, s1)" "file_inv s1"
      "appendBytes file_unit (file_oom s) (file_content s) z = (rc, file_content s1, file_oom s1)"
      using append_spec [OF Cons.prems(1), of z] by metis
    obtain os s2 where "runFile file_append file_read s1 ops = Some (os, s2)" "file_inv s2"
      "runBytes file_unit (file_oom s1) (file_content s1) ops = (os, file_content s2, file_oom s2)"
      using Cons.IH [OF a(2)] Cons.prems(2) by auto
    with a FWrite show ?thesis by auto
  next
    case (FRead n i)
    then have "0 < n" using Cons.prems(2) by simp
    from read_spec [OF Cons.prems(1) this, of i] obtain s1 where r: "file_inv s1" "file_content s1 = file_content s" "file_oom s1 = file_oom s"
      "file_read s n i = Some (if i + n \<le> length (file_content s) then (SQLITE_OK, take n (drop i (file_content s)), s1)
            else (SQLITE_IOERR_SHORT_READ, [], s1))"
      by blast
    obtain os s2 where "runFile file_append file_read s1 ops = Some (os, s2)" "file_inv s2"
      "runBytes file_unit (file_oom s1) (file_content s1) ops = (os, file_content s2, file_oom s2)"
      using Cons.IH [OF r(1)] Cons.prems(2) by auto
    with r FRead show ?thesis by (auto split: if_splits)
  qed
qed auto

end

text \<open>A journal that stays in memory, with the outcomes of the allocations to come.\<close>

definition journalAppend ::
  "(nat \<Rightarrow> u8) \<Rightarrow> 'w vfs \<Rightarrow> 'w \<Rightarrow> memjournal \<times> oom \<Rightarrow> u8 list \<Rightarrow> (result_code \<times> memjournal \<times> oom) option" where
  "journalAppend junk V f s z =
     (case s of
        (p, w) \<Rightarrow>
          (case memjrnlWrite junk V w f p z (endOffset p) of
             Some (rc, InMemory q, w', _) \<Rightarrow> Some (rc, q, w')
           | _ \<Rightarrow> None))"

definition journalRead :: "memjournal \<times> oom \<Rightarrow> nat \<Rightarrow> nat \<Rightarrow> (result_code \<times> u8 list \<times> memjournal \<times> oom) option" where
  "journalRead s n i = (case s of (p, w) \<Rightarrow> map_option (\<lambda>(rc, z, q). (rc, z, q, w)) (memjrnlRead p n i))"

interpretation memory_journal: growing_file "\<lambda>(p, w). jwf p \<and> nSpill p \<le> 0 \<and> nChunkSize p = unit" "\<lambda>(p, w). jcontent p" snd unit
  "journalAppend junk V f" journalRead
  for junk :: "nat \<Rightarrow> u8" and V :: "'w vfs" and f and unit
proof
  fix s :: "memjournal \<times> oom" and z
  assume "case s of (p, w) \<Rightarrow> jwf p \<and> nSpill p \<le> 0 \<and> nChunkSize p = unit"
  then obtain p w where s: "s = (p, w)" "jwf p" "\<not> nSpill p > 0" "nChunkSize p = unit" by (cases s) auto
  obtain rc q w' where "memjrnlWrite junk V w f p z (endOffset p) = Some (rc, InMemory q, w', f)" "jwf q" "sameFile p q"
    "(rc, jcontent q, w') = appendBytes unit w (jcontent p) z"
    using write_mem_ok [OF s(2), of "endOffset p" z junk V w f] s(3, 4) by auto
  then show "\<exists>rc s'. journalAppend junk V f s z = Some (rc, s') \<and> (case s' of (p, w) \<Rightarrow> jwf p \<and> nSpill p \<le> 0 \<and> nChunkSize p = unit) \<and>
      (rc, (case s' of (p, w) \<Rightarrow> jcontent p), snd s') = appendBytes unit (snd s) (case s of (p, w) \<Rightarrow> jcontent p) z"
    using s by (auto simp: journalAppend_def sameFile_def)
next
  fix s :: "memjournal \<times> oom" and n i :: nat
  assume "case s of (p, w) \<Rightarrow> jwf p \<and> nSpill p \<le> 0 \<and> nChunkSize p = unit" "0 < n"
  then obtain p w where s: "s = (p, w)" "jwf p" "nSpill p \<le> 0" "nChunkSize p = unit" "0 < n" by (cases s) auto
  show "\<exists>s'. journalRead s n i =
      Some (if i + n \<le> length (case s of (p, w) \<Rightarrow> jcontent p) then (SQLITE_OK, take n (drop i (case s of (p, w) \<Rightarrow> jcontent p)), s')
            else (SQLITE_IOERR_SHORT_READ, [], s')) \<and> (case s' of (p, w) \<Rightarrow> jwf p \<and> nSpill p \<le> 0 \<and> nChunkSize p = unit) \<and>
      (case s' of (p, w) \<Rightarrow> jcontent p) = (case s of (p, w) \<Rightarrow> jcontent p) \<and> snd s' = snd s"
  proof (cases "i + n \<le> endOffset p")
    case True
    then obtain q where q: "memjrnlRead p n i = Some (SQLITE_OK, take n (drop i (jcontent p)), q)" "jwf q"
      "q = p\<lparr>readOffset := readOffset q, readChunk := readChunk q\<rparr>"
      using read_ok [OF s(2, 5), of i] by (auto simp: add.commute)
    have "nSpill q = nSpill p" "jcontent q = jcontent p" "nChunkSize q = nChunkSize p"
      by (subst q(3), simp add: jcontent_def)+
    with q(1, 2) s True length_jcontent [OF s(2)] show ?thesis by (auto simp: journalRead_def)
  next
    case False
    then have "memjrnlRead p n i = Some (SQLITE_IOERR_SHORT_READ, [], p)" by (simp add: memjrnlRead_def)
    with s False length_jcontent [OF s(2)] show ?thesis by (auto simp: journalRead_def)
  qed
qed

section \<open>Properties\<close>

lemma open_wf: "sqlite3MemJournalOpen V f = (SQLITE_OK, InMemory p, f') \<Longrightarrow>
    jwf p \<and> nSpill p \<le> 0 \<and> nChunkSize p = 1016 \<and> jcontent p = []"
  by (auto simp: sqlite3MemJournalOpen_def sqlite3JournalOpen_def jwf_def jcontent_def)

text \<open>C15: An in-memory journal behaves as a file that is allocated in units of 1016 bytes: for every sequence
  of writes at its end and reads of at least one byte, and every pattern of allocation failures, no
  pointer leaves the chunks and every operation returns exactly what it returns on a sequence of bytes. A
  read gives the bytes at its offset, or a short read beyond the end. A write fails only when one of
  the allocations that it needs fails, and has then appended the bytes before the unit that is
  missing; later operations go on from there. The content, the size and the number of allocations at the
  end are those of the sequence.\<close>

theorem journal_refines_file:
  assumes "list_all readsSome ops"
  shows "\<exists>p os s'. sqlite3MemJournalOpen V f = (SQLITE_OK, InMemory p, f) \<and>
    runFile (journalAppend junk V f) journalRead (p, w) ops = Some (os, s') \<and> jwf (fst s') \<and>
    runBytes 1016 w [] ops = (os, jcontent (fst s'), snd s') \<and>
    memjrnlFileSize (fst s') = (SQLITE_OK, length (jcontent (fst s')))"
proof -
  obtain p where p: "sqlite3MemJournalOpen V f = (SQLITE_OK, InMemory p, f)"
    by (simp add: sqlite3MemJournalOpen_def sqlite3JournalOpen_def)
  then have "jwf p" "nSpill p \<le> 0" "nChunkSize p = 1016" "jcontent p = []" using open_wf [of V f p f] by simp_all
  with memory_journal.run_refines [of 1016 "(p, w)" ops junk V f] assms obtain os s' where
    "runFile (journalAppend junk V f) journalRead (p, w) ops = Some (os, s')" "jwf (fst s')"
    "runBytes 1016 w [] ops = (os, jcontent (fst s'), snd s')"
    by (auto simp: case_prod_beta)
  with p length_jcontent [of "fst s'"] show ?thesis
    by (intro exI [of _ p] exI [of _ os] exI [of _ s']) (simp add: memjrnlFileSize_def)
qed

text \<open>The second chunk cannot be allocated at first: its byte is lost, and the write after it succeeds.\<close>

theorem journal_refines_file_witness:
  "\<exists>p s'. sqlite3MemJournalOpen \<lparr>osOpen = Pair SQLITE_OK, osWrite = (\<lambda>w z i. (SQLITE_OK, w)), osClose = id\<rparr> () =
      (SQLITE_OK, InMemory p, ()) \<and>
    runFile (journalAppend (\<lambda>_. 7) \<lparr>osOpen = Pair SQLITE_OK, osWrite = (\<lambda>w z i. (SQLITE_OK, w)), osClose = id\<rparr> ()) journalRead
      (p, [True, False]) [FWrite (replicate 1015 3), FWrite [4, 5], FWrite [1, 2], FRead 3 1015, FRead 2 1017] =
      Some ([FDone, FError SQLITE_IOERR_NOMEM, FDone, FData [4, 1, 2], FError SQLITE_IOERR_SHORT_READ], s') \<and>
    jcontent (fst s') = replicate 1015 3 @ [4, 1, 2]"
proof -
  let ?ops = "[FWrite (replicate 1015 3), FWrite [4, 5], FWrite [1, 2], FRead 3 1015, FRead 2 1017]"
  have "runBytes 1016 [True, False] [] ?ops =
      ([FDone, FError SQLITE_IOERR_NOMEM, FDone, FData [4, 1, 2], FError SQLITE_IOERR_SHORT_READ], replicate 1015 3 @ [4, 1, 2], [])"
    by (simp add: appendBytes_def chunksFor_def)
  with journal_refines_file [of ?ops "\<lparr>osOpen = Pair SQLITE_OK, osWrite = (\<lambda>w z i. (SQLITE_OK, w)), osClose = id\<rparr>" "()" "\<lambda>_. 7" "[True, False]"]
  show ?thesis by auto
qed

text \<open>C18: A write to a well-formed journal at its end, or over its header, spills the journal to a real file
  exactly when it would exceed the limit. A spill succeeds unless opening the file or a write to it fails; the file
  then starts with the old content with the bytes written at the offset, before whatever the file held
  behind that, and a spill that fails leaves the journal in memory as it was, except when only the last write fails.
  Otherwise the write appends to memory as specified, failing only when an allocation that it needs
  fails, or overwrites the header, which cannot fail. \<^verbatim>\<open>sqlite3JournalCreate\<close> moves the whole content of a
  journal with a limit or of a main journal to the file or changes nothing.\<close>

theorem journal_write_spill:
  assumes "vfs_ok V C" "jwf p" "iOfst = endOffset p \<or> iOfst = 0 \<and> length z \<le> endOffset p \<and> length z \<le> nChunkSize p"
  shows "(\<exists>rc j w' f'. memjrnlWrite junk V w f p z iOfst = Some (rc, j, w', f') \<and>
      (if nSpill p > 0 \<and> int (length z + iOfst) > nSpill p then
         w' = w \<and>
         (if rc = SQLITE_OK then j = OnDisk \<and>
            (\<exists>f1. osOpen V f = (SQLITE_OK, f1) \<and> C f' = spliceAt (C f1) 0 (spliceAt (jcontent p) iOfst z))
          else (j = InMemory p \<or> j = OnDisk) \<and> fileError V f rc)
       else f' = f \<and> (\<exists>q. j = InMemory q \<and> jwf q \<and>
         (if iOfst = endOffset p then (rc, jcontent q, w') = appendBytes (nChunkSize p) w (jcontent p) z
          else rc = SQLITE_OK \<and> w' = w \<and> jcontent q = spliceAt (jcontent p) iOfst z)))) \<and>
    (\<exists>rc j f'. sqlite3JournalCreate V f (InMemory p) = Some (rc, j, f') \<and>
      (if nSpill p > 0 \<or> jflags p AND SQLITE_OPEN_MAIN_JOURNAL \<noteq> 0 then
         if rc = SQLITE_OK then j = OnDisk \<and> (\<exists>f1. osOpen V f = (SQLITE_OK, f1) \<and> C f' = spliceAt (C f1) 0 (jcontent p))
         else j = InMemory p \<and> fileError V f rc
       else rc = SQLITE_OK \<and> j = InMemory p \<and> f' = f))"
proof
  show "\<exists>rc j w' f'. memjrnlWrite junk V w f p z iOfst = Some (rc, j, w', f') \<and>
      (if nSpill p > 0 \<and> int (length z + iOfst) > nSpill p then
         w' = w \<and>
         (if rc = SQLITE_OK then j = OnDisk \<and>
            (\<exists>f1. osOpen V f = (SQLITE_OK, f1) \<and> C f' = spliceAt (C f1) 0 (spliceAt (jcontent p) iOfst z))
          else (j = InMemory p \<or> j = OnDisk) \<and> fileError V f rc)
       else f' = f \<and> (\<exists>q. j = InMemory q \<and> jwf q \<and>
         (if iOfst = endOffset p then (rc, jcontent q, w') = appendBytes (nChunkSize p) w (jcontent p) z
          else rc = SQLITE_OK \<and> w' = w \<and> jcontent q = spliceAt (jcontent p) iOfst z)))"
  proof (cases "nSpill p > 0 \<and> int (length z + iOfst) > nSpill p")
    case False
    from write_mem_ok [OF assms(2, 3) False, of junk V w f] False show ?thesis by (simp only: if_False) blast
  next
    case True
    have "iOfst \<le> endOffset p" using assms(3) by auto
    from write_spill_ok [OF assms(1, 2) this True [THEN conjunct1] True [THEN conjunct2], of junk w f]
    show ?thesis unfolding if_P [OF True] by blast
  qed
  show "\<exists>rc j f'. sqlite3JournalCreate V f (InMemory p) = Some (rc, j, f') \<and>
      (if nSpill p > 0 \<or> jflags p AND SQLITE_OPEN_MAIN_JOURNAL \<noteq> 0 then
         if rc = SQLITE_OK then j = OnDisk \<and> (\<exists>f1. osOpen V f = (SQLITE_OK, f1) \<and> C f' = spliceAt (C f1) 0 (jcontent p))
         else j = InMemory p \<and> fileError V f rc
       else rc = SQLITE_OK \<and> j = InMemory p \<and> f' = f)"
    using createFile_ok [OF assms(1, 2), of f]
    by (cases "nSpill p > 0 \<or> jflags p AND SQLITE_OPEN_MAIN_JOURNAL \<noteq> 0") (simp_all only: sqlite3JournalCreate_def journal.case if_True if_False, auto)
qed

text \<open>A file system that holds one file, which keeps its content when it is opened, and cannot write the
  byte \<open>9\<close>.\<close>

definition listVfs :: "u8 list vfs" where
  "listVfs = \<lparr>osOpen = (\<lambda>w. (SQLITE_OK, w)),
    osWrite = (\<lambda>w z i. if 9 \<in> set z then (SQLITE_IOERR_WRITE, w) else (SQLITE_OK, spliceAt w i z)), osClose = id\<rparr>"

definition sampleJournal :: memjournal where
  "sampleJournal = \<lparr>nChunkSize = 4, nSpill = 4, nSize = 3, chunks = [[1, 2, 3, 0]], endOffset = 3, endChunk = Some 0,
    readOffset = 0, readChunk = None, jflags = 0\<rparr>"

text \<open>The journal replaces the start of an older one.\<close>

theorem journal_write_spill_witness:
  "vfs_ok listVfs id \<and> jwf sampleJournal \<and>
   (\<exists>rc j w' f'. memjrnlWrite (\<lambda>_. 7) listVfs [] [6, 6, 6, 6, 6, 6] sampleJournal [4, 5] 3 = Some (rc, j, w', f') \<and>
      rc = SQLITE_OK \<and> j = OnDisk \<and> f' = [1, 2, 3, 4, 5, 6])"
proof -
  have v: "vfs_ok listVfs id" by (auto simp: vfs_ok_def listVfs_def split: if_splits)
  have j: "jwf sampleJournal" by (simp add: jwf_def sampleJournal_def)
  have e: "map_option (\<lambda>(rc, j, w', f'). rc) (memjrnlWrite (\<lambda>_. 7) listVfs [] [6, 6, 6, 6, 6, 6] sampleJournal [4, 5] 3) = Some SQLITE_OK"
    by code_simp
  have c: "spliceAt [6, 6, 6, 6, 6, 6] 0 (spliceAt (jcontent sampleJournal) 3 [4, 5]) = [1, 2, 3, 4, 5, 6]" by code_simp
  have s: "3 = endOffset sampleJournal" "nSpill sampleJournal = 4" "osOpen listVfs f = (SQLITE_OK, f)" for f
    by (simp_all add: sampleJournal_def listVfs_def)
  from journal_write_spill [OF v j, of 3 "[4, 5]" "\<lambda>_. 7" "[]" "[6, 6, 6, 6, 6, 6]"] v j e c s show ?thesis
    by auto
qed

end
