(* ===== verification/RecordFormat.thy ===== *)
theory RecordFormat
  imports Varint VdbeMem
begin

text \<open>
  The record format (\<^verbatim>\<open>vdbeaux.c\<close> and the opcode \<^verbatim>\<open>OP_MakeRecord\<close> of \<^verbatim>\<open>vdbe.c\<close>): serial types,
  writing and reading one value, building a record from registers and unpacking it.

  A register is a \<open>cell\<close>: the buffer of its \<^verbatim>\<open>Mem\<close> (theory \<open>VdbeMem\<close>), the eight bytes of
  the union \<^verbatim>\<open>u\<close> when it holds \<^verbatim>\<open>u.i\<close> or \<^verbatim>\<open>u.r\<close> (\<^verbatim>\<open>u.nZero\<close> is \<open>mem_nZero\<close>), and the scratch
  word \<^verbatim>\<open>uTemp\<close>. A double is its 64 bits. Sizes that the C code keeps in \<^verbatim>\<open>u64\<close>, \<^verbatim>\<open>i64\<close> and \<^verbatim>\<open>int\<close>
  are natural numbers where the bound on the number of columns keeps them far below the width;
  serial types and the offsets of the reader, which corrupt records control, are 32-bit words.
  \<open>None\<close> is an access outside an object.
\<close>

section \<open>Cells\<close>

record cell =
  cell_mem :: mem
  cell_u :: u64
  cell_uTemp :: u32

abbreviation cell_flags :: "cell \<Rightarrow> u16" where
  "cell_flags p \<equiv> mem_flags (cell_mem p)"

definition setFlags :: "u16 \<Rightarrow> cell \<Rightarrow> cell" where
  "setFlags f p = p\<lparr>cell_mem := (cell_mem p)\<lparr>mem_flags := f\<rparr>\<rparr>"

definition EXP754 :: u64 where "EXP754 = push_bit 52 0x7ff"
definition MAN754 :: u64 where "MAN754 = push_bit 52 1 - 1"

definition IsNaN :: "u64 \<Rightarrow> bool" where
  "IsNaN x \<longleftrightarrow> x AND EXP754 = EXP754 \<and> x AND MAN754 \<noteq> 0"

text \<open>The conversion \<^verbatim>\<open>(double)i\<close> of a 64-bit signed integer, to nearest with ties to even: the bits of
  the double.\<close>

fun ilog2 :: "nat \<Rightarrow> nat" where
  "ilog2 n = (if n < 2 then 0 else Suc (ilog2 (n div 2)))"

declare ilog2.simps [simp del]

definition roundShift :: "nat \<Rightarrow> nat \<Rightarrow> nat" where
  "roundShift m k =
     (let q = m div 2 ^ k; r = m mod 2 ^ k
      in if 2 ^ k < 2 * r \<or> 2 * r = 2 ^ k \<and> odd q then q + 1 else q)"

definition doubleOfI64 :: "u64 \<Rightarrow> u64" where
  "doubleOfI64 i =
     (if i = 0 then 0
      else
        let m = unat (if i <s 0 then - i else i);
            e = ilog2 m;
            q = (if e \<le> 52 then m * 2 ^ (52 - e) else roundShift m (e - 52))
        in word_of_nat ((if i <s 0 then 2 ^ 63 else 0) + (e + 1022) * 2 ^ 52 + q))"

section \<open>Serial types\<close>

definition sqlite3SmallTypeSizes :: "nat list" where
  "sqlite3SmallTypeSizes =
    [0, 1, 2, 3, 4, 6, 8, 8, 0, 0,
     0, 0, 0, 0, 1, 1, 2, 2, 3, 3,
     4, 4, 5, 5, 6, 6, 7, 7, 8, 8,
     9, 9, 10, 10, 11, 11, 12, 12, 13, 13,
     14, 14, 15, 15, 16, 16, 17, 17, 18, 18,
     19, 19, 20, 20, 21, 21, 22, 22, 23, 23,
     24, 24, 25, 25, 26, 26, 27, 27, 28, 28,
     29, 29, 30, 30, 31, 31, 32, 32, 33, 33,
     34, 34, 35, 35, 36, 36, 37, 37, 38, 38,
     39, 39, 40, 40, 41, 41, 42, 42, 43, 43,
     44, 44, 45, 45, 46, 46, 47, 47, 48, 48,
     49, 49, 50, 50, 51, 51, 52, 52, 53, 53,
     54, 54, 55, 55, 56, 56, 57, 57]"

definition sqlite3VdbeSerialTypeLen :: "u32 \<Rightarrow> nat option" where
  "sqlite3VdbeSerialTypeLen serial_type =
     (if serial_type \<ge> 128 then Some (unat ((serial_type - 12) div 2))
      else rd sqlite3SmallTypeSizes (unat serial_type))"

definition sqlite3VdbeOneByteSerialTypeLen :: "u8 \<Rightarrow> nat option" where
  "sqlite3VdbeOneByteSerialTypeLen serial_type = rd sqlite3SmallTypeSizes (unat serial_type)"

section \<open>Writing a value\<close>

text \<open>\<^verbatim>\<open>memcpy(&buf[p], z, n)\<close>\<close>

definition store :: "'a list \<Rightarrow> nat \<Rightarrow> 'a list \<Rightarrow> 'a list option" where
  "store buf p z =
     (if p + length z \<le> length buf then Some (take p buf @ z @ drop (p + length z) buf) else None)"

text \<open>\<^verbatim>\<open>do{ buf[--i] = (u8)(v&0xFF); v >>= 8; }while( i )\<close>, with \<^verbatim>\<open>buf\<close> at offset \<open>p\<close>\<close>

fun putBytes :: "u8 list \<Rightarrow> nat \<Rightarrow> nat \<Rightarrow> u64 \<Rightarrow> u8 list option" where
  "putBytes buf p 0 v = Some buf"
| "putBytes buf p (Suc i) v =
     do {
       buf \<leftarrow> wr buf (p + i) (ucast (v AND 0xff));
       putBytes buf p i (drop_bit 8 v)
     }"

definition sqlite3VdbeSerialPut :: "u8 list \<Rightarrow> nat \<Rightarrow> cell \<Rightarrow> u32 \<Rightarrow> (nat \<times> u8 list) option" where
  "sqlite3VdbeSerialPut buf p pMem serial_type =
     (if serial_type \<le> 7 \<and> serial_type > 0 then
        do {
          len \<leftarrow> rd sqlite3SmallTypeSizes (unat serial_type);
          buf \<leftarrow> putBytes buf p len (cell_u pMem);
          Some (len, buf)
        }
      else if serial_type \<ge> 12 then
        (let len = mem_n (cell_mem pMem)
         in if len > 0 then
              (if len \<le> length (mem_z (cell_mem pMem)) then
                 do {
                   buf \<leftarrow> store buf p (take len (mem_z (cell_mem pMem)));
                   Some (len, buf)
                 }
               else None)
            else Some (len, buf))
      else Some (0, buf))"

section \<open>Reading a value\<close>

definition ONE_BYTE_INT :: "u8 \<Rightarrow> u32" where
  "ONE_BYTE_INT x0 = scast x0"

definition TWO_BYTE_INT :: "u8 \<Rightarrow> u8 \<Rightarrow> u32" where
  "TWO_BYTE_INT x0 x1 = 256 * scast x0 OR ucast x1"

definition THREE_BYTE_INT :: "u8 \<Rightarrow> u8 \<Rightarrow> u8 \<Rightarrow> u32" where
  "THREE_BYTE_INT x0 x1 x2 = 65536 * scast x0 OR push_bit 8 (ucast x1) OR ucast x2"

definition FOUR_BYTE_UINT :: "u8 \<Rightarrow> u8 \<Rightarrow> u8 \<Rightarrow> u8 \<Rightarrow> u32" where
  "FOUR_BYTE_UINT x0 x1 x2 x3 = push_bit 24 (ucast x0) OR push_bit 16 (ucast x1) OR push_bit 8 (ucast x2) OR ucast x3"

definition FOUR_BYTE_INT :: "u8 \<Rightarrow> u8 \<Rightarrow> u8 \<Rightarrow> u8 \<Rightarrow> u32" where
  "FOUR_BYTE_INT x0 x1 x2 x3 = 16777216 * scast x0 OR push_bit 16 (ucast x1) OR push_bit 8 (ucast x2) OR ucast x3"

definition setInt :: "u64 \<Rightarrow> cell \<Rightarrow> cell" where
  "setInt v pMem = setFlags MEM_Int (pMem\<lparr>cell_u := v\<rparr>)"

definition serialGet :: "u8 list \<Rightarrow> nat \<Rightarrow> u32 \<Rightarrow> cell \<Rightarrow> (u32 \<times> cell) option" where
  "serialGet buf p serial_type pMem =
     do {
       b0 \<leftarrow> rd buf p; b1 \<leftarrow> rd buf (p + 1); b2 \<leftarrow> rd buf (p + 2); b3 \<leftarrow> rd buf (p + 3);
       b4 \<leftarrow> rd buf (p + 4); b5 \<leftarrow> rd buf (p + 5); b6 \<leftarrow> rd buf (p + 6); b7 \<leftarrow> rd buf (p + 7);
       let x = push_bit 32 (ucast (FOUR_BYTE_UINT b0 b1 b2 b3)) + ucast (FOUR_BYTE_UINT b4 b5 b6 b7);
       if serial_type = 6 then Some (8, setInt x pMem)
       else Some (8, setFlags (if IsNaN x then MEM_Null else MEM_Real) (pMem\<lparr>cell_u := x\<rparr>))
     }"

definition sqlite3VdbeSerialGet :: "u8 list \<Rightarrow> nat \<Rightarrow> u32 \<Rightarrow> cell \<Rightarrow> (u32 \<times> cell) option" where
  "sqlite3VdbeSerialGet buf p serial_type pMem =
     (if serial_type = 10 then
        Some (0, pMem\<lparr>cell_mem := (cell_mem pMem)\<lparr>mem_flags := MEM_Null OR MEM_Zero, mem_n := 0, mem_nZero := 0\<rparr>\<rparr>)
      else if serial_type = 11 \<or> serial_type = 0 then Some (0, setFlags MEM_Null pMem)
      else if serial_type = 1 then
        do {
          b0 \<leftarrow> rd buf p;
          Some (1, setInt (scast (ONE_BYTE_INT b0)) pMem)
        }
      else if serial_type = 2 then
        do {
          b0 \<leftarrow> rd buf p; b1 \<leftarrow> rd buf (p + 1);
          Some (2, setInt (scast (TWO_BYTE_INT b0 b1)) pMem)
        }
      else if serial_type = 3 then
        do {
          b0 \<leftarrow> rd buf p; b1 \<leftarrow> rd buf (p + 1); b2 \<leftarrow> rd buf (p + 2);
          Some (3, setInt (scast (THREE_BYTE_INT b0 b1 b2)) pMem)
        }
      else if serial_type = 4 then
        do {
          b0 \<leftarrow> rd buf p; b1 \<leftarrow> rd buf (p + 1); b2 \<leftarrow> rd buf (p + 2); b3 \<leftarrow> rd buf (p + 3);
          Some (4, setInt (scast (FOUR_BYTE_INT b0 b1 b2 b3)) pMem)
        }
      else if serial_type = 5 then
        do {
          b0 \<leftarrow> rd buf p; b1 \<leftarrow> rd buf (p + 1); b2 \<leftarrow> rd buf (p + 2); b3 \<leftarrow> rd buf (p + 3);
          b4 \<leftarrow> rd buf (p + 4); b5 \<leftarrow> rd buf (p + 5);
          Some (6, setInt (ucast (FOUR_BYTE_UINT b2 b3 b4 b5) + push_bit 32 1 * scast (TWO_BYTE_INT b0 b1)) pMem)
        }
      else if serial_type = 6 \<or> serial_type = 7 then serialGet buf p serial_type pMem
      else if serial_type = 8 \<or> serial_type = 9 then Some (0, setInt (ucast (serial_type - 8)) pMem)
      else
        (let n = (serial_type - 12) div 2
         in Some (n, pMem\<lparr>cell_mem :=
              (cell_mem pMem)\<lparr>mem_z := drop p buf, mem_n := unat n, mem_own := False,
                mem_flags := (if serial_type AND 1 = 0 then MEM_Blob OR MEM_Ephem else MEM_Str OR MEM_Ephem)\<rparr>\<rparr>)))"

section \<open>Unpacking a record\<close>

text \<open>The loop of \<^verbatim>\<open>sqlite3VdbeRecordUnpack\<close>; the result is the array, the number of cells filled and the
  final offset \<^verbatim>\<open>d\<close>.\<close>

function unpackLoop ::
  "enc \<Rightarrow> nat \<Rightarrow> u8 list \<Rightarrow> nat \<Rightarrow> u32 \<Rightarrow> u32 \<Rightarrow> u32 \<Rightarrow> nat \<Rightarrow> cell list \<Rightarrow> (cell list \<times> nat \<times> u32) option" where
  "unpackLoop enc nKey aKey nField szHdr idx d u aMem =
     (if idx < szHdr \<and> d \<le> word_of_nat nKey then
        do {
          (n, serial_type) \<leftarrow> getVarint32 (drop (unat idx) aKey);
          pMem \<leftarrow> rd aMem u;
          let pMem = pMem\<lparr>cell_mem := (cell_mem pMem)\<lparr>mem_enc := enc, mem_szMalloc := 0, mem_z := []\<rparr>\<rparr>;
          (k, pMem) \<leftarrow> sqlite3VdbeSerialGet aKey (unat d) serial_type pMem;
          aMem \<leftarrow> wr aMem u pMem;
          if u + 1 \<ge> nField then Some (aMem, u + 1, d + k)
          else unpackLoop enc nKey aKey nField szHdr (idx + word_of_nat n) (d + k) (u + 1) aMem
        }
      else Some (aMem, u, d))"
  by pat_completeness auto
termination
  by (relation "measure (\<lambda>(enc, nKey, aKey, nField, szHdr, idx, d, u, aMem). nField - u)") auto

declare unpackLoop.simps [simp del]

text \<open>\<open>aMem\<close> and \<open>nField\<close> are the members of the \<^verbatim>\<open>UnpackedRecord\<close>; the result is the array and the new
  \<^verbatim>\<open>nField\<close>.\<close>

definition sqlite3VdbeRecordUnpack ::
  "enc \<Rightarrow> nat \<Rightarrow> u8 list \<Rightarrow> nat \<Rightarrow> cell list \<Rightarrow> (cell list \<times> nat) option" where
  "sqlite3VdbeRecordUnpack enc nKey aKey nField aMem =
     do {
       (n, szHdr) \<leftarrow> getVarint32 aKey;
       (aMem, u, d) \<leftarrow> unpackLoop enc nKey aKey nField szHdr (word_of_nat n) szHdr 0 aMem;
       if d > word_of_nat nKey \<and> u \<noteq> 0 then
         do {
           pMem \<leftarrow> rd aMem (u - 1);
           aMem \<leftarrow> wr aMem (u - 1) (pMem\<lparr>cell_mem := sqlite3VdbeMemSetNull (cell_mem pMem)\<rparr>);
           Some (aMem, u)
         }
       else Some (aMem, u)
     }"

section \<open>Making a record\<close>

text \<open>One turn of the loop that sizes the record: the serial type of a register goes to \<^verbatim>\<open>uTemp\<close>, and the
  sizes of the header, of the data and of the zero-filled tail are updated.\<close>

definition sizeInt :: "nat \<Rightarrow> cell \<Rightarrow> nat \<Rightarrow> cell \<times> nat" where
  "sizeInt file_format pRec nData =
     (let i = cell_u pRec; uu = (if i <s 0 then NOT i else i)
      in if uu \<le> 127 then
           (if i AND 1 = i \<and> file_format \<ge> 4 then (pRec\<lparr>cell_uTemp := 8 + ucast uu\<rparr>, nData)
            else (pRec\<lparr>cell_uTemp := 1\<rparr>, nData + 1))
         else if uu \<le> 32767 then (pRec\<lparr>cell_uTemp := 2\<rparr>, nData + 2)
         else if uu \<le> 8388607 then (pRec\<lparr>cell_uTemp := 3\<rparr>, nData + 3)
         else if uu \<le> 2147483647 then (pRec\<lparr>cell_uTemp := 4\<rparr>, nData + 4)
         else if uu \<le> 140737488355327 then (pRec\<lparr>cell_uTemp := 5\<rparr>, nData + 6)
         else if cell_flags pRec AND MEM_IntReal \<noteq> 0 then
           (setFlags ((cell_flags pRec AND NOT MEM_IntReal) OR MEM_Real)
              (pRec\<lparr>cell_u := doubleOfI64 i, cell_uTemp := 7\<rparr>), nData + 8)
         else (pRec\<lparr>cell_uTemp := 6\<rparr>, nData + 8))"

text \<open>The case of a string or blob.\<close>

definition sizeBlob ::
  "(nat \<Rightarrow> u8) \<Rightarrow> oom \<Rightarrow> cell \<Rightarrow> nat \<Rightarrow> nat \<Rightarrow> nat \<Rightarrow> (result_code \<times> cell \<times> nat \<times> nat \<times> nat \<times> oom) option" where
  "sizeBlob junk w pRec nHdr nData nZero =
     (let m = cell_mem pRec;
          len = mem_n m;
          serial_type = (word_of_nat len * 2 + 12 + (if mem_flags m AND MEM_Str \<noteq> 0 then 1 else 0) :: u32)
      in if mem_flags m AND MEM_Zero \<noteq> 0 then
           (let serial_type = serial_type + word_of_nat (mem_nZero m) * 2
            in if nData \<noteq> 0 then
                 do {
                   (rc, m, w) \<leftarrow> sqlite3VdbeMemExpandBlob junk w m;
                   if rc \<noteq> SQLITE_OK then Some (SQLITE_NOMEM, pRec\<lparr>cell_mem := m\<rparr>, nHdr, nData, nZero, w)
                   else
                     Some (SQLITE_OK, pRec\<lparr>cell_mem := m, cell_uTemp := serial_type\<rparr>,
                       nHdr + sqlite3VarintLen (ucast serial_type), nData + (len + mem_nZero m), nZero, w)
                 }
               else
                 Some (SQLITE_OK, pRec\<lparr>cell_uTemp := serial_type\<rparr>,
                   nHdr + sqlite3VarintLen (ucast serial_type), nData + len, nZero + mem_nZero m, w))
         else
           Some (SQLITE_OK, pRec\<lparr>cell_uTemp := serial_type\<rparr>,
             nHdr + sqlite3VarintLen (ucast serial_type), nData + len, nZero, w))"

definition sizeField ::
  "(nat \<Rightarrow> u8) \<Rightarrow> oom \<Rightarrow> nat \<Rightarrow> cell \<Rightarrow> nat \<Rightarrow> nat \<Rightarrow> nat \<Rightarrow>
    (result_code \<times> cell \<times> nat \<times> nat \<times> nat \<times> oom) option" where
  "sizeField junk w file_format pRec nHdr nData nZero =
     (if cell_flags pRec AND MEM_Null \<noteq> 0 then
        Some (SQLITE_OK, pRec\<lparr>cell_uTemp := (if cell_flags pRec AND MEM_Zero \<noteq> 0 then 10 else 0)\<rparr>,
          nHdr + 1, nData, nZero, w)
      else if cell_flags pRec AND (MEM_Int OR MEM_IntReal) \<noteq> 0 then
        (let (pRec, nData) = sizeInt file_format pRec nData in Some (SQLITE_OK, pRec, nHdr + 1, nData, nZero, w))
      else if cell_flags pRec AND MEM_Real \<noteq> 0 then
        Some (SQLITE_OK, pRec\<lparr>cell_uTemp := 7\<rparr>, nHdr + 1, nData + 8, nZero, w)
      else sizeBlob junk w pRec nHdr nData nZero)"

text \<open>The loop runs from the last register to the first and stops at an allocation failure.\<close>

fun sizeLoop ::
  "(nat \<Rightarrow> u8) \<Rightarrow> oom \<Rightarrow> nat \<Rightarrow> cell list \<Rightarrow> (result_code \<times> cell list \<times> nat \<times> nat \<times> nat \<times> oom) option" where
  "sizeLoop junk w file_format [] = Some (SQLITE_OK, [], 0, 0, 0, w)"
| "sizeLoop junk w file_format (pRec # rs) =
     do {
       (rc, rs, nHdr, nData, nZero, w) \<leftarrow> sizeLoop junk w file_format rs;
       if rc \<noteq> SQLITE_OK then Some (rc, pRec # rs, nHdr, nData, nZero, w)
       else
         do {
           (rc, pRec, nHdr, nData, nZero, w) \<leftarrow> sizeField junk w file_format pRec nHdr nData nZero;
           Some (rc, pRec # rs, nHdr, nData, nZero, w)
         }
     }"

text \<open>The size of the header with its own length.\<close>

definition headerSize :: "nat \<Rightarrow> nat" where
  "headerSize nHdr =
     (if nHdr \<le> 126 then nHdr + 1
      else
        let nVarint = sqlite3VarintLen (word_of_nat nHdr);
            nHdr = nHdr + nVarint
        in if nVarint < sqlite3VarintLen (word_of_nat nHdr) then nHdr + 1 else nHdr)"

text \<open>The loop that writes the serial types at \<^verbatim>\<open>zHdr\<close> and the contents at \<^verbatim>\<open>zPayload\<close>.\<close>

fun writeFields :: "u8 list \<Rightarrow> nat \<Rightarrow> nat \<Rightarrow> cell list \<Rightarrow> (u8 list \<times> nat \<times> nat) option" where
  "writeFields z zHdr zPayload [] = Some (z, zHdr, zPayload)"
| "writeFields z zHdr zPayload (pRec # rs) =
     do {
       let (n, bs) = putVarint32 (cell_uTemp pRec);
       z \<leftarrow> store z zHdr bs;
       (k, z) \<leftarrow> sqlite3VdbeSerialPut z zPayload pRec (cell_uTemp pRec);
       writeFields z (zHdr + n) (zPayload + k) rs
     }"

text \<open>The buffer of the output register: \<open>zMalloc\<close> is its private buffer when \<^verbatim>\<open>z\<close> does not point to it,
  \<open>limit\<close> is \<^verbatim>\<open>db->aLimit[SQLITE_LIMIT_LENGTH]\<close>.\<close>

definition recordBuffer ::
  "(nat \<Rightarrow> u8) \<Rightarrow> oom \<Rightarrow> nat \<Rightarrow> u8 list \<Rightarrow> mem \<Rightarrow> nat \<Rightarrow> nat \<Rightarrow> (result_code \<times> mem \<times> oom) option" where
  "recordBuffer junk w limit zMalloc pOut nByte nZero =
     (if nByte + nZero \<le> mem_szMalloc pOut then
        Some (SQLITE_OK, pOut\<lparr>mem_z := (if mem_own pOut then mem_z pOut else zMalloc), mem_own := True\<rparr>, w)
      else if nByte + nZero > limit then Some (SQLITE_TOOBIG, pOut, w)
      else
        do {
          (rc, pOut, w) \<leftarrow> sqlite3VdbeMemClearAndResize junk w zMalloc pOut nByte;
          Some (if rc \<noteq> SQLITE_OK then SQLITE_NOMEM else SQLITE_OK, pOut, w)
        })"

text \<open>\<^verbatim>\<open>OP_MakeRecord\<close> once the affinities of P4 have been applied to the registers (at once when P4 is
  NULL): the registers \<open>rs\<close> and the output register, updated.\<close>

definition makeRecord ::
  "(nat \<Rightarrow> u8) \<Rightarrow> oom \<Rightarrow> nat \<Rightarrow> nat \<Rightarrow> cell list \<Rightarrow> u8 list \<Rightarrow> mem \<Rightarrow> (result_code \<times> cell list \<times> mem \<times> oom) option" where
  "makeRecord junk w limit file_format rs zMalloc pOut =
     do {
       (rc, rs, nHdr, nData, nZero, w) \<leftarrow> sizeLoop junk w file_format rs;
       if rc \<noteq> SQLITE_OK then Some (rc, rs, pOut, w)
       else
         do {
           let nHdr = headerSize nHdr;
           let nByte = nHdr + nData;
           (rc, pOut, w) \<leftarrow> recordBuffer junk w limit zMalloc pOut nByte nZero;
           if rc \<noteq> SQLITE_OK then Some (rc, rs, pOut, w)
           else
             do {
               let pOut = pOut\<lparr>mem_n := nByte, mem_flags := MEM_Blob\<rparr>;
               let pOut = (if nZero \<noteq> 0 then pOut\<lparr>mem_nZero := nZero, mem_flags := MEM_Blob OR MEM_Zero\<rparr> else pOut);
               let (n, bs) = putVarint32 (word_of_nat nHdr);
               z \<leftarrow> store (mem_z pOut) 0 bs;
               (z, zHdr, zPayload) \<leftarrow> writeFields z n nHdr rs;
               Some (SQLITE_OK, rs, pOut\<lparr>mem_z := z\<rparr>, w)
             }
         }
     }"

section \<open>Bytes of an integer\<close>

lemma rd_at [simp]: "rd (xs @ ys) (length xs + j) = rd ys j" "rd (xs @ ys) (length xs) = rd ys 0"
  by (auto simp: rd_def nth_append)

fun beBytes :: "nat \<Rightarrow> u64 \<Rightarrow> u8 list" where
  "beBytes 0 v = []"
| "beBytes (Suc i) v = beBytes i (drop_bit 8 v) @ [ucast (v AND 0xff)]"

lemma length_beBytes [simp]: "length (beBytes k v) = k"
  by (induction k v rule: beBytes.induct) auto

lemma store_snoc:
  "p + length z < length buf \<Longrightarrow> store buf p (z @ [b]) = do { buf \<leftarrow> wr buf (p + length z) b; store buf p z }"
  by (auto simp: store_def wr_def upd_conv_take_nth_drop min_def drop_take)

lemma putBytes_store: "p + k \<le> length buf \<Longrightarrow> putBytes buf p k v = store buf p (beBytes k v)"
proof (induction buf p k v rule: putBytes.induct)
  case (1 buf p v)
  then show ?case by (simp add: store_def)
next
  case (2 buf p i v)
  then show ?case
    using store_snoc [of p "beBytes i (drop_bit 8 v)" buf "ucast (v AND 0xff)"]
    by (auto simp: wr_def)
qed

lemma store_ok:
  "p + length z \<le> length buf \<Longrightarrow> store buf p z = Some (take p buf @ z @ drop (p + length z) buf)"
  by (simp add: store_def)

text \<open>The bits above the sign bit \<open>n\<close> of a value that fits in \<open>n + 1\<close> bits.\<close>

definition fits :: "nat \<Rightarrow> u64 \<Rightarrow> bool" where
  "fits n v \<longleftrightarrow> (\<forall>j. n \<le> j \<and> j < 64 \<longrightarrow> bit v j = bit v 63)"

lemma fitsD: "fits n v \<Longrightarrow> n \<le> j \<Longrightarrow> j < 63 \<Longrightarrow> bit v j = bit v 63"
  unfolding fits_def by (drule spec [of _ j]) simp

lemma u64_le_mask: "uu \<le> 2 ^ n - 1 \<Longrightarrow> n \<le> j \<Longrightarrow> \<not> bit (uu :: u64) j" if "n < 64"
proof -
  assume a: "uu \<le> 2 ^ n - 1" and j: "n \<le> j"
  have "(2 ^ n :: u64) \<noteq> 0"
    using that by (simp add: exp_eq_zero_iff)
  moreover from this have "0 < unat (2 ^ n :: u64)"
    by (rule unat_gt_0 [THEN iffD2])
  ultimately have "uu < 2 ^ n"
    using a unat_minus_one [of "2 ^ n :: u64"] by (simp add: word_le_nat_alt word_less_nat_alt)
  then have "take_bit n uu = uu"
    by (metis less_mask_eq take_bit_eq_mask)
  then show "\<not> bit uu j"
    using j by (metis bit_take_bit_iff not_le)
qed

lemma slt_0_iff_bit: "v <s 0 \<longleftrightarrow> bit (v :: u64) 63"
  using bit_last_iff [of v] by (simp add: word_sless_alt)

lemma fitsI:
  assumes "(if v <s 0 then NOT v else v) \<le> 2 ^ n - 1" "n < 64"
  shows "fits n v"
  unfolding fits_def
proof (intro allI impI)
  fix j assume j: "n \<le> j \<and> j < 64"
  show "bit v j = bit v 63"
  proof (cases "bit v 63")
    case True
    then have "NOT v \<le> 2 ^ n - 1" using assms(1) by (simp add: slt_0_iff_bit)
    from u64_le_mask [OF assms(2) this, of j] True j show ?thesis
      by (simp add: bit_simps)
  next
    case False
    then have "v \<le> 2 ^ n - 1" using assms(1) by (simp add: slt_0_iff_bit)
    from u64_le_mask [OF assms(2) this, of j] False j show ?thesis
      by simp
  qed
qed

lemmas byte_ints = ONE_BYTE_INT_def TWO_BYTE_INT_def THREE_BYTE_INT_def FOUR_BYTE_INT_def FOUR_BYTE_UINT_def

lemma mult_256: "256 * x = push_bit 8 (x :: 'a::len word)" "65536 * x = push_bit 16 x" "16777216 * x = push_bit 24 x"
  by (simp_all add: push_bit_eq_mult)

lemma ucast_and_0xff: "ucast (v AND 0xff) = (ucast (v :: u64) :: u8)"
  by (rule u8_bit_split) (simp add: bit_simps)

lemma decode_1:
  assumes "fits 7 v"
  shows "scast (ONE_BYTE_INT (ucast v)) = v"
  by (rule u64_bit_split) (simp add: byte_ints bit_simps fitsD [OF assms])

lemma decode_2:
  assumes "fits 15 v"
  shows "scast (TWO_BYTE_INT (ucast (drop_bit 8 v)) (ucast v)) = v"
  by (rule u64_bit_split) (simp add: byte_ints mult_256 bit_simps fitsD [OF assms])

lemma decode_3:
  assumes "fits 23 v"
  shows "scast (THREE_BYTE_INT (ucast (drop_bit 16 v)) (ucast (drop_bit 8 v)) (ucast v)) = v"
  by (rule u64_bit_split) (simp add: byte_ints mult_256 bit_simps fitsD [OF assms])

lemma decode_4:
  assumes "fits 31 v"
  shows "scast (FOUR_BYTE_INT (ucast (drop_bit 24 v)) (ucast (drop_bit 16 v)) (ucast (drop_bit 8 v)) (ucast v)) = v"
  by (rule u64_bit_split) (simp add: byte_ints mult_256 bit_simps fitsD [OF assms])

text \<open>A 32-bit half in front of or behind another.\<close>

lemma add_halves: "(ucast (a :: u32) + push_bit 32 b :: u64) = ucast a OR push_bit 32 b"
  by (rule disjunctive_add) (auto simp: bit_simps dest: bit_imp_le_length)

lemma decode_6:
  assumes "fits 47 v"
  shows "ucast (FOUR_BYTE_UINT (ucast (drop_bit 24 v)) (ucast (drop_bit 16 v)) (ucast (drop_bit 8 v)) (ucast v)) +
    4294967296 * scast (TWO_BYTE_INT (ucast (drop_bit 40 v)) (ucast (drop_bit 32 v))) = v"
proof -
  have "(4294967296 * x :: u64) = push_bit 32 x" for x
    by (simp add: push_bit_eq_mult)
  then show ?thesis
    unfolding add_halves
    by (intro u64_bit_split) (simp add: add_halves byte_ints mult_256 bit_simps fitsD [OF assms])
qed

lemma decode_8:
  "push_bit 32 (ucast (FOUR_BYTE_UINT (ucast (drop_bit 56 v)) (ucast (drop_bit 48 v)) (ucast (drop_bit 40 v)) (ucast (drop_bit 32 v)))) +
    ucast (FOUR_BYTE_UINT (ucast (drop_bit 24 v)) (ucast (drop_bit 16 v)) (ucast (drop_bit 8 v)) (ucast v)) = (v :: u64)"
  by (subst add.commute, subst add_halves, rule u64_bit_split) (simp add: byte_ints bit_simps)

section \<open>The value of a cell\<close>

text \<open>What a register contributes to a record: an integer-valued real (\<^verbatim>\<open>MEM_IntReal\<close>) is kept as the integer
  where six bytes are enough, and as the double otherwise. \<open>SqlNoChange\<close> is the NULL of an unchanged
  column of a virtual table.\<close>

datatype sql_value =
    SqlNull
  | SqlNoChange
  | SqlInt u64
  | SqlReal u64
  | SqlText "u8 list"
  | SqlBlob "u8 list"

definition sixBytes :: "u64 \<Rightarrow> bool" where
  "sixBytes i \<longleftrightarrow> - (2 ^ 47) \<le> sint i \<and> sint i < 2 ^ 47"

definition recordValue :: "cell \<Rightarrow> sql_value" where
  "recordValue p =
     (let f = cell_flags p
      in if f AND MEM_Null \<noteq> 0 then (if f AND MEM_Zero \<noteq> 0 then SqlNoChange else SqlNull)
         else if f AND (MEM_Int OR MEM_IntReal) \<noteq> 0 then
           (if f AND MEM_IntReal \<noteq> 0 \<and> \<not> sixBytes (cell_u p) then SqlReal (doubleOfI64 (cell_u p)) else SqlInt (cell_u p))
         else if f AND MEM_Real \<noteq> 0 then SqlReal (cell_u p)
         else if f AND MEM_Str \<noteq> 0 then SqlText (memBlob (cell_mem p))
         else SqlBlob (memBlob (cell_mem p)))"

lemma setFlags_fields [simp]: "cell_flags (setFlags f p) = f" "cell_u (setFlags f p) = cell_u p"
  "cell_uTemp (setFlags f p) = cell_uTemp p"
  by (simp_all add: setFlags_def)

lemma recordValue_setInt: "recordValue (setInt v p) = SqlInt v"
  by (simp add: recordValue_def setInt_def MEM_defs)

section \<open>Reading back one value\<close>

text \<open>The serial types that a value of each kind may have.\<close>

fun serialClass :: "u32 \<Rightarrow> sql_value \<Rightarrow> bool" where
  "serialClass t SqlNull \<longleftrightarrow> t = 0"
| "serialClass t SqlNoChange \<longleftrightarrow> t = 10"
| "serialClass t (SqlInt i) \<longleftrightarrow> t \<in> {1, 2, 3, 4, 5, 6, 8, 9}"
| "serialClass t (SqlReal r) \<longleftrightarrow> t = 7 \<and> \<not> IsNaN r"
| "serialClass t (SqlText z) \<longleftrightarrow> 12 \<le> t \<and> t AND 1 \<noteq> 0"
| "serialClass t (SqlBlob z) \<longleftrightarrow> 12 \<le> t \<and> t AND 1 = 0"

text \<open>The bytes \<open>bs\<close> under the serial type \<open>t\<close> stand for the value \<open>v\<close>, wherever they are.\<close>

definition encodes :: "u32 \<Rightarrow> u8 list \<Rightarrow> sql_value \<Rightarrow> bool" where
  "encodes t bs v \<longleftrightarrow>
     length bs < 2 ^ 31 \<and> serialClass t v \<and>
     (\<forall>xs ys p. \<exists>q. sqlite3VdbeSerialGet (xs @ bs @ ys) (length xs) t p = Some (word_of_nat (length bs), q) \<and> recordValue q = v)"

lemma encodes_empty:
  "encodes 0 [] SqlNull" "encodes 10 [] SqlNoChange" "encodes 8 [] (SqlInt 0)" "encodes 9 [] (SqlInt 1)"
  by (simp_all add: encodes_def sqlite3VdbeSerialGet_def recordValue_setInt)
    (simp_all add: recordValue_def MEM_defs)

lemmas beBytes_eval = beBytes.simps numeral_eq_Suc pred_numeral_simps

lemma beBytes_list:
  "beBytes 1 v = [ucast v]"
  "beBytes 2 v = [ucast (drop_bit 8 v), ucast v]"
  "beBytes 3 v = [ucast (drop_bit 16 v), ucast (drop_bit 8 v), ucast v]"
  "beBytes 4 v = [ucast (drop_bit 24 v), ucast (drop_bit 16 v), ucast (drop_bit 8 v), ucast v]"
  "beBytes 6 v = [ucast (drop_bit 40 v), ucast (drop_bit 32 v), ucast (drop_bit 24 v), ucast (drop_bit 16 v),
     ucast (drop_bit 8 v), ucast v]"
  "beBytes 8 v = [ucast (drop_bit 56 v), ucast (drop_bit 48 v), ucast (drop_bit 40 v), ucast (drop_bit 32 v),
     ucast (drop_bit 24 v), ucast (drop_bit 16 v), ucast (drop_bit 8 v), ucast v]"
  by (simp_all add: eval_nat_numeral ucast_and_0xff)

lemma encodes_int:
  "fits 7 v \<Longrightarrow> encodes 1 (beBytes 1 v) (SqlInt v)"
  "fits 15 v \<Longrightarrow> encodes 2 (beBytes 2 v) (SqlInt v)"
  "fits 23 v \<Longrightarrow> encodes 3 (beBytes 3 v) (SqlInt v)"
  "fits 31 v \<Longrightarrow> encodes 4 (beBytes 4 v) (SqlInt v)"
  "fits 47 v \<Longrightarrow> encodes 5 (beBytes 6 v) (SqlInt v)"
  "encodes 6 (beBytes 8 v) (SqlInt v)"
  unfolding encodes_def sqlite3VdbeSerialGet_def serialGet_def beBytes_list
  by (simp_all add: decode_1 decode_2 decode_3 decode_4 decode_6 decode_8 recordValue_setInt)

lemma encodes_real: "\<not> IsNaN v \<Longrightarrow> encodes 7 (beBytes 8 v) (SqlReal v)"
  unfolding encodes_def sqlite3VdbeSerialGet_def serialGet_def beBytes_list
  by (simp add: decode_8 recordValue_def MEM_defs)

text \<open>The serial type of a string or blob of \<open>n\<close> bytes.\<close>

definition blobType :: "nat \<Rightarrow> bool \<Rightarrow> u32" where
  "blobType n str = word_of_nat (2 * n + 12 + (if str then 1 else 0))"

lemma unat_blobType: "n < 2 ^ 31 - 8 \<Longrightarrow> unat (blobType n str) = 2 * n + 12 + (if str then 1 else 0)"
  unfolding blobType_def unat_of_nat by simp

lemma encodes_blob:
  assumes "length bs < 2 ^ 31 - 8"
  shows "encodes (blobType (length bs) str) bs ((if str then SqlText else SqlBlob) bs)"
proof -
  let ?t = "blobType (length bs) str"
  note t = unat_blobType [OF assms, of str]
  have small: "?t \<noteq> k" if "unat k < 12" for k
    using t that by auto
  have "(12 :: u32) \<le> ?t"
    using t by (simp add: word_le_nat_alt)
  then have n: "(?t - 12) div 2 = word_of_nat (length bs)"
    using t assms by (simp add: word_unat_eq_iff unat_div unat_sub unat_of_nat)
  have parity: "?t AND 1 = 0 \<longleftrightarrow> \<not> str"
    using and_exp_eq_0_iff_not_bit [of ?t 0] bit_unsigned_iff [of ?t 0, where ?'a = nat] t by (auto simp: bit_0)
  have cls: "serialClass ?t ((if str then SqlText else SqlBlob) bs)"
    using \<open>12 \<le> ?t\<close> parity by (cases "str = True") simp_all
  have "unat (word_of_nat (length bs) :: u32) = length bs"
    using assms by (simp add: unat_of_nat)
  then show ?thesis
    using assms cls by (auto simp: encodes_def sqlite3VdbeSerialGet_def small n parity Let_def recordValue_def memBlob_def memText_def MEM_defs)
qed

section \<open>Integers as doubles\<close>

lemma ilog2_bounds: "0 < m \<Longrightarrow> 2 ^ ilog2 m \<le> m \<and> m < 2 ^ Suc (ilog2 m)"
proof (induction m rule: ilog2.induct)
  case (1 n)
  show ?case
  proof (cases "n < 2")
    case True
    with 1 show ?thesis by (subst (1 2) ilog2.simps) simp
  next
    case False
    with 1 show ?thesis by (subst (1 2) ilog2.simps) auto
  qed
qed

lemma ilog2_le: "0 < m \<Longrightarrow> m \<le> 2 ^ k \<Longrightarrow> ilog2 m \<le> k"
  using ilog2_bounds [of m] power_le_imp_le_exp [of "2 :: nat" "ilog2 m" k] by linarith

lemma roundShift_le:
  assumes "m < 2 ^ (k + 53)"
  shows "roundShift m k \<le> 2 ^ 53"
proof -
  have "m div 2 ^ k < 2 ^ 53"
    using assms by (simp add: div_less_iff_less_mult power_add mult.commute)
  then show ?thesis by (simp add: roundShift_def Let_def)
qed

lemma unat_neg: "i \<noteq> 0 \<Longrightarrow> unat (- i) = 2 ^ 64 - unat (i :: u64)"
proof -
  assume i: "i \<noteq> 0"
  have "- i = word_of_nat (2 ^ 64 - unat i)"
    using unsigned_less [of i, where ?'a = nat] by (simp add: of_nat_diff)
  moreover have "2 ^ 64 - unat i < (2 ^ 64 :: nat)"
    using i by (simp add: unat_gt_0)
  ultimately show ?thesis
    by (simp only: unat_of_nat) simp
qed

lemma odd_pair: "odd (x + y) \<Longrightarrow> odd ((x + y) div 2) \<Longrightarrow> y < 3 \<Longrightarrow> x = 0 \<or> x = 4 \<Longrightarrow> False" for x y :: nat
  by presburger

text \<open>The parts of the double of an integer \<open>i \<noteq> 0\<close> of magnitude \<open>m\<close>: its sign, its exponent and the rounded
  significand \<open>q\<close>.\<close>

definition i64Mag :: "u64 \<Rightarrow> nat" where
  "i64Mag i = unat (if i <s 0 then - i else i)"

definition i64Sig :: "u64 \<Rightarrow> nat" where
  "i64Sig i =
     (let m = i64Mag i; e = ilog2 m in if e \<le> 52 then m * 2 ^ (52 - e) else roundShift m (e - 52))"

lemma i64Mag_le: "i64Mag i \<le> 2 ^ 63"
proof (cases "i <s 0")
  case True
  then have "2 ^ 63 \<le> unat i"
    using slt_0_iff_bit [of i] bit_iff_odd [of "unat i" 63] bit_unsigned_iff [of i 63, where ?'a = nat]
    by (cases "unat i < 2 ^ 63") auto
  moreover have "i \<noteq> 0" using True by auto
  ultimately show ?thesis
    using True unat_neg [of i] by (simp add: i64Mag_def)
next
  case False
  then have "\<not> bit i 63" using slt_0_iff_bit [of i] by simp
  then have "take_bit 63 i = i"
    by (intro u64_bit_split) (simp add: bit_simps)
  then have "unat i < 2 ^ 63" by (simp add: take_bit_u64_iff)
  then show ?thesis using False by (simp add: i64Mag_def)
qed

lemma i64Mag_pos: "i \<noteq> 0 \<Longrightarrow> 0 < i64Mag i"
  by (auto simp: i64Mag_def unat_gt_0)

lemma i64Sig_le:
  assumes "i \<noteq> 0"
  shows "i64Sig i \<le> 2 ^ 53"
proof -
  let ?m = "i64Mag i" and ?e = "ilog2 (i64Mag i)"
  have me: "?m < 2 ^ Suc ?e" using ilog2_bounds [OF i64Mag_pos [OF assms]] by simp
  show ?thesis
  proof (cases "?e \<le> 52")
    case True
    have "?m * 2 ^ (52 - ?e) < 2 ^ Suc ?e * 2 ^ (52 - ?e)" using me by simp
    also have "\<dots> = (2 :: nat) ^ 53" using True by (simp flip: power_add)
    finally show ?thesis using True by (simp add: i64Sig_def Let_def)
  next
    case False
    then have "?m < 2 ^ (?e - 52 + 53)" using me by simp
    from roundShift_le [OF this] show ?thesis using False by (simp add: i64Sig_def Let_def)
  qed
qed

lemma doubleOfI64_parts:
  assumes "i \<noteq> 0"
  shows "unat (doubleOfI64 i) = (if i <s 0 then 2 ^ 63 else 0) + ((ilog2 (i64Mag i) + 1022) * 2 ^ 52 + i64Sig i)"
    "(ilog2 (i64Mag i) + 1022) * 2 ^ 52 + i64Sig i < 3 * 2 ^ 61"
proof -
  define s where "s = (if i <s 0 then 2 ^ 63 else 0 :: nat)"
  define t where "t = (ilog2 (i64Mag i) + 1022) * 2 ^ 52 + i64Sig i"
  have "ilog2 (i64Mag i) \<le> 63" using ilog2_le [OF i64Mag_pos [OF assms] i64Mag_le] .
  then show t: "(ilog2 (i64Mag i) + 1022) * 2 ^ 52 + i64Sig i < 3 * 2 ^ 61" using i64Sig_le [OF assms] by simp
  have "doubleOfI64 i = word_of_nat (s + t)"
    using assms by (simp only: doubleOfI64_def Let_def if_False s_def t_def i64Sig_def i64Mag_def add.assoc)
  then show "unat (doubleOfI64 i) = (if i <s 0 then 2 ^ 63 else 0) + ((ilog2 (i64Mag i) + 1022) * 2 ^ 52 + i64Sig i)"
    using t by (simp only: unat_of_nat s_def [symmetric] t_def [symmetric]) (simp add: s_def)
qed

text \<open>The double of an integer has an exponent far below the one of infinities and NaNs.\<close>

lemma doubleOfI64_number: "\<not> IsNaN (doubleOfI64 i)"
proof (cases "i = 0")
  case False
  define t where "t = (ilog2 (i64Mag i) + 1022) * 2 ^ 52 + i64Sig i"
  define s where "s = (if i <s 0 then 2 ^ 63 else 0 :: nat)"
  have u: "unat (doubleOfI64 i) = s + t" and t: "t < 3 * 2 ^ 61"
    using doubleOfI64_parts [OF False] by (simp_all add: s_def t_def)
  show ?thesis
  proof
    assume "IsNaN (doubleOfI64 i)"
    then have "doubleOfI64 i AND EXP754 = EXP754" by (simp add: IsNaN_def)
    moreover have "bit EXP754 61" "bit EXP754 62" by (simp_all add: EXP754_def)
    ultimately have "bit (doubleOfI64 i) 61 \<and> bit (doubleOfI64 i) 62"
      by (metis bit_and_iff)
    then have "bit (s + t) 61" "bit (s + t) 62"
      by (simp_all add: bit_unsigned_iff flip: u)
    then have "odd ((s + t) div 2 ^ 61)" "odd ((s + t) div 2 ^ 61 div 2)"
      by (simp_all add: bit_iff_odd flip: div_mult2_eq)
    moreover have "(s + t) div 2 ^ 61 = s div 2 ^ 61 + t div 2 ^ 61"
      using div_mult_self3 [of "2 ^ 61 :: nat" 4 t] by (simp add: s_def)
    moreover have "t div 2 ^ 61 < 3" using t by (simp add: div_less_iff_less_mult)
    moreover have "s div 2 ^ 61 = 0 \<or> s div 2 ^ 61 = 4" by (simp add: s_def)
    ultimately show False using odd_pair by metis
  qed
qed (simp add: doubleOfI64_def IsNaN_def EXP754_def)

section \<open>Sizing the fields\<close>

text \<open>The registers that \<^verbatim>\<open>OP_MakeRecord\<close> accepts: a NULL, an integer, a number, or a string or blob whose
  size is below the limit of 1,000,000,000 bytes (any size whose serial type fits in 32 bits).\<close>

definition cell_wf :: "cell \<Rightarrow> bool" where
  "cell_wf p \<longleftrightarrow>
     cell_flags p AND MEM_Null \<noteq> 0 \<or>
     cell_flags p AND (MEM_Int OR MEM_IntReal) \<noteq> 0 \<or>
     (if cell_flags p AND MEM_Real \<noteq> 0 then \<not> IsNaN (cell_u p)
      else cell_flags p AND (MEM_Str OR MEM_Blob) \<noteq> 0 \<and> mem_wf (cell_mem p) \<and>
        mem_n (cell_mem p) + mem_nZero (cell_mem p) < 2 ^ 31 - 8)"

text \<open>What \<^verbatim>\<open>sqlite3VdbeSerialPut\<close> writes for a sized register, and the zeros that it leaves out.\<close>

definition fieldBytes :: "cell \<Rightarrow> u8 list" where
  "fieldBytes p =
     (if 0 < cell_uTemp p \<and> cell_uTemp p \<le> 7 then beBytes (sqlite3SmallTypeSizes ! unat (cell_uTemp p)) (cell_u p)
      else if 12 \<le> cell_uTemp p then memText (cell_mem p)
      else [])"

definition fieldTail :: "cell \<Rightarrow> nat" where
  "fieldTail p = (if 12 \<le> cell_uTemp p \<and> cell_flags p AND MEM_Zero \<noteq> 0 then mem_nZero (cell_mem p) else 0)"

definition fieldFull :: "cell \<Rightarrow> u8 list" where
  "fieldFull p = fieldBytes p @ replicate (fieldTail p) 0"

definition sized :: "cell \<Rightarrow> sql_value \<Rightarrow> bool" where
  "sized p v \<longleftrightarrow>
     encodes (cell_uTemp p) (fieldFull p) v \<and>
     (12 \<le> cell_uTemp p \<longrightarrow> mem_n (cell_mem p) \<le> length (mem_z (cell_mem p)))"

lemma sized_small:
  assumes "cell_uTemp p < 12" "encodes (cell_uTemp p) (fieldBytes p) v"
  shows "sized p v" "fieldTail p = 0"
  using assms by (auto simp: sized_def fieldFull_def fieldTail_def)

lemma typeSizes [simp]:
  "sqlite3SmallTypeSizes ! 0 = 0" "sqlite3SmallTypeSizes ! Suc 0 = 1" "sqlite3SmallTypeSizes ! 2 = 2" "sqlite3SmallTypeSizes ! 3 = 3"
  "sqlite3SmallTypeSizes ! 4 = 4" "sqlite3SmallTypeSizes ! 5 = 6" "sqlite3SmallTypeSizes ! 6 = 8"
  "sqlite3SmallTypeSizes ! 7 = 8" "length sqlite3SmallTypeSizes = 128"
  by (simp_all add: sqlite3SmallTypeSizes_def)

lemma sint_not: "sint (NOT i) = - sint (i :: u64) - 1"
proof -
  have "- (2 ^ 63) \<le> sint i" "sint i < 2 ^ 63"
    using sint_range_size [of i] by (simp_all add: word_size)
  then show ?thesis
    by (simp add: signed_not_eq not_int_def signed_take_bit_int_eq_self)
qed

lemma u64_le_sint: "0 \<le> sint x \<Longrightarrow> x \<le> y \<longleftrightarrow> sint x \<le> uint (y :: u64)" for x :: u64
  using uint_sint [of x] sint_range_size [of x] by (simp add: word_le_def word_size take_bit_int_eq_self)

lemma fits_six: "(if i <s 0 then NOT i else i) \<le> 140737488355327 \<longleftrightarrow> sixBytes i"
proof (cases "i <s 0")
  case True
  then have "sint i < 0" by (simp add: word_sless_alt)
  then show ?thesis
    using True u64_le_sint [of "NOT i" 140737488355327] by (auto simp: sint_not sixBytes_def)
next
  case False
  then have "0 \<le> sint i" by (simp add: word_sless_alt)
  then show ?thesis
    using False u64_le_sint [of i 140737488355327] by (auto simp: sixBytes_def)
qed

lemma sizeInt_spec:
  assumes "sizeInt file_format p nData = (q, nData')" "cell_flags p AND MEM_Null = 0"
    "cell_flags p AND (MEM_Int OR MEM_IntReal) \<noteq> 0"
  shows "cell_uTemp q < 12 \<and> encodes (cell_uTemp q) (fieldBytes q) (recordValue p) \<and> nData' = nData + length (fieldBytes q)"
proof -
  define i where "i = cell_u p"
  define uu where "uu = (if i <s 0 then NOT i else i)"
  have v: "recordValue p = SqlInt i" if "uu \<le> 140737488355327 \<or> cell_flags p AND MEM_IntReal = 0"
    using that assms(2, 3) fits_six [of i] by (auto simp: recordValue_def i_def uu_def)
  have fits: "uu \<le> 127 \<Longrightarrow> fits 7 i" "uu \<le> 32767 \<Longrightarrow> fits 15 i" "uu \<le> 8388607 \<Longrightarrow> fits 23 i"
    "uu \<le> 2147483647 \<Longrightarrow> fits 31 i" "uu \<le> 140737488355327 \<Longrightarrow> fits 47 i"
    using fitsI [of i 7] fitsI [of i 15] fitsI [of i 23] fitsI [of i 31] fitsI [of i 47] by (simp_all add: uu_def)
  note s = assms(1) [unfolded sizeInt_def Let_def i_def [symmetric] uu_def [symmetric]]
  note t = fieldBytes_def i_def [symmetric] encodes_int
  show ?thesis
  proof (cases "uu \<le> 140737488355327")
    case True
    note v = v [OF disjI1 [OF True]]
    consider (const) "uu \<le> 127" "i AND 1 = i" "file_format \<ge> 4"
      | (1) "uu \<le> 127" "\<not> (i AND 1 = i \<and> file_format \<ge> 4)"
      | (2) "\<not> uu \<le> 127" "uu \<le> 32767" | (3) "\<not> uu \<le> 127" "\<not> uu \<le> 32767" "uu \<le> 8388607"
      | (4) "\<not> uu \<le> 127" "\<not> uu \<le> 32767" "\<not> uu \<le> 8388607" "uu \<le> 2147483647"
      | (6) "\<not> uu \<le> 127" "\<not> uu \<le> 32767" "\<not> uu \<le> 8388607" "\<not> uu \<le> 2147483647"
      by blast
    then show ?thesis
    proof cases
      case const
      then have "of_bool (odd i) = i" by (simp only: and_one_eq mod_2_eq_odd)
      then have "i = 0 \<or> i = 1" by (metis of_bool_eq)
      moreover from this have "uu = i" by (auto simp: uu_def word_sless_alt)
      ultimately show ?thesis
        using const s v by (auto simp: fieldBytes_def encodes_empty)
    next
      case 1
      with s v fits(1) encodes_int(1) [of i, unfolded beBytes_list] show ?thesis
        by (auto simp: fieldBytes_def i_def [symmetric] ucast_and_0xff)
    next
      case 2
      with s v fits show ?thesis by (auto simp: t)
    next
      case 3
      with s v fits show ?thesis by (auto simp: t)
    next
      case 4
      with s v fits show ?thesis by (auto simp: t)
    next
      case 6
      with s v fits True show ?thesis by (auto simp: t)
    qed
  next
    case False
    then have big: "\<not> uu \<le> 127" "\<not> uu \<le> 32767" "\<not> uu \<le> 8388607" "\<not> uu \<le> 2147483647"
      by (auto simp: word_le_nat_alt)
    show ?thesis
    proof (cases "cell_flags p AND MEM_IntReal = 0")
      case True
      with s v big False show ?thesis by (auto simp: t)
    next
      case IntReal: False
      then have "recordValue p = SqlReal (doubleOfI64 i)"
        using assms(2, 3) False fits_six [of i] by (simp add: recordValue_def i_def uu_def)
      with s big False IntReal show ?thesis
        by (auto simp: fieldBytes_def i_def [symmetric] encodes_real doubleOfI64_number)
    qed
  qed
qed

lemma varintLen_type: "sqlite3VarintLen (ucast t) = fst (putVarint32 t)"
  using unsigned_less [of t, where ?'a = nat] by (simp add: varintLen_cases putVarint32_core)

lemma varintLen_small: "t < 12 \<Longrightarrow> fst (putVarint32 t) = 1"
  by (simp add: putVarint32_def word_less_nat_alt)

lemma alloc_set: "set (snd (alloc w)) \<subseteq> set w" "\<not> fst (alloc w) \<Longrightarrow> False \<in> set w"
  by (cases w; auto)+

lemma expandBlob_nZero:
  "sqlite3VdbeMemExpandBlob junk w p = Some (SQLITE_OK, q, w') \<Longrightarrow> mem_nZero q = mem_nZero p"
  by (auto simp: sqlite3VdbeMemExpandBlob_def sqlite3VdbeMemGrow_def Let_def bind_eq_Some_conv split: if_splits prod.splits bool.splits)

text \<open>What sizing one register gives: the register with its serial type, and the sizes \<open>nHdr\<close>, \<open>nData\<close>
  and \<open>nZero\<close> grown by what it contributes. A register keeps zeros out of its bytes only when no data
  follow it.\<close>

definition sizedStep :: "cell \<Rightarrow> oom \<Rightarrow> nat \<Rightarrow> nat \<Rightarrow> nat \<Rightarrow> (result_code \<times> cell \<times> nat \<times> nat \<times> nat \<times> oom) option \<Rightarrow> bool" where
  "sizedStep p w nHdr nData nZero res \<longleftrightarrow>
     (\<exists>rc q nHdr' nData' nZero' w'. res = Some (rc, q, nHdr', nData', nZero', w') \<and> set w' \<subseteq> set w \<and>
        (rc = SQLITE_OK \<longrightarrow> sized q (recordValue p) \<and> nHdr' = nHdr + fst (putVarint32 (cell_uTemp q)) \<and>
           nData' = nData + length (fieldBytes q) \<and> nZero' = nZero + fieldTail q \<and> (0 < fieldTail q \<longrightarrow> nData = 0)) \<and>
        (rc \<noteq> SQLITE_OK \<longrightarrow> rc = SQLITE_NOMEM \<and> False \<in> set w))"

lemma sizedStep_small:
  assumes "cell_uTemp q < 12" "encodes (cell_uTemp q) (fieldBytes q) (recordValue p)"
  shows "sizedStep p w nHdr nData nZero (Some (SQLITE_OK, q, nHdr + 1, nData + length (fieldBytes q), nZero, w))"
  using sized_small [OF assms] varintLen_small [OF assms(1)] by (simp add: sizedStep_def)

text \<open>A string or blob.\<close>

lemma blob_type:
  assumes "mem_n m + mem_nZero m < 2 ^ 31 - 8" "length (memText m) = mem_n m"
  shows "word_of_nat (mem_n m) * 2 + 12 + (if mem_flags m AND MEM_Str \<noteq> 0 then 1 else 0) +
      (if mem_flags m AND MEM_Zero \<noteq> 0 then word_of_nat (mem_nZero m) * 2 else 0) =
    blobType (length (memBlob m)) (mem_flags m AND MEM_Str \<noteq> 0)"
  using assms by (simp add: blobType_def memBlob_def algebra_simps)

lemma sized_blob:
  assumes "cell_uTemp q = blobType (length (memBlob m)) str" "length (memBlob m) < 2 ^ 31 - 8"
    "fieldFull q = memBlob m" "mem_n (cell_mem q) \<le> length (mem_z (cell_mem q))"
  shows "sized q ((if str then SqlText else SqlBlob) (memBlob m))"
  using assms encodes_blob [OF assms(2), of str] by (simp add: sized_def)

lemma blobType_ge: "n < 2 ^ 31 - 8 \<Longrightarrow> 12 \<le> blobType n str"
  by (simp add: word_le_nat_alt unat_blobType)

lemma sizeBlob_spec:
  assumes wf: "mem_wf (cell_mem p)" and str: "cell_flags p AND (MEM_Str OR MEM_Blob) \<noteq> 0"
    and small: "mem_n (cell_mem p) + mem_nZero (cell_mem p) < 2 ^ 31 - 8"
    and v: "recordValue p = (if cell_flags p AND MEM_Str \<noteq> 0 then SqlText else SqlBlob) (memBlob (cell_mem p))"
  shows "sizedStep p w nHdr nData nZero (sizeBlob junk w p nHdr nData nZero)"
proof -
  define m where "m = cell_mem p"
  define st where "st = (mem_flags m AND MEM_Str \<noteq> 0)"
  have n: "mem_n m \<le> length (mem_z m)" using wf str by (simp add: mem_wf_def m_def)
  then have len: "length (memText m) = mem_n m" by (simp add: memText_def)
  have "length (memBlob m) \<le> mem_n m + mem_nZero m" by (simp add: memBlob_def len)
  then have sm: "length (memBlob m) < 2 ^ 31 - 8" using small by (simp add: m_def)
  note t = blob_type [OF small [folded m_def] len, folded st_def]
  note ge = blobType_ge [OF sm, of st]
  note defs = sizeBlob_def Let_def m_def [symmetric] st_def [symmetric]
  show ?thesis
  proof (cases "mem_flags m AND MEM_Zero = 0")
    case True
    define q where "q = p\<lparr>cell_uTemp := blobType (length (memBlob m)) st\<rparr>"
    have q: "fieldFull q = memBlob m" "fieldBytes q = memText m" "fieldTail q = 0"
      using ge True by (auto simp: q_def fieldFull_def fieldBytes_def fieldTail_def memBlob_def m_def word_le_nat_alt)
    have "sizeBlob junk w p nHdr nData nZero =
        Some (SQLITE_OK, q, nHdr + fst (putVarint32 (cell_uTemp q)), nData + mem_n m, nZero, w)"
      using True t by (simp add: defs q_def varintLen_type)
    then show ?thesis
      using sized_blob [of q m st] q sm n v by (simp add: sizedStep_def q_def m_def st_def len [unfolded m_def])
  next
    case Zero: False
    note blob = v [folded m_def, folded st_def]
    show ?thesis
    proof (cases "nData = 0")
      case True
      define q where "q = p\<lparr>cell_uTemp := blobType (length (memBlob m)) st\<rparr>"
      have q: "fieldFull q = memBlob m" "fieldBytes q = memText m" "fieldTail q = mem_nZero m"
        using ge Zero by (auto simp: q_def fieldFull_def fieldBytes_def fieldTail_def memBlob_def m_def word_le_nat_alt)
      have "sizeBlob junk w p nHdr nData nZero =
          Some (SQLITE_OK, q, nHdr + fst (putVarint32 (cell_uTemp q)), nData + mem_n m, nZero + mem_nZero m, w)"
        using True Zero t by (simp add: defs q_def varintLen_type)
      then show ?thesis
        using sized_blob [of q m st] q sm n v True by (simp add: sizedStep_def q_def m_def st_def len [unfolded m_def])
    next
      case nData: False
      obtain rc m' where e: "sqlite3VdbeMemExpandBlob junk w m = Some (rc, m', snd (alloc w))"
        "if fst (alloc w) then rc = SQLITE_OK \<and> expanded m m' else rc = SQLITE_NOMEM \<and> m' = memFailed m"
        using expandBlob_spec [OF wf [folded m_def] Zero, of junk w] by blast
      show ?thesis
      proof (cases "fst (alloc w)")
        case False
        then show ?thesis
          using e nData Zero alloc_set [of w] by (simp add: defs sizedStep_def)
      next
        case True
        then have rc: "rc = SQLITE_OK" and x: "expanded m m'" using e(2) by simp_all
        then have z: "mem_nZero m' = mem_nZero m" using e(1) expandBlob_nZero by blast
        define q where "q = p\<lparr>cell_mem := m', cell_uTemp := blobType (length (memBlob m)) st\<rparr>"
        have q: "fieldFull q = memBlob m" "fieldBytes q = memBlob m" "fieldTail q = 0"
          using ge x by (auto simp: q_def fieldFull_def fieldBytes_def fieldTail_def expanded_def word_le_nat_alt)
        have "mem_flags m' AND (MEM_Str OR MEM_Blob) \<noteq> 0" "mem_wf m'"
          using x str by (simp_all add: expanded_def m_def)
        then have n': "mem_n m' \<le> length (mem_z m')" by (simp add: mem_wf_def)
        have "sizeBlob junk w p nHdr nData nZero =
            Some (SQLITE_OK, q, nHdr + fst (putVarint32 (cell_uTemp q)), nData + (mem_n m + mem_nZero m), nZero, snd (alloc w))"
          using nData Zero t e(1) rc z by (simp add: defs q_def varintLen_type)
        moreover have "length (memBlob m) = mem_n m + mem_nZero m"
          using Zero len by (simp add: memBlob_def)
        moreover have "sized q (recordValue p)"
          using sized_blob [of q m st] q sm n' blob by (simp add: q_def)
        ultimately show ?thesis
          using alloc_set(1) [of w] q by (simp add: sizedStep_def)
      qed
    qed
  qed
qed

lemma sizeField_spec:
  assumes "cell_wf p"
  shows "sizedStep p w nHdr nData nZero (sizeField junk w file_format p nHdr nData nZero)"
proof -
  let ?f = "cell_flags p"
  consider (null) "?f AND MEM_Null \<noteq> 0"
    | (int) "?f AND MEM_Null = 0" "?f AND (MEM_Int OR MEM_IntReal) \<noteq> 0"
    | (real) "?f AND MEM_Null = 0" "?f AND (MEM_Int OR MEM_IntReal) = 0" "?f AND MEM_Real \<noteq> 0"
    | (blob) "?f AND MEM_Null = 0" "?f AND (MEM_Int OR MEM_IntReal) = 0" "?f AND MEM_Real = 0"
    by blast
  then show ?thesis
  proof cases
    case null
    then show ?thesis
      using sizedStep_small [of "p\<lparr>cell_uTemp := 10\<rparr>" p w nHdr nData nZero]
        sizedStep_small [of "p\<lparr>cell_uTemp := 0\<rparr>" p w nHdr nData nZero]
      by (cases "?f AND MEM_Zero = 0") (simp_all add: sizeField_def recordValue_def fieldBytes_def encodes_empty)
  next
    case int
    obtain q nData' where s: "sizeInt file_format p nData = (q, nData')" by fastforce
    from sizeInt_spec [OF s int] show ?thesis
      using int s sizedStep_small [of q p w nHdr nData nZero] by (simp add: sizeField_def)
  next
    case real
    then have "\<not> IsNaN (cell_u p)" using assms by (simp add: cell_wf_def)
    then show ?thesis
      using real sizedStep_small [of "p\<lparr>cell_uTemp := 7\<rparr>" p w nHdr nData nZero]
      by (simp add: sizeField_def recordValue_def fieldBytes_def encodes_real)
  next
    case blob
    then show ?thesis
      using assms sizeBlob_spec [of p w nHdr nData nZero junk] by (simp add: sizeField_def recordValue_def cell_wf_def)
  qed
qed

section \<open>Sizing and writing a record\<close>

abbreviation typeBytes :: "cell \<Rightarrow> u8 list" where
  "typeBytes q \<equiv> snd (putVarint32 (cell_uTemp q))"

lemma sizeLoop_spec:
  assumes "\<forall>p \<in> set ps. cell_wf p"
  shows "\<exists>rc qs nHdr nData nZero w'. sizeLoop junk w file_format ps = Some (rc, qs, nHdr, nData, nZero, w') \<and> set w' \<subseteq> set w \<and>
    (rc = SQLITE_OK \<longrightarrow> list_all2 sized qs (map recordValue ps) \<and> nHdr = length (concat (map typeBytes qs)) \<and>
       nData = length (concat (map fieldBytes qs)) \<and>
       concat (map fieldFull qs) = concat (map fieldBytes qs) @ replicate nZero 0) \<and>
    (rc \<noteq> SQLITE_OK \<longrightarrow> rc = SQLITE_NOMEM \<and> False \<in> set w)"
  using assms
proof (induction ps)
  case (Cons p ps)
  then obtain rc qs nHdr nData nZero w1 where
    l: "sizeLoop junk w file_format ps = Some (rc, qs, nHdr, nData, nZero, w1)" "set w1 \<subseteq> set w"
    "rc = SQLITE_OK \<longrightarrow> list_all2 sized qs (map recordValue ps) \<and> nHdr = length (concat (map typeBytes qs)) \<and>
       nData = length (concat (map fieldBytes qs)) \<and>
       concat (map fieldFull qs) = concat (map fieldBytes qs) @ replicate nZero 0"
    "rc \<noteq> SQLITE_OK \<longrightarrow> rc = SQLITE_NOMEM \<and> False \<in> set w"
    by auto
  show ?case
  proof (cases "rc = SQLITE_OK")
    case True
    have "cell_wf p" using Cons.prems by simp
    from sizeField_spec [OF this, of w1 nHdr nData nZero junk file_format]
    obtain rc' q nHdr' nData' nZero' w' where
      f: "sizeField junk w1 file_format p nHdr nData nZero = Some (rc', q, nHdr', nData', nZero', w')" "set w' \<subseteq> set w1"
      "rc' = SQLITE_OK \<longrightarrow> sized q (recordValue p) \<and> nHdr' = nHdr + fst (putVarint32 (cell_uTemp q)) \<and>
         nData' = nData + length (fieldBytes q) \<and> nZero' = nZero + fieldTail q \<and> (0 < fieldTail q \<longrightarrow> nData = 0)"
      "rc' \<noteq> SQLITE_OK \<longrightarrow> rc' = SQLITE_NOMEM \<and> False \<in> set w1"
      unfolding sizedStep_def by (elim exE conjE)
    have "concat (map fieldFull (q # qs)) = concat (map fieldBytes (q # qs)) @ replicate (nZero + fieldTail q) 0"
      if "rc' = SQLITE_OK"
    proof (cases "fieldTail q = 0")
      case True
      then show ?thesis using l(3) \<open>rc = SQLITE_OK\<close> by (simp add: fieldFull_def)
    next
      case False
      then have e: "concat (map fieldBytes qs) = []" using f(3) that l(3) \<open>rc = SQLITE_OK\<close> by simp
      then have "concat (map fieldFull qs) = replicate nZero 0" using l(3) \<open>rc = SQLITE_OK\<close> by (metis append_Nil)
      moreover have "replicate (fieldTail q) 0 @ replicate nZero (0 :: u8) = replicate (nZero + fieldTail q) 0"
        by (simp add: add.commute flip: replicate_add)
      ultimately show ?thesis
        unfolding list.map concat.simps e by (simp add: fieldFull_def)
    qed
    then show ?thesis
      using True l f by (auto simp: core32.put_length)
  qed (use l in auto)
qed simp

lemma store_middle: "length y = length b \<Longrightarrow> store (x @ y @ z) (length x) b = Some (x @ b @ z)"
  by (simp add: store_def)

lemma serialPut_spec:
  assumes "sized q v" "length y = length (fieldBytes q)"
  shows "sqlite3VdbeSerialPut (x @ y @ z) (length x) q (cell_uTemp q) = Some (length (fieldBytes q), x @ fieldBytes q @ z)"
proof -
  let ?t = "cell_uTemp q"
  consider (num) "0 < ?t" "?t \<le> 7" | (str) "12 \<le> ?t" | (none) "?t = 0 \<or> \<not> ?t \<le> 7" "\<not> 12 \<le> ?t"
    by (metis word_gt_0)
  then show ?thesis
  proof cases
    case num
    then have "unat ?t < 128" by (simp add: word_le_nat_alt)
    then have "rd sqlite3SmallTypeSizes (unat ?t) = Some (sqlite3SmallTypeSizes ! unat ?t)" by (simp add: rd_def)
    then show ?thesis
      using num assms(2) by (simp add: sqlite3VdbeSerialPut_def fieldBytes_def putBytes_store store_middle)
  next
    case str
    then have big: "\<not> (?t \<le> 7 \<and> 0 < ?t)" "\<not> (0 < ?t \<and> ?t \<le> 7)" by (auto simp: word_le_nat_alt)
    have n: "mem_n (cell_mem q) \<le> length (mem_z (cell_mem q))" using assms(1) str by (simp add: sized_def)
    have f: "fieldBytes q = take (mem_n (cell_mem q)) (mem_z (cell_mem q))"
      using str big by (auto simp: fieldBytes_def memText_def)
    then have "length (fieldBytes q) = mem_n (cell_mem q)" using n by simp
    then show ?thesis
      using str big n assms(2) store_middle [of y "fieldBytes q" x z]
      by (auto simp: sqlite3VdbeSerialPut_def Let_def f)
  next
    case none
    then show ?thesis
      using assms(2) by (auto simp: sqlite3VdbeSerialPut_def fieldBytes_def)
  qed
qed

lemma writeFields_spec:
  assumes "list_all2 sized qs vs" "length y = length (concat (map typeBytes qs))" "length d = length (concat (map fieldBytes qs))"
  shows "writeFields (x @ y @ g @ d @ e) (length x) (length x + length y + length g) qs =
    Some (x @ concat (map typeBytes qs) @ g @ concat (map fieldBytes qs) @ e,
      length x + length y, length x + length y + length g + length d)"
  using assms
proof (induction qs vs arbitrary: x y g d rule: list_all2_induct)
  case (Cons q qs v vs)
  obtain y1 y2 where y: "y = y1 @ y2" "length y1 = length (typeBytes q)" "length y2 = length (concat (map typeBytes qs))"
    using Cons.prems(1) by (auto intro: that [of "take (length (typeBytes q)) y" "drop (length (typeBytes q)) y"])
  obtain d1 d2 where d: "d = d1 @ d2" "length d1 = length (fieldBytes q)" "length d2 = length (concat (map fieldBytes qs))"
    using Cons.prems(2) by (auto intro: that [of "take (length (fieldBytes q)) d" "drop (length (fieldBytes q)) d"])
  have "store (x @ y @ g @ d @ e) (length x) (typeBytes q) = Some (x @ typeBytes q @ y2 @ g @ d @ e)"
    using store_middle [of y1 "typeBytes q" x "y2 @ g @ d @ e"] y by simp
  moreover have "sqlite3VdbeSerialPut (x @ typeBytes q @ y2 @ g @ d @ e) (length x + length y + length g) q (cell_uTemp q) =
      Some (length (fieldBytes q), x @ typeBytes q @ y2 @ g @ fieldBytes q @ d2 @ e)"
    using serialPut_spec [OF Cons.hyps(1) d(2), of "x @ typeBytes q @ y2 @ g" "d2 @ e"] y d by (simp add: add.assoc)
  ultimately have "writeFields (x @ y @ g @ d @ e) (length x) (length x + length y + length g) (q # qs) =
      writeFields ((x @ typeBytes q) @ y2 @ (g @ fieldBytes q) @ d2 @ e) (length (x @ typeBytes q))
        (length (x @ typeBytes q) + length y2 + length (g @ fieldBytes q)) qs"
    using y by (simp add: add.assoc case_prod_beta core32.put_length)
  then show ?case
    using Cons.IH [OF y(3) d(3), of "x @ typeBytes q" "g @ fieldBytes q"] y d by (simp add: add.assoc)
qed simp

section \<open>The size of the header\<close>

lemma vlen:
  assumes "n < 2 ^ 31"
  shows "sqlite3VarintLen (word_of_nat n) =
    (if n < 128 then 1 else if n < 16384 then 2 else if n < 2097152 then 3 else if n < 268435456 then 4 else 5)"
proof -
  have u: "unat (word_of_nat n :: u64) = n"
    using assms by (simp add: unat_of_nat)
  have "length (putVarintBuf (word_of_nat n)) =
    (if n < 128 then 1 else if n < 16384 then 2 else if n < 2097152 then 3 else if n < 268435456 then 4 else 5)"
    using putVarintBuf_length [of "word_of_nat n" 0] putVarintBuf_length_eq [of 1 "word_of_nat n"]
      putVarintBuf_length_eq [of 2 "word_of_nat n"] putVarintBuf_length_eq [of 3 "word_of_nat n"]
      putVarintBuf_length_eq [of 4 "word_of_nat n"] putVarintBuf_unfold [of "word_of_nat n"] u assms
    by (auto split: if_splits)
  then show ?thesis
    by (simp add: sqlite3VarintLen_def varintLen_buf)
qed

lemma vlen32: "n < 2 ^ 31 \<Longrightarrow> fst (putVarint32 (word_of_nat n)) = sqlite3VarintLen (word_of_nat n)"
proof -
  assume "n < 2 ^ 31"
  then have "(ucast (word_of_nat n :: u32) :: u64) = word_of_nat n"
    by (simp add: word_unat_eq_iff unat_of_nat)
  then show ?thesis by (simp flip: varintLen_type)
qed

lemma headerSize_spec:
  assumes "n < 2 ^ 28"
  shows "headerSize n = fst (putVarint32 (word_of_nat (headerSize n))) + n" "headerSize n \<le> n + 5"
proof -
  define V where "V k = sqlite3VarintLen (word_of_nat k)" for k
  have V: "V k = (if k < 128 then 1 else if k < 16384 then 2 else if k < 2097152 then 3 else if k < 268435456 then 4 else 5)"
    if "k < 2 ^ 31" for k
    using vlen [OF that] by (simp only: V_def)
  have "headerSize n \<le> n + 5 \<and> V (headerSize n) + n = headerSize n"
    unfolding headerSize_def Let_def V_def [symmetric] using assms by (simp add: V)
  then have "headerSize n \<le> n + 5 \<and> sqlite3VarintLen (word_of_nat (headerSize n)) + n = headerSize n"
    by (simp only: V_def)
  then show "headerSize n = fst (putVarint32 (word_of_nat (headerSize n))) + n" "headerSize n \<le> n + 5"
    using assms by (simp_all add: vlen32)
qed

section \<open>The record in the output register\<close>

text \<open>The bytes of the record of the sized registers \<open>qs\<close>.\<close>

definition recordImage :: "cell list \<Rightarrow> u8 list" where
  "recordImage qs =
     (let ts = concat (map typeBytes qs)
      in snd (putVarint32 (word_of_nat (headerSize (length ts)))) @ ts @ concat (map fieldFull qs))"

text \<open>The output register: its private buffer has the size recorded for it.\<close>

definition out_wf :: "u8 list \<Rightarrow> mem \<Rightarrow> bool" where
  "out_wf zMalloc pOut \<longleftrightarrow> mem_szMalloc pOut > 0 \<longrightarrow> mem_szMalloc pOut = length (if mem_own pOut then mem_z pOut else zMalloc)"

lemma recordBuffer_spec:
  assumes "out_wf zMalloc pOut" "0 < nByte"
  shows "\<exists>rc q w'. recordBuffer junk w limit zMalloc pOut nByte nZero = Some (rc, q, w') \<and>
    (rc = SQLITE_OK \<longrightarrow> nByte \<le> length (mem_z q) \<and> mem_own q \<and> mem_szMalloc q = length (mem_z q) \<and>
       nByte + nZero \<le> max limit (mem_szMalloc pOut)) \<and>
    (rc \<noteq> SQLITE_OK \<longrightarrow> rc = SQLITE_NOMEM \<and> False \<in> set w \<or> rc = SQLITE_TOOBIG \<and> limit < nByte + nZero)"
proof (cases "alloc w")
  case (Pair b w')
  then show ?thesis
    using assms alloc_set(2) [of w]
    by (auto simp: recordBuffer_def sqlite3VdbeMemClearAndResize_def sqlite3VdbeMemGrow_def growBlock_def out_wf_def split: bool.split)
qed

text \<open>The type bytes of at most 32767 columns.\<close>

lemma putVarint32_le: "fst (putVarint32 t) \<le> 9" "0 < fst (putVarint32 t)"
  using putVarint_bounds [of "ucast t"] by (simp_all add: putVarint32_core)

lemma typeBytes_length: "length (concat (map typeBytes qs)) \<le> 9 * length qs"
proof (induction qs)
  case (Cons q qs)
  then show ?case using putVarint32_le(1) [of "cell_uTemp q"] by (simp add: core32.put_length)
qed simp

text \<open>The registers \<open>qs\<close> after the sizing loop, and the record in the output register.\<close>

lemma makeRecord_spec:
  assumes "\<forall>p \<in> set ps. cell_wf p" "length ps \<le> 32767" "out_wf zMalloc pOut"
  shows "\<exists>rc qs q w'. makeRecord junk w limit file_format ps zMalloc pOut = Some (rc, qs, q, w') \<and>
    (rc = SQLITE_OK \<longrightarrow> mem_wf q \<and> memBlob q = recordImage qs \<and> list_all2 sized qs (map recordValue ps) \<and>
       length (recordImage qs) \<le> max limit (mem_szMalloc pOut)) \<and>
    (rc \<noteq> SQLITE_OK \<longrightarrow> rc = SQLITE_NOMEM \<and> False \<in> set w \<or>
       rc = SQLITE_TOOBIG \<and> list_all2 sized qs (map recordValue ps) \<and> limit < length (recordImage qs))"
proof -
  obtain rc qs nHdr nData nZero w1 where
    s: "sizeLoop junk w file_format ps = Some (rc, qs, nHdr, nData, nZero, w1)" "set w1 \<subseteq> set w"
    and ok: "rc = SQLITE_OK \<longrightarrow> list_all2 sized qs (map recordValue ps) \<and> nHdr = length (concat (map typeBytes qs)) \<and>
       nData = length (concat (map fieldBytes qs)) \<and>
       concat (map fieldFull qs) = concat (map fieldBytes qs) @ replicate nZero 0"
    and bad: "rc \<noteq> SQLITE_OK \<longrightarrow> rc = SQLITE_NOMEM \<and> False \<in> set w"
    using sizeLoop_spec [OF assms(1), of junk w file_format] by (elim exE conjE)
  show ?thesis
  proof (cases "rc = SQLITE_OK")
    case False
    then show ?thesis using s bad by (simp add: makeRecord_def)
  next
    case True
    note ok = ok [rule_format, OF True]
    define ts where "ts = concat (map typeBytes qs)"
    define hb where "hb = snd (putVarint32 (word_of_nat (headerSize nHdr)))"
    define fs where "fs = concat (map fieldBytes qs)"
    have "length qs = length ps" using ok list_all2_lengthD by fastforce
    then have "nHdr < 2 ^ 28" using typeBytes_length [of qs] ok assms(2) by simp
    note h = headerSize_spec [OF this]
    have hs: "headerSize nHdr = length hb + length ts"
      using h(1) ok by (simp add: hb_def ts_def core32.put_length)
    have "0 < length hb" using putVarint32_le(2) by (simp add: hb_def core32.put_length)
    then have pos: "0 < headerSize nHdr + nData" using hs by simp
    have image: "recordImage qs = hb @ ts @ fs @ replicate nZero 0"
      using ok by (simp add: recordImage_def hb_def ts_def fs_def Let_def)
    obtain rc' p w2 where
      b: "recordBuffer junk w1 limit zMalloc pOut (headerSize nHdr + nData) nZero = Some (rc', p, w2)"
      "rc' = SQLITE_OK \<longrightarrow> headerSize nHdr + nData \<le> length (mem_z p) \<and> mem_own p \<and> mem_szMalloc p = length (mem_z p) \<and>
         headerSize nHdr + nData + nZero \<le> max limit (mem_szMalloc pOut)"
      "rc' \<noteq> SQLITE_OK \<longrightarrow> rc' = SQLITE_NOMEM \<and> False \<in> set w1 \<or> rc' = SQLITE_TOOBIG \<and> limit < headerSize nHdr + nData + nZero"
      using recordBuffer_spec [OF assms(3) pos, of junk w1 limit nZero] by (elim exE conjE)
    have len: "headerSize nHdr + nData + nZero = length (recordImage qs)"
      using image hs ok by (simp add: fs_def)
    show ?thesis
    proof (cases "rc' = SQLITE_OK")
      case False
      then show ?thesis
        using s b True len ok by (auto simp: makeRecord_def)
    next
      case OK: True
      note b' = b(2) [rule_format, OF OK]
      define e where "e = drop (headerSize nHdr + nData) (mem_z p)"
      have fs: "length fs = nData" using ok by (simp add: fs_def)
      obtain x y d where z: "mem_z p = x @ y @ d @ e" "length x = length hb" "length y = length ts" "length d = length fs"
      proof (rule that)
        let ?z = "mem_z p"
        show "?z = take (length hb) ?z @ take (length ts) (drop (length hb) ?z) @
            take nData (drop (headerSize nHdr) ?z) @ e"
          unfolding e_def using b' hs
          by (metis append_take_drop_id drop_drop add.commute)
      qed (use b' hs fs in auto)
      have store: "store (mem_z p) 0 hb = Some (hb @ y @ d @ e)"
        using store_middle [of x hb "[]" "y @ d @ e"] z by simp
      have wrote: "writeFields (hb @ y @ d @ e) (length hb) (headerSize nHdr) qs =
          Some (hb @ ts @ fs @ e, headerSize nHdr, headerSize nHdr + nData)"
        using writeFields_spec [of qs "map recordValue ps" y d hb "[]" e] ok z hs fs by (simp add: ts_def fs_def)
      define q where "q = (if nZero \<noteq> 0
         then p\<lparr>mem_n := headerSize nHdr + nData, mem_flags := MEM_Blob OR MEM_Zero, mem_nZero := nZero\<rparr>
         else p\<lparr>mem_n := headerSize nHdr + nData, mem_flags := MEM_Blob\<rparr>)\<lparr>mem_z := hb @ ts @ fs @ e\<rparr>"
      have "makeRecord junk w limit file_format ps zMalloc pOut = Some (SQLITE_OK, qs, q, w2)"
        using s True b(1) OK store wrote
        by (auto simp: makeRecord_def q_def hb_def core32.put_length case_prod_beta Let_def)
      moreover have "memBlob q = recordImage qs"
        using hs fs image by (auto simp: q_def memBlob_def memText_def MEM_defs)
      moreover have "mem_wf q"
        using b' z hs fs by (auto simp: q_def mem_wf_def MEM_defs)
      ultimately show ?thesis
        using ok b' len by simp
    qed
  qed
qed

section \<open>Unpacking\<close>

lemma u32_of_nat [simp]: "a < 2 ^ 32 \<Longrightarrow> unat (word_of_nat a :: u32) = a"
  by (simp add: unat_of_nat)

lemma u32_less: "a < 2 ^ 32 \<Longrightarrow> b < 2 ^ 32 \<Longrightarrow> (word_of_nat a :: u32) < word_of_nat b \<longleftrightarrow> a < b"
  "a < 2 ^ 32 \<Longrightarrow> b < 2 ^ 32 \<Longrightarrow> (word_of_nat a :: u32) \<le> word_of_nat b \<longleftrightarrow> a \<le> b"
  by (simp_all add: word_less_nat_alt word_le_nat_alt)

text \<open>A cell that unpacking has filled: its text or blob lies in the first \<open>nKey\<close> bytes of the record.\<close>

definition unpacked :: "nat \<Rightarrow> u8 list \<Rightarrow> cell \<Rightarrow> bool" where
  "unpacked nKey aKey c \<longleftrightarrow>
     cell_flags c = MEM_Null \<or> cell_flags c = MEM_Null OR MEM_Zero \<or> cell_flags c = MEM_Int \<or>
     cell_flags c = MEM_Real \<and> \<not> IsNaN (cell_u c) \<or>
     (cell_flags c = MEM_Blob OR MEM_Ephem \<or> cell_flags c = MEM_Str OR MEM_Ephem) \<and> \<not> mem_own (cell_mem c) \<and>
       (\<exists>d. mem_z (cell_mem c) = drop d aKey \<and> d + mem_n (cell_mem c) \<le> nKey)"

lemma rd_some: "i < length p \<Longrightarrow> rd p i = Some (p ! i)"
  by (simp add: rd_def)

lemma less_12: "n < 12 \<Longrightarrow> n \<in> {0, 1, 2, 3, 4, 5, 6, 7, 8, 9, 10, 11}" for n :: nat
  unfolding insert_iff empty_iff by presburger

lemma small_serial_types:
  assumes "t < (12 :: u32)"
  shows "t = 0 \<or> t = 1 \<or> t = 2 \<or> t = 3 \<or> t = 4 \<or> t = 5 \<or> t = 6 \<or> t = 7 \<or> t = 8 \<or> t = 9 \<or> t = 10 \<or> t = 11"
proof -
  have "unat t < 12" using assms by (simp add: word_less_nat_alt)
  then have "unat t \<in> {0, 1, 2, 3, 4, 5, 6, 7, 8, 9, 10, 11}" using less_12 by blast
  then show ?thesis by (simp add: word_unat_eq_iff)
qed

lemma unpacked_number:
  "unpacked nKey buf (setInt x pMem)" "unpacked nKey buf (setFlags MEM_Null pMem)"
  "unpacked nKey buf (setFlags (if IsNaN x then MEM_Null else MEM_Real) (pMem\<lparr>cell_u := x\<rparr>))"
  by (simp_all add: unpacked_def setInt_def)

lemma unpacked_noChange:
  "unpacked nKey buf (pMem\<lparr>cell_mem := (cell_mem pMem)\<lparr>mem_flags := MEM_Null OR MEM_Zero, mem_n := 0, mem_nZero := 0\<rparr>\<rparr>)"
  by (simp add: unpacked_def)

lemma serialGet_unpacked:
  assumes "sqlite3VdbeSerialGet buf p t pMem = Some (k, c)" "p + unat k \<le> nKey"
  shows "unpacked nKey buf c"
proof (cases "t < 12")
  case True
  from small_serial_types [OF this] assms(1) show ?thesis
    by (elim disjE)
      (auto simp: sqlite3VdbeSerialGet_def serialGet_def Let_def bind_eq_Some_conv unpacked_number unpacked_noChange)
next
  case False
  then have "t \<noteq> 0" "t \<noteq> 1" "t \<noteq> 2" "t \<noteq> 3" "t \<noteq> 4" "t \<noteq> 5" "t \<noteq> 6" "t \<noteq> 7" "t \<noteq> 8" "t \<noteq> 9" "t \<noteq> 10" "t \<noteq> 11" by auto
  then show ?thesis
    using assms by (cases "t AND 1 = 0") (auto simp: sqlite3VdbeSerialGet_def Let_def unpacked_def)
qed

text \<open>The cells that the loop fills, starting with number \<open>u\<close>, hold the values of the fields.\<close>

lemma unpackLoop_record:
  assumes "list_all2 sized qs vs" "u < nField" "nField \<le> length aMem"
    "nKey = length (x @ concat (map typeBytes qs) @ g @ concat (map fieldFull qs))" "nKey < 2 ^ 31"
    "szHdr = length (x @ concat (map typeBytes qs))" "aKey = x @ concat (map typeBytes qs) @ g @ concat (map fieldFull qs) @ pad"
  shows "\<exists>aMem' d. unpackLoop enc nKey aKey nField (word_of_nat szHdr) (word_of_nat (length x))
      (word_of_nat (szHdr + length g)) u aMem = Some (aMem', min nField (u + length qs), d) \<and>
    d \<le> word_of_nat nKey \<and> length aMem' = length aMem \<and> take u aMem' = take u aMem \<and>
    map recordValue (drop u (take (min nField (u + length qs)) aMem')) = take (nField - u) vs \<and>
    (\<forall>i. u \<le> i \<and> i < min nField (u + length qs) \<longrightarrow> unpacked nKey aKey (aMem' ! i))"
  using assms
proof (induction qs vs arbitrary: u aMem x g szHdr rule: list_all2_induct)
  case Nil
  then show ?case
    by (subst unpackLoop.simps) (auto simp: u32_less min_def)
next
  case (Cons q qs v vs)
  let ?t = "typeBytes q"
  let ?ts = "concat (map typeBytes qs)"
  let ?fs = "concat (map fieldFull qs)"
  have t: "0 < length ?t" using putVarint32_le(2) by (simp add: core32.put_length)
  have key: "aKey = x @ ?t @ (?ts @ g @ fieldFull q @ ?fs @ pad)" "aKey = (x @ ?t @ ?ts @ g) @ fieldFull q @ (?fs @ pad)"
    using Cons.prems(6) by simp_all
  have get: "getVarint32 (drop (length x) aKey) = Some (length ?t, cell_uTemp q)"
    using core32.get_put [of "cell_uTemp q" "?ts @ g @ fieldFull q @ ?fs @ pad"] by (simp add: key(1) core32.put_length)
  obtain p where p: "rd aMem u = Some p" using Cons.prems(1, 2) by (simp add: rd_def)
  define p' where "p' = p\<lparr>cell_mem := (cell_mem p)\<lparr>mem_enc := enc, mem_szMalloc := 0, mem_z := []\<rparr>\<rparr>"
  have d: "szHdr + length g = length (x @ ?t @ ?ts @ g)" "szHdr + length g \<le> nKey" "szHdr + length g < 2 ^ 32"
    using Cons.prems(3, 4, 5) by simp_all
  obtain c where c: "sqlite3VdbeSerialGet aKey (szHdr + length g) (cell_uTemp q) p' = Some (word_of_nat (length (fieldFull q)), c)"
    "recordValue c = v"
    using Cons.hyps(1) unfolding sized_def encodes_def key(2) d(1) by blast
  have "unat (word_of_nat (length (fieldFull q)) :: u32) = length (fieldFull q)" using Cons.prems(3, 4) by simp
  then have cell: "unpacked nKey aKey c"
    using serialGet_unpacked [OF c(1)] Cons.prems(3, 5) by simp
  have guard: "(word_of_nat (length x) :: u32) < word_of_nat szHdr" "(word_of_nat (szHdr + length g) :: u32) \<le> word_of_nat nKey"
    using t Cons.prems(3, 4, 5) d by (subst u32_less; simp)+
  have x: "length x < 2 ^ 32" using Cons.prems(3, 4) by simp
  have wr: "wr aMem u c = Some (aMem[u := c])" using Cons.prems(1, 2) by (simp add: wr_def)
  have step: "unpackLoop enc nKey aKey nField (word_of_nat szHdr) (word_of_nat (length x)) (word_of_nat (szHdr + length g)) u aMem =
      (if u + 1 \<ge> nField then Some (aMem[u := c], u + 1, word_of_nat (szHdr + length g) + word_of_nat (length (fieldFull q)))
       else unpackLoop enc nKey aKey nField (word_of_nat szHdr) (word_of_nat (length x) + word_of_nat (length ?t))
         (word_of_nat (szHdr + length g) + word_of_nat (length (fieldFull q))) (u + 1) (aMem[u := c]))"
    by (subst unpackLoop.simps) (simp only: guard get p c wr u32_of_nat [OF x] u32_of_nat [OF d(3)] p'_def [symmetric]
        simp_thms if_True Let_def bind.bind_lunit prod.case)
  have d': "word_of_nat (szHdr + length g) + word_of_nat (length (fieldFull q)) = (word_of_nat (szHdr + length (g @ fieldFull q)) :: u32)"
    "word_of_nat (length x) + word_of_nat (length ?t) = (word_of_nat (length (x @ ?t)) :: u32)"
    by simp_all
  show ?case
  proof (cases "u + 1 \<ge> nField")
    case True
    then have "nField = u + 1" using Cons.prems(1) by simp
    moreover have "(word_of_nat (szHdr + length (g @ fieldFull q)) :: u32) \<le> word_of_nat nKey"
      using Cons.prems(3, 4, 5) by (subst u32_less) simp_all
    moreover have "drop u (take (u + 1) (aMem[u := c])) = [c]"
      using Cons.prems(1, 2) by (simp add: take_Suc_conv_app_nth)
    ultimately show ?thesis
      unfolding step d' using Cons.prems(1, 2) c(2) cell by (auto simp: le_less_Suc_eq)
  next
    case False
    have "\<exists>aMem' d. unpackLoop enc nKey aKey nField (word_of_nat szHdr) (word_of_nat (length (x @ ?t)))
        (word_of_nat (szHdr + length (g @ fieldFull q))) (u + 1) (aMem[u := c]) = Some (aMem', min nField (u + 1 + length qs), d) \<and>
      d \<le> word_of_nat nKey \<and> length aMem' = length (aMem[u := c]) \<and> take (u + 1) aMem' = take (u + 1) (aMem[u := c]) \<and>
      map recordValue (drop (u + 1) (take (min nField (u + 1 + length qs)) aMem')) = take (nField - (u + 1)) vs \<and>
      (\<forall>i. u + 1 \<le> i \<and> i < min nField (u + 1 + length qs) \<longrightarrow> unpacked nKey aKey (aMem' ! i))"
      using False Cons.prems by (intro Cons.IH) simp_all
    then obtain aMem' d where ih: "unpackLoop enc nKey aKey nField (word_of_nat szHdr) (word_of_nat (length (x @ ?t)))
        (word_of_nat (szHdr + length (g @ fieldFull q))) (u + 1) (aMem[u := c]) = Some (aMem', min nField (u + 1 + length qs), d)"
      "d \<le> word_of_nat nKey" "length aMem' = length aMem" "take (u + 1) aMem' = take (u + 1) (aMem[u := c])"
      "map recordValue (drop (u + 1) (take (min nField (u + 1 + length qs)) aMem')) = take (nField - (u + 1)) vs"
      "\<forall>i. u + 1 \<le> i \<and> i < min nField (u + 1 + length qs) \<longrightarrow> unpacked nKey aKey (aMem' ! i)"
      by auto
    let ?m = "min nField (u + 1 + length qs)"
    have m: "u < ?m" "?m \<le> length aMem'" using False Cons.prems(1, 2) ih(3) by simp_all
    have "aMem' ! u = c"
      using ih(4) Cons.prems(1, 2) nth_take [of u "u + 1" aMem'] nth_take [of u "u + 1" "aMem[u := c]"] by simp
    then have "drop u (take ?m aMem') = c # drop (u + 1) (take ?m aMem')"
      using m by (subst Cons_nth_drop_Suc [symmetric]) simp_all
    moreover have "take u aMem' = take u aMem"
      using arg_cong [OF ih(4), of "take u"] by (simp add: min_def)
    moreover have "take (nField - u) (v # vs) = v # take (nField - (u + 1)) vs"
      using Cons.prems(1) by (simp add: take_Cons')
    moreover have "\<forall>i. u \<le> i \<and> i < ?m \<longrightarrow> unpacked nKey aKey (aMem' ! i)"
      using ih(6) cell \<open>aMem' ! u = c\<close> by (metis Suc_eq_plus1 Suc_leI le_neq_implies_less)
    ultimately show ?thesis
      unfolding step d' using False ih c(2) by simp
  qed
qed

section \<open>Unpacking arbitrary bytes\<close>

lemma serialGet_safe:
  assumes "p + 8 \<le> length buf"
  shows "\<exists>k c. sqlite3VdbeSerialGet buf p t pMem = Some (k, c) \<and> unat k < 2 ^ 31 \<and>
    (\<forall>nKey. p + unat k \<le> nKey \<longrightarrow> unpacked nKey buf c)"
proof (cases "t < 12")
  case True
  from small_serial_types [OF this] show ?thesis
    using assms
    by (elim disjE)
      (simp_all add: sqlite3VdbeSerialGet_def serialGet_def Let_def rd_some unpacked_def setInt_def)
next
  case False
  have n: "unat ((t - 12) div 2) < 2 ^ 31"
    using unsigned_less [of "t - 12", where ?'a = nat] by (simp add: unat_div)
  have "t \<noteq> 0" "t \<noteq> 1" "t \<noteq> 2" "t \<noteq> 3" "t \<noteq> 4" "t \<noteq> 5" "t \<noteq> 6" "t \<noteq> 7" "t \<noteq> 8" "t \<noteq> 9" "t \<noteq> 10" "t \<noteq> 11"
    using False by auto
  then show ?thesis
    using n by (auto simp: sqlite3VdbeSerialGet_def Let_def unpacked_def)
qed

text \<open>The lengths that the table and \<^verbatim>\<open>sqlite3VdbeSerialTypeLen\<close> give are the numbers of bytes that the reader
  consumes.\<close>

lemma typeSizes_blob: "12 \<le> n \<Longrightarrow> n < 128 \<Longrightarrow> sqlite3SmallTypeSizes ! n = (n - 12) div 2"
proof -
  have "list_all (\<lambda>n. sqlite3SmallTypeSizes ! n = (n - 12) div 2) [12..<128]"
    by code_simp
  then show "12 \<le> n \<Longrightarrow> n < 128 \<Longrightarrow> sqlite3SmallTypeSizes ! n = (n - 12) div 2"
    by (simp only: list_all_iff set_upt) simp
qed

lemma serialTypeLen_get:
  assumes "sqlite3VdbeSerialGet buf p t pMem = Some (k, c)"
  shows "sqlite3VdbeSerialTypeLen t = Some (unat k)"
proof (cases "t < 12")
  case True
  from small_serial_types [OF this] show ?thesis
    using assms
    by (elim disjE)
      (auto simp: sqlite3VdbeSerialGet_def serialGet_def sqlite3VdbeSerialTypeLen_def Let_def rd_some
        sqlite3SmallTypeSizes_def bind_eq_Some_conv word_le_nat_alt split: if_splits)
next
  case False
  then have t: "12 \<le> unat t" by (simp add: word_less_nat_alt)
  have "t \<noteq> 0" "t \<noteq> 1" "t \<noteq> 2" "t \<noteq> 3" "t \<noteq> 4" "t \<noteq> 5" "t \<noteq> 6" "t \<noteq> 7" "t \<noteq> 8" "t \<noteq> 9" "t \<noteq> 10" "t \<noteq> 11"
    using False by auto
  then have k: "k = (t - 12) div 2"
    using assms by (simp add: sqlite3VdbeSerialGet_def Let_def)
  show ?thesis
    using t k typeSizes_blob [of "unat t"]
    by (auto simp: sqlite3VdbeSerialTypeLen_def rd_some word_le_nat_alt unat_div unat_sub)
qed

lemma varint_ref_safe: "k \<le> 8 \<Longrightarrow> 9 \<le> k + length p \<Longrightarrow> \<exists>n v. varint_ref k acc p = Some (n, v) \<and> n \<le> 9"
proof (induction k acc p rule: varint_ref.induct)
  case (2 k acc b bs)
  then show ?case by (cases "k = 8") auto
qed simp

lemma getVarint32_safe: "9 \<le> length p \<Longrightarrow> \<exists>n v. getVarint32 p = Some (n, v) \<and> n \<le> 9"
  using varint_ref_safe [of 0 p 0] by (auto simp: getVarint32_core getVarint_ref)

lemma unpackLoop_safe:
  assumes "nKey < 2 ^ 31" "9 \<le> length aKey" "nKey + 8 \<le> length aKey" "u < nField" "nField \<le> length aMem" "szHdr \<le> d"
  shows "\<exists>aMem' u' d'. unpackLoop enc nKey aKey nField szHdr idx d u aMem = Some (aMem', u', d') \<and>
    u \<le> u' \<and> u' \<le> nField \<and> length aMem' = length aMem \<and> (\<forall>i. i < u \<or> u' \<le> i \<longrightarrow> aMem' ! i = aMem ! i) \<and>
    (\<forall>i. u \<le> i \<and> i < (if d' \<le> word_of_nat nKey then u' else u' - 1) \<longrightarrow> unpacked nKey aKey (aMem' ! i))"
  using assms
proof (induction enc nKey aKey nField szHdr idx d u aMem rule: unpackLoop.induct)
  case (1 enc nKey aKey nField szHdr idx d u aMem)
  show ?case
  proof (cases "idx < szHdr \<and> d \<le> word_of_nat nKey")
    case False
    then show ?thesis
      using "1.prems"(4) by (subst unpackLoop.simps) auto
  next
    case guard: True
    have d: "unat d \<le> nKey" "unat idx < unat szHdr" "unat szHdr \<le> unat d"
      using guard "1.prems"(1, 6) by (simp_all add: word_le_nat_alt word_less_nat_alt)
    then have "9 \<le> length (drop (unat idx) aKey)" using "1.prems"(3) by simp
    from getVarint32_safe [OF this] obtain n t where get: "getVarint32 (drop (unat idx) aKey) = Some (n, t)" by blast
    obtain p where p: "rd aMem u = Some p" using "1.prems"(4, 5) by (simp add: rd_def)
    define p' where "p' = p\<lparr>cell_mem := (cell_mem p)\<lparr>mem_enc := enc, mem_szMalloc := 0, mem_z := []\<rparr>\<rparr>"
    have "unat d + 8 \<le> length aKey" using d "1.prems"(3) by simp
    from serialGet_safe [OF this, of t p'] obtain k c where
      c: "sqlite3VdbeSerialGet aKey (unat d) t p' = Some (k, c)" "unat k < 2 ^ 31" "unat d + unat k \<le> nKey \<longrightarrow> unpacked nKey aKey c"
      by blast
    have dk: "unat (d + k) = unat d + unat k"
      using d c(2) "1.prems"(1) by (intro unat_add_lem [THEN iffD1]) simp
    have wr: "wr aMem u c = Some (aMem[u := c])" using "1.prems"(4, 5) by (simp add: wr_def)
    have step: "unpackLoop enc nKey aKey nField szHdr idx d u aMem =
        (if u + 1 \<ge> nField then Some (aMem[u := c], u + 1, d + k)
         else unpackLoop enc nKey aKey nField szHdr (idx + word_of_nat n) (d + k) (u + 1) (aMem[u := c]))"
      by (subst unpackLoop.simps) (simp only: guard get p c wr p'_def [symmetric] simp_thms if_True Let_def bind.bind_lunit prod.case)
    have fits: "d + k \<le> word_of_nat nKey \<longleftrightarrow> unat d + unat k \<le> nKey"
      using "1.prems"(1) by (simp add: word_le_nat_alt dk)
    show ?thesis
    proof (cases "u + 1 \<ge> nField")
      case True
      then show ?thesis
        unfolding step using "1.prems"(4, 5) c(3) fits by (auto simp: less_Suc_eq)
    next
      case more: False
      show ?thesis
      proof (cases "d + k \<le> word_of_nat nKey")
        case False
        then show ?thesis
          unfolding step using "1.prems"(4, 5) more by (subst unpackLoop.simps) auto
      next
        case True
      have "szHdr \<le> d + k" using d by (simp add: word_le_nat_alt dk)
      then have "\<exists>aMem' u' d'. unpackLoop enc nKey aKey nField szHdr (idx + word_of_nat n) (d + k) (u + 1) (aMem[u := c]) = Some (aMem', u', d') \<and>
        u + 1 \<le> u' \<and> u' \<le> nField \<and> length aMem' = length (aMem[u := c]) \<and>
        (\<forall>i. i < u + 1 \<or> u' \<le> i \<longrightarrow> aMem' ! i = aMem[u := c] ! i) \<and>
        (\<forall>i. u + 1 \<le> i \<and> i < (if d' \<le> word_of_nat nKey then u' else u' - 1) \<longrightarrow> unpacked nKey aKey (aMem' ! i))"
        using more "1.prems" by (intro "1.IH" [OF guard get refl p refl c(1) [unfolded p'_def] refl wr]) simp_all
      then obtain aMem' u' d' where
        ih: "unpackLoop enc nKey aKey nField szHdr (idx + word_of_nat n) (d + k) (u + 1) (aMem[u := c]) = Some (aMem', u', d')"
        "u + 1 \<le> u'" "u' \<le> nField" "length aMem' = length aMem" "\<forall>i. i < u + 1 \<or> u' \<le> i \<longrightarrow> aMem' ! i = aMem[u := c] ! i"
        "\<forall>i. u + 1 \<le> i \<and> i < (if d' \<le> word_of_nat nKey then u' else u' - 1) \<longrightarrow> unpacked nKey aKey (aMem' ! i)"
        by auto
      have "unpacked nKey aKey (aMem' ! u)"
        using ih(5) c(3) True fits "1.prems"(4, 5) by simp
      then have "\<forall>i. u \<le> i \<and> i < (if d' \<le> word_of_nat nKey then u' else u' - 1) \<longrightarrow> unpacked nKey aKey (aMem' ! i)"
        using ih(6) by (metis Suc_eq_plus1 le_antisym not_less_eq_eq)
      moreover have "\<forall>i. i < u \<or> u' \<le> i \<longrightarrow> aMem' ! i = aMem ! i"
        using ih(2, 5) by auto
      ultimately show ?thesis
        unfolding step using more ih(1-4) by auto
      qed
    qed
  qed
qed

section \<open>Properties\<close>

text \<open>The header and the body of a record.\<close>

lemma image_parts:
  assumes "length qs \<le> 32767"
  obtains x where "recordImage qs = x @ concat (map typeBytes qs) @ concat (map fieldFull qs)"
    "\<forall>pad. getVarint32 (recordImage qs @ pad) = Some (length x, word_of_nat (length (x @ concat (map typeBytes qs))))"
    "x = snd (putVarint32 (word_of_nat (length (x @ concat (map typeBytes qs)))))"
proof -
  let ?ts = "concat (map typeBytes qs)" and ?fs = "concat (map fieldFull qs)"
  define x where "x = snd (putVarint32 (word_of_nat (headerSize (length ?ts))))"
  have "length ?ts < 2 ^ 28" using typeBytes_length [of qs] assms by simp
  from headerSize_spec(1) [OF this] have h: "headerSize (length ?ts) = length (x @ ?ts)"
    by (simp add: x_def core32.put_length)
  show thesis
  proof (rule that)
    show image: "recordImage qs = x @ ?ts @ ?fs" by (simp add: recordImage_def Let_def x_def)
    show "x = snd (putVarint32 (word_of_nat (length (x @ ?ts))))" by (subst h [symmetric]) (rule x_def)
    then show "\<forall>pad. getVarint32 (recordImage qs @ pad) = Some (length x, word_of_nat (length (x @ ?ts)))"
      using core32.get_put [of "word_of_nat (length (x @ ?ts))"] core32.put_length [of "word_of_nat (length (x @ ?ts))"] image
      by (metis append.assoc)
  qed
qed

lemma unpack_image:
  assumes "list_all2 sized qs vs" "length qs \<le> 32767" "length (recordImage qs) < 2 ^ 31" "0 < nField" "nField \<le> length aMem"
  shows "\<exists>aMem'. sqlite3VdbeRecordUnpack enc (length (recordImage qs)) (recordImage qs @ pad) nField aMem =
      Some (aMem', min nField (length qs)) \<and> map recordValue (take (min nField (length qs)) aMem') = take nField vs \<and>
    length aMem' = length aMem \<and> list_all (unpacked (length (recordImage qs)) (recordImage qs @ pad)) (take (min nField (length qs)) aMem')"
proof -
  let ?ts = "concat (map typeBytes qs)" and ?fs = "concat (map fieldFull qs)"
  obtain x where x: "recordImage qs = x @ ?ts @ ?fs" "\<forall>pad. getVarint32 (recordImage qs @ pad) = Some (length x, word_of_nat (length (x @ ?ts)))"
    by (rule image_parts [OF assms(2)])
  obtain aMem' d where "unpackLoop enc (length (recordImage qs)) (recordImage qs @ pad) nField (word_of_nat (length (x @ ?ts)))
      (word_of_nat (length x)) (word_of_nat (length (x @ ?ts))) 0 aMem = Some (aMem', min nField (length qs), d)"
    "d \<le> word_of_nat (length (recordImage qs))" "map recordValue (take (min nField (length qs)) aMem') = take nField vs"
    "length aMem' = length aMem" "\<forall>i. i < min nField (length qs) \<longrightarrow> unpacked (length (recordImage qs)) (recordImage qs @ pad) (aMem' ! i)"
    using unpackLoop_record [OF assms(1) assms(4, 5), of "length (recordImage qs)" x "[]" "length (x @ ?ts)" "recordImage qs @ pad" pad enc]
      assms(3) x(1) by auto
  then show ?thesis
    using x(2) by (auto simp: sqlite3VdbeRecordUnpack_def list_all_length)
qed

text \<open>C9: A record that \<^verbatim>\<open>OP_MakeRecord\<close> builds is read back by \<^verbatim>\<open>sqlite3VdbeRecordUnpack\<close>: for any
  registers (NULLs, integers of every width, reals, strings, blobs with or without a zero-filled
  tail), any file format, any pattern of allocation failures and any old content of the output
  register, the opcode stays inside its buffers and ends. When it succeeds, unpacking its output
  (with the zeros of its tail, whatever bytes follow) gives the values of the registers in order, as
  many as the caller has room for. It fails only with \<^verbatim>\<open>SQLITE_NOMEM\<close> after an allocation failed, or
  with \<^verbatim>\<open>SQLITE_TOOBIG\<close> when the record is longer than the limit.\<close>

theorem record_roundtrip:
  assumes "\<forall>p \<in> set ps. cell_wf p" "length ps \<le> 32767" "out_wf zMalloc pOut" "limit < 2 ^ 31" "mem_szMalloc pOut < 2 ^ 31"
    and "0 < nField" "nField \<le> length aMem"
  shows "\<exists>rc qs q w'. makeRecord junk w limit file_format ps zMalloc pOut = Some (rc, qs, q, w') \<and>
    (rc = SQLITE_OK \<longrightarrow> mem_wf q \<and> length (memBlob q) \<le> max limit (mem_szMalloc pOut) \<and>
       (\<exists>aMem'. sqlite3VdbeRecordUnpack enc (length (memBlob q)) (memBlob q @ pad) nField aMem =
            Some (aMem', min nField (length ps)) \<and>
          map recordValue (take (min nField (length ps)) aMem') = take nField (map recordValue ps))) \<and>
    (rc \<noteq> SQLITE_OK \<longrightarrow> rc = SQLITE_NOMEM \<and> False \<in> set w \<or> rc = SQLITE_TOOBIG \<and> limit < length (recordImage qs))"
proof -
  obtain rc qs q w' where m: "makeRecord junk w limit file_format ps zMalloc pOut = Some (rc, qs, q, w')"
    "rc = SQLITE_OK \<longrightarrow> mem_wf q \<and> memBlob q = recordImage qs \<and> list_all2 sized qs (map recordValue ps) \<and>
       length (recordImage qs) \<le> max limit (mem_szMalloc pOut)"
    "rc \<noteq> SQLITE_OK \<longrightarrow> rc = SQLITE_NOMEM \<and> False \<in> set w \<or>
       rc = SQLITE_TOOBIG \<and> list_all2 sized qs (map recordValue ps) \<and> limit < length (recordImage qs)"
    using makeRecord_spec [OF assms(1-3), of junk w limit file_format] by (elim exE conjE)
  show ?thesis
  proof (cases "rc = SQLITE_OK")
    case True
    with m have "list_all2 sized qs (map recordValue ps)" "length (recordImage qs) < 2 ^ 31"
      using assms(4, 5) by auto
    moreover from this have "length qs = length ps" using list_all2_lengthD by fastforce
    ultimately show ?thesis
      using unpack_image [of qs "map recordValue ps" nField aMem enc pad] assms(2, 6, 7) m True by auto
  qed (use m in auto)
qed

definition sampleCell :: "u16 \<Rightarrow> u64 \<Rightarrow> u8 list \<Rightarrow> nat \<Rightarrow> cell" where
  "sampleCell f u z nZero =
     \<lparr>cell_mem = \<lparr>mem_nZero = nZero, mem_flags = f, mem_enc = SQLITE_UTF8, mem_n = length z, mem_z = z, mem_own = False,
        mem_szMalloc = 0\<rparr>, cell_u = u, cell_uTemp = 0\<rparr>"

definition sampleRow :: "cell list" where
  "sampleRow = [sampleCell MEM_Int (- 300) [] 0, sampleCell MEM_Str 0 [0x68, 0x69] 0, sampleCell MEM_Null 0 [] 0,
     sampleCell (MEM_Blob OR MEM_Zero) 0 [7] 2]"

definition sampleOut :: mem where
  "sampleOut = cell_mem (sampleCell MEM_Null 0 [] 0)"

theorem record_roundtrip_witness:
  "list_all cell_wf sampleRow \<and> out_wf [] sampleOut \<and>
   (\<exists>rc qs q w' aMem'. makeRecord (\<lambda>_. 9) [True] 1000 4 sampleRow [] sampleOut = Some (rc, qs, q, w') \<and>
      rc = SQLITE_OK \<and> memBlob q = [5, 2, 17, 0, 18, 0xfe, 0xd4, 0x68, 0x69, 7, 0, 0] \<and>
      sqlite3VdbeRecordUnpack SQLITE_UTF8 (length (memBlob q)) (memBlob q @ []) 9 (replicate 9 (sampleCell 0 0 [] 0)) =
        Some (aMem', 4) \<and>
      map recordValue (take 4 aMem') = [SqlInt (- 300), SqlText [0x68, 0x69], SqlNull, SqlBlob [7, 0, 0]])"
proof -
  have wf: "\<forall>p \<in> set sampleRow. cell_wf p"
    by (simp add: sampleRow_def sampleCell_def cell_wf_def mem_wf_def MEM_defs)
  have out: "out_wf [] sampleOut"
    by (simp add: sampleOut_def sampleCell_def out_wf_def)
  have v: "map recordValue sampleRow = [SqlInt (- 300), SqlText [0x68, 0x69], SqlNull, SqlBlob [7, 0, 0]]"
    by code_simp
  have "map_option (\<lambda>(rc, qs, q, w'). (rc, memBlob q)) (makeRecord (\<lambda>_. 9) [True] 1000 4 sampleRow [] sampleOut) =
      Some (SQLITE_OK, [5, 2, 17, 0, 18, 0xfe, 0xd4, 0x68, 0x69, 7, 0, 0])"
    by code_simp
  moreover have "length sampleRow = 4" by (simp add: sampleRow_def)
  ultimately show ?thesis
    using record_roundtrip [OF wf _ out, of 1000 9 "replicate 9 (sampleCell 0 0 [] 0)" "\<lambda>_. 9" "[True]" 4 SQLITE_UTF8 "[]"] wf out v
    by (auto simp: sampleOut_def sampleCell_def list_all_iff)
qed

text \<open>C10: Unpacking an arbitrary byte string, as a corrupt database file can hold, never reads more than
  eight bytes past a non-empty key (its callers keep seventeen bytes of padding there), ends, fills
  at most the cells that the caller offers and leaves the others alone; every text or blob it
  returns lies inside the key, and a cell whose bytes would not is NULL. The length that
  \<^verbatim>\<open>sqlite3VdbeSerialTypeLen\<close> gives for a serial type is the number of bytes read for it.\<close>

theorem record_unpack_safe:
  assumes "nKey < 2 ^ 31" "9 \<le> length aKey" "nKey + 8 \<le> length aKey" "0 < nField" "nField \<le> length aMem"
  shows "\<exists>aMem' u. sqlite3VdbeRecordUnpack enc nKey aKey nField aMem = Some (aMem', u) \<and> u \<le> nField \<and>
    length aMem' = length aMem \<and> drop u aMem' = drop u aMem \<and> (\<forall>c \<in> set (take u aMem'). unpacked nKey aKey c) \<and>
    (\<forall>p t c. p \<le> nKey \<longrightarrow>
       (\<exists>k c'. sqlite3VdbeSerialGet aKey p t c = Some (k, c') \<and> sqlite3VdbeSerialTypeLen t = Some (unat k)))"
proof -
  have len: "\<forall>p t c. p \<le> nKey \<longrightarrow>
      (\<exists>k c'. sqlite3VdbeSerialGet aKey p t c = Some (k, c') \<and> sqlite3VdbeSerialTypeLen t = Some (unat k))"
  proof (intro allI impI)
    fix p t c assume "p \<le> nKey"
    then have "p + 8 \<le> length aKey" using assms(3) by simp
    from serialGet_safe [OF this, of t c] obtain k c' where "sqlite3VdbeSerialGet aKey p t c = Some (k, c')" by blast
    then show "\<exists>k c'. sqlite3VdbeSerialGet aKey p t c = Some (k, c') \<and> sqlite3VdbeSerialTypeLen t = Some (unat k)"
      using serialTypeLen_get by blast
  qed
  obtain n szHdr where g: "getVarint32 aKey = Some (n, szHdr)"
    using getVarint32_safe [OF assms(2)] by blast
  obtain aMem1 u d where l: "unpackLoop enc nKey aKey nField szHdr (word_of_nat n) szHdr 0 aMem = Some (aMem1, u, d)"
    "u \<le> nField" "length aMem1 = length aMem" "\<forall>i. u \<le> i \<longrightarrow> aMem1 ! i = aMem ! i"
    "\<forall>i. i < (if d \<le> word_of_nat nKey then u else u - 1) \<longrightarrow> unpacked nKey aKey (aMem1 ! i)"
    using unpackLoop_safe [OF assms order_refl, of enc szHdr "word_of_nat n"] by auto
  have rest: "drop u xs = drop u aMem" if "length xs = length aMem" "\<forall>i. u \<le> i \<longrightarrow> xs ! i = aMem ! i" for xs
    using that by (intro nth_equalityI) auto
  show ?thesis
  proof (cases "d > word_of_nat nKey \<and> u \<noteq> 0")
    case False
    then have "\<forall>i < u. unpacked nKey aKey (aMem1 ! i)" using l(5) by (auto simp: not_less)
    then show ?thesis
      using g l False rest [of aMem1] assms(5) len by (auto simp: sqlite3VdbeRecordUnpack_def in_set_conv_nth)
  next
    case True
    define c where "c = (aMem1 ! (u - 1))\<lparr>cell_mem := sqlite3VdbeMemSetNull (cell_mem (aMem1 ! (u - 1)))\<rparr>"
    have "unpacked nKey aKey c" by (simp add: c_def unpacked_def sqlite3VdbeMemSetNull_def)
    then have "\<forall>i < u. unpacked nKey aKey (aMem1[u - 1 := c] ! i)"
      using l True assms(5) by (auto simp: nth_list_update not_le)
    moreover have "u - 1 < length aMem1" using l(2, 3) True assms(5) by linarith
    then have "sqlite3VdbeRecordUnpack enc nKey aKey nField aMem = Some (aMem1[u - 1 := c], u)"
      using g l True assms(5) by (simp add: sqlite3VdbeRecordUnpack_def rd_some wr_def c_def)
    ultimately show ?thesis
      using l True rest [of "aMem1[u - 1 := c]"] assms(5) len by (auto simp: in_set_conv_nth)
  qed
qed

theorem record_unpack_safe_witness:
  "\<exists>aMem' u. sqlite3VdbeRecordUnpack SQLITE_UTF8 4 ([3, 1, 0x30, 5] @ replicate 8 0) 2 (replicate 2 (sampleCell 0 0 [] 0)) =
      Some (aMem', u) \<and> u = 2 \<and> map cell_flags aMem' = [MEM_Int, MEM_Null]"
proof -
  have "map_option (\<lambda>(aMem', u). (map cell_flags aMem', u))
      (sqlite3VdbeRecordUnpack SQLITE_UTF8 4 ([3, 1, 0x30, 5] @ replicate 8 0) 2 (replicate 2 (sampleCell 0 0 [] 0))) =
      Some ([MEM_Int, MEM_Null], 2)"
    by code_simp
  then show ?thesis
    using record_unpack_safe [of 4 "[3, 1, 0x30, 5] @ replicate 8 0" 2 "replicate 2 (sampleCell 0 0 [] 0)" SQLITE_UTF8]
    by auto
qed

end
