(* ===== verification/MemCompare.thy ===== *)
theory MemCompare
  imports Strings Utf RecordFormat
begin

text \<open>
  The order of SQL values (\<^verbatim>\<open>vdbeaux.c\<close>, the built-in collations of \<^verbatim>\<open>main.c\<close> and the text accessors of
  \<^verbatim>\<open>vdbemem.c\<close> that they use): integers against doubles, strings under a collating sequence, blobs, and
  \<^verbatim>\<open>sqlite3MemCompare\<close>.

  A double is its 64 bits, as in theory \<open>RecordFormat\<close>. A finite double is an integer multiple of
  \<open>2 ^ - 1074\<close>; \<open>dblScaled\<close> is that integer (infinities come out larger than every finite number), so
  that the comparisons of C on doubles, and of an integer with a double, are exact comparisons of
  integers. A collating function gets lengths and pointers, as in C, and a user-defined one is a
  parameter.
\<close>

section \<open>Comparing numbers\<close>

definition dblScaled :: "u64 \<Rightarrow> int" where
  "dblScaled r =
     (let mag = unat (take_bit 63 r);
          e = mag div 2 ^ 52;
          m = mag mod 2 ^ 52;
          s = (if e = 0 then m else (m + 2 ^ 52) * 2 ^ (e - 1))
      in if bit r 63 then - int s else int s)"

text \<open>The operator \<^verbatim>\<open><\<close> of C on doubles, and the conversion \<^verbatim>\<open>(i64)r\<close>, which truncates.\<close>

definition dblLess :: "u64 \<Rightarrow> u64 \<Rightarrow> bool" where
  "dblLess a b \<longleftrightarrow> \<not> IsNaN a \<and> \<not> IsNaN b \<and> dblScaled a < dblScaled b"

definition dblTrunc :: "u64 \<Rightarrow> int" where
  "dblTrunc r = (if dblScaled r < 0 then - ((- dblScaled r) div 2 ^ 1074) else dblScaled r div 2 ^ 1074)"

text \<open>\<open>wide\<close> says that \<^verbatim>\<open>long double\<close> has more than 8 bytes; it then holds every 64-bit integer exactly.
  The constants are the doubles \<^verbatim>\<open>-9223372036854775808.0\<close> and \<^verbatim>\<open>9223372036854775808.0\<close>.\<close>

definition sqlite3IntFloatCompare :: "bool \<Rightarrow> u64 \<Rightarrow> u64 \<Rightarrow> int" where
  "sqlite3IntFloatCompare wide i r =
     (if wide then
        (let x = sint i * 2 ^ 1074
         in if \<not> IsNaN r \<and> x < dblScaled r then - 1
            else if \<not> IsNaN r \<and> x > dblScaled r then 1
            else 0)
      else if dblLess r 0xC3E0000000000000 then 1
      else if \<not> IsNaN r \<and> \<not> dblLess r 0x43E0000000000000 then - 1
      else
        (let y = (word_of_int (dblTrunc r) :: u64)
         in if i <s y then - 1
            else if y <s i then 1
            else
              (let s = doubleOfI64 i
               in if dblLess s r then - 1 else if dblLess r s then 1 else 0)))"

section \<open>Comparing bytes\<close>

text \<open>\<^verbatim>\<open>memcmp\<close> of the standard library: only the sign of its result is specified, and only the sign is
  used in the theorems. Here it is the difference of the first bytes that differ.\<close>

fun memcmpLoop :: "u8 list \<Rightarrow> u8 list \<Rightarrow> int" where
  "memcmpLoop (x # xs) (y # ys) = (if x = y then memcmpLoop xs ys else int (unat x) - int (unat y))"
| "memcmpLoop _ _ = 0"

definition memcmp :: "u8 list \<Rightarrow> u8 list \<Rightarrow> nat \<Rightarrow> int option" where
  "memcmp a b n = (if n \<le> length a \<and> n \<le> length b then Some (memcmpLoop (take n a) (take n b)) else None)"

text \<open>The built-in collating functions.\<close>

definition binCollFunc :: "nat \<Rightarrow> u8 list \<Rightarrow> nat \<Rightarrow> u8 list \<Rightarrow> int option" where
  "binCollFunc nKey1 pKey1 nKey2 pKey2 =
     do {
       rc \<leftarrow> memcmp pKey1 pKey2 (if nKey1 < nKey2 then nKey1 else nKey2);
       Some (if rc = 0 then int nKey1 - int nKey2 else rc)
     }"

fun rtrimLen :: "u8 list \<Rightarrow> nat \<Rightarrow> nat option" where
  "rtrimLen pK 0 = Some 0"
| "rtrimLen pK (Suc n) =
     do {
       c \<leftarrow> rd pK n;
       if c = 0x20 then rtrimLen pK n else Some (Suc n)
     }"

definition rtrimCollFunc :: "nat \<Rightarrow> u8 list \<Rightarrow> nat \<Rightarrow> u8 list \<Rightarrow> int option" where
  "rtrimCollFunc nKey1 pKey1 nKey2 pKey2 =
     do {
       nKey1 \<leftarrow> rtrimLen pKey1 nKey1;
       nKey2 \<leftarrow> rtrimLen pKey2 nKey2;
       binCollFunc nKey1 pKey1 nKey2 pKey2
     }"

definition nocaseCollatingFunc :: "nat \<Rightarrow> u8 list \<Rightarrow> nat \<Rightarrow> u8 list \<Rightarrow> int option" where
  "nocaseCollatingFunc nKey1 pKey1 nKey2 pKey2 =
     do {
       r \<leftarrow> sqlite3_strnicmp (Some pKey1) (Some pKey2) (int (if nKey1 < nKey2 then nKey1 else nKey2));
       Some (if r = 0 then int nKey1 - int nKey2 else r)
     }"

text \<open>\<^verbatim>\<open>struct CollSeq\<close>: the encoding that the function handles, and the function.\<close>

record collseq =
  coll_enc :: enc
  coll_xCmp :: "nat \<Rightarrow> u8 list \<Rightarrow> nat \<Rightarrow> u8 list \<Rightarrow> int option"

fun isAllZero :: "u8 list \<Rightarrow> nat \<Rightarrow> bool option" where
  "isAllZero z 0 = Some True"
| "isAllZero (c # z) (Suc n) = (if c \<noteq> 0 then Some False else isAllZero z n)"
| "isAllZero [] (Suc n) = None"

definition sqlite3BlobCompare :: "mem \<Rightarrow> mem \<Rightarrow> int option" where
  "sqlite3BlobCompare pB1 pB2 =
     (let n1 = mem_n pB1; n2 = mem_n pB2
      in if (mem_flags pB1 OR mem_flags pB2) AND MEM_Zero \<noteq> 0 then
           (if (mem_flags pB1 AND mem_flags pB2) AND MEM_Zero \<noteq> 0 then Some (int (mem_nZero pB1) - int (mem_nZero pB2))
            else if mem_flags pB1 AND MEM_Zero \<noteq> 0 then
              do {
                z \<leftarrow> isAllZero (mem_z pB2) (mem_n pB2);
                Some (if \<not> z then - 1 else int (mem_nZero pB1) - int n2)
              }
            else
              do {
                z \<leftarrow> isAllZero (mem_z pB1) (mem_n pB1);
                Some (if \<not> z then 1 else int n1 - int (mem_nZero pB2))
              })
         else
           do {
             c \<leftarrow> memcmp (mem_z pB1) (mem_z pB2) (if n1 > n2 then n2 else n1);
             Some (if c \<noteq> 0 then c else int n1 - int n2)
           })"

section \<open>The text of a value in another encoding\<close>

text \<open>A shallow copy into a fresh cell: the text is shared, the private buffer is not.\<close>

definition sqlite3VdbeMemShallowCopy :: "mem \<Rightarrow> u16 \<Rightarrow> mem" where
  "sqlite3VdbeMemShallowCopy pFrom srcType =
     (let pTo = pFrom\<lparr>mem_own := False, mem_szMalloc := 0\<rparr>
      in if mem_flags pFrom AND MEM_Static = 0 then
           pTo\<lparr>mem_flags := (mem_flags pTo AND NOT (MEM_Dyn OR MEM_Static OR MEM_Ephem)) OR srcType\<rparr>
         else pTo)"

text \<open>The result says whether a pointer was returned. \<^verbatim>\<open>vdbeCompareMemString\<close> only asks for the text of strings;
  for a number, whose text needs a conversion of floating point, the model has no result. The flag
  \<^verbatim>\<open>SQLITE_UTF16_ALIGNED\<close> of an encoding is left out: it depends on the address of the buffer.\<close>

definition valueToText :: "(nat \<Rightarrow> u8) \<Rightarrow> oom \<Rightarrow> mem \<Rightarrow> enc \<Rightarrow> (bool \<times> mem \<times> oom) option" where
  "valueToText junk w pVal enc =
     (if mem_flags pVal AND (MEM_Blob OR MEM_Str) \<noteq> 0 then
        do {
          (rc, pVal, w) \<leftarrow> ExpandBlob junk w pVal;
          if rc \<noteq> SQLITE_OK then Some (False, pVal, w)
          else
            do {
              let pVal = pVal\<lparr>mem_flags := mem_flags pVal OR MEM_Str\<rparr>;
              (rc, pVal, w) \<leftarrow>
                (if mem_enc pVal \<noteq> enc then sqlite3VdbeChangeEncoding junk w pVal enc else Some (SQLITE_OK, pVal, w));
              (rc, pVal, w) \<leftarrow> sqlite3VdbeMemNulTerminate junk w pVal;
              Some (mem_enc pVal = enc \<and> mem_z pVal \<noteq> [], pVal, w)
            }
        }
      else None)"

definition sqlite3ValueText :: "(nat \<Rightarrow> u8) \<Rightarrow> oom \<Rightarrow> mem \<Rightarrow> enc \<Rightarrow> (bool \<times> mem \<times> oom) option" where
  "sqlite3ValueText junk w pVal enc =
     (if mem_flags pVal AND (MEM_Str OR MEM_Term) = MEM_Str OR MEM_Term \<and> mem_enc pVal = enc then
        Some (mem_z pVal \<noteq> [], pVal, w)
      else if mem_flags pVal AND MEM_Null \<noteq> 0 then Some (False, pVal, w)
      else valueToText junk w pVal enc)"

text \<open>The result is the comparison, whether \<^verbatim>\<open>*prcErr\<close> is to be set to \<^verbatim>\<open>SQLITE_NOMEM\<close>, and the rest of the
  allocation oracle.\<close>

definition vdbeCompareMemString ::
  "(nat \<Rightarrow> u8) \<Rightarrow> oom \<Rightarrow> mem \<Rightarrow> mem \<Rightarrow> collseq \<Rightarrow> (int \<times> bool \<times> oom) option" where
  "vdbeCompareMemString junk w pMem1 pMem2 pColl =
     (if mem_enc pMem1 = coll_enc pColl then
        do {
          c \<leftarrow> coll_xCmp pColl (mem_n pMem1) (mem_z pMem1) (mem_n pMem2) (mem_z pMem2);
          Some (c, False, w)
        }
      else
        do {
          let c1 = sqlite3VdbeMemShallowCopy pMem1 MEM_Ephem;
          let c2 = sqlite3VdbeMemShallowCopy pMem2 MEM_Ephem;
          (v1, c1, w) \<leftarrow> sqlite3ValueText junk w c1 (coll_enc pColl);
          (v2, c2, w) \<leftarrow> sqlite3ValueText junk w c2 (coll_enc pColl);
          if \<not> v1 \<or> \<not> v2 then Some (0, True, w)
          else
            do {
              c \<leftarrow> coll_xCmp pColl (mem_n c1) (mem_z c1) (mem_n c2) (mem_z c2);
              Some (c, False, w)
            }
        })"

section \<open>Comparing values\<close>

definition cmpI64 :: "u64 \<Rightarrow> u64 \<Rightarrow> int" where
  "cmpI64 a b = (if a <s b then - 1 else if b <s a then 1 else 0)"

definition sqlite3MemCompare ::
  "(nat \<Rightarrow> u8) \<Rightarrow> oom \<Rightarrow> bool \<Rightarrow> cell \<Rightarrow> cell \<Rightarrow> collseq option \<Rightarrow> (int \<times> oom) option" where
  "sqlite3MemCompare junk w wide pMem1 pMem2 pColl =
     (let f1 = cell_flags pMem1; f2 = cell_flags pMem2; combined_flags = f1 OR f2
      in if combined_flags AND MEM_Null \<noteq> 0 then
           Some (int (unat (f2 AND MEM_Null)) - int (unat (f1 AND MEM_Null)), w)
         else if combined_flags AND (MEM_Int OR MEM_Real OR MEM_IntReal) \<noteq> 0 then
           (if (f1 AND f2) AND (MEM_Int OR MEM_IntReal) \<noteq> 0 then Some (cmpI64 (cell_u pMem1) (cell_u pMem2), w)
            else if (f1 AND f2) AND MEM_Real \<noteq> 0 then
              Some (if dblLess (cell_u pMem1) (cell_u pMem2) then - 1
                    else if dblLess (cell_u pMem2) (cell_u pMem1) then 1 else 0, w)
            else if f1 AND (MEM_Int OR MEM_IntReal) \<noteq> 0 then
              (if f2 AND MEM_Real \<noteq> 0 then Some (sqlite3IntFloatCompare wide (cell_u pMem1) (cell_u pMem2), w)
               else if f2 AND (MEM_Int OR MEM_IntReal) \<noteq> 0 then Some (cmpI64 (cell_u pMem1) (cell_u pMem2), w)
               else Some (- 1, w))
            else if f1 AND MEM_Real \<noteq> 0 then
              (if f2 AND (MEM_Int OR MEM_IntReal) \<noteq> 0 then Some (- sqlite3IntFloatCompare wide (cell_u pMem2) (cell_u pMem1), w)
               else Some (- 1, w))
            else Some (1, w))
         else if combined_flags AND MEM_Str \<noteq> 0 \<and> f1 AND MEM_Str = 0 then Some (1, w)
         else if combined_flags AND MEM_Str \<noteq> 0 \<and> f2 AND MEM_Str = 0 then Some (- 1, w)
         else if combined_flags AND MEM_Str \<noteq> 0 \<and> pColl \<noteq> None then
           do {
             (c, e, w) \<leftarrow> vdbeCompareMemString junk w (cell_mem pMem1) (cell_mem pMem2) (the pColl);
             Some (c, w)
           }
         else
           do {
             c \<leftarrow> sqlite3BlobCompare (cell_mem pMem1) (cell_mem pMem2);
             Some (c, w)
           })"

section \<open>Integers and doubles\<close>

lemma sint_mag: "sint i = (if i <s 0 then - int (i64Mag i) else int (i64Mag i))"
proof -
  have r: "- (2 ^ 63) \<le> sint i" "sint i < 2 ^ 63" using sint_range_size [of i] by (simp_all add: word_size)
  have u: "uint i = sint i mod 2 ^ 64" using uint_sint [of i] by (simp add: take_bit_eq_mod)
  show ?thesis
  proof (cases "i <s 0")
    case True
    then have neg: "sint i < 0" "i \<noteq> 0" by (auto simp: word_sless_alt)
    have "sint i mod 2 ^ 64 = (sint i + 2 ^ 64) mod 2 ^ 64" by simp
    also have "\<dots> = sint i + 2 ^ 64" using r neg by (intro mod_pos_pos_trivial) simp_all
    finally have "int (unat i) = sint i + 2 ^ 64" using u by simp
    moreover have "unat i < 2 ^ 64" using unsigned_less [of i, where ?'a = nat] by simp
    ultimately show ?thesis
      using True unat_neg [OF neg(2)] by (simp add: i64Mag_def of_nat_diff)
  next
    case False
    then have "0 \<le> sint i" by (simp add: word_sless_alt)
    then have "uint i = sint i" using u r by simp
    then show ?thesis using False by (simp add: i64Mag_def)
  qed
qed

lemma ilog2_unique:
  assumes "2 ^ k \<le> m" "m < 2 ^ Suc k"
  shows "ilog2 m = k"
proof -
  have "0 < m" using assms(1) by (rule less_le_trans [OF zero_less_power, rotated]) simp
  note b = ilog2_bounds [OF this]
  have "2 ^ k < (2 :: nat) ^ Suc (ilog2 m)" "2 ^ ilog2 m < (2 :: nat) ^ Suc k" using assms b by linarith+
  then show ?thesis by (simp add: power_strict_increasing_iff del: power_Suc)
qed

text \<open>An integer whose magnitude has at most 53 significant bits is its double exactly.\<close>

lemma i64Sig_exact:
  assumes "i \<noteq> 0" "ilog2 (i64Mag i) \<le> 52 \<or> 2 ^ (ilog2 (i64Mag i) - 52) dvd i64Mag i"
  shows "i64Sig i * 2 ^ ilog2 (i64Mag i) = i64Mag i * 2 ^ 52" "2 ^ 52 \<le> i64Sig i" "i64Sig i < 2 ^ 53"
proof -
  let ?m = "i64Mag i" and ?e = "ilog2 (i64Mag i)"
  have b: "2 ^ ?e \<le> ?m" "?m < 2 ^ Suc ?e" using ilog2_bounds [OF i64Mag_pos [OF assms(1)]] by blast+
  show *: "i64Sig i * 2 ^ ?e = ?m * 2 ^ 52"
  proof (cases "?e \<le> 52")
    case True
    then have "2 ^ (52 - ?e) * 2 ^ ?e = (2 :: nat) ^ 52" by (simp flip: power_add)
    then show ?thesis using True by (simp add: i64Sig_def Let_def mult.assoc)
  next
    case False
    then obtain k where k: "?m = 2 ^ (?e - 52) * k" using assms(2) by (auto elim: dvdE)
    then have "?m mod 2 ^ (?e - 52) = 0" "?m div 2 ^ (?e - 52) = k"
      by (metis mod_mult_self1_is_0, metis nonzero_mult_div_cancel_left power_not_zero zero_neq_numeral)
    then have "i64Sig i = k" using False by (simp add: i64Sig_def Let_def roundShift_def)
    moreover have "2 ^ ?e = (2 :: nat) ^ (?e - 52) * 2 ^ 52" using False by (simp only: power_add [symmetric]) simp
    ultimately show ?thesis by (subst (2) k) simp
  qed
  have "2 ^ 52 * 2 ^ ?e \<le> i64Sig i * 2 ^ ?e" using b(1) * by simp
  then show "2 ^ 52 \<le> i64Sig i" by (simp only: mult_le_cancel2) simp
  have "i64Sig i * 2 ^ ?e < 2 ^ 53 * 2 ^ ?e" using b(2) * by simp
  then show "i64Sig i < 2 ^ 53" by (simp only: mult_less_cancel2)
qed

lemma div_mod_shift: "a < n \<Longrightarrow> (a + k * n) div n = k \<and> (a + k * n) mod n = a" for a n k :: nat
  by simp

lemma dblScaled_exact:
  assumes "i = 0 \<or> ilog2 (i64Mag i) \<le> 52 \<or> 2 ^ (ilog2 (i64Mag i) - 52) dvd i64Mag i"
  shows "dblScaled (doubleOfI64 i) = sint i * 2 ^ 1074"
proof (cases "i = 0")
  case True
  then show ?thesis by (simp add: doubleOfI64_def dblScaled_def)
next
  case False
  define e where "e = ilog2 (i64Mag i)"
  define q where "q = i64Sig i"
  have ex: "q * 2 ^ e = i64Mag i * 2 ^ 52" "2 ^ 52 \<le> q" "q < 2 ^ 53"
    using i64Sig_exact [OF False] assms False by (simp_all add: e_def q_def)
  define t where "t = (e + 1022) * 2 ^ 52 + q"
  have p: "unat (doubleOfI64 i) = (if i <s 0 then 2 ^ 63 else 0) + t" "t < 2 ^ 63"
    using doubleOfI64_parts [OF False] by (simp_all add: t_def e_def q_def)
  have "bit (doubleOfI64 i) 63 \<longleftrightarrow> odd (unat (doubleOfI64 i) div 2 ^ 63)"
    using bit_unsigned_iff [of "doubleOfI64 i" 63, where ?'a = nat] by (simp add: bit_iff_odd)
  then have sign: "bit (doubleOfI64 i) 63 \<longleftrightarrow> i <s 0"
    using p div_add_self1 [of "2 ^ 63 :: nat" t] by simp
  have mag: "unat (take_bit 63 (doubleOfI64 i)) = t"
    unfolding unsigned_take_bit_eq p(1) using p(2) mod_add_self1 [of "2 ^ 63 :: nat" t] by (simp add: take_bit_eq_mod)
  have t: "t = (q - 2 ^ 52) + (e + 1023) * 2 ^ 52" using ex(2) by (simp add: t_def)
  have dm: "t div 2 ^ 52 = e + 1023" "t mod 2 ^ 52 = q - 2 ^ 52"
    unfolding t using div_mod_shift [of "q - 2 ^ 52" "2 ^ 52" "e + 1023"] ex by simp_all
  have "q * 2 ^ (e + 1022) = i64Mag i * 2 ^ 1074"
    using ex(1) by (simp only: power_add mult.assoc [symmetric]) (simp add: mult.assoc flip: power_add)
  moreover have "(q - 2 ^ 52 + 2 ^ 52) * 2 ^ (e + 1023 - 1) = q * 2 ^ (e + 1022)" using ex(2) by simp
  ultimately have n: "(q - 2 ^ 52 + 2 ^ 52) * 2 ^ (e + 1023 - 1) = i64Mag i * 2 ^ 1074" by (rule trans [rotated])
  have "e + 1023 \<noteq> 0" by simp
  then have "dblScaled (doubleOfI64 i) = (if i <s 0 then - int (i64Mag i * 2 ^ 1074) else int (i64Mag i * 2 ^ 1074))"
    by (simp only: dblScaled_def Let_def mag dm sign n if_False)
  then show ?thesis
    by (simp add: sint_mag)
qed

text \<open>A double of magnitude at least \<open>2 ^ 53\<close> is a multiple of its last place, a power of two from 2 on.\<close>

lemma dblScaled_big:
  assumes "2 ^ 53 * 2 ^ 1074 \<le> \<bar>dblScaled r\<bar>"
  obtains a k where "\<bar>dblScaled r\<bar> = int (a * 2 ^ k) * 2 ^ 1074" "2 ^ 52 \<le> a" "a < 2 ^ 53"
proof -
  define mag where "mag = unat (take_bit 63 r)"
  define e where "e = mag div 2 ^ 52"
  define a where "a = mag mod 2 ^ 52 + 2 ^ 52"
  have a: "2 ^ 52 \<le> a" "a < 2 ^ 53" by (simp_all add: a_def)
  have abs: "\<bar>dblScaled r\<bar> = int (if e = 0 then mag mod 2 ^ 52 else a * 2 ^ (e - 1))"
    unfolding dblScaled_def Let_def mag_def [symmetric] e_def [symmetric] a_def [symmetric] by simp
  have "mag mod 2 ^ 52 < 2 ^ 52" by simp
  also have "(2 :: nat) ^ 52 < 2 ^ 53 * 2 ^ 1074" by (simp only: power_add [symmetric]) (rule power_strict_increasing; simp)
  finally have "e \<noteq> 0" using assms abs by (auto split: if_splits)
  then have abs': "\<bar>dblScaled r\<bar> = int (a * 2 ^ (e - 1))" using abs by simp
  then have "2 ^ 53 * 2 ^ 1074 \<le> a * 2 ^ (e - 1)" using assms by (metis of_nat_le_iff of_nat_mult of_nat_numeral of_nat_power)
  also have "\<dots> < 2 ^ 53 * 2 ^ (e - 1)" using a(2) by simp
  finally have "(2 :: nat) ^ 1074 < 2 ^ (e - 1)" by (simp only: mult_less_cancel1)
  then have "1074 < e - 1" by (simp only: power_strict_increasing_iff)
  then have "2 ^ (e - 1) = (2 :: nat) ^ (e - 1 - 1074) * 2 ^ 1074" by (simp only: power_add [symmetric]) simp
  then have "\<bar>dblScaled r\<bar> = int (a * 2 ^ (e - 1 - 1074)) * 2 ^ 1074"
    unfolding abs' by (simp only: of_nat_mult of_nat_power of_nat_numeral mult.assoc)
  with a show thesis by (rule that [rotated])
qed

text \<open>The number of units in one, and truncation in terms of it.\<close>

definition dblUnit :: int where
  "dblUnit = 2 ^ 1074"

lemma dblUnit_pos: "0 < dblUnit"
  by (simp add: dblUnit_def)

lemma floor_unit: "x div dblUnit * dblUnit \<le> x" "x < (x div dblUnit + 1) * dblUnit"
proof -
  have "x = x div dblUnit * dblUnit + x mod dblUnit" by simp
  moreover have "0 \<le> x mod dblUnit" "x mod dblUnit < dblUnit" using dblUnit_pos by simp_all
  moreover have "(x div dblUnit + 1) * dblUnit = x div dblUnit * dblUnit + dblUnit" by (simp add: distrib_right)
  ultimately show "x div dblUnit * dblUnit \<le> x" "x < (x div dblUnit + 1) * dblUnit" by linarith+
qed

lemma dblTrunc_unit: "dblTrunc r = (if dblScaled r < 0 then - ((- dblScaled r) div dblUnit) else dblScaled r div dblUnit)"
  unfolding dblTrunc_def dblUnit_def ..

lemma trunc_bounds:
  "0 \<le> dblScaled r \<Longrightarrow> dblTrunc r * dblUnit \<le> dblScaled r \<and> dblScaled r < (dblTrunc r + 1) * dblUnit"
  "dblScaled r < 0 \<Longrightarrow> dblScaled r \<le> dblTrunc r * dblUnit \<and> (dblTrunc r - 1) * dblUnit < dblScaled r"
  unfolding dblTrunc_unit using floor_unit [of "dblScaled r"] floor_unit [of "- dblScaled r"]
  by (simp_all add: algebra_simps)

lemma trunc_less:
  assumes "i < dblTrunc r"
  shows "i * dblUnit < dblScaled r"
proof (cases "dblScaled r < 0")
  case True
  have "i * dblUnit \<le> (dblTrunc r - 1) * dblUnit" using assms dblUnit_pos by (intro mult_right_mono) simp_all
  then show ?thesis using trunc_bounds(2) [OF True] by linarith
next
  case False
  have "i * dblUnit < dblTrunc r * dblUnit" using assms dblUnit_pos by simp
  then show ?thesis using trunc_bounds(1) [of r] False by linarith
qed

lemma trunc_greater:
  assumes "dblTrunc r < i"
  shows "dblScaled r < i * dblUnit"
proof (cases "dblScaled r < 0")
  case True
  have "dblTrunc r * dblUnit < i * dblUnit" using assms dblUnit_pos by simp
  then show ?thesis using trunc_bounds(2) [OF True] by linarith
next
  case False
  have "(dblTrunc r + 1) * dblUnit \<le> i * dblUnit" using assms dblUnit_pos by (intro mult_right_mono) simp_all
  then show ?thesis using trunc_bounds(1) [of r] False by linarith
qed

lemma trunc_abs_le: "\<bar>dblTrunc r\<bar> * dblUnit \<le> \<bar>dblScaled r\<bar>"
proof (cases "dblScaled r < 0")
  case True
  then have "dblTrunc r \<le> 0" using dblUnit_pos by (simp add: dblTrunc_unit pos_imp_zdiv_nonneg_iff)
  then show ?thesis using trunc_bounds(2) [OF True] True by (simp add: abs_if)
next
  case False
  then have "0 \<le> dblTrunc r" using dblUnit_pos by (simp add: dblTrunc_unit pos_imp_zdiv_nonneg_iff)
  then show ?thesis using trunc_bounds(1) [of r] False by (simp add: abs_if)
qed

text \<open>The integer part of a double is converted back without rounding.\<close>

lemma trunc_exact:
  assumes "sint i = dblTrunc r"
  shows "dblScaled (doubleOfI64 i) = sint i * dblUnit"
proof -
  have "i = 0 \<or> ilog2 (i64Mag i) \<le> 52 \<or> 2 ^ (ilog2 (i64Mag i) - 52) dvd i64Mag i"
  proof (rule disjCI)
    assume "\<not> (ilog2 (i64Mag i) \<le> 52 \<or> 2 ^ (ilog2 (i64Mag i) - 52) dvd i64Mag i)"
    then have n: "\<not> 2 ^ (ilog2 (i64Mag i) - 52) dvd i64Mag i" and i: "\<not> ilog2 (i64Mag i) \<le> 52" by blast+
    have m: "int (i64Mag i) = \<bar>dblTrunc r\<bar>" using assms by (auto simp: sint_mag split: if_splits)
    have "i \<noteq> 0" using i by (auto simp: i64Mag_def ilog2.simps)
    then have "2 ^ ilog2 (i64Mag i) \<le> i64Mag i" using ilog2_bounds [OF i64Mag_pos] by blast
    moreover have "(2 :: nat) ^ 53 \<le> 2 ^ ilog2 (i64Mag i)" using i by (intro power_increasing) simp_all
    ultimately have "2 ^ 53 \<le> i64Mag i" by linarith
    then have "2 ^ 53 \<le> \<bar>dblTrunc r\<bar>" by (metis m of_nat_le_iff of_nat_numeral of_nat_power)
    then have "2 ^ 53 * dblUnit \<le> \<bar>dblTrunc r\<bar> * dblUnit" using dblUnit_pos by (intro mult_right_mono) simp_all
    then have "2 ^ 53 * dblUnit \<le> \<bar>dblScaled r\<bar>" using trunc_abs_le [of r] by linarith
    then obtain a k where a: "\<bar>dblScaled r\<bar> = int (a * 2 ^ k) * dblUnit" "2 ^ 52 \<le> a" "a < 2 ^ 53"
      using dblScaled_big [of r] unfolding dblUnit_def by blast
    have "\<bar>dblTrunc r\<bar> = \<bar>dblScaled r\<bar> div dblUnit"
      using dblUnit_pos pos_imp_zdiv_nonneg_iff [of dblUnit "\<bar>dblScaled r\<bar>"] by (auto simp: dblTrunc_unit abs_if)
    also have "\<dots> = int (a * 2 ^ k)" unfolding a(1) using dblUnit_pos by simp
    finally have mk: "i64Mag i = a * 2 ^ k" using m by linarith
    have "2 ^ (52 + k) \<le> a * 2 ^ k" "a * 2 ^ k < 2 ^ Suc (52 + k)"
      using a(2, 3) by (simp_all add: power_add)
    then have "ilog2 (i64Mag i) = 52 + k" unfolding mk by (rule ilog2_unique)
    then show "i = 0" using n by (simp add: mk)
  qed
  from dblScaled_exact [OF this] show ?thesis unfolding dblUnit_def .
qed

text \<open>The double constants of the code.\<close>

lemma dbl_limits:
  "dblScaled 0xC3E0000000000000 = - (2 ^ 63) * dblUnit" "dblScaled 0x43E0000000000000 = 2 ^ 63 * dblUnit"
  "\<not> IsNaN 0xC3E0000000000000" "\<not> IsNaN 0x43E0000000000000"
proof -
  have p: "(2 ^ 52 :: nat) * 2 ^ (1086 - 1) = 2 ^ 63 * 2 ^ 1074" by (simp only: power_add [symmetric]) simp
  have t: "unat (take_bit 63 (0x43E0000000000000 :: u64)) = 1086 * 2 ^ 52" "unat (take_bit 63 (0xC3E0000000000000 :: u64)) = 1086 * 2 ^ 52"
    "\<not> bit (0x43E0000000000000 :: u64) 63" "bit (0xC3E0000000000000 :: u64) 63"
    by (simp_all add: unsigned_take_bit_eq take_bit_eq_mod)
  have q: "1086 * 2 ^ 52 div 2 ^ 52 = (1086 :: nat)" "1086 * 2 ^ 52 mod 2 ^ 52 = (0 :: nat)" by simp_all
  have n: "(1086 :: nat) \<noteq> 0" by simp
  show "dblScaled 0xC3E0000000000000 = - (2 ^ 63) * dblUnit" "dblScaled 0x43E0000000000000 = 2 ^ 63 * dblUnit"
    by (simp_all only: dblScaled_def Let_def t q n if_True if_False add_0 p of_nat_mult of_nat_power of_nat_numeral dblUnit_def
        mult_minus_left)
  show "\<not> IsNaN 0xC3E0000000000000" "\<not> IsNaN 0x43E0000000000000" by (simp_all add: IsNaN_def EXP754_def)
qed

lemma intFloat_exact:
  assumes "\<not> IsNaN r"
  shows "sqlite3IntFloatCompare wide i r = sgn (sint i * dblUnit - dblScaled r)"
proof (cases wide)
  case True
  then show ?thesis
    using assms unfolding sqlite3IntFloatCompare_def Let_def dblUnit_def [symmetric] by (auto simp: sgn_if)
next
  case narrow: False
  let ?x = "sint i * dblUnit" and ?s = "dblScaled r"
  have i: "- (2 ^ 63) \<le> sint i" "sint i < 2 ^ 63" using sint_range_size [of i] by (simp_all add: word_size)
  have less: "dblLess r 0xC3E0000000000000 \<longleftrightarrow> ?s < - (2 ^ 63) * dblUnit" "dblLess r 0x43E0000000000000 \<longleftrightarrow> ?s < 2 ^ 63 * dblUnit"
    using assms dbl_limits by (simp_all add: dblLess_def)
  consider (low) "?s < - (2 ^ 63) * dblUnit" | (high) "2 ^ 63 * dblUnit \<le> ?s"
    | (mid) "- (2 ^ 63) * dblUnit \<le> ?s" "?s < 2 ^ 63 * dblUnit" by linarith
  then show ?thesis
  proof cases
    case low
    have "- (2 ^ 63) * dblUnit \<le> ?x" using i(1) dblUnit_pos by (intro mult_right_mono) simp_all
    then have "?s < ?x" using low by linarith
    then show ?thesis using narrow less low by (simp add: sqlite3IntFloatCompare_def)
  next
    case high
    have "?x < 2 ^ 63 * dblUnit" using i(2) dblUnit_pos by (intro mult_strict_right_mono) simp_all
    then have "?x < ?s" using high by linarith
    moreover have "\<not> ?s < - (2 ^ 63) * dblUnit"
      using high dblUnit_pos by (simp add: not_less)
    ultimately show ?thesis using narrow less high assms by (simp add: sqlite3IntFloatCompare_def)
  next
    case mid
    have "\<not> dblTrunc r < - (2 ^ 63)" using trunc_less [of "- (2 ^ 63) - 1" r] trunc_greater [of r "- (2 ^ 63)"] mid by auto
    moreover have "dblTrunc r < 2 ^ 63"
    proof (cases "dblScaled r < 0")
      case True
      then have "(dblTrunc r - 1) * dblUnit < 0" using trunc_bounds(2) [OF True] by linarith
      then show ?thesis using dblUnit_pos by (simp add: mult_less_0_iff)
    next
      case False
      then have "dblTrunc r * dblUnit < 2 ^ 63 * dblUnit" using trunc_bounds(1) [of r] mid(2) by linarith
      then show ?thesis using dblUnit_pos by simp
    qed
    ultimately have y: "sint (word_of_int (dblTrunc r) :: u64) = dblTrunc r"
      by (simp add: signed_of_int signed_take_bit_int_eq_self)
    have "\<not> dblLess r 0xC3E0000000000000" "dblLess r 0x43E0000000000000" using less mid by auto
    then have e: "sqlite3IntFloatCompare wide i r =
        (if sint i < dblTrunc r then - 1 else if dblTrunc r < sint i then 1
         else let s = doubleOfI64 i in if dblLess s r then - 1 else if dblLess r s then 1 else 0)"
      using narrow by (simp add: sqlite3IntFloatCompare_def Let_def word_sless_alt y)
    show ?thesis
      unfolding e using trunc_less [of "sint i" r] trunc_greater [of r "sint i"] trunc_exact [of i r] assms doubleOfI64_number
      by (auto simp: sgn_if dblLess_def)
  qed
qed

section \<open>Comparison functions\<close>

text \<open>What a B-tree relies on: the sign of the result reverses with the arguments, and the order is
  transitive. Two different values may be equal for it.\<close>

locale comparison =
  fixes cmp :: "'a \<Rightarrow> 'a \<Rightarrow> int"
  assumes cmp_anti: "sgn (cmp y x) = - sgn (cmp x y)"
    and cmp_le_trans: "cmp x y \<le> 0 \<Longrightarrow> cmp y z \<le> 0 \<Longrightarrow> cmp x z \<le> 0"
begin

lemma cmp_self: "cmp x x = 0"
  using cmp_anti [of x x] by (simp add: sgn_if split: if_splits)

lemma cmp_swap: "cmp y x \<le> 0 \<longleftrightarrow> 0 \<le> cmp x y" "cmp y x = 0 \<longleftrightarrow> cmp x y = 0" "cmp y x < 0 \<longleftrightarrow> 0 < cmp x y"
  using cmp_anti [of y x] by (auto simp: sgn_if split: if_splits)

lemma cmp_total: "cmp x y \<le> 0 \<or> cmp y x \<le> 0"
  using cmp_swap(1) [of y x] by linarith

lemma cmp_equal_left:
  assumes "cmp x y = 0"
  shows "sgn (cmp x z) = sgn (cmp y z)"
proof -
  have "cmp x z \<le> 0 \<longleftrightarrow> cmp y z \<le> 0" "cmp z x \<le> 0 \<longleftrightarrow> cmp z y \<le> 0"
    using cmp_le_trans [of x y z] cmp_le_trans [of y x z] cmp_le_trans [of z x y] cmp_le_trans [of z y x] assms
      cmp_swap(2) [of y x] by auto
  then show ?thesis
    using cmp_swap(1) [of z x] cmp_swap(1) [of z y] by (auto simp: sgn_if)
qed

lemma cmp_less_trans: "cmp x y < 0 \<Longrightarrow> cmp y z \<le> 0 \<Longrightarrow> cmp x z < 0"
proof -
  assume xy: "cmp x y < 0" and yz: "cmp y z \<le> 0"
  have "\<not> 0 \<le> cmp x z"
  proof
    assume "0 \<le> cmp x z"
    then have "cmp y x \<le> 0" using yz cmp_le_trans [of y z x] cmp_swap(1) [of z x] by blast
    then show False using xy cmp_swap(1) [of y x] by simp
  qed
  then show "cmp x z < 0" by simp
qed

lemma cmp_image: "comparison (\<lambda>x y. cmp (f x) (f y))"
  by unfold_locales (use cmp_anti cmp_le_trans in blast)+

text \<open>A second comparison decides where the first one does not.\<close>

lemma cmp_then_by:
  assumes "comparison c"
  shows "comparison (\<lambda>x y. if cmp x y \<noteq> 0 then cmp x y else c x y)"
proof
  fix x y z
  show "sgn (if cmp y x \<noteq> 0 then cmp y x else c y x) = - sgn (if cmp x y \<noteq> 0 then cmp x y else c x y)"
    using cmp_anti [of y x] comparison.cmp_anti [OF assms, of y x] cmp_swap(2) [of y x] by auto
  assume "(if cmp x y \<noteq> 0 then cmp x y else c x y) \<le> 0" "(if cmp y z \<noteq> 0 then cmp y z else c y z) \<le> 0"
  moreover have "cmp x z = 0 \<Longrightarrow> cmp x y \<le> 0 \<Longrightarrow> cmp y z \<le> 0 \<Longrightarrow> cmp x y = 0 \<and> cmp y z = 0"
    using cmp_less_trans [of x y z] cmp_le_trans [of z x y] cmp_swap [of x z] cmp_swap [of y z] by (auto simp: le_less)
  ultimately show "(if cmp x z \<noteq> 0 then cmp x z else c x z) \<le> 0"
    using cmp_le_trans [of x y z] comparison.cmp_le_trans [OF assms, of x y z] by (auto split: if_splits)
qed

end

section \<open>Byte strings and collations\<close>

text \<open>Lexicographic comparison of byte strings: what the BINARY collation and blobs use.\<close>

definition lexCmp :: "u8 list \<Rightarrow> u8 list \<Rightarrow> int" where
  "lexCmp a b = (let c = memcmpLoop a b in if c = 0 then int (length a) - int (length b) else c)"

lemma lexCmp_simps [simp]: "lexCmp [] [] = 0" "lexCmp [] (y # ys) = - 1 - int (length ys)" "lexCmp (x # xs) [] = 1 + int (length xs)"
  "lexCmp (x # xs) (y # ys) = (if x = y then lexCmp xs ys else int (unat x) - int (unat y))"
proof -
  have "x \<noteq> y \<Longrightarrow> int (unat x) - int (unat y) \<noteq> 0" by (simp add: word_uint_eq_iff)
  then show "lexCmp (x # xs) (y # ys) = (if x = y then lexCmp xs ys else int (unat x) - int (unat y))"
    by (simp add: lexCmp_def Let_def)
qed (simp_all add: lexCmp_def)

lemma lexCmp_swap: "lexCmp b a = - lexCmp a b"
  by (induction a b rule: memcmpLoop.induct) (auto simp: lexCmp_def Let_def)

lemma lexCmp_neg: "lexCmp a b < 0 \<longleftrightarrow> (a, b) \<in> lexord {(x, y). x < y}"
  by (induction a b rule: list_induct2') (auto simp: word_less_def)

lemma lexCmp_zero: "lexCmp a b = 0 \<longleftrightarrow> a = b"
  by (induction a b rule: list_induct2') (auto simp: word_uint_eq_iff)

interpretation bytes: comparison lexCmp
proof
  fix x y z
  show "sgn (lexCmp y x) = - sgn (lexCmp x y)" using lexCmp_swap [of x y] by simp
  have "trans {(x :: u8, y). x < y}" by (auto intro: transI)
  then have "(x, y) \<in> lexord {(x, y). x < y} \<Longrightarrow> (y, z) \<in> lexord {(x, y). x < y} \<Longrightarrow> (x, z) \<in> lexord {(x, y). x < y}"
    by (rule lexord_trans [rotated 2])
  then show "lexCmp x y \<le> 0 \<Longrightarrow> lexCmp y z \<le> 0 \<Longrightarrow> lexCmp x z \<le> 0"
    by (auto simp: le_less lexCmp_neg lexCmp_zero)
qed

lemma memcmpLoop_min:
  "memcmpLoop (take (min (length a) (length b)) a) (take (min (length a) (length b)) b) = memcmpLoop a b"
  by (induction a b rule: memcmpLoop.induct) auto

lemma memcmp_take:
  assumes "n1 \<le> length z1" "n2 \<le> length z2"
  shows "memcmp z1 z2 (min n1 n2) = Some (memcmpLoop (take n1 z1) (take n2 z2))"
proof -
  have "length (take n1 z1) = n1" "length (take n2 z2) = n2" using assms by simp_all
  moreover have "take (min n1 n2) (take n1 z1) = take (min n1 n2) z1" "take (min n1 n2) (take n2 z2) = take (min n1 n2) z2"
    by (simp_all add: min_def)
  ultimately show ?thesis
    using assms memcmpLoop_min [of "take n1 z1" "take n2 z2"] by (simp only: memcmp_def) (simp add: min.coboundedI1 min.coboundedI2)
qed

text \<open>A collating sequence whose function depends only on the texts.\<close>

definition collates :: "collseq \<Rightarrow> (u8 list \<Rightarrow> u8 list \<Rightarrow> int) \<Rightarrow> bool" where
  "collates coll c \<longleftrightarrow>
     (\<forall>n1 z1 n2 z2. n1 \<le> length z1 \<and> n2 \<le> length z2 \<longrightarrow> coll_xCmp coll n1 z1 n2 z2 = Some (c (take n1 z1) (take n2 z2)))"

lemma binColl_lexCmp:
  "n1 \<le> length z1 \<Longrightarrow> n2 \<le> length z2 \<Longrightarrow> binCollFunc n1 z1 n2 z2 = Some (lexCmp (take n1 z1) (take n2 z2))"
proof -
  assume n: "n1 \<le> length z1" "n2 \<le> length z2"
  have "(if n1 < n2 then n1 else n2) = min n1 n2" by simp
  then show ?thesis
    using memcmp_take [OF n] n unfolding binCollFunc_def lexCmp_def by (simp add: Let_def)
qed

definition rtrimmed :: "u8 list \<Rightarrow> u8 list" where
  "rtrimmed z = rev (dropWhile (\<lambda>c. c = 0x20) (rev z))"

lemma rtrimLen_rtrimmed:
  "n \<le> length z \<Longrightarrow> \<exists>k \<le> n. rtrimLen z n = Some k \<and> take k z = rtrimmed (take n z)"
proof (induction n)
  case (Suc n)
  then have "rd z n = Some (z ! n)" "take (Suc n) z = take n z @ [z ! n]"
    by (simp_all add: rd_def take_Suc_conv_app_nth)
  with Suc show ?case by (auto simp: rtrimmed_def intro: le_SucI)
qed (simp add: rtrimmed_def)

lemma rtrimColl_lexCmp:
  assumes "n1 \<le> length z1" "n2 \<le> length z2"
  shows "rtrimCollFunc n1 z1 n2 z2 = Some (lexCmp (rtrimmed (take n1 z1)) (rtrimmed (take n2 z2)))"
  using rtrimLen_rtrimmed [OF assms(1)] rtrimLen_rtrimmed [OF assms(2)] assms
  by (auto simp: rtrimCollFunc_def binColl_lexCmp)

interpretation rtrim: comparison "\<lambda>a b. lexCmp (rtrimmed a) (rtrimmed b)"
  by (rule bytes.cmp_image)

text \<open>NOCASE stops at a zero byte, and then the lengths decide.\<close>

fun foldKey :: "u8 list \<Rightarrow> u8 list" where
  "foldKey [] = []"
| "foldKey (c # z) = sqlite3UpperToLower c # (if c = 0 then [] else foldKey z)"

definition nocaseCmp :: "u8 list \<Rightarrow> u8 list \<Rightarrow> int" where
  "nocaseCmp a b =
     (let r = the (strnicmpLoop a b (min (length a) (length b))) in if r = 0 then int (length a) - int (length b) else r)"

lemma strnicmp_take: "n \<le> length a \<Longrightarrow> n \<le> length b \<Longrightarrow>
    \<exists>r. strnicmpLoop a b n = Some r \<and> strnicmpLoop (take n a) (take n b) n = Some r"
  by (induction a b n rule: strnicmpLoop.induct) auto

lemma nocaseColl_cmp:
  assumes "n1 \<le> length z1" "n2 \<le> length z2"
  shows "nocaseCollatingFunc n1 z1 n2 z2 = Some (nocaseCmp (take n1 z1) (take n2 z2))"
proof -
  let ?n = "min n1 n2"
  have n: "?n \<le> length z1" "?n \<le> length z2" using assms by simp_all
  have "?n \<le> length (take n1 z1)" "?n \<le> length (take n2 z2)" using assms by simp_all
  from strnicmp_take [OF this] strnicmp_take [OF n]
  have "strnicmpLoop z1 z2 ?n = strnicmpLoop (take n1 z1) (take n2 z2) ?n" by (simp add: min_def split: if_splits)
  moreover have "(if n1 < n2 then n1 else n2) = ?n" by simp
  ultimately show ?thesis
    using strnicmp_take [OF n] assms by (auto simp: nocaseCollatingFunc_def sqlite3_strnicmp_def nocaseCmp_def Let_def)
qed

lemma nocaseCmp_simps [simp]: "nocaseCmp [] ys = - int (length ys)" "nocaseCmp xs [] = int (length xs)"
  "nocaseCmp (x # xs) (y # ys) =
     (if sqlite3UpperToLower x = sqlite3UpperToLower y then (if x = 0 then int (length xs) - int (length ys) else nocaseCmp xs ys)
      else strcmpDiff x y)"
  by (auto simp: nocaseCmp_def Let_def)

text \<open>The order is the one of the folded texts up to the first zero byte, then of the lengths.\<close>

definition nocaseKeyCmp :: "u8 list \<Rightarrow> u8 list \<Rightarrow> int" where
  "nocaseKeyCmp a b =
     (if lexCmp (foldKey a) (foldKey b) \<noteq> 0 then lexCmp (foldKey a) (foldKey b) else int (length a) - int (length b))"

lemma nocaseCmp_key: "sgn (nocaseCmp a b) = sgn (nocaseKeyCmp a b)"
proof (induction a b rule: list_induct2')
  case (4 x xs y ys)
  show ?case
  proof (cases "sqlite3UpperToLower x = sqlite3UpperToLower y")
    case True
    then have "x = 0 \<longleftrightarrow> y = 0" using upperToLower_0_iff by metis
    then show ?thesis using 4 True by (auto simp: nocaseKeyCmp_def)
  next
    case False
    then have "uint (sqlite3UpperToLower x) \<noteq> uint (sqlite3UpperToLower y)" by (simp add: word_uint_eq_iff)
    then show ?thesis using False by (simp add: nocaseKeyCmp_def strcmpDiff_def)
  qed
qed (auto simp: nocaseKeyCmp_def sgn_if)

lemma sgn_le_0: "sgn x \<le> 0 \<longleftrightarrow> x \<le> (0 :: int)"
  by (simp add: sgn_if)

interpretation lengths: comparison "\<lambda>a b. int (length a) - int (length b)"
  by unfold_locales (auto simp: sgn_if)

interpretation nocase: comparison nocaseCmp
proof -
  have "comparison nocaseKeyCmp"
    using comparison.cmp_then_by [OF bytes.cmp_image [of foldKey] lengths.comparison_axioms]
    unfolding nocaseKeyCmp_def [abs_def] .
  then show "comparison nocaseCmp"
    unfolding comparison_def by (metis nocaseCmp_key sgn_le_0)
qed

section \<open>The order of values\<close>

text \<open>NULLs, then numbers by value, then texts by their collation, then blobs byte by byte.\<close>

fun valueClass :: "sql_value \<Rightarrow> int" where
  "valueClass (SqlInt i) = 1"
| "valueClass (SqlReal r) = 1"
| "valueClass (SqlText z) = 2"
| "valueClass (SqlBlob z) = 3"
| "valueClass _ = 0"

text \<open>The value of a number, in units of \<open>2 ^ - 1074\<close>.\<close>

fun numKey :: "sql_value \<Rightarrow> int" where
  "numKey (SqlInt i) = sint i * dblUnit"
| "numKey (SqlReal r) = dblScaled r"
| "numKey _ = 0"

fun valueBytes :: "sql_value \<Rightarrow> u8 list" where
  "valueBytes (SqlText z) = z"
| "valueBytes (SqlBlob z) = z"
| "valueBytes _ = []"

definition valueCmp :: "(u8 list \<Rightarrow> u8 list \<Rightarrow> int) \<Rightarrow> sql_value \<Rightarrow> sql_value \<Rightarrow> int" where
  "valueCmp c v w =
     (if valueClass v \<noteq> valueClass w then valueClass v - valueClass w
      else if valueClass v = 2 then c (valueBytes v) (valueBytes w)
      else if valueClass v = 3 then lexCmp (valueBytes v) (valueBytes w)
      else sgn (numKey v - numKey w))"

lemma sgn_swap: "sgn (a - b) = - sgn (b - a :: int)"
  by (simp add: sgn_if)

locale collation = comparison cmp for cmp :: "u8 list \<Rightarrow> u8 list \<Rightarrow> int"
begin

lemma valueCmp_order: "comparison (valueCmp cmp)"
proof
  fix x y z
  show "sgn (valueCmp cmp y x) = - sgn (valueCmp cmp x y)"
    using cmp_anti [of "valueBytes y" "valueBytes x"] bytes.cmp_anti [of "valueBytes y" "valueBytes x"]
      sgn_swap [of "valueClass y" "valueClass x"] sgn_swap [of "numKey y" "numKey x"]
    by (auto simp: valueCmp_def)
  show "valueCmp cmp x y \<le> 0 \<Longrightarrow> valueCmp cmp y z \<le> 0 \<Longrightarrow> valueCmp cmp x z \<le> 0"
    using cmp_le_trans [of "valueBytes x" "valueBytes y" "valueBytes z"]
      bytes.cmp_le_trans [of "valueBytes x" "valueBytes y" "valueBytes z"]
    by (auto simp: valueCmp_def sgn_le_0 split: if_splits)
qed

end

sublocale collation \<subseteq> vals: comparison "valueCmp cmp"
  by (rule valueCmp_order)

interpretation binary_coll: collation lexCmp ..

interpretation nocase_coll: collation nocaseCmp ..

interpretation rtrim_coll: collation "\<lambda>a b. lexCmp (rtrimmed a) (rtrimmed b)" ..

section \<open>The value of a cell\<close>

definition memValue :: "cell \<Rightarrow> sql_value" where
  "memValue p =
     (let f = cell_flags p
      in if f AND MEM_Null \<noteq> 0 then SqlNull
         else if f AND (MEM_Int OR MEM_IntReal) \<noteq> 0 then SqlInt (cell_u p)
         else if f AND MEM_Real \<noteq> 0 then SqlReal (cell_u p)
         else if f AND MEM_Str \<noteq> 0 then SqlText (memBlob (cell_mem p))
         else SqlBlob (memBlob (cell_mem p)))"

text \<open>The cells that the comparison functions accept: one type of number at a time, no NaN, and a
  zero-filled tail only on a blob without other content, as \<^verbatim>\<open>sqlite3BlobCompare\<close> asserts.\<close>

definition cmp_wf :: "cell \<Rightarrow> bool" where
  "cmp_wf p \<longleftrightarrow>
     cell_flags p AND MEM_Null \<noteq> 0 \<or>
     (if cell_flags p AND (MEM_Int OR MEM_IntReal) \<noteq> 0 then cell_flags p AND MEM_Real = 0
      else if cell_flags p AND MEM_Real \<noteq> 0 then \<not> IsNaN (cell_u p)
      else cell_flags p AND (MEM_Str OR MEM_Blob) \<noteq> 0 \<and> mem_wf (cell_mem p) \<and>
        (cell_flags p AND MEM_Zero \<noteq> 0 \<longrightarrow> mem_n (cell_mem p) = 0 \<and> cell_flags p AND MEM_Str = 0))"

section \<open>Blobs\<close>

lemma isAllZero_iff: "n \<le> length z \<Longrightarrow> isAllZero z n = Some (take n z = replicate n 0)"
  by (induction z n rule: isAllZero.induct) auto

lemma lexCmp_zeros: "lexCmp (replicate a 0) (replicate b 0) = int a - int b"
proof (induction a arbitrary: b)
  case 0
  then show ?case by (cases b) auto
next
  case (Suc a)
  then show ?case by (cases b) auto
qed

lemma lexCmp_zeros_less: "z \<noteq> replicate (length z) 0 \<Longrightarrow> lexCmp (replicate a 0) z < 0"
proof (induction z arbitrary: a)
  case (Cons c z)
  show ?case
  proof (cases a)
    case (Suc b)
    have "c \<noteq> 0 \<Longrightarrow> 0 < uint c" using uint_ge_0 [of c] by (simp add: le_less uint_0_iff)
    with Cons Suc show ?thesis by auto
  qed simp
qed simp

lemma and_or_zero: "(a OR b) AND m = 0 \<longleftrightarrow> a AND m = 0 \<and> b AND m = (0 :: 'a::len word)"
  by (auto simp: bit_eq_iff bit_simps)

lemma and_mask_or: "a AND (m OR k) = 0 \<longleftrightarrow> a AND m = 0 \<and> a AND k = (0 :: 'a::len word)"
  by (auto simp: bit_eq_iff bit_simps)

lemma and_both: "(a AND b) AND m \<noteq> 0 \<Longrightarrow> a AND m \<noteq> 0 \<and> b AND m \<noteq> (0 :: 'a::len word)"
  by (auto simp: bit_eq_iff bit_simps)

lemma and_both_bit: "(a AND b) AND 2 ^ k \<noteq> 0 \<longleftrightarrow> a AND 2 ^ k \<noteq> 0 \<and> b AND 2 ^ k \<noteq> (0 :: 'a::len word)"
  by (simp add: and_exp_eq_0_iff_not_bit bit_and_iff)

lemma both_flags: "(a AND b) AND MEM_Zero \<noteq> 0 \<longleftrightarrow> a AND MEM_Zero \<noteq> 0 \<and> b AND MEM_Zero \<noteq> 0"
  "(a AND b) AND MEM_Real \<noteq> 0 \<longleftrightarrow> a AND MEM_Real \<noteq> 0 \<and> b AND MEM_Real \<noteq> 0"
  using and_both_bit [of a b 14] and_both_bit [of a b 3] by (simp_all add: MEM_defs)

lemma blobCompare_lexCmp:
  assumes "mem_n p \<le> length (mem_z p)" "mem_n q \<le> length (mem_z q)"
    "mem_flags p AND MEM_Zero \<noteq> 0 \<longrightarrow> mem_n p = 0" "mem_flags q AND MEM_Zero \<noteq> 0 \<longrightarrow> mem_n q = 0"
  shows "\<exists>c. sqlite3BlobCompare p q = Some c \<and> sgn c = sgn (lexCmp (memBlob p) (memBlob q))"
proof -
  have n: "length (memText p) = mem_n p" "length (memText q) = mem_n q" using assms by (simp_all add: memText_def)
  note defs = sqlite3BlobCompare_def Let_def and_or_zero both_flags memBlob_def
  show ?thesis
  proof (cases "mem_flags p AND MEM_Zero = 0")
    case p: True
    show ?thesis
    proof (cases "mem_flags q AND MEM_Zero = 0")
      case True
      have "(if mem_n p > mem_n q then mem_n q else mem_n p) = min (mem_n p) (mem_n q)" by simp
      then show ?thesis
        using p True memcmp_take [OF assms(1, 2)] n by (simp add: defs memText_def lexCmp_def)
    next
      case q: False
      then have "memText q = []" using assms(4) by (simp add: memText_def)
      then show ?thesis
        using p q isAllZero_iff [OF assms(1)] n lexCmp_zeros_less [of "memText p" "mem_nZero q"]
          lexCmp_swap [of "replicate (mem_nZero q) 0" "memText p"]
        by (auto simp: defs lexCmp_zeros memText_def [symmetric] sgn_if)
    qed
  next
    case p: False
    then have e: "memText p = []" using assms(3) by (simp add: memText_def)
    show ?thesis
    proof (cases "mem_flags q AND MEM_Zero = 0")
      case True
      then show ?thesis
        using p e isAllZero_iff [OF assms(2)] n lexCmp_zeros_less [of "memText q" "mem_nZero p"]
        by (auto simp: defs lexCmp_zeros memText_def [symmetric] sgn_if)
    next
      case q: False
      then have "memText q = []" using assms(4) by (simp add: memText_def)
      then show ?thesis using p q e by (simp add: defs lexCmp_zeros)
    qed
  qed
qed

section \<open>Comparing two values\<close>

lemma cmpI64_sgn: "cmpI64 a b = sgn (sint a * dblUnit - sint b * dblUnit)"
proof -
  have "sgn (sint a * dblUnit - sint b * dblUnit) = sgn ((sint a - sint b) * dblUnit)" by (simp add: left_diff_distrib)
  also have "\<dots> = sgn (sint a - sint b)" using dblUnit_pos by (simp add: sgn_mult)
  finally show ?thesis by (simp add: cmpI64_def word_sless_alt sgn_if)
qed

text \<open>Two texts in the encoding of the collation.\<close>

lemma compareMemString_direct:
  assumes "collates coll c" "mem_enc p = coll_enc coll" "mem_n p \<le> length (mem_z p)" "mem_n q \<le> length (mem_z q)"
  shows "vdbeCompareMemString junk w p q coll = Some (c (memText p) (memText q), False, w)"
  using assms by (simp add: vdbeCompareMemString_def collates_def memText_def)

text \<open>The comparison of texts that the pointer \<^verbatim>\<open>pColl\<close> stands for.\<close>

definition collCmp :: "enc \<Rightarrow> collseq option \<Rightarrow> (u8 list \<Rightarrow> u8 list \<Rightarrow> int) \<Rightarrow> bool" where
  "collCmp enc pColl c \<longleftrightarrow>
     (case pColl of None \<Rightarrow> c = lexCmp | Some coll \<Rightarrow> coll_enc coll = enc \<and> collates coll c)"

lemma mem_wf_text: "mem_wf m \<Longrightarrow> mem_flags m AND (MEM_Str OR MEM_Blob) \<noteq> 0 \<Longrightarrow> mem_n m \<le> length (mem_z m)"
  by (simp add: mem_wf_def)

text \<open>The kinds of a cell, one of which holds.\<close>

lemma cmp_wf_cases:
  assumes "cmp_wf p"
  obtains (null) "cell_flags p AND MEM_Null \<noteq> 0" "memValue p = SqlNull"
  | (int) "cell_flags p AND MEM_Null = 0" "cell_flags p AND (MEM_Int OR MEM_IntReal) \<noteq> 0" "cell_flags p AND MEM_Real = 0"
      "memValue p = SqlInt (cell_u p)"
  | (real) "cell_flags p AND MEM_Null = 0" "cell_flags p AND (MEM_Int OR MEM_IntReal) = 0" "cell_flags p AND MEM_Real \<noteq> 0"
      "\<not> IsNaN (cell_u p)" "memValue p = SqlReal (cell_u p)"
  | (str) "cell_flags p AND MEM_Null = 0" "cell_flags p AND (MEM_Int OR MEM_IntReal) = 0" "cell_flags p AND MEM_Real = 0"
      "cell_flags p AND MEM_Str \<noteq> 0" "cell_flags p AND MEM_Zero = 0" "mem_n (cell_mem p) \<le> length (mem_z (cell_mem p))"
      "memValue p = SqlText (memText (cell_mem p))"
  | (blob) "cell_flags p AND MEM_Null = 0" "cell_flags p AND (MEM_Int OR MEM_IntReal) = 0" "cell_flags p AND MEM_Real = 0"
      "cell_flags p AND MEM_Str = 0" "cell_flags p AND MEM_Blob \<noteq> 0" "mem_n (cell_mem p) \<le> length (mem_z (cell_mem p))"
      "cell_flags p AND MEM_Zero \<noteq> 0 \<longrightarrow> mem_n (cell_mem p) = 0" "memValue p = SqlBlob (memBlob (cell_mem p))"
proof -
  have v: "memBlob (cell_mem p) = memText (cell_mem p)" if "cell_flags p AND MEM_Zero = 0"
    using that by (simp add: memBlob_def)
  show thesis
    using assms that v mem_wf_text [of "cell_mem p"] unfolding cmp_wf_def memValue_def Let_def
    by (metis and_mask_or)
qed

lemma null_flag: "uint (f AND MEM_Null) = (if f AND MEM_Null = 0 then 0 else 1)"
  using and_exp_cases [of f 0] by (auto simp: MEM_Null_def)

lemma num_flags: "f AND (MEM_Int OR MEM_Real OR MEM_IntReal) = 0 \<longleftrightarrow> f AND (MEM_Int OR MEM_IntReal) = 0 \<and> f AND MEM_Real = 0"
  by (auto simp: and_mask_or)

lemma both_ints: "(a AND b) AND (MEM_Int OR MEM_IntReal) \<noteq> 0 \<Longrightarrow> a AND (MEM_Int OR MEM_IntReal) \<noteq> 0 \<and> b AND (MEM_Int OR MEM_IntReal) \<noteq> 0"
  by (rule and_both)

lemma memCompare_null:
  assumes "cell_flags p AND MEM_Null \<noteq> 0 \<or> cell_flags q AND MEM_Null \<noteq> 0"
  shows "sqlite3MemCompare junk w wide p q pColl =
    Some ((if cell_flags q AND MEM_Null = 0 then 0 else 1) - (if cell_flags p AND MEM_Null = 0 then 0 else 1), w)"
  using assms by (auto simp: sqlite3MemCompare_def Let_def and_or_zero null_flag)

text \<open>Neither is NULL, and at least one is a number.\<close>

lemma memCompare_num:
  assumes "cell_flags p AND MEM_Null = 0" "cell_flags q AND MEM_Null = 0"
    "cell_flags p AND (MEM_Int OR MEM_IntReal) \<noteq> 0 \<longrightarrow> cell_flags p AND MEM_Real = 0"
    "cell_flags q AND (MEM_Int OR MEM_IntReal) \<noteq> 0 \<longrightarrow> cell_flags q AND MEM_Real = 0"
  shows "cell_flags p AND (MEM_Int OR MEM_IntReal) \<noteq> 0 \<Longrightarrow> cell_flags q AND (MEM_Int OR MEM_IntReal) \<noteq> 0 \<Longrightarrow>
      sqlite3MemCompare junk w wide p q pColl = Some (cmpI64 (cell_u p) (cell_u q), w)"
    "cell_flags p AND (MEM_Int OR MEM_IntReal) \<noteq> 0 \<Longrightarrow> cell_flags q AND MEM_Real \<noteq> 0 \<Longrightarrow>
      sqlite3MemCompare junk w wide p q pColl = Some (sqlite3IntFloatCompare wide (cell_u p) (cell_u q), w)"
    "cell_flags p AND MEM_Real \<noteq> 0 \<Longrightarrow> cell_flags q AND (MEM_Int OR MEM_IntReal) \<noteq> 0 \<Longrightarrow>
      sqlite3MemCompare junk w wide p q pColl = Some (- sqlite3IntFloatCompare wide (cell_u q) (cell_u p), w)"
    "cell_flags p AND MEM_Real \<noteq> 0 \<Longrightarrow> cell_flags q AND MEM_Real \<noteq> 0 \<Longrightarrow>
      sqlite3MemCompare junk w wide p q pColl = Some (if dblLess (cell_u p) (cell_u q) then - 1
                    else if dblLess (cell_u q) (cell_u p) then 1 else 0, w)"
    "cell_flags p AND (MEM_Int OR MEM_IntReal) \<noteq> 0 \<or> cell_flags p AND MEM_Real \<noteq> 0 \<Longrightarrow>
      cell_flags q AND (MEM_Int OR MEM_IntReal) = 0 \<Longrightarrow> cell_flags q AND MEM_Real = 0 \<Longrightarrow>
      sqlite3MemCompare junk w wide p q pColl = Some (- 1, w)"
    "cell_flags q AND (MEM_Int OR MEM_IntReal) \<noteq> 0 \<or> cell_flags q AND MEM_Real \<noteq> 0 \<Longrightarrow>
      cell_flags p AND (MEM_Int OR MEM_IntReal) = 0 \<Longrightarrow> cell_flags p AND MEM_Real = 0 \<Longrightarrow>
      sqlite3MemCompare junk w wide p q pColl = Some (1, w)"
  using assms both_ints [of "cell_flags p" "cell_flags q"] both_flags(2) [of "cell_flags p" "cell_flags q"]
  unfolding sqlite3MemCompare_def Let_def and_or_zero num_flags
  by auto

text \<open>Neither is NULL or a number.\<close>

lemma memCompare_text:
  assumes "cell_flags p AND MEM_Null = 0" "cell_flags q AND MEM_Null = 0"
    "cell_flags p AND (MEM_Int OR MEM_IntReal) = 0" "cell_flags p AND MEM_Real = 0"
    "cell_flags q AND (MEM_Int OR MEM_IntReal) = 0" "cell_flags q AND MEM_Real = 0"
  shows "cell_flags p AND MEM_Str \<noteq> 0 \<Longrightarrow> cell_flags q AND MEM_Str = 0 \<Longrightarrow>
      sqlite3MemCompare junk w wide p q pColl = Some (- 1, w)"
    "cell_flags p AND MEM_Str = 0 \<Longrightarrow> cell_flags q AND MEM_Str \<noteq> 0 \<Longrightarrow>
      sqlite3MemCompare junk w wide p q pColl = Some (1, w)"
    "cell_flags p AND MEM_Str \<noteq> 0 \<Longrightarrow> cell_flags q AND MEM_Str \<noteq> 0 \<Longrightarrow>
      sqlite3MemCompare junk w wide p q (Some coll) =
        map_option (\<lambda>(c, e, w). (c, w)) (vdbeCompareMemString junk w (cell_mem p) (cell_mem q) coll)"
    "cell_flags p AND MEM_Str = 0 \<and> cell_flags q AND MEM_Str = 0 \<or>
      cell_flags p AND MEM_Str \<noteq> 0 \<and> cell_flags q AND MEM_Str \<noteq> 0 \<and> pColl = None \<Longrightarrow>
      sqlite3MemCompare junk w wide p q pColl =
        map_option (\<lambda>c. (c, w)) (sqlite3BlobCompare (cell_mem p) (cell_mem q))"
  using assms unfolding sqlite3MemCompare_def Let_def and_or_zero num_flags
  by (auto simp: map_conv_bind_option comp_def)
    (cases "vdbeCompareMemString junk w (cell_mem p) (cell_mem q) coll"; auto)

lemma dblLess_sgn:
  "\<not> IsNaN a \<Longrightarrow> \<not> IsNaN b \<Longrightarrow> (if dblLess a b then - 1 else if dblLess b a then 1 else 0) = sgn (dblScaled a - dblScaled b)"
  by (auto simp: dblLess_def sgn_if)

text \<open>\<^verbatim>\<open>sqlite3MemCompare\<close> computes the order of values.\<close>

lemma memCompare_value:
  assumes "cmp_wf p" "cmp_wf q" "collCmp (mem_enc (cell_mem p)) pColl c"
  shows "\<exists>r. sqlite3MemCompare junk w wide p q pColl = Some (r, w) \<and> sgn r = sgn (valueCmp c (memValue p) (memValue q))"
  using assms(1)
proof (cases rule: cmp_wf_cases)
  case p: null
  from assms(2) show ?thesis
    by (cases rule: cmp_wf_cases) (use p in \<open>simp_all add: memCompare_null valueCmp_def\<close>)
next
  case p: int
  from assms(2) show ?thesis
  proof (cases rule: cmp_wf_cases)
    case null
    then show ?thesis using p by (simp add: memCompare_null valueCmp_def)
  next
    case int
    then show ?thesis using p by (simp add: memCompare_num valueCmp_def cmpI64_sgn)
  next
    case real
    then show ?thesis using p by (simp add: memCompare_num valueCmp_def intFloat_exact)
  next
    case str
    then show ?thesis using p by (simp add: memCompare_num valueCmp_def)
  next
    case blob
    then show ?thesis using p by (simp add: memCompare_num valueCmp_def)
  qed
next
  case p: real
  from assms(2) show ?thesis
  proof (cases rule: cmp_wf_cases)
    case null
    then show ?thesis using p by (simp add: memCompare_null valueCmp_def)
  next
    case int
    then show ?thesis using p sgn_swap [of "sint (cell_u q) * dblUnit" "dblScaled (cell_u p)"]
      by (simp add: memCompare_num valueCmp_def intFloat_exact)
  next
    case real
    then show ?thesis using p by (simp add: memCompare_num valueCmp_def dblLess_sgn)
  next
    case str
    then show ?thesis using p by (simp add: memCompare_num valueCmp_def)
  next
    case blob
    then show ?thesis using p by (simp add: memCompare_num valueCmp_def)
  qed
next
  case p: str
  from assms(2) show ?thesis
  proof (cases rule: cmp_wf_cases)
    case null
    then show ?thesis using p by (simp add: memCompare_null valueCmp_def)
  next
    case int
    then show ?thesis using p by (simp add: memCompare_num valueCmp_def)
  next
    case real
    then show ?thesis using p by (simp add: memCompare_num valueCmp_def)
  next
    case q: str
    show ?thesis
    proof (cases pColl)
      case None
      then have "c = lexCmp" using assms(3) by (simp add: collCmp_def)
      then show ?thesis
        using p q None blobCompare_lexCmp [of "cell_mem p" "cell_mem q"]
        by (auto simp: memCompare_text valueCmp_def memBlob_def)
    next
      case (Some coll)
      then show ?thesis
        using p q assms(3) compareMemString_direct [of coll c "cell_mem p" "cell_mem q" junk w]
        by (auto simp: memCompare_text valueCmp_def collCmp_def)
    qed
  next
    case blob
    then show ?thesis using p by (simp add: memCompare_text valueCmp_def)
  qed
next
  case p: blob
  from assms(2) show ?thesis
  proof (cases rule: cmp_wf_cases)
    case null
    then show ?thesis using p by (simp add: memCompare_null valueCmp_def)
  next
    case int
    then show ?thesis using p by (simp add: memCompare_num valueCmp_def)
  next
    case real
    then show ?thesis using p by (simp add: memCompare_num valueCmp_def)
  next
    case str
    then show ?thesis using p by (simp add: memCompare_text valueCmp_def)
  next
    case q: blob
    then show ?thesis
      using p blobCompare_lexCmp [of "cell_mem p" "cell_mem q"] by (auto simp: memCompare_text valueCmp_def)
  qed
qed

section \<open>Properties\<close>

text \<open>C20: Comparing a 64-bit integer with a double is exact, although neither type holds the values of the
  other: both variants of \<^verbatim>\<open>sqlite3IntFloatCompare\<close>, the one for a wide \<^verbatim>\<open>long double\<close> and the one that
  truncates the double and rounds the integer, return the sign of the difference of the two numbers
  for every integer and every double that is not a NaN, infinities included.\<close>

theorem int_float_compare_exact:
  assumes "\<not> IsNaN r"
  shows "sqlite3IntFloatCompare wide i r = sgn (sint i * 2 ^ 1074 - dblScaled r)"
  using intFloat_exact [OF assms] unfolding dblUnit_def .

theorem int_float_compare_exact_witness:
  "\<not> IsNaN 0x43DFFFFFFFFFFFFF \<and> sqlite3IntFloatCompare False 0x7FFFFFFFFFFFFC01 0x43DFFFFFFFFFFFFF = 1"
proof -
  have n: "\<not> IsNaN 0x43DFFFFFFFFFFFFF" by (simp add: IsNaN_def EXP754_def)
  have p: "(2 ^ 1084 :: int) = 1024 * 2 ^ 1074" using power_add [of "2 :: int" 10 1074] by simp
  have t: "unat (take_bit 63 (0x43DFFFFFFFFFFFFF :: u64)) = 1085 * 2 ^ 52 + (2 ^ 52 - 1)" "\<not> bit (0x43DFFFFFFFFFFFFF :: u64) 63"
    by (simp_all add: unsigned_take_bit_eq take_bit_eq_mod)
  have "dblScaled 0x43DFFFFFFFFFFFFF = (2 ^ 53 - 1) * 2 ^ 1084"
    unfolding dblScaled_def Let_def t by simp
  moreover have "sint (0x7FFFFFFFFFFFFC01 :: u64) = (2 ^ 53 - 1) * 1024 + 1"
    by simp
  ultimately show ?thesis
    using int_float_compare_exact [OF n, of False "0x7FFFFFFFFFFFFC01"] n by (simp add: p)
qed

text \<open>C13: \<^verbatim>\<open>sqlite3MemCompare\<close> computes one total order on all SQL values: NULLs first, then integers and
  reals by their exact values, then texts by the collating sequence, then blobs byte by byte (a
  zero-filled tail included). The order is total and transitive whenever the collating sequence is,
  and the built-in sequences BINARY, NOCASE and RTRIM are: they depend only on the bytes of the
  texts, stay inside them and compare the bytes, the bytes up to the first zero with ASCII letters
  folded, and the bytes without trailing spaces.\<close>

theorem mem_compare_order:
  assumes "cmp_wf p" "cmp_wf q" "collCmp (mem_enc (cell_mem p)) pColl c" "comparison c"
  shows "(\<exists>r. sqlite3MemCompare junk w wide p q pColl = Some (r, w) \<and> sgn r = sgn (valueCmp c (memValue p) (memValue q))) \<and>
    comparison (valueCmp c) \<and>
    collates \<lparr>coll_enc = e, coll_xCmp = binCollFunc\<rparr> lexCmp \<and> comparison lexCmp \<and>
    collates \<lparr>coll_enc = e, coll_xCmp = nocaseCollatingFunc\<rparr> nocaseCmp \<and> comparison nocaseCmp \<and>
    collates \<lparr>coll_enc = e, coll_xCmp = rtrimCollFunc\<rparr> (\<lambda>a b. lexCmp (rtrimmed a) (rtrimmed b)) \<and>
    comparison (\<lambda>a b. lexCmp (rtrimmed a) (rtrimmed b))"
  using memCompare_value [OF assms(1-3)] collation.valueCmp_order [OF collation.intro, OF assms(4)]
    bytes.comparison_axioms nocase.comparison_axioms rtrim.comparison_axioms
  by (simp add: collates_def binColl_lexCmp nocaseColl_cmp rtrimColl_lexCmp)

theorem mem_compare_order_witness:
  "cmp_wf (sampleCell MEM_Str 0 [0x61] 0) \<and> cmp_wf (sampleCell MEM_Str 0 [0x41, 0x42] 0) \<and> comparison nocaseCmp \<and>
   (\<exists>r. sqlite3MemCompare (\<lambda>_. 7) [] True (sampleCell MEM_Str 0 [0x61] 0) (sampleCell MEM_Str 0 [0x41, 0x42] 0)
       (Some \<lparr>coll_enc = SQLITE_UTF8, coll_xCmp = nocaseCollatingFunc\<rparr>) = Some (r, []) \<and> r < 0)"
proof -
  let ?p = "sampleCell MEM_Str 0 [0x61] 0" and ?q = "sampleCell MEM_Str 0 [0x41, 0x42] 0"
  have wf: "cmp_wf ?p" "cmp_wf ?q" by (simp_all add: cmp_wf_def mem_wf_def sampleCell_def MEM_defs)
  have c: "collCmp (mem_enc (cell_mem ?p)) (Some \<lparr>coll_enc = SQLITE_UTF8, coll_xCmp = nocaseCollatingFunc\<rparr>) nocaseCmp"
    using nocaseColl_cmp by (simp add: collCmp_def collates_def sampleCell_def)
  have "valueCmp nocaseCmp (memValue ?p) (memValue ?q) = - 1"
    by code_simp
  with mem_compare_order [OF wf c nocase.comparison_axioms, of "\<lambda>_. 7" "[]" True SQLITE_UTF8] obtain r where
    "sqlite3MemCompare (\<lambda>_. 7) [] True ?p ?q (Some \<lparr>coll_enc = SQLITE_UTF8, coll_xCmp = nocaseCollatingFunc\<rparr>) = Some (r, [])"
    "sgn r = - 1"
    by auto
  moreover from this(2) have "r < 0" by (simp add: sgn_if split: if_splits)
  ultimately show ?thesis using wf nocase.comparison_axioms by blast
qed

end
