(* ===== verification/RecordCompare.thy ===== *)
theory RecordCompare
  imports MemCompare
begin

text \<open>
  Comparing a record with a key (\<^verbatim>\<open>vdbeaux.c\<close>): the general comparison \<^verbatim>\<open>sqlite3VdbeRecordCompareWithSkip\<close>,
  the two fast ones for a first column that is an integer or a text, and the choice between them.
  The record is on the left as bytes, the key on the right as unpacked cells.

  \<open>mem1\<close> is the uninitialised local cell of the C function, \<open>wide\<close> the size of \<^verbatim>\<open>long double\<close> (theory
  \<open>MemCompare\<close>). Offsets into the record are 32-bit words, since a corrupt record controls them;
  \<open>None\<close> is an access outside an object.
\<close>

section \<open>Keys\<close>

record keyinfo =
  ki_enc :: enc
  ki_nKeyField :: nat
  ki_nAllField :: nat
  ki_aSortFlags :: "u8 list"
  ki_aColl :: "collseq option list"

record unpacked_record =
  ur_pKeyInfo :: keyinfo
  ur_aMem :: "cell list"
  ur_nField :: nat
  ur_default_rc :: int
  ur_errCode :: result_code
  ur_r1 :: int
  ur_r2 :: int
  ur_eqSeen :: bool

definition KEYINFO_ORDER_DESC :: u8 where "KEYINFO_ORDER_DESC = 0x01"
definition KEYINFO_ORDER_BIGNULL :: u8 where "KEYINFO_ORDER_BIGNULL = 0x02"

section \<open>One field\<close>

definition vdbeRecordDecodeInt :: "u32 \<Rightarrow> u8 list \<Rightarrow> nat \<Rightarrow> u64 option" where
  "vdbeRecordDecodeInt serial_type aKey p =
     (if serial_type = 0 \<or> serial_type = 1 then
        do {
          b0 \<leftarrow> rd aKey p;
          Some (scast (ONE_BYTE_INT b0))
        }
      else if serial_type = 2 then
        do {
          b0 \<leftarrow> rd aKey p; b1 \<leftarrow> rd aKey (p + 1);
          Some (scast (TWO_BYTE_INT b0 b1))
        }
      else if serial_type = 3 then
        do {
          b0 \<leftarrow> rd aKey p; b1 \<leftarrow> rd aKey (p + 1); b2 \<leftarrow> rd aKey (p + 2);
          Some (scast (THREE_BYTE_INT b0 b1 b2))
        }
      else if serial_type = 4 then
        do {
          b0 \<leftarrow> rd aKey p; b1 \<leftarrow> rd aKey (p + 1); b2 \<leftarrow> rd aKey (p + 2); b3 \<leftarrow> rd aKey (p + 3);
          Some (scast (FOUR_BYTE_UINT b0 b1 b2 b3))
        }
      else if serial_type = 5 then
        do {
          b0 \<leftarrow> rd aKey p; b1 \<leftarrow> rd aKey (p + 1); b2 \<leftarrow> rd aKey (p + 2); b3 \<leftarrow> rd aKey (p + 3);
          b4 \<leftarrow> rd aKey (p + 4); b5 \<leftarrow> rd aKey (p + 5);
          Some (ucast (FOUR_BYTE_UINT b2 b3 b4 b5) + push_bit 32 1 * scast (TWO_BYTE_INT b0 b1))
        }
      else if serial_type = 6 then
        do {
          b0 \<leftarrow> rd aKey p; b1 \<leftarrow> rd aKey (p + 1); b2 \<leftarrow> rd aKey (p + 2); b3 \<leftarrow> rd aKey (p + 3);
          b4 \<leftarrow> rd aKey (p + 4); b5 \<leftarrow> rd aKey (p + 5); b6 \<leftarrow> rd aKey (p + 6); b7 \<leftarrow> rd aKey (p + 7);
          Some (push_bit 32 (ucast (FOUR_BYTE_UINT b0 b1 b2 b3)) OR ucast (FOUR_BYTE_UINT b4 b5 b6 b7))
        }
      else Some (ucast (serial_type - 8)))"

text \<open>Comparing one field gives a sign, the serial type that was read and whether \<^verbatim>\<open>errCode\<close> becomes
  \<^verbatim>\<open>SQLITE_NOMEM\<close>, or finds the record corrupt.\<close>

datatype field_cmp = FieldCmp int u32 bool | FieldCorrupt

text \<open>The key has an integer.\<close>

definition compareRhsInt :: "bool \<Rightarrow> cell \<Rightarrow> u8 list \<Rightarrow> nat \<Rightarrow> nat \<Rightarrow> cell \<Rightarrow> field_cmp option" where
  "compareRhsInt wide mem1 aKey1 idx1 d1 pRhs =
     do {
       b \<leftarrow> rd aKey1 idx1;
       let serial_type = ucast b;
       if serial_type \<ge> 10 then Some (FieldCmp 1 serial_type False)
       else if serial_type = 0 then Some (FieldCmp (- 1) serial_type False)
       else if serial_type = 7 then
         do {
           (k, mem1) \<leftarrow> sqlite3VdbeSerialGet aKey1 d1 serial_type mem1;
           Some (FieldCmp (- sqlite3IntFloatCompare wide (cell_u pRhs) (cell_u mem1)) serial_type False)
         }
       else
         do {
           lhs \<leftarrow> vdbeRecordDecodeInt serial_type aKey1 d1;
           Some (FieldCmp (cmpI64 lhs (cell_u pRhs)) serial_type False)
         }
     }"

text \<open>The key has a real.\<close>

definition compareRhsReal :: "bool \<Rightarrow> cell \<Rightarrow> u8 list \<Rightarrow> nat \<Rightarrow> nat \<Rightarrow> cell \<Rightarrow> field_cmp option" where
  "compareRhsReal wide mem1 aKey1 idx1 d1 pRhs =
     do {
       b \<leftarrow> rd aKey1 idx1;
       let serial_type = ucast b;
       if serial_type \<ge> 10 then Some (FieldCmp 1 serial_type False)
       else if serial_type = 0 then Some (FieldCmp (- 1) serial_type False)
       else
         do {
           (k, mem1) \<leftarrow> sqlite3VdbeSerialGet aKey1 d1 serial_type mem1;
           Some (FieldCmp
             (if serial_type = 7 then
                (if dblLess (cell_u mem1) (cell_u pRhs) then - 1 else if dblLess (cell_u pRhs) (cell_u mem1) then 1 else 0)
              else sqlite3IntFloatCompare wide (cell_u mem1) (cell_u pRhs)) serial_type False)
         }
     }"

text \<open>The key has a text, field \<open>i\<close> of the record.\<close>

definition compareRhsStr ::
  "(nat \<Rightarrow> u8) \<Rightarrow> oom \<Rightarrow> keyinfo \<Rightarrow> cell \<Rightarrow> nat \<Rightarrow> u8 list \<Rightarrow> nat \<Rightarrow> nat \<Rightarrow> u32 \<Rightarrow> cell \<Rightarrow> (field_cmp \<times> oom) option" where
  "compareRhsStr junk w pKeyInfo mem1 nKey1 aKey1 i idx1 d1 pRhs =
     do {
       (k, serial_type) \<leftarrow> getVarint32 (drop idx1 aKey1);
       if serial_type < 12 then Some (FieldCmp (- 1) serial_type False, w)
       else if serial_type AND 1 = 0 then Some (FieldCmp 1 serial_type False, w)
       else
         (let n = (serial_type - 12) div 2
          in if d1 + n > word_of_nat nKey1 \<or> ki_nAllField pKeyInfo \<le> i then Some (FieldCorrupt, w)
             else
               do {
                 pColl \<leftarrow> rd (ki_aColl pKeyInfo) i;
                 case pColl of
                   Some coll \<Rightarrow>
                     do {
                       (rc, e, w) \<leftarrow> vdbeCompareMemString junk w
                         ((cell_mem mem1)\<lparr>mem_n := unat n, mem_enc := ki_enc pKeyInfo, mem_flags := MEM_Str,
                                          mem_z := drop (unat d1) aKey1\<rparr>) (cell_mem pRhs) coll;
                       Some (FieldCmp rc serial_type e, w)
                     }
                 | None \<Rightarrow>
                     do {
                       rc \<leftarrow> memcmp (drop (unat d1) aKey1) (mem_z (cell_mem pRhs)) (min (unat n) (mem_n (cell_mem pRhs)));
                       Some (FieldCmp (if rc = 0 then int (unat n) - int (mem_n (cell_mem pRhs)) else rc) serial_type False, w)
                     }
               })
     }"

text \<open>The key has a blob.\<close>

definition compareRhsBlob :: "nat \<Rightarrow> u8 list \<Rightarrow> nat \<Rightarrow> u32 \<Rightarrow> cell \<Rightarrow> field_cmp option" where
  "compareRhsBlob nKey1 aKey1 idx1 d1 pRhs =
     do {
       (k, serial_type) \<leftarrow> getVarint32 (drop idx1 aKey1);
       if serial_type < 12 \<or> serial_type AND 1 \<noteq> 0 then Some (FieldCmp (- 1) serial_type False)
       else
         (let nStr = (serial_type - 12) div 2
          in if d1 + nStr > word_of_nat nKey1 then Some FieldCorrupt
             else if cell_flags pRhs AND MEM_Zero \<noteq> 0 then
               do {
                 z \<leftarrow> isAllZero (drop (unat d1) aKey1) (unat nStr);
                 Some (FieldCmp (if \<not> z then 1 else int (unat nStr) - int (mem_nZero (cell_mem pRhs))) serial_type False)
               }
             else
               do {
                 rc \<leftarrow> memcmp (drop (unat d1) aKey1) (mem_z (cell_mem pRhs)) (min (unat nStr) (mem_n (cell_mem pRhs)));
                 Some (FieldCmp (if rc = 0 then int (unat nStr) - int (mem_n (cell_mem pRhs)) else rc) serial_type False)
               })
     }"

definition compareField ::
  "(nat \<Rightarrow> u8) \<Rightarrow> oom \<Rightarrow> bool \<Rightarrow> keyinfo \<Rightarrow> cell \<Rightarrow> nat \<Rightarrow> u8 list \<Rightarrow> nat \<Rightarrow> u32 \<Rightarrow> u32 \<Rightarrow> cell \<Rightarrow>
    (field_cmp \<times> oom) option" where
  "compareField junk w wide pKeyInfo mem1 nKey1 aKey1 i idx1 d1 pRhs =
     (if cell_flags pRhs AND (MEM_Int OR MEM_IntReal) \<noteq> 0 then
        map_option (\<lambda>r. (r, w)) (compareRhsInt wide mem1 aKey1 (unat idx1) (unat d1) pRhs)
      else if cell_flags pRhs AND MEM_Real \<noteq> 0 then
        map_option (\<lambda>r. (r, w)) (compareRhsReal wide mem1 aKey1 (unat idx1) (unat d1) pRhs)
      else if cell_flags pRhs AND MEM_Str \<noteq> 0 then
        compareRhsStr junk w pKeyInfo mem1 nKey1 aKey1 i (unat idx1) d1 pRhs
      else if cell_flags pRhs AND MEM_Blob \<noteq> 0 then
        map_option (\<lambda>r. (r, w)) (compareRhsBlob nKey1 aKey1 (unat idx1) d1 pRhs)
      else
        do {
          b \<leftarrow> rd aKey1 (unat idx1);
          Some (FieldCmp (if b \<noteq> 0 then 1 else 0) (ucast b) False, w)
        })"

text \<open>The direction of the column: \<open>isNull\<close> says that one side is NULL.\<close>

definition sortResult :: "u8 \<Rightarrow> bool \<Rightarrow> int \<Rightarrow> int" where
  "sortResult sortFlags isNull rc =
     (if sortFlags \<noteq> 0 \<and>
         (sortFlags AND KEYINFO_ORDER_BIGNULL = 0 \<or> (sortFlags AND KEYINFO_ORDER_DESC \<noteq> 0) \<noteq> isNull)
      then - rc else rc)"

section \<open>The general comparison\<close>

text \<open>The loop \<^verbatim>\<open>do{ ... }while( idx1<(unsigned)szHdr1 && d1<=(unsigned)nKey1 )\<close>; the key's field is
  \<^verbatim>\<open>pPKey2->aMem[i]\<close>.\<close>

function compareLoop ::
  "(nat \<Rightarrow> u8) \<Rightarrow> oom \<Rightarrow> bool \<Rightarrow> cell \<Rightarrow> nat \<Rightarrow> u8 list \<Rightarrow> u32 \<Rightarrow> nat \<Rightarrow> u32 \<Rightarrow> u32 \<Rightarrow> unpacked_record \<Rightarrow>
    (int \<times> unpacked_record \<times> oom) option" where
  "compareLoop junk w wide mem1 nKey1 aKey1 szHdr1 i idx1 d1 pPKey2 =
     (case rd (ur_aMem pPKey2) i of
        None \<Rightarrow> None
      | Some pRhs \<Rightarrow>
          do {
            (r, w) \<leftarrow> compareField junk w wide (ur_pKeyInfo pPKey2) mem1 nKey1 aKey1 i idx1 d1 pRhs;
            case r of
              FieldCorrupt \<Rightarrow> Some (0, pPKey2\<lparr>ur_errCode := SQLITE_CORRUPT\<rparr>, w)
            | FieldCmp rc serial_type e \<Rightarrow>
                (let pPKey2 = (if e then pPKey2\<lparr>ur_errCode := SQLITE_NOMEM\<rparr> else pPKey2)
                 in if rc \<noteq> 0 then
                      do {
                        sortFlags \<leftarrow> rd (ki_aSortFlags (ur_pKeyInfo pPKey2)) i;
                        Some (sortResult sortFlags (serial_type = 0 \<or> cell_flags pRhs AND MEM_Null \<noteq> 0) rc, pPKey2, w)
                      }
                    else if i + 1 = ur_nField pPKey2 then Some (ur_default_rc pPKey2, pPKey2\<lparr>ur_eqSeen := True\<rparr>, w)
                    else
                      do {
                        n \<leftarrow> sqlite3VdbeSerialTypeLen serial_type;
                        let d1 = d1 + word_of_nat n;
                        let idx1 = idx1 + word_of_nat (sqlite3VarintLen (ucast serial_type));
                        if idx1 < szHdr1 \<and> d1 \<le> word_of_nat nKey1 then
                          compareLoop junk w wide mem1 nKey1 aKey1 szHdr1 (i + 1) idx1 d1 pPKey2
                        else Some (ur_default_rc pPKey2, pPKey2\<lparr>ur_eqSeen := True\<rparr>, w)
                      })
          })"
  by pat_completeness auto
termination
  by (relation "measure (\<lambda>(junk, w, wide, mem1, nKey1, aKey1, szHdr1, i, idx1, d1, p). length (ur_aMem p) - i)")
    (auto simp: rd_def split: if_splits)

declare compareLoop.simps [simp del]

definition sqlite3VdbeRecordCompareWithSkip ::
  "(nat \<Rightarrow> u8) \<Rightarrow> oom \<Rightarrow> bool \<Rightarrow> cell \<Rightarrow> nat \<Rightarrow> u8 list \<Rightarrow> unpacked_record \<Rightarrow> bool \<Rightarrow>
    (int \<times> unpacked_record \<times> oom) option" where
  "sqlite3VdbeRecordCompareWithSkip junk w wide mem1 nKey1 aKey1 pPKey2 bSkip =
     do {
       (idx1, szHdr1, d1, i) \<leftarrow>
         (if bSkip then
            do {
              (n, s1) \<leftarrow> getVarint32 (drop 1 aKey1);
              b \<leftarrow> rd aKey1 0;
              len \<leftarrow> sqlite3VdbeSerialTypeLen s1;
              Some (1 + word_of_nat n, ucast b, ucast b + word_of_nat len, 1)
            }
          else
            do {
              (n, szHdr1) \<leftarrow> getVarint32 aKey1;
              Some (word_of_nat n, szHdr1, szHdr1, 0)
            });
       if d1 > word_of_nat nKey1 then Some (0, pPKey2\<lparr>ur_errCode := SQLITE_CORRUPT\<rparr>, w)
       else compareLoop junk w wide mem1 nKey1 aKey1 szHdr1 i idx1 d1 pPKey2
     }"

definition sqlite3VdbeRecordCompare ::
  "(nat \<Rightarrow> u8) \<Rightarrow> oom \<Rightarrow> bool \<Rightarrow> cell \<Rightarrow> nat \<Rightarrow> u8 list \<Rightarrow> unpacked_record \<Rightarrow> (int \<times> unpacked_record \<times> oom) option" where
  "sqlite3VdbeRecordCompare junk w wide mem1 nKey1 aKey1 pPKey2 =
     sqlite3VdbeRecordCompareWithSkip junk w wide mem1 nKey1 aKey1 pPKey2 False"

section \<open>The fast comparisons\<close>

text \<open>The integer of the first field, for the serial types that the switch handles itself.\<close>

definition fastDecodeInt :: "u32 \<Rightarrow> u8 list \<Rightarrow> nat \<Rightarrow> u64 option" where
  "fastDecodeInt serial_type aKey p =
     (if serial_type = 8 then Some 0 else if serial_type = 9 then Some 1
      else vdbeRecordDecodeInt serial_type aKey p)"

definition vdbeRecordCompareInt ::
  "(nat \<Rightarrow> u8) \<Rightarrow> oom \<Rightarrow> bool \<Rightarrow> cell \<Rightarrow> nat \<Rightarrow> u8 list \<Rightarrow> unpacked_record \<Rightarrow> (int \<times> unpacked_record \<times> oom) option" where
  "vdbeRecordCompareInt junk w wide mem1 nKey1 pKey1 pPKey2 =
     do {
       b \<leftarrow> rd pKey1 0;
       serial_type \<leftarrow> map_option ucast (rd pKey1 1);
       if serial_type \<in> {1, 2, 3, 4, 5, 6, 8, 9} then
         do {
           lhs \<leftarrow> fastDecodeInt serial_type pKey1 (unat (b AND 0x3F));
           m0 \<leftarrow> rd (ur_aMem pPKey2) 0;
           let v = cell_u m0;
           if lhs <s v then Some (ur_r1 pPKey2, pPKey2, w)
           else if v <s lhs then Some (ur_r2 pPKey2, pPKey2, w)
           else if ur_nField pPKey2 > 1 then
             sqlite3VdbeRecordCompareWithSkip junk w wide mem1 nKey1 pKey1 pPKey2 True
           else Some (ur_default_rc pPKey2, pPKey2\<lparr>ur_eqSeen := True\<rparr>, w)
         }
       else sqlite3VdbeRecordCompare junk w wide mem1 nKey1 pKey1 pPKey2
     }"

definition vdbeRecordCompareString ::
  "(nat \<Rightarrow> u8) \<Rightarrow> oom \<Rightarrow> bool \<Rightarrow> cell \<Rightarrow> nat \<Rightarrow> u8 list \<Rightarrow> unpacked_record \<Rightarrow> (int \<times> unpacked_record \<times> oom) option" where
  "vdbeRecordCompareString junk w wide mem1 nKey1 aKey1 pPKey2 =
     do {
       (k, serial_type) \<leftarrow> getVarint32 (drop 1 aKey1);
       if serial_type <s 12 then Some (ur_r1 pPKey2, pPKey2, w)
       else if serial_type AND 1 = 0 then Some (ur_r2 pPKey2, pPKey2, w)
       else
         do {
           b \<leftarrow> rd aKey1 0;
           m0 \<leftarrow> rd (ur_aMem pPKey2) 0;
           let szHdr = unat b;
           let nStr = unat ((serial_type - 12) div 2);
           if szHdr + nStr > nKey1 then Some (0, pPKey2\<lparr>ur_errCode := SQLITE_CORRUPT\<rparr>, w)
           else
             do {
               res \<leftarrow> memcmp (drop szHdr aKey1) (mem_z (cell_mem m0)) (min (mem_n (cell_mem m0)) nStr);
               if res > 0 then Some (ur_r2 pPKey2, pPKey2, w)
               else if res < 0 then Some (ur_r1 pPKey2, pPKey2, w)
               else
                 (let res = int nStr - int (mem_n (cell_mem m0))
                  in if res = 0 then
                       (if ur_nField pPKey2 > 1 then
                          sqlite3VdbeRecordCompareWithSkip junk w wide mem1 nKey1 aKey1 pPKey2 True
                        else Some (ur_default_rc pPKey2, pPKey2\<lparr>ur_eqSeen := True\<rparr>, w))
                     else if res > 0 then Some (ur_r2 pPKey2, pPKey2, w)
                     else Some (ur_r1 pPKey2, pPKey2, w))
             }
         }
     }"

datatype comparer = RecordCompareGeneral | RecordCompareInt | RecordCompareString

text \<open>The function that is chosen, and the key with \<^verbatim>\<open>r1\<close> and \<^verbatim>\<open>r2\<close> set.\<close>

definition sqlite3VdbeFindCompare :: "unpacked_record \<Rightarrow> (comparer \<times> unpacked_record) option" where
  "sqlite3VdbeFindCompare p =
     (if ki_nAllField (ur_pKeyInfo p) \<le> 13 then
        do {
          m0 \<leftarrow> rd (ur_aMem p) 0;
          f0 \<leftarrow> rd (ki_aSortFlags (ur_pKeyInfo p)) 0;
          if f0 \<noteq> 0 \<and> f0 AND KEYINFO_ORDER_BIGNULL \<noteq> 0 then Some (RecordCompareGeneral, p)
          else
            do {
              let p = (if f0 \<noteq> 0 then p\<lparr>ur_r1 := 1, ur_r2 := - 1\<rparr> else p\<lparr>ur_r1 := - 1, ur_r2 := 1\<rparr>);
              let flags = cell_flags m0;
              if flags AND MEM_Int \<noteq> 0 then Some (RecordCompareInt, p)
              else
                do {
                  c0 \<leftarrow> rd (ki_aColl (ur_pKeyInfo p)) 0;
                  if flags AND (MEM_Real OR MEM_IntReal OR MEM_Null OR MEM_Blob) = 0 \<and> c0 = None
                  then Some (RecordCompareString, p)
                  else Some (RecordCompareGeneral, p)
                }
            }
        }
      else Some (RecordCompareGeneral, p))"

fun runCompare ::
  "comparer \<Rightarrow> (nat \<Rightarrow> u8) \<Rightarrow> oom \<Rightarrow> bool \<Rightarrow> cell \<Rightarrow> nat \<Rightarrow> u8 list \<Rightarrow> unpacked_record \<Rightarrow>
    (int \<times> unpacked_record \<times> oom) option" where
  "runCompare RecordCompareGeneral = sqlite3VdbeRecordCompare"
| "runCompare RecordCompareInt = vdbeRecordCompareInt"
| "runCompare RecordCompareString = vdbeRecordCompareString"

section \<open>The order of keys\<close>

text \<open>The order of one column: the flag for descending order reverses it, and the flag for big NULLs
  moves the NULLs to the other end.\<close>

definition columnCmp :: "u8 \<Rightarrow> (u8 list \<Rightarrow> u8 list \<Rightarrow> int) \<Rightarrow> sql_value \<Rightarrow> sql_value \<Rightarrow> int" where
  "columnCmp flags c v r =
     (let nullRank = (if bit flags 0 = bit flags 1 then - 1 else 1)
      in if valueClass v = 0 \<and> valueClass r = 0 then 0
         else if valueClass v = 0 then nullRank
         else if valueClass r = 0 then - nullRank
         else if bit flags 0 then - valueCmp c v r
         else valueCmp c v r)"

fun keyCmp :: "(u8 \<times> (u8 list \<Rightarrow> u8 list \<Rightarrow> int)) list \<Rightarrow> sql_value list \<Rightarrow> sql_value list \<Rightarrow> int" where
  "keyCmp ((f, c) # cs) (v # vs) (r # rs) = (if columnCmp f c v r \<noteq> 0 then columnCmp f c v r else keyCmp cs vs rs)"
| "keyCmp _ _ _ = 0"

lemma columnCmp_order:
  assumes "comparison c"
  shows "comparison (columnCmp f c)"
proof
  note vc = collation.valueCmp_order [OF collation.intro, OF assms]
  fix x y z
  show "sgn (columnCmp f c y x) = - sgn (columnCmp f c x y)"
    using comparison.cmp_anti [OF vc, of y x] by (auto simp: columnCmp_def Let_def)
  show "columnCmp f c x y \<le> 0 \<Longrightarrow> columnCmp f c y z \<le> 0 \<Longrightarrow> columnCmp f c x z \<le> 0"
    using comparison.cmp_le_trans [OF vc, of x y z] comparison.cmp_le_trans [OF vc, of z y x]
      comparison.cmp_swap(1) [OF vc]
    by (auto simp: columnCmp_def Let_def split: if_splits)
qed

text \<open>A search in records that are in order: what precedes a record that is at most the key is at most
  the key, and what follows one that is at least the key is at least the key. The key may have fewer
  fields than the records.\<close>

lemma keyCmp_search:
  assumes "list_all (\<lambda>(f, c). comparison c) cs" "length x = length y" "length cs \<le> length y" "keyCmp cs x y \<le> 0"
  shows "(keyCmp cs y k \<le> 0 \<longrightarrow> keyCmp cs x k \<le> 0) \<and> (0 \<le> keyCmp cs x k \<longrightarrow> 0 \<le> keyCmp cs y k)"
  using assms
proof (induction cs x k arbitrary: y rule: keyCmp.induct)
  case (1 f c cs v vs r rs)
  obtain u us where y: "y = u # us" using "1.prems"(2) by (cases y) auto
  have "comparison (columnCmp f c)" using "1.prems"(1) columnCmp_order by simp
  note cc = this comparison.cmp_less_trans [OF this, of v u r] comparison.cmp_equal_left [OF this, of v u r]
    comparison.cmp_le_trans [OF this, of v u r] comparison.cmp_swap [OF this]
  show ?case
  proof (cases "columnCmp f c v u = 0")
    case True
    then have "sgn (columnCmp f c v r) = sgn (columnCmp f c u r)" by (rule cc(3))
    moreover have "columnCmp f c v r = 0 \<Longrightarrow> (keyCmp cs us rs \<le> 0 \<longrightarrow> keyCmp cs vs rs \<le> 0) \<and> (0 \<le> keyCmp cs vs rs \<longrightarrow> 0 \<le> keyCmp cs us rs)"
      using "1.prems" True y by (intro "1.IH") auto
    ultimately show ?thesis
      using y by (auto simp: sgn_if split: if_splits)
  next
    case False
    then have "columnCmp f c v u < 0" using "1.prems"(4) y by (auto split: if_splits)
    then have "columnCmp f c u r \<le> 0 \<longrightarrow> columnCmp f c v r < 0" using cc(2) by blast
    then show ?thesis using y by (cases "columnCmp f c u r \<le> 0") auto
  qed
qed auto

lemma bit_flags:
  assumes "f \<in> {0, 1, 2, 3 :: u8}"
  shows "sortResult f isNull rc = (if isNull \<and> bit f 1 then (if bit f 0 then rc else - rc) else if bit f 0 then - rc else rc)"
  using assms by (auto simp: sortResult_def KEYINFO_ORDER_DESC_def KEYINFO_ORDER_BIGNULL_def bit_0)

lemma class_null: "valueClass v = 0 \<Longrightarrow> numKey v = 0" "valueClass v \<noteq> 0 \<Longrightarrow> sgn (valueClass v) = 1" "0 \<le> valueClass v"
  by (cases v; simp)+

lemma sortResult_column:
  assumes "f \<in> {0, 1, 2, 3 :: u8}" "sgn rc = sgn (valueCmp c v r)" "rc \<noteq> 0"
  shows "sgn (sortResult f (valueClass v = 0 \<or> valueClass r = 0) rc) = sgn (columnCmp f c v r)" 
proof -
  have "valueCmp c v r \<noteq> 0" using assms(2, 3) by (metis sgn_0 sgn_0_0)
  then show ?thesis
    using assms(2) class_null [of v] class_null [of r] unfolding bit_flags [OF assms(1)] columnCmp_def Let_def
    by (auto simp: valueCmp_def)
qed

section \<open>The fields of a record\<close>

text \<open>The first byte of a serial type in the header: the type itself, if it is below 128.\<close>

lemma type_first:
  obtains b r where "snd (putVarint32 t) = b # r" "t < 128 \<longrightarrow> ucast b = t \<and> r = []" "128 \<le> t \<longrightarrow> (128 :: u32) \<le> ucast b"
proof -
  obtain b r where br: "snd (putVarint32 t) = b # r"
    using putVarint32_le(2) [of t] core32.put_length [of t] by (cases "snd (putVarint32 t)") auto
  have get: "getVarint32 (b # r) = Some (Suc (length r), t)"
    using core32.get_put [of t "[]"] core32.put_length [of t] br by simp
  have "b < 0x80 \<Longrightarrow> ucast b = t \<and> t < 128"
  proof -
    assume "b < 0x80"
    then have "ucast b = t" using get by (simp add: getVarint32_def)
    moreover have "(ucast b :: u32) < 128" using \<open>b < 0x80\<close> by (simp add: word_less_nat_alt)
    ultimately show ?thesis by simp
  qed
  moreover have "t < 128 \<Longrightarrow> r = [] \<and> b < 0x80"
  proof -
    assume "t < 128"
    then have "unat t < 128" by (simp add: word_less_nat_alt)
    then have "fst (putVarint32 t) = 1" using vlen32 [of "unat t"] vlen [of "unat t"] by simp
    then have "r = []" using core32.put_length [of t] br by simp
    moreover from this get have "b < 0x80" by (rule_tac ccontr) (simp add: getVarint32_def sqlite3GetVarint32_def)
    ultimately show ?thesis by simp
  qed
  moreover have "\<not> b < 0x80 \<Longrightarrow> (128 :: u32) \<le> ucast b"
    by (simp add: word_less_nat_alt word_le_nat_alt)
  ultimately show thesis
    using br not_le [of 128 t] by (intro that [of b r]) blast+
qed

lemma four_byte: "FOUR_BYTE_UINT a b c d = FOUR_BYTE_INT a b c d"
  by (rule bit_word_eqI) (auto simp: byte_ints mult_256 bit_simps)

text \<open>\<^verbatim>\<open>vdbeRecordDecodeInt\<close> is a second copy of the integer cases of \<^verbatim>\<open>sqlite3VdbeSerialGet\<close>.\<close>

lemma decodeInt_get:
  assumes "t \<in> {1, 2, 3, 4, 5, 6, 8, 9}" "sqlite3VdbeSerialGet buf p t m = Some (k, q)"
  shows "vdbeRecordDecodeInt t buf p = Some (cell_u q)" "q = setInt (cell_u q) m"
proof -
  have h: "push_bit 32 x OR ucast y = push_bit 32 (x :: u64) + ucast (y :: u32)" for x y
    using add_halves [of y x] by (simp add: add.commute or.commute)
  have "vdbeRecordDecodeInt t buf p = Some (cell_u q) \<and> q = setInt (cell_u q) m"
    using assms
    by (auto simp: vdbeRecordDecodeInt_def sqlite3VdbeSerialGet_def serialGet_def setInt_def bind_eq_Some_conv four_byte h)
  then show "vdbeRecordDecodeInt t buf p = Some (cell_u q)" "q = setInt (cell_u q) m" by simp_all
qed

lemma encodes_get:
  assumes "encodes t bs v"
  obtains q where "sqlite3VdbeSerialGet (xs @ bs @ ys) (length xs) t p = Some (word_of_nat (length bs), q)" "recordValue q = v"
  using assms unfolding encodes_def by blast

lemma encodes_len: "encodes t bs v \<Longrightarrow> length bs < 2 ^ 31" "encodes t bs v \<Longrightarrow> serialClass t v"
  by (simp_all add: encodes_def)

lemma encodes_typeLen:
  assumes "encodes t bs v"
  shows "sqlite3VdbeSerialTypeLen t = Some (length bs)"
proof -
  obtain q where "sqlite3VdbeSerialGet ([] @ bs @ []) (length ([] :: u8 list)) t undefined = Some (word_of_nat (length bs), q)"
    by (rule encodes_get [OF assms])
  from serialTypeLen_get [OF this] show ?thesis using encodes_len(1) [OF assms] by simp
qed

lemma encodes_decode:
  assumes "encodes t bs (SqlInt i)"
  shows "vdbeRecordDecodeInt t (xs @ bs @ ys) (length xs) = Some i"
proof -
  obtain q where q: "sqlite3VdbeSerialGet (xs @ bs @ ys) (length xs) t undefined = Some (word_of_nat (length bs), q)" "recordValue q = SqlInt i"
    by (rule encodes_get [OF assms])
  have "t \<in> {1, 2, 3, 4, 5, 6, 8, 9}" using encodes_len(2) [OF assms] by simp
  note d = decodeInt_get [OF this q(1)]
  have "cell_u q = i" using q(2) d(2) recordValue_setInt [of "cell_u q" undefined] by simp
  then show ?thesis using d(1) by simp
qed

lemma get_real: "sqlite3VdbeSerialGet buf p 7 m = Some (k, q) \<Longrightarrow> recordValue q = SqlReal r \<Longrightarrow> cell_u q = r"
  by (auto simp: sqlite3VdbeSerialGet_def serialGet_def bind_eq_Some_conv Let_def recordValue_def MEM_defs split: if_splits)

lemma encodes_get_number:
  assumes "encodes t bs v" "valueClass v = 1"
  obtains k q where "sqlite3VdbeSerialGet (xs @ bs @ ys) (length xs) t p = Some (k, q)"
    "v = (if t = 7 then SqlReal (cell_u q) else SqlInt (cell_u q))"
proof -
  obtain q where q: "sqlite3VdbeSerialGet (xs @ bs @ ys) (length xs) t p = Some (word_of_nat (length bs), q)" "recordValue q = v"
    by (rule encodes_get [OF assms(1)])
  have "v = (if t = 7 then SqlReal (cell_u q) else SqlInt (cell_u q))"
  proof (cases v)
    case (SqlInt i)
    then have "t \<in> {1, 2, 3, 4, 5, 6, 8, 9}" using encodes_len(2) [OF assms(1)] by simp
    with decodeInt_get(2) [OF this q(1)] SqlInt q(2) recordValue_setInt [of "cell_u q" p] show ?thesis by auto
  next
    case (SqlReal r)
    then have "t = 7" using encodes_len(2) [OF assms(1)] by simp
    with q SqlReal get_real show ?thesis by auto
  qed (use assms(2) in simp_all)
  with q(1) show thesis by (rule that)
qed

text \<open>The bytes of a text or a blob are the value.\<close>

lemma encodes_bytes:
  assumes "encodes t bs v" "2 \<le> valueClass v"
  shows "valueBytes v = bs" "unat ((t - 12) div 2) = length bs" 
proof -
  have "12 \<le> t" using encodes_len(2) [OF assms(1)] assms(2) by (cases v) auto
  then have small: "t \<noteq> 0" "t \<noteq> 1" "t \<noteq> 2" "t \<noteq> 3" "t \<noteq> 4" "t \<noteq> 5" "t \<noteq> 6" "t \<noteq> 7" "t \<noteq> 8" "t \<noteq> 9" "t \<noteq> 10" "t \<noteq> 11" by (auto simp: word_le_nat_alt)
  obtain q where q: "sqlite3VdbeSerialGet ([] @ bs @ []) (length ([] :: u8 list)) t undefined = Some (word_of_nat (length bs), q)" "recordValue q = v"
    by (rule encodes_get [OF assms(1)])
  then show n: "unat ((t - 12) div 2) = length bs"
    using small encodes_len(1) [OF assms(1)] by (auto simp: sqlite3VdbeSerialGet_def Let_def)
  show "valueBytes v = bs"
    using q small n by (auto simp: sqlite3VdbeSerialGet_def Let_def recordValue_def memBlob_def memText_def MEM_defs)
qed

section \<open>Comparing one field\<close>

text \<open>The record has the serial type \<open>t\<close> at \<open>idx\<close> and the bytes \<open>bs\<close> of the field at \<open>d\<close>.\<close>

definition fieldAt :: "nat \<Rightarrow> u8 list \<Rightarrow> nat \<Rightarrow> nat \<Rightarrow> u32 \<Rightarrow> u8 list \<Rightarrow> bool" where
  "fieldAt nKey aKey idx d t bs \<longleftrightarrow>
     (\<exists>xs ys. aKey = xs @ bs @ ys \<and> length xs = d) \<and> (\<exists>r. drop idx aKey = snd (putVarint32 t) @ r) \<and>
     d + length bs \<le> nKey \<and> nKey < 2 ^ 31 \<and> idx < 2 ^ 32"

text \<open>The result of comparing the field with the value \<open>r\<close>.\<close>

definition fieldResult :: "(u8 list \<Rightarrow> u8 list \<Rightarrow> int) \<Rightarrow> u32 \<Rightarrow> sql_value \<Rightarrow> sql_value \<Rightarrow> field_cmp \<Rightarrow> bool" where
  "fieldResult c t v r res \<longleftrightarrow>
     (\<exists>rc st. res = FieldCmp rc st False \<and> sgn rc = sgn (valueCmp c v r) \<and> (rc = 0 \<longrightarrow> st = t) \<and> (st = 0 \<longleftrightarrow> t = 0))"

lemma fieldResult_iff [simp]:
  "fieldResult c t v r (FieldCmp rc st e) \<longleftrightarrow> \<not> e \<and> sgn rc = sgn (valueCmp c v r) \<and> (rc = 0 \<longrightarrow> st = t) \<and> (st = 0 \<longleftrightarrow> t = 0)"
  by (auto simp: fieldResult_def)

lemma fieldAt_first:
  assumes "fieldAt nKey aKey idx d t bs"
  obtains b where "rd aKey idx = Some b" "t < 128 \<longrightarrow> ucast b = t" "12 \<le> t \<longrightarrow> (10 :: u32) \<le> ucast b" "ucast b = (0 :: u32) \<longleftrightarrow> t = 0"
proof -
  obtain b r where b: "snd (putVarint32 t) = b # r" "t < 128 \<longrightarrow> ucast b = t \<and> r = []" "128 \<le> t \<longrightarrow> (128 :: u32) \<le> ucast b"
    by (rule type_first [of t])
  obtain r' where "drop idx aKey = b # r'" using assms b(1) by (auto simp: fieldAt_def)
  then have "rd aKey idx = Some b" by (metis nth_via_drop rd_some drop_eq_Nil linorder_not_le list.distinct(1))
  moreover have "12 \<le> t \<longrightarrow> (10 :: u32) \<le> ucast b" "ucast b = (0 :: u32) \<longleftrightarrow> t = 0"
    using b(2, 3) by (cases "t < 128"; auto simp: word_le_nat_alt word_less_nat_alt)+
  ultimately show thesis using b(2) by (intro that [of b]) simp_all
qed

lemma fieldAt_type: "fieldAt nKey aKey idx d t bs \<Longrightarrow> getVarint32 (drop idx aKey) = Some (fst (putVarint32 t), t)"
  using core32.get_put by (auto simp: fieldAt_def)

lemma fieldAt_text:
  assumes "fieldAt nKey aKey idx d t bs"
  shows "take (length bs) (drop d aKey) = bs" "length bs \<le> length (drop d aKey)"
  using assms by (auto simp: fieldAt_def)

lemma serialClass_string: "serialClass t v \<Longrightarrow> 2 \<le> valueClass v \<Longrightarrow> 12 \<le> t"
  by (cases v) auto

lemma valueClass_cases: "v \<noteq> SqlNoChange \<Longrightarrow> v = SqlNull \<or> (\<exists>i. v = SqlInt i) \<or> (\<exists>r. v = SqlReal r) \<or> 2 \<le> valueClass v"
  by (cases v) simp_all

lemma one_small [simp]: "\<not> (10 :: u32) \<le> 1" "\<not> (12 :: u32) \<le> 1" "(1 :: u32) < 128" "(0 :: u32) < 128"
  by (simp_all add: word_le_nat_alt word_less_nat_alt)

lemma compareRhsInt_value:
  assumes "fieldAt nKey aKey idx d t bs" "encodes t bs v" "v \<noteq> SqlNoChange"
  shows "\<exists>res. compareRhsInt wide mem1 aKey idx d p = Some res \<and> fieldResult c t v (SqlInt (cell_u p)) res"
proof -
  obtain b where b: "rd aKey idx = Some b" "t < 128 \<longrightarrow> ucast b = t" "12 \<le> t \<longrightarrow> (10 :: u32) \<le> ucast b" "ucast b = (0 :: u32) \<longleftrightarrow> t = 0"
    by (rule fieldAt_first [OF assms(1)])
  obtain xs ys where key: "aKey = xs @ bs @ ys" "length xs = d" using assms(1) by (auto simp: fieldAt_def)
  note cls = encodes_len(2) [OF assms(2)]
  consider "v = SqlNull" | i where "v = SqlInt i" | r where "v = SqlReal r" | "2 \<le> valueClass v"
    using valueClass_cases [OF assms(3)] by blast
  then show ?thesis
  proof cases
    case 1
    then show ?thesis using b cls by (simp add: compareRhsInt_def valueCmp_def)
  next
    case (2 i)
    then have "vdbeRecordDecodeInt t aKey d = Some i" using encodes_decode assms(2) key by auto
    then show ?thesis using b cls 2 by (auto simp: compareRhsInt_def valueCmp_def cmpI64_sgn)
  next
    case (3 r)
    then have t: "t = 7" "\<not> IsNaN r" using cls by simp_all
    obtain k q where "sqlite3VdbeSerialGet (xs @ bs @ ys) (length xs) t mem1 = Some (k, q)" "v = (if t = 7 then SqlReal (cell_u q) else SqlInt (cell_u q))"
      by (rule encodes_get_number [OF assms(2)]) (use 3 in simp)
    then show ?thesis
      using b t 3 key sgn_swap [of "sint (cell_u p) * dblUnit" "dblScaled r"]
      by (auto simp: compareRhsInt_def valueCmp_def intFloat_exact)
  next
    case 4
    then show ?thesis using b serialClass_string [OF cls] by (auto simp: compareRhsInt_def valueCmp_def)
  qed
qed

lemma compareRhsReal_value:
  assumes "fieldAt nKey aKey idx d t bs" "encodes t bs v" "v \<noteq> SqlNoChange" "\<not> IsNaN (cell_u p)"
  shows "\<exists>res. compareRhsReal wide mem1 aKey idx d p = Some res \<and> fieldResult c t v (SqlReal (cell_u p)) res"
proof -
  obtain b where b: "rd aKey idx = Some b" "t < 128 \<longrightarrow> ucast b = t" "12 \<le> t \<longrightarrow> (10 :: u32) \<le> ucast b" "ucast b = (0 :: u32) \<longleftrightarrow> t = 0"
    by (rule fieldAt_first [OF assms(1)])
  obtain xs ys where key: "aKey = xs @ bs @ ys" "length xs = d" using assms(1) by (auto simp: fieldAt_def)
  note cls = encodes_len(2) [OF assms(2)]
  consider "v = SqlNull" | "valueClass v = 1" | "2 \<le> valueClass v"
    using valueClass_cases [OF assms(3)] by fastforce
  then show ?thesis
  proof cases
    case 1
    then show ?thesis using b cls by (simp add: compareRhsReal_def valueCmp_def)
  next
    case 2
    then obtain k q where q: "sqlite3VdbeSerialGet (xs @ bs @ ys) (length xs) t mem1 = Some (k, q)"
      "v = (if t = 7 then SqlReal (cell_u q) else SqlInt (cell_u q))"
      by (rule encodes_get_number [OF assms(2)])
    show ?thesis
    proof (cases "t = 7")
      case True
      then show ?thesis
        using b q key cls assms(4) dblLess_sgn [of "cell_u q" "cell_u p"] by (auto simp: compareRhsReal_def valueCmp_def)
    next
      case False
      then show ?thesis
        using b q key cls assms(4) by (auto simp: compareRhsReal_def valueCmp_def intFloat_exact)
    qed
  next
    case 3
    then show ?thesis using b serialClass_string [OF cls] by (auto simp: compareRhsReal_def valueCmp_def)
  qed
qed

lemma serialClass_number: "serialClass t v \<Longrightarrow> v \<noteq> SqlNoChange \<Longrightarrow> valueClass v < 2 \<Longrightarrow> t < 12"
  by (cases v) (auto simp: word_less_nat_alt)

lemma fieldAt_inside:
  assumes "fieldAt nKey aKey idx d t bs" "unat n = length bs"
  shows "\<not> word_of_nat nKey < word_of_nat d + (n :: u32)" "unat (word_of_nat d :: u32) = d"
proof -
  have b: "d + length bs < 2 ^ 32" "nKey < 2 ^ 32" "d + length bs \<le> nKey" using assms(1) by (auto simp: fieldAt_def)
  have "n = word_of_nat (length bs)" using assms(2) [symmetric] by simp
  then have "word_of_nat d + n = word_of_nat (d + length bs)" by simp
  moreover have "(word_of_nat (d + length bs) :: u32) \<le> word_of_nat nKey" using b by (subst u32_less) simp_all
  ultimately show "\<not> word_of_nat nKey < word_of_nat d + n" by (simp add: not_less)
  show "unat (word_of_nat d :: u32) = d" using b by simp
qed

lemma memcmp_lexCmp:
  assumes "memcmp a b (min n1 n2) = Some rc" "n1 \<le> length a" "n2 \<le> length b"
  shows "(if rc = 0 then int n1 - int n2 else rc) = lexCmp (take n1 a) (take n2 b)"
  using assms memcmp_take [of n1 a n2 b] by (simp add: lexCmp_def Let_def min_def)

lemma memcmp_some: "n1 \<le> length a \<Longrightarrow> n2 \<le> length b \<Longrightarrow> \<exists>rc. memcmp a b (min n1 n2) = Some rc"
  using memcmp_take by blast

lemma compareRhsStr_value:
  assumes "fieldAt nKey aKey idx d t bs" "encodes t bs v" "v \<noteq> SqlNoChange"
    "rd (ki_aColl k) i = Some pColl" "collCmp (ki_enc k) pColl c" "i < ki_nAllField k" "mem_n (cell_mem p) \<le> length (mem_z (cell_mem p))"
  shows "\<exists>res. compareRhsStr junk w k mem1 nKey aKey i idx (word_of_nat d) p = Some (res, w) \<and>
    fieldResult c t v (SqlText (memText (cell_mem p))) res"
proof -
  note cls = encodes_len(2) [OF assms(2)] and ty = fieldAt_type [OF assms(1)]
  show ?thesis
  proof (cases "valueClass v < 2")
    case True
    then have "t < 12" using serialClass_number [OF cls assms(3)] by simp
    then show ?thesis using ty True by (auto simp: compareRhsStr_def valueCmp_def sgn_if)
  next
    case False
    then have t: "\<not> t < 12" "t \<noteq> 0" using serialClass_string [OF cls] by auto
    have n: "valueBytes v = bs" "unat ((t - 12) div 2) = length bs" using encodes_bytes [OF assms(2)] False by simp_all
    note inside = fieldAt_inside [OF assms(1) n(2)] and bytes = fieldAt_text [OF assms(1)]
    show ?thesis
    proof (cases "valueClass v = 2")
      case True
      then have odd: "t AND 1 \<noteq> 0" using cls by (cases v) auto
      show ?thesis
      proof (cases pColl)
        case None
        obtain rc where rc: "memcmp (drop d aKey) (mem_z (cell_mem p)) (min (length bs) (mem_n (cell_mem p))) = Some rc"
          using memcmp_some [OF bytes(2) assms(7)] by blast
        have "c = lexCmp" using None assms(5) by (simp add: collCmp_def)
        with memcmp_lexCmp [OF rc bytes(2) assms(7)] show ?thesis
          using ty t odd inside n assms(4, 6) None rc True
          by (auto simp: compareRhsStr_def Let_def valueCmp_def bytes(1) memText_def)
      next
        case (Some coll)
        then have "vdbeCompareMemString junk w ((cell_mem mem1)\<lparr>mem_n := length bs, mem_enc := ki_enc k, mem_flags := MEM_Str,
              mem_z := drop d aKey\<rparr>) (cell_mem p) coll = Some (c bs (memText (cell_mem p)), False, w)"
          using assms(5, 7) bytes by (subst compareMemString_direct) (auto simp: collCmp_def memText_def)
        then show ?thesis
          using ty t odd inside n assms(4, 6) Some True by (auto simp: compareRhsStr_def Let_def valueCmp_def)
      qed
    next
      case blob: False
      then have "t AND 1 = 0" using cls False by (cases v) auto
      moreover have "2 < valueClass v" using False blob by simp
      ultimately show ?thesis using ty t by (auto simp: compareRhsStr_def valueCmp_def sgn_if)
    qed
  qed
qed

lemma compareRhsBlob_value:
  assumes "fieldAt nKey aKey idx d t bs" "encodes t bs v" "v \<noteq> SqlNoChange" "mem_n (cell_mem p) \<le> length (mem_z (cell_mem p))"
    "cell_flags p AND MEM_Zero \<noteq> 0 \<longrightarrow> mem_n (cell_mem p) = 0"
  shows "\<exists>res. compareRhsBlob nKey aKey idx (word_of_nat d) p = Some res \<and> fieldResult c t v (SqlBlob (memBlob (cell_mem p))) res"
proof -
  note cls = encodes_len(2) [OF assms(2)] and ty = fieldAt_type [OF assms(1)]
  show ?thesis
  proof (cases "valueClass v < 3")
    case True
    then have "t < 12 \<or> t AND 1 \<noteq> 0" using cls assms(3) by (cases v) (auto simp: word_less_nat_alt)
    then show ?thesis using ty True by (auto simp: compareRhsBlob_def valueCmp_def sgn_if)
  next
    case False
    then have v: "valueClass v = 3" by (cases v) auto
    then have t: "\<not> t < 12" "t \<noteq> 0" "t AND 1 = 0" using cls by (cases v; auto)+
    have n: "valueBytes v = bs" "unat ((t - 12) div 2) = length bs" using encodes_bytes [OF assms(2)] v by simp_all
    note inside = fieldAt_inside [OF assms(1) n(2)] and bytes = fieldAt_text [OF assms(1)]
    show ?thesis
    proof (cases "cell_flags p AND MEM_Zero = 0")
      case True
      obtain rc where rc: "memcmp (drop d aKey) (mem_z (cell_mem p)) (min (length bs) (mem_n (cell_mem p))) = Some rc"
        using memcmp_some [OF bytes(2) assms(4)] by blast
      from memcmp_lexCmp [OF rc bytes(2) assms(4)] show ?thesis
        using ty t inside n True rc v
        by (auto simp: compareRhsBlob_def Let_def valueCmp_def bytes(1) memText_def memBlob_def)
    next
      case zero: False
      have "isAllZero (drop d aKey) (length bs) = Some (bs = replicate (length bs) 0)"
        using isAllZero_iff [OF bytes(2)] bytes(1) by simp
      moreover have "memBlob (cell_mem p) = replicate (mem_nZero (cell_mem p)) 0"
        using zero assms(5) by (simp add: memBlob_def memText_def)
      moreover have "bs \<noteq> replicate (length bs) 0 \<Longrightarrow> 0 < lexCmp bs (replicate (mem_nZero (cell_mem p)) 0)"
        using lexCmp_zeros_less [of bs "mem_nZero (cell_mem p)"] lexCmp_swap [of bs] by simp
      moreover have "bs = replicate (length bs) 0 \<Longrightarrow> lexCmp bs (replicate (mem_nZero (cell_mem p)) 0) = int (length bs) - int (mem_nZero (cell_mem p))"
        using lexCmp_zeros [of "length bs"] by metis
      ultimately show ?thesis
        using ty t inside n zero v
        by (cases "bs = replicate (length bs) 0") (simp_all add: compareRhsBlob_def Let_def valueCmp_def)
    qed
  qed
qed

text \<open>The cells of a key: those that \<^verbatim>\<open>sqlite3MemCompare\<close> accepts, where a NULL has no other type, since
  \<^verbatim>\<open>sqlite3VdbeRecordCompareWithSkip\<close> tests for it last.\<close>

definition key_wf :: "cell \<Rightarrow> bool" where
  "key_wf p \<longleftrightarrow> cmp_wf p \<and>
     (cell_flags p AND MEM_Null \<noteq> 0 \<longrightarrow>
        cell_flags p AND (MEM_Int OR MEM_IntReal) = 0 \<and> cell_flags p AND MEM_Real = 0 \<and>
        cell_flags p AND MEM_Str = 0 \<and> cell_flags p AND MEM_Blob = 0)"

text \<open>The columns of a key: sort flags, and the comparison that the collating sequence stands for.\<close>

definition key_cols :: "keyinfo \<Rightarrow> (u8 \<times> (u8 list \<Rightarrow> u8 list \<Rightarrow> int)) list \<Rightarrow> bool" where
  "key_cols k cs \<longleftrightarrow>
     length cs \<le> ki_nAllField k \<and> length cs \<le> length (ki_aColl k) \<and> length cs \<le> length (ki_aSortFlags k) \<and>
     (\<forall>i < length cs. fst (cs ! i) = ki_aSortFlags k ! i \<and> fst (cs ! i) \<in> {0, 1, 2, 3} \<and>
        collCmp (ki_enc k) (ki_aColl k ! i) (snd (cs ! i)))"

lemma key_cols_nth:
  assumes "key_cols k cs" "i < length cs" "cs ! i = (f, c)"
  obtains pColl where "f \<in> {0, 1, 2, 3}" "rd (ki_aColl k) i = Some pColl" "rd (ki_aSortFlags k) i = Some f" "collCmp (ki_enc k) pColl c"
    "i < ki_nAllField k"
proof -
  have "fst (cs ! i) = ki_aSortFlags k ! i" "fst (cs ! i) \<in> {0, 1, 2, 3}" "collCmp (ki_enc k) (ki_aColl k ! i) (snd (cs ! i))"
    "i < length (ki_aColl k)" "i < length (ki_aSortFlags k)" "i < ki_nAllField k"
    using assms(1, 2) unfolding key_cols_def by auto
  with assms(3) show thesis by (intro that [of "ki_aColl k ! i"]) (simp_all add: rd_some)
qed

lemma compareField_value:
  assumes "fieldAt nKey aKey idx d t bs" "encodes t bs v" "v \<noteq> SqlNoChange" "key_wf p"
    "rd (ki_aColl k) i = Some pColl" "collCmp (ki_enc k) pColl c" "i < ki_nAllField k"
  shows "\<exists>res. compareField junk w wide k mem1 nKey aKey i (word_of_nat idx) (word_of_nat d) p = Some (res, w) \<and>
    fieldResult c t v (memValue p) res"
proof -
  have u: "unat (word_of_nat idx :: u32) = idx" "unat (word_of_nat d :: u32) = d"
    using assms(1) by (auto simp: fieldAt_def)
  have "cmp_wf p" using assms(4) by (simp add: key_wf_def)
  then show ?thesis
  proof (cases rule: cmp_wf_cases)
    case null
    obtain b where b: "rd aKey idx = Some b" "t < 128 \<longrightarrow> ucast b = t" "ucast b = (0 :: u32) \<longleftrightarrow> t = 0"
      by (rule fieldAt_first [OF assms(1)])
    have "b = 0 \<longleftrightarrow> t = 0" using b(3) by (auto simp: word_unat_eq_iff)
    moreover have "t = 0 \<longleftrightarrow> valueClass v = 0" "0 \<le> valueClass v" "v = SqlNull \<or> 0 < valueClass v"
      using encodes_len(2) [OF assms(2)] assms(3) by (cases v; auto simp: word_le_nat_alt)+
    ultimately show ?thesis
      using null assms(4) b u by (auto simp: compareField_def key_wf_def valueCmp_def)
  next
    case int
    then show ?thesis
      using compareRhsInt_value [OF assms(1-3), of wide mem1 p c] u by (auto simp: compareField_def)
  next
    case real
    then show ?thesis
      using compareRhsReal_value [OF assms(1-3), of p wide mem1 c] u by (auto simp: compareField_def)
  next
    case str
    then show ?thesis
      using compareRhsStr_value [OF assms(1-3) assms(5-7), of p junk w mem1] u by (auto simp: compareField_def)
  next
    case blob
    then show ?thesis
      using compareRhsBlob_value [OF assms(1-3), of p c] u by (auto simp: compareField_def)
  qed
qed

section \<open>Comparing all fields\<close>

text \<open>The result of a comparison whose outcome is \<open>ord\<close>: its sign, or the default of the key where
  no field decides.\<close>

definition compared :: "int \<Rightarrow> unpacked_record \<Rightarrow> oom \<Rightarrow> (int \<times> unpacked_record \<times> oom) option \<Rightarrow> bool" where
  "compared ord p w r \<longleftrightarrow>
     (\<exists>res. r = Some (res, if ord = 0 then p\<lparr>ur_eqSeen := True\<rparr> else p, w) \<and>
        (if ord = 0 then res = ur_default_rc p else sgn res = sgn ord))"

definition unpacked_wf :: "unpacked_record \<Rightarrow> (u8 \<times> (u8 list \<Rightarrow> u8 list \<Rightarrow> int)) list \<Rightarrow> bool" where
  "unpacked_wf p cs \<longleftrightarrow>
     key_cols (ur_pKeyInfo p) cs \<and> list_all key_wf (take (ur_nField p) (ur_aMem p)) \<and>
     0 < ur_nField p \<and> ur_nField p \<le> length (ur_aMem p) \<and> ur_nField p \<le> length cs"

abbreviation keyValues :: "unpacked_record \<Rightarrow> sql_value list" where
  "keyValues p \<equiv> map memValue (take (ur_nField p) (ur_aMem p))"

lemma memValue_null: "key_wf p \<Longrightarrow> cell_flags p AND MEM_Null \<noteq> 0 \<longleftrightarrow> valueClass (memValue p) = 0"
  unfolding key_wf_def by (elim conjE cmp_wf_cases) auto

lemma columnCmp_zero: "columnCmp f c v r = 0 \<longleftrightarrow> valueCmp c v r = 0"
  using class_null [of v] class_null [of r] by (auto simp: columnCmp_def valueCmp_def Let_def)

text \<open>One iteration of the loop.\<close>

lemma compareLoop_step:
  fixes junk w wide mem1 szHdr
  assumes "fieldAt nKey aKey idx d t bs" "encodes t bs v" "v \<noteq> SqlNoChange" "unpacked_wf p cs" "i < ur_nField p" "cs ! i = (f, c)"
  defines "ord \<equiv> columnCmp f c v (memValue (ur_aMem p ! i))" and "run \<equiv> compareLoop junk w wide mem1 nKey aKey szHdr"
  shows "ord \<noteq> 0 \<Longrightarrow> compared ord p w (run i (word_of_nat idx) (word_of_nat d) p)"
    "ord = 0 \<Longrightarrow> run i (word_of_nat idx) (word_of_nat d) p =
      (if i + 1 \<noteq> ur_nField p \<and> word_of_nat (idx + fst (putVarint32 t)) < szHdr \<and> word_of_nat (d + length bs) \<le> (word_of_nat nKey :: u32)
       then run (i + 1) (word_of_nat (idx + fst (putVarint32 t))) (word_of_nat (d + length bs)) p
       else Some (ur_default_rc p, p\<lparr>ur_eqSeen := True\<rparr>, w))"
proof -
  let ?k = "ur_pKeyInfo p" and ?m = "ur_aMem p ! i"
  have wf: "key_cols ?k cs" "key_wf ?m" "i < length (ur_aMem p)" "i < length cs"
    using assms(4, 5) by (auto simp: unpacked_wf_def list_all_length)
  obtain pColl where col: "f \<in> {0, 1, 2, 3}" "rd (ki_aColl ?k) i = Some pColl" "rd (ki_aSortFlags ?k) i = Some f" "collCmp (ki_enc ?k) pColl c"
    "i < ki_nAllField ?k"
    by (rule key_cols_nth [OF wf(1, 4) assms(6)])
  have m: "rd (ur_aMem p) i = Some ?m" "key_wf ?m" using wf(2, 3) by (simp_all add: rd_some)
  from compareField_value [OF assms(1-3) m(2) col(2, 4, 5), of junk w wide mem1] obtain rc st where
    rc: "compareField junk w wide ?k mem1 nKey aKey i (word_of_nat idx) (word_of_nat d) ?m = Some (FieldCmp rc st False, w)"
    and res: "sgn rc = sgn (valueCmp c v (memValue ?m))" "rc = 0 \<longrightarrow> st = t" "st = 0 \<longleftrightarrow> t = 0"
    by (auto simp: fieldResult_def)
  have zero: "rc = 0 \<longleftrightarrow> ord = 0" using res(1) columnCmp_zero [of f c v] unfolding ord_def by (metis sgn_0 sgn_0_0)
  have null: "(st = 0 \<or> cell_flags ?m AND MEM_Null \<noteq> 0) \<longleftrightarrow> (valueClass v = 0 \<or> valueClass (memValue ?m) = 0)"
    using memValue_null [OF m(2)] res(3) encodes_len(2) [OF assms(2)] assms(3) by (cases v) (auto simp: word_le_nat_alt)
  show "compared ord p w (run i (word_of_nat idx) (word_of_nat d) p)" if "ord \<noteq> 0"
    using that sortResult_column [OF col(1) res(1)] zero unfolding run_def
    by (subst compareLoop.simps) (simp add: m rc col null compared_def ord_def)
  show "run i (word_of_nat idx) (word_of_nat d) p =
      (if i + 1 \<noteq> ur_nField p \<and> word_of_nat (idx + fst (putVarint32 t)) < szHdr \<and> word_of_nat (d + length bs) \<le> (word_of_nat nKey :: u32)
       then run (i + 1) (word_of_nat (idx + fst (putVarint32 t))) (word_of_nat (d + length bs)) p
       else Some (ur_default_rc p, p\<lparr>ur_eqSeen := True\<rparr>, w))" if "ord = 0"
    using that res(2) zero encodes_typeLen [OF assms(2)] unfolding run_def
    by (subst compareLoop.simps) (simp add: m rc varintLen_type Let_def)
qed

text \<open>The loop from field \<open>i\<close> on.\<close>

lemma compareLoop_order:
  assumes "list_all2 sized qs vs" "qs \<noteq> []" "SqlNoChange \<notin> set vs" "unpacked_wf p cs" "i < ur_nField p"
    "nKey = length (x @ concat (map typeBytes qs) @ g @ concat (map fieldFull qs))" "nKey < 2 ^ 31"
    "szHdr = length (x @ concat (map typeBytes qs))" "aKey = x @ concat (map typeBytes qs) @ g @ concat (map fieldFull qs) @ pad"
  shows "compared (keyCmp (drop i cs) vs (drop i (keyValues p))) p w
    (compareLoop junk w wide mem1 nKey aKey (word_of_nat szHdr) i (word_of_nat (length x)) (word_of_nat (szHdr + length g)) p)"
  using assms
proof (induction qs vs arbitrary: i x g szHdr rule: list_all2_induct)
  case Nil
  then show ?case by simp
next
  case (Cons q qs v vs)
  let ?t = "typeBytes q"
  let ?ts = "concat (map typeBytes qs)"
  let ?fs = "concat (map fieldFull qs)"
  have t: "0 < length ?t" "fst (putVarint32 (cell_uTemp q)) = length ?t" using putVarint32_le(2) by (simp_all add: core32.put_length)
  have enc: "encodes (cell_uTemp q) (fieldFull q) v" using Cons.hyps(1) by (simp add: sized_def)
  have "aKey = (x @ ?t @ ?ts @ g) @ fieldFull q @ (?fs @ pad)" "length (x @ ?t @ ?ts @ g) = szHdr + length g"
    "drop (length x) aKey = ?t @ ?ts @ g @ fieldFull q @ ?fs @ pad"
    using Cons.prems by simp_all
  then have "\<exists>xs ys. aKey = xs @ fieldFull q @ ys \<and> length xs = szHdr + length g" "\<exists>r. drop (length x) aKey = ?t @ r"
    by blast+
  then have at: "fieldAt nKey aKey (length x) (szHdr + length g) (cell_uTemp q) (fieldFull q)"
    unfolding fieldAt_def using Cons.prems(5, 6, 7) by simp
  have len: "i < length cs" "i < length (keyValues p)"
    using Cons.prems(3, 4) by (auto simp: unpacked_wf_def)
  obtain f c where fc: "cs ! i = (f, c)" by (cases "cs ! i")
  let ?ord = "columnCmp f c v (memValue (ur_aMem p ! i))"
  have key: "keyCmp (drop i cs) (v # vs) (drop i (keyValues p)) =
      (if ?ord \<noteq> 0 then ?ord else keyCmp (drop (i + 1) cs) vs (drop (i + 1) (keyValues p)))"
    using len fc by (simp add: Cons_nth_drop_Suc [symmetric])
  note step = compareLoop_step [OF at enc _ Cons.prems(3, 4) fc]
  have v: "v \<noteq> SqlNoChange" using Cons.prems(2) by auto
  show ?case
  proof (cases "?ord = 0")
    case False
    then show ?thesis unfolding key using step(1) [OF v False] by simp
  next
    case True
    note s = step(2) [OF v True, unfolded t(2)]
    show ?thesis
    proof (cases "i + 1 \<noteq> ur_nField p \<and> qs \<noteq> []")
      case True
      then obtain q' qs' where qs: "qs = q' # qs'" by (cases qs) auto
      have "0 < length (typeBytes q')" using putVarint32_le(2) by (simp add: core32.put_length)
      then have "(word_of_nat (length x + length ?t) :: u32) < word_of_nat szHdr" "(word_of_nat (szHdr + length g + length (fieldFull q)) :: u32) \<le> word_of_nat nKey"
        using Cons.prems(5, 6, 7) qs by (subst u32_less; simp)+
      moreover have "compared (keyCmp (drop (i + 1) cs) vs (drop (i + 1) (keyValues p))) p w
        (compareLoop junk w wide mem1 nKey aKey (word_of_nat szHdr) (i + 1) (word_of_nat (length (x @ ?t)))
          (word_of_nat (szHdr + length (g @ fieldFull q))) p)"
        using True Cons.prems by (intro Cons.IH) auto
      ultimately show ?thesis
        unfolding key using s True \<open>?ord = 0\<close> by (simp add: add.assoc)
    next
      case False
      have "keyCmp (drop (i + 1) cs) vs (drop (i + 1) (keyValues p)) = 0"
      proof (cases "qs = []")
        case True
        then show ?thesis using Cons.hyps(2) by simp
      next
        case False': False
        then show ?thesis using False by auto
      qed
      moreover have "qs = [] \<Longrightarrow> \<not> (word_of_nat (length x + length ?t) :: u32) < word_of_nat szHdr"
        using Cons.prems(7) by simp
      ultimately show ?thesis
        unfolding key using s False \<open>?ord = 0\<close> by (auto simp: compared_def)
    qed
  qed
qed

text \<open>The general comparison of a record.\<close>

lemma recordCompare_order:
  assumes "list_all2 sized qs vs" "qs \<noteq> []" "SqlNoChange \<notin> set vs" "length qs \<le> 32767" "length (recordImage qs) < 2 ^ 31" "unpacked_wf p cs"
  shows "compared (keyCmp cs vs (keyValues p)) p w
    (sqlite3VdbeRecordCompare junk w wide mem1 (length (recordImage qs)) (recordImage qs @ pad) p)"
proof -
  let ?ts = "concat (map typeBytes qs)" and ?fs = "concat (map fieldFull qs)"
  obtain x where x: "recordImage qs = x @ ?ts @ ?fs" "\<forall>pad. getVarint32 (recordImage qs @ pad) = Some (length x, word_of_nat (length (x @ ?ts)))"
    by (rule image_parts [OF assms(4)])
  have h: "\<not> word_of_nat (length (recordImage qs)) < (word_of_nat (length (x @ ?ts)) :: u32)"
    using x(1) assms(5) by (subst u32_less) simp_all
  have "0 < ur_nField p" using assms(6) by (simp add: unpacked_wf_def)
  from compareLoop_order [OF assms(1-3, 6) this, of "length (recordImage qs)" x "[]" "length (x @ ?ts)" "recordImage qs @ pad" pad]
  show ?thesis
    using x assms(5) h unfolding sqlite3VdbeRecordCompare_def sqlite3VdbeRecordCompareWithSkip_def by simp
qed

text \<open>Small headers.\<close>

lemma type_length: "fst (putVarint32 t) \<le> 5"
proof -
  have "unat (ucast t :: u64) < 128 ^ Suc 4" using unsigned_less [of t, where ?'a = nat] by simp
  from putVarintBuf_length [OF this] show ?thesis
    by (simp add: varintLen_type [symmetric] sqlite3VarintLen_def varintLen_buf)
qed

lemma types_length: "length (concat (map typeBytes qs)) \<le> 5 * length qs"
proof (induction qs)
  case (Cons q qs)
  then show ?case using type_length [of "cell_uTemp q"] by (simp add: core32.put_length)
qed simp

lemma small32: "n < 128 \<Longrightarrow> (word_of_nat n :: u32) < 128"
  by (simp add: word_less_nat_alt)

lemma ucast_of_unat: "unat h = n \<Longrightarrow> ucast (h :: u8) = (word_of_nat n :: u32)"
  using unsigned_less [of h, where ?'a = nat] by (simp add: word_unat_eq_iff)

lemma small_header:
  assumes "length qs \<le> 13"
  obtains h where "recordImage qs = h # concat (map typeBytes qs) @ concat (map fieldFull qs)" "unat h = 1 + length (concat (map typeBytes qs))"
proof -
  let ?ts = "concat (map typeBytes qs)" and ?fs = "concat (map fieldFull qs)"
  obtain x where x: "recordImage qs = x @ ?ts @ ?fs" "x = snd (putVarint32 (word_of_nat (length (x @ ?ts))))"
    by (rule image_parts [of qs]) (use assms in auto)
  have ts: "length ?ts \<le> 65" using types_length [of qs] assms by simp
  moreover have "length x \<le> 5" using x(2) core32.put_length [of "word_of_nat (length (x @ ?ts))"] type_length by metis
  ultimately have small: "length (x @ ?ts) < 128" by simp
  define N :: u32 where "N = word_of_nat (length (x @ ?ts))"
  have less: "N < 128" unfolding N_def using small by (rule small32)
  obtain h r where h: "snd (putVarint32 N) = h # r" "N < 128 \<longrightarrow> ucast h = N \<and> r = []"
    by (rule type_first)
  then have "x = [h]" using x(2) less unfolding N_def [symmetric] by simp
  moreover have "unat (ucast h :: u32) = unat N" using h(2) less by simp
  moreover have "unat N = length (x @ ?ts)" unfolding N_def using small by (intro u32_of_nat) simp
  ultimately show thesis using x(1) by (intro that [of h]) simp_all
qed

lemma skip_order:
  assumes "list_all2 sized (q # qs) (v # vs)" "qs \<noteq> []" "SqlNoChange \<notin> set vs" "length qs \<le> 12" "length (recordImage (q # qs)) < 2 ^ 31"
    "unpacked_wf p cs" "1 < ur_nField p"
  shows "compared (keyCmp (drop 1 cs) vs (drop 1 (keyValues p))) p w
    (sqlite3VdbeRecordCompareWithSkip junk w wide mem1 (length (recordImage (q # qs))) (recordImage (q # qs) @ pad) p True)"
proof -
  let ?t = "typeBytes q" and ?ts = "concat (map typeBytes qs)" and ?fs = "concat (map fieldFull qs)" and ?f = "fieldFull q"
  obtain h where h: "recordImage (q # qs) = h # (?t @ ?ts) @ ?f @ ?fs" "unat h = 1 + length (?t @ ?ts)"
    by (rule small_header [of "q # qs"]) (use assms(4) in auto)
  let ?n = "length (recordImage (q # qs))"
  have enc: "encodes (cell_uTemp q) ?f v" using assms(1) by (simp add: sized_def)
  have ty: "getVarint32 (?t @ ?ts @ ?f @ ?fs @ pad) = Some (length ?t, cell_uTemp q)"
    using core32.get_put [of "cell_uTemp q"] by (simp add: core32.put_length)
  have u: "ucast h = (word_of_nat (1 + length (?t @ ?ts)) :: u32)"
    by (rule ucast_of_unat [OF h(2)])
  have guard: "\<not> (word_of_nat ?n :: u32) < word_of_nat (1 + length (?t @ ?ts) + length ?f)"
    using h(1) assms(5) by (subst u32_less) simp_all
  from compareLoop_order [OF _ assms(2, 3, 6, 7), of ?n "h # ?t" ?f "1 + length (?t @ ?ts)" "recordImage (q # qs) @ pad" pad]
  show ?thesis
    using assms(1, 5) h(1) ty u guard encodes_typeLen [OF enc]
    unfolding sqlite3VdbeRecordCompareWithSkip_def by (simp add: add.assoc)
qed

section \<open>The fast comparisons\<close>

text \<open>What \<^verbatim>\<open>sqlite3VdbeFindCompare\<close> has established when it returns one of them: the record has at most 13
  fields, at least two where the key has more than one, the first column is without big NULLs, and
  \<^verbatim>\<open>r1\<close> and \<^verbatim>\<open>r2\<close> are the results for less and greater. A record has at most 1,000,000,000 bytes.\<close>

definition fast_ready ::
  "cell \<Rightarrow> cell list \<Rightarrow> sql_value \<Rightarrow> sql_value list \<Rightarrow> unpacked_record \<Rightarrow> u8 \<Rightarrow> (u8 list \<Rightarrow> u8 list \<Rightarrow> int) \<Rightarrow>
    (u8 \<times> (u8 list \<Rightarrow> u8 list \<Rightarrow> int)) list \<Rightarrow> bool" where
  "fast_ready q qs v vs p f c cs \<longleftrightarrow>
     list_all2 sized (q # qs) (v # vs) \<and> SqlNoChange \<notin> set (v # vs) \<and> length qs \<le> 12 \<and>
     length (recordImage (q # qs)) \<le> 1000000000 \<and> unpacked_wf p ((f, c) # cs) \<and> (1 < ur_nField p \<longrightarrow> qs \<noteq> []) \<and>
     f \<in> {0, 1} \<and> ur_r1 p = (if f = 0 then - 1 else 1) \<and> ur_r2 p = (if f = 0 then 1 else - 1)"

lemma column_sign: "f \<in> {0, 1} \<Longrightarrow> sgn (columnCmp f c v r) = (if f = 0 then sgn (valueCmp c v r) else - sgn (valueCmp c v r))"
  using class_null [of v] class_null [of r] by (auto simp: columnCmp_def valueCmp_def Let_def bit_0 bit_1_iff)

lemma keyValues_first:
  assumes "unpacked_wf p cs"
  shows "keyValues p = memValue (ur_aMem p ! 0) # drop 1 (keyValues p)" "rd (ur_aMem p) 0 = Some (ur_aMem p ! 0)" "key_wf (ur_aMem p ! 0)"
proof -
  have "ur_aMem p \<noteq> []" "0 < ur_nField p" "list_all key_wf (take (ur_nField p) (ur_aMem p))" using assms by (auto simp: unpacked_wf_def)
  then show "keyValues p = memValue (ur_aMem p ! 0) # drop 1 (keyValues p)" "rd (ur_aMem p) 0 = Some (ur_aMem p ! 0)" "key_wf (ur_aMem p ! 0)"
    by (cases "ur_aMem p"; cases "ur_nField p"; simp)+
qed

lemma fast_decided:
  assumes "fast_ready q qs v vs p f c cs"
  defines "r \<equiv> memValue (ur_aMem p ! 0)" and "ord \<equiv> keyCmp ((f, c) # cs) (v # vs) (keyValues p)"
  shows "valueCmp c v r < 0 \<Longrightarrow> compared ord p w (Some (ur_r1 p, p, w))"
    "0 < valueCmp c v r \<Longrightarrow> compared ord p w (Some (ur_r2 p, p, w))"
    "valueCmp c v r = 0 \<Longrightarrow> ord = keyCmp cs vs (drop 1 (keyValues p))"
proof -
  have a: "f \<in> {0, 1}" "ur_r1 p = (if f = 0 then - 1 else 1)" "ur_r2 p = (if f = 0 then 1 else - 1)" "unpacked_wf p ((f, c) # cs)"
    using assms(1) by (simp_all add: fast_ready_def)
  have o: "ord = (if columnCmp f c v r \<noteq> 0 then columnCmp f c v r else keyCmp cs vs (drop 1 (keyValues p)))"
    unfolding ord_def r_def by (subst keyValues_first(1) [OF a(4)]) simp
  note s = column_sign [OF a(1), of c v r]
  show "compared ord p w (Some (ur_r1 p, p, w))" if "valueCmp c v r < 0"
    using that a(2) o s columnCmp_zero [of f c v r] by (auto simp: compared_def)
  show "compared ord p w (Some (ur_r2 p, p, w))" if "0 < valueCmp c v r"
    using that a(3) o s columnCmp_zero [of f c v r] by (auto simp: compared_def)
  show "ord = keyCmp cs vs (drop 1 (keyValues p))" if "valueCmp c v r = 0"
    using that o columnCmp_zero [of f c v r] by simp
qed

lemma fast_equal:
  assumes "fast_ready q qs v vs p f c cs" "valueCmp c v (memValue (ur_aMem p ! 0)) = 0"
  shows "compared (keyCmp ((f, c) # cs) (v # vs) (keyValues p)) p w
    (if 1 < ur_nField p then sqlite3VdbeRecordCompareWithSkip junk w wide mem1 (length (recordImage (q # qs))) (recordImage (q # qs) @ pad) p True
     else Some (ur_default_rc p, p\<lparr>ur_eqSeen := True\<rparr>, w))"
proof -
  have a: "list_all2 sized (q # qs) (v # vs)" "SqlNoChange \<notin> set vs" "length qs \<le> 12" "length (recordImage (q # qs)) < 2 ^ 31"
    "unpacked_wf p ((f, c) # cs)" "1 < ur_nField p \<longrightarrow> qs \<noteq> []" "0 < ur_nField p"
    using assms(1) by (auto simp: fast_ready_def unpacked_wf_def)
  show ?thesis
  proof (cases "1 < ur_nField p")
    case True
    with skip_order [OF a(1) _ a(2-5) True] a(6) fast_decided(3) [OF assms] show ?thesis by simp
  next
    case False
    then have "drop 1 (keyValues p) = []" by simp
    then show ?thesis using False fast_decided(3) [OF assms] by (simp add: compared_def)
  qed
qed

lemma fast_field:
  assumes "fast_ready q qs v vs p f c cs"
  defines "img \<equiv> recordImage (q # qs)"
  obtains h where "rd (img @ pad) 0 = Some h" "fieldAt (length img) (img @ pad) 1 (unat h) (cell_uTemp q) (fieldFull q)"
    "encodes (cell_uTemp q) (fieldFull q) v" "v \<noteq> SqlNoChange" "cell_uTemp q < 128 \<longrightarrow> unat h < 64"
proof -
  have a: "length qs \<le> 12" "length img < 2 ^ 31" "sized q v" "v \<noteq> SqlNoChange"
    using assms by (auto simp: fast_ready_def)
  let ?t = "typeBytes q" and ?ts = "concat (map typeBytes qs)" and ?fs = "concat (map fieldFull qs)"
  obtain h where h: "img = h # (?t @ ?ts) @ fieldFull q @ ?fs" "unat h = 1 + length (?t @ ?ts)"
    unfolding img_def by (rule small_header [of "q # qs"]) (use a(1) in auto)
  have "img @ pad = (h # ?t @ ?ts) @ fieldFull q @ (?fs @ pad)" "length (h # ?t @ ?ts) = unat h" "drop 1 (img @ pad) = ?t @ ?ts @ fieldFull q @ ?fs @ pad"
    using h by simp_all
  then have "\<exists>xs ys. img @ pad = xs @ fieldFull q @ ys \<and> length xs = unat h" "\<exists>r. drop 1 (img @ pad) = ?t @ r"
    by blast+
  moreover have "cell_uTemp q < 128 \<longrightarrow> unat h < 64"
  proof
    assume t: "cell_uTemp q < 128"
    obtain b r where "?t = b # r" "cell_uTemp q < 128 \<longrightarrow> ucast b = cell_uTemp q \<and> r = []"
      by (rule type_first)
    then show "unat h < 64" using t h(2) types_length [of qs] a(1) by simp
  qed
  ultimately show thesis
    using h a(2-4) by (intro that [of h]) (simp_all add: fieldAt_def sized_def)
qed

lemma and_0x3f: "unat h < 64 \<Longrightarrow> h AND 0x3F = (h :: u8)"
proof -
  assume "unat h < 64"
  then have "take_bit 6 h = h" by (simp add: word_unat_eq_iff unsigned_take_bit_eq take_bit_nat_eq_self)
  moreover have "take_bit 6 h = h AND 0x3F" by (simp add: take_bit_eq_mask mask_eq_exp_minus_1)
  ultimately show ?thesis by simp
qed

lemma fast_int:
  assumes "fast_ready q qs v vs p f c cs" "cell_flags (ur_aMem p ! 0) AND MEM_Int \<noteq> 0"
  shows "compared (keyCmp ((f, c) # cs) (v # vs) (keyValues p)) p w
    (vdbeRecordCompareInt junk w wide mem1 (length (recordImage (q # qs))) (recordImage (q # qs) @ pad) p)"
proof -
  let ?n = "length (recordImage (q # qs))" and ?k = "recordImage (q # qs) @ pad" and ?t = "cell_uTemp q" and ?m = "ur_aMem p ! 0"
  have a: "unpacked_wf p ((f, c) # cs)" "list_all2 sized (q # qs) (v # vs)" "SqlNoChange \<notin> set (v # vs)" "length (q # qs) \<le> 32767" "?n < 2 ^ 31"
    using assms(1) by (auto simp: fast_ready_def)
  note m = keyValues_first(2, 3) [OF a(1)]
  have r: "memValue ?m = SqlInt (cell_u ?m)"
    using m(2) assms(2) by (auto simp: key_wf_def memValue_def and_mask_or Let_def)
  obtain h where h: "rd ?k 0 = Some h" "fieldAt ?n ?k 1 (unat h) ?t (fieldFull q)" "encodes ?t (fieldFull q) v" "v \<noteq> SqlNoChange" "?t < 128 \<longrightarrow> unat h < 64"
    by (rule fast_field [OF assms(1)])
  obtain b where b: "rd ?k 1 = Some b" "?t < 128 \<longrightarrow> ucast b = ?t" "12 \<le> ?t \<longrightarrow> (10 :: u32) \<le> ucast b"
    by (rule fieldAt_first [OF h(2)])
  show ?thesis
  proof (cases "(ucast b :: u32) \<in> {1, 2, 3, 4, 5, 6, 8, 9}")
    case True
    then have "\<not> 12 \<le> ?t" using b(3) by auto
    then have t: "?t < 128" "ucast b = ?t" using b(2) by (auto simp: word_le_nat_alt word_less_nat_alt)
    then obtain i where i: "v = SqlInt i" using encodes_len(2) [OF h(3)] True h(4) by (cases v) auto
    have hh: "h AND 0x3F = h" using h(5) t(1) and_0x3f by simp
    obtain xs ys where key: "?k = xs @ fieldFull q @ ys" "length xs = unat h" using h(2) by (auto simp: fieldAt_def)
    have "vdbeRecordDecodeInt ?t ?k (unat h) = Some i"
      using encodes_decode [OF h(3) [unfolded i], of xs ys] key(2) unfolding key(1) by simp
    then have dec: "fastDecodeInt ?t ?k (unat (h AND 0x3F)) = Some i" using t True
      by (auto simp: fastDecodeInt_def hh vdbeRecordDecodeInt_def)
    have cmp: "valueCmp c v (memValue ?m) = cmpI64 i (cell_u ?m)" by (simp add: i r valueCmp_def cmpI64_sgn)
    have "vdbeRecordCompareInt junk w wide mem1 ?n ?k p =
      (if i <s cell_u ?m then Some (ur_r1 p, p, w) else if cell_u ?m <s i then Some (ur_r2 p, p, w)
       else if 1 < ur_nField p then sqlite3VdbeRecordCompareWithSkip junk w wide mem1 ?n ?k p True
       else Some (ur_default_rc p, p\<lparr>ur_eqSeen := True\<rparr>, w))"
      using h(1) b(1) True dec m(1) t(2) unfolding vdbeRecordCompareInt_def by (simp del: rd_append)
    then show ?thesis
      using fast_decided(1, 2) [OF assms(1)] fast_equal [OF assms(1)] cmp by (auto simp: cmpI64_def)
  next
    case False
    have "vdbeRecordCompareInt junk w wide mem1 ?n ?k p = sqlite3VdbeRecordCompare junk w wide mem1 ?n ?k p"
      using False h(1) b(1) unfolding vdbeRecordCompareInt_def by (simp del: rd_append)
    then show ?thesis using recordCompare_order [OF a(2) _ a(3-5, 1)] by simp
  qed
qed

lemma sless_12: "unat t < 2 ^ 31 \<Longrightarrow> t <s 12 \<longleftrightarrow> t < (12 :: u32)"
proof -
  assume "unat t < 2 ^ 31"
  then have "nat (uint t) < 2 ^ 31" by simp
  then have "uint t < 2 ^ 31" using zless_nat_conj [of "uint t" "2 ^ 31"] by (simp add: nat_less_iff)
  moreover have "- (2 ^ 31) \<le> uint t" by (rule order_trans [OF _ uint_ge_0]) simp
  ultimately have "sint t = uint t" by (simp add: sint_uint signed_take_bit_int_eq_self)
  then show ?thesis by (simp add: word_sless_alt word_less_def)
qed

lemma string_type_bound:
  assumes "encodes t bs v" "length bs \<le> 1000000000"
  shows "unat t < 2 ^ 31"
proof (cases "2 \<le> valueClass v")
  case True
  then have "12 \<le> unat t" "(unat t - 12) div 2 = length bs"
    using serialClass_string [OF encodes_len(2) [OF assms(1)]] encodes_bytes(2) [OF assms(1)]
    by (simp_all add: word_le_nat_alt unat_div unat_sub)
  then show ?thesis using assms(2) by simp
next
  case False
  then have "t < 12" using encodes_len(2) [OF assms(1)] by (cases v) (auto simp: word_less_nat_alt)
  then show ?thesis by (simp add: word_less_nat_alt)
qed

lemma fast_string:
  assumes "fast_ready q qs v vs p f c cs" "memValue (ur_aMem p ! 0) = SqlText (memText (cell_mem (ur_aMem p ! 0)))" "c = lexCmp"
    "mem_n (cell_mem (ur_aMem p ! 0)) \<le> length (mem_z (cell_mem (ur_aMem p ! 0)))"
  shows "compared (keyCmp ((f, c) # cs) (v # vs) (keyValues p)) p w
    (vdbeRecordCompareString junk w wide mem1 (length (recordImage (q # qs))) (recordImage (q # qs) @ pad) p)"
proof -
  let ?n = "length (recordImage (q # qs))" and ?k = "recordImage (q # qs) @ pad" and ?t = "cell_uTemp q" and ?m = "ur_aMem p ! 0"
  let ?bs = "fieldFull q" and ?z = "mem_z (cell_mem ?m)" and ?nz = "mem_n (cell_mem ?m)"
  have a: "unpacked_wf p ((f, c) # cs)" "?n \<le> 1000000000" using assms(1) by (auto simp: fast_ready_def)
  note m = keyValues_first(2) [OF a(1)] and decided = fast_decided(1, 2) [OF assms(1)]
  obtain h where h: "rd ?k 0 = Some h" "fieldAt ?n ?k 1 (unat h) ?t ?bs" "encodes ?t ?bs v" "v \<noteq> SqlNoChange"
    by (rule fast_field [OF assms(1)])
  have ty: "getVarint32 (drop 1 ?k) = Some (fst (putVarint32 ?t), ?t)" by (rule fieldAt_type [OF h(2)])
  have inside: "unat h + length ?bs \<le> ?n" using h(2) by (simp add: fieldAt_def)
  then have "length ?bs \<le> 1000000000" using a(2) by simp
  note small = sless_12 [OF string_type_bound [OF h(3) this]] and cls = encodes_len(2) [OF h(3)]
  consider (low) "valueClass v < 2" | (str) "valueClass v = 2" | (blob) "valueClass v = 3" by (cases v) auto
  then show ?thesis
  proof cases
    case low
    then have "?t < 12" "valueCmp c v (memValue ?m) < 0" using serialClass_number [OF cls h(4)] assms(2) by (simp_all add: valueCmp_def)
    then show ?thesis using decided(1) ty small by (simp add: vdbeRecordCompareString_def)
  next
    case blob
    then have "\<not> ?t < 12" "?t AND 1 = 0" "0 < valueCmp c v (memValue ?m)" using cls assms(2) by (cases v; auto simp: valueCmp_def)+
    then show ?thesis using decided(2) ty small by (simp add: vdbeRecordCompareString_def)
  next
    case str
    then have t: "\<not> ?t < 12" "?t AND 1 \<noteq> 0" using cls by (cases v; auto)+
    have n: "valueBytes v = ?bs" "unat ((?t - 12) div 2) = length ?bs" using encodes_bytes [OF h(3)] str by simp_all
    note bytes = fieldAt_text [OF h(2)]
    obtain rc where rc: "memcmp (drop (unat h) ?k) ?z (min ?nz (length ?bs)) = Some rc"
      using memcmp_some [OF bytes(2) assms(4)] by (auto simp: min.commute)
    have cmp: "(if rc = 0 then int (length ?bs) - int ?nz else rc) = valueCmp c v (memValue ?m)"
      using memcmp_lexCmp [OF _ bytes(2) assms(4), of rc] rc n(1) str assms(2, 3) bytes(1)
      by (simp add: valueCmp_def memText_def min.commute)
    have "vdbeRecordCompareString junk w wide mem1 ?n ?k p =
      (if 0 < rc then Some (ur_r2 p, p, w) else if rc < 0 then Some (ur_r1 p, p, w)
       else if int (length ?bs) - int ?nz = 0 then
         (if 1 < ur_nField p then sqlite3VdbeRecordCompareWithSkip junk w wide mem1 ?n ?k p True
          else Some (ur_default_rc p, p\<lparr>ur_eqSeen := True\<rparr>, w))
       else if 0 < int (length ?bs) - int ?nz then Some (ur_r2 p, p, w) else Some (ur_r1 p, p, w))"
      using ty small t h(1) m n(2) inside rc unfolding vdbeRecordCompareString_def by (simp add: Let_def del: rd_append)
    then show ?thesis
      using decided fast_equal [OF assms(1)] cmp by (auto split: if_splits)
  qed
qed

text \<open>The chosen comparison.\<close>

lemma unpacked_wf_r12 [simp]: "unpacked_wf (p\<lparr>ur_r1 := a, ur_r2 := b\<rparr>) cs \<longleftrightarrow> unpacked_wf p cs"
  by (simp add: unpacked_wf_def)

lemma findCompare_order:
  assumes "list_all2 sized qs vs" "qs \<noteq> []" "SqlNoChange \<notin> set vs" "length qs \<le> 32767" "length qs \<le> ki_nAllField (ur_pKeyInfo p)"
    "length (recordImage qs) \<le> 1000000000" "unpacked_wf p cs" "1 < ur_nField p \<longrightarrow> 1 < length qs"
  shows "\<exists>fn r1 r2. sqlite3VdbeFindCompare p = Some (fn, p\<lparr>ur_r1 := r1, ur_r2 := r2\<rparr>) \<and>
    compared (keyCmp cs vs (keyValues p)) (p\<lparr>ur_r1 := r1, ur_r2 := r2\<rparr>) w
      (runCompare fn junk w wide mem1 (length (recordImage qs)) (recordImage qs @ pad) (p\<lparr>ur_r1 := r1, ur_r2 := r2\<rparr>))"
proof -
  let ?k = "ur_pKeyInfo p" and ?m = "ur_aMem p ! 0"
  have general: "compared (keyCmp cs vs (keyValues p)) (p\<lparr>ur_r1 := a, ur_r2 := b\<rparr>) w
      (runCompare RecordCompareGeneral junk w wide mem1 (length (recordImage qs)) (recordImage qs @ pad) (p\<lparr>ur_r1 := a, ur_r2 := b\<rparr>))" for a b
    using recordCompare_order [OF assms(1-4), of "p\<lparr>ur_r1 := a, ur_r2 := b\<rparr>" cs] assms(6, 7) by simp
  have same: "p = p\<lparr>ur_r1 := ur_r1 p, ur_r2 := ur_r2 p\<rparr>" by simp
  have cols: "key_cols ?k cs" "0 < length cs" using assms(7) by (auto simp: unpacked_wf_def)
  then obtain f c cs' where cs: "cs = (f, c) # cs'" by (cases cs) auto
  obtain pColl where col: "f \<in> {0, 1, 2, 3}" "rd (ki_aColl ?k) 0 = Some pColl" "rd (ki_aSortFlags ?k) 0 = Some f" "collCmp (ki_enc ?k) pColl c"
    by (rule key_cols_nth [OF cols, of f c]) (simp add: cs)
  note m = keyValues_first(2, 3) [OF assms(7)]
  obtain q qs' v vs' where qs: "qs = q # qs'" "vs = v # vs'" using assms(1, 2) by (cases qs; cases vs) auto
  consider (large) "\<not> ki_nAllField ?k \<le> 13" | (bignull) "ki_nAllField ?k \<le> 13" "f \<noteq> 0 \<and> f AND KEYINFO_ORDER_BIGNULL \<noteq> 0"
    | (small) "ki_nAllField ?k \<le> 13" "\<not> (f \<noteq> 0 \<and> f AND KEYINFO_ORDER_BIGNULL \<noteq> 0)" by blast
  then show ?thesis
  proof cases
    case large
    then have "sqlite3VdbeFindCompare p = Some (RecordCompareGeneral, p\<lparr>ur_r1 := ur_r1 p, ur_r2 := ur_r2 p\<rparr>)"
      by (simp add: sqlite3VdbeFindCompare_def)
    then show ?thesis using general by blast
  next
    case bignull
    then have "sqlite3VdbeFindCompare p = Some (RecordCompareGeneral, p\<lparr>ur_r1 := ur_r1 p, ur_r2 := ur_r2 p\<rparr>)"
      using m(1) col(3) by (simp add: sqlite3VdbeFindCompare_def)
    then show ?thesis using general by blast
  next
    case small
    then have f: "f \<in> {0, 1}" using col(1) by (auto simp: KEYINFO_ORDER_BIGNULL_def)
    define a where "a = (if f = 0 then - 1 else 1 :: int)"
    let ?p = "p\<lparr>ur_r1 := a, ur_r2 := - a\<rparr>"
    have p: "(if f \<noteq> 0 then p\<lparr>ur_r1 := 1, ur_r2 := - 1\<rparr> else p\<lparr>ur_r1 := - 1, ur_r2 := 1\<rparr>) = ?p" by (simp add: a_def)
    have ready: "fast_ready q qs' v vs' ?p f c cs'"
      using assms qs cs small(1) f by (auto simp: fast_ready_def a_def)
    have finish: ?thesis if "sqlite3VdbeFindCompare p = Some (fn, ?p)" "compared (keyCmp cs vs (keyValues p)) ?p w
        (runCompare fn junk w wide mem1 (length (recordImage qs)) (recordImage qs @ pad) ?p)" for fn
      using that by blast
    let ?f = "cell_flags ?m"
    have find: "sqlite3VdbeFindCompare p = Some
      (if ?f AND MEM_Int \<noteq> 0 then RecordCompareInt
       else if ?f AND (MEM_Real OR MEM_IntReal OR MEM_Null OR MEM_Blob) = 0 \<and> pColl = None then RecordCompareString
       else RecordCompareGeneral, ?p)"
      using small m(1) col(2, 3) unfolding sqlite3VdbeFindCompare_def by (auto simp: Let_def p [symmetric])
    consider (int) "?f AND MEM_Int \<noteq> 0" | (str) "?f AND MEM_Int = 0" "?f AND (MEM_Real OR MEM_IntReal OR MEM_Null OR MEM_Blob) = 0" "pColl = None"
      | (other) "?f AND MEM_Int = 0" "\<not> (?f AND (MEM_Real OR MEM_IntReal OR MEM_Null OR MEM_Blob) = 0 \<and> pColl = None)" by blast
    then show ?thesis
    proof cases
      case int
      then show ?thesis using find fast_int [OF ready] qs cs by (intro finish [of RecordCompareInt]) simp_all
    next
      case str
      have c: "c = lexCmp" using col(4) str(3) by (simp add: collCmp_def)
      from m(2) have "cmp_wf ?m" by (simp add: key_wf_def)
      then have "memValue ?m = SqlText (memText (cell_mem ?m))" "mem_n (cell_mem ?m) \<le> length (mem_z (cell_mem ?m))"
        using str(1, 2) by (cases rule: cmp_wf_cases; auto simp: and_mask_or)+
      then show ?thesis using find str fast_string [OF ready _ c] qs cs by (intro finish [of RecordCompareString]) simp_all
    next
      case other
      then show ?thesis using find general by (intro finish [of RecordCompareGeneral]) auto
    qed
  qed
qed

section \<open>Properties\<close>

text \<open>The record that \<^verbatim>\<open>OP_MakeRecord\<close> leaves in its output register.\<close>

lemma made_record:
  assumes "\<forall>p \<in> set ps. cell_wf p" "length ps \<le> 32767" "out_wf zMalloc pOut"
    "makeRecord junk w limit file_format ps zMalloc pOut = Some (SQLITE_OK, qs, q, w')"
  shows "memBlob q = recordImage qs" "list_all2 sized qs (map recordValue ps)" "length qs = length ps"
    "length (recordImage qs) \<le> max limit (mem_szMalloc pOut)"
proof -
  show l: "list_all2 sized qs (map recordValue ps)" and "memBlob q = recordImage qs" "length (recordImage qs) \<le> max limit (mem_szMalloc pOut)"
    using makeRecord_spec [OF assms(1-3), of junk w limit file_format] assms(4) by auto
  show "length qs = length ps" using list_all2_lengthD [OF l] by simp
qed

text \<open>Two comparisons with the same outcome.\<close>

lemma compared_same:
  assumes "compared ord p w a" "compared ord p' w b"
  shows "\<exists>res res'. a = Some (res, if ord = 0 then p\<lparr>ur_eqSeen := True\<rparr> else p, w) \<and> b = Some (res', if ord = 0 then p'\<lparr>ur_eqSeen := True\<rparr> else p', w) \<and>
    (if ord = 0 then res = ur_default_rc p \<and> res' = ur_default_rc p' else sgn res' = sgn res \<and> res \<noteq> 0)"
proof (cases "ord = 0")
  case False
  with assms obtain r r' where "a = Some (r, p, w)" "b = Some (r', p', w)" "sgn r = sgn ord" "sgn r' = sgn ord"
    by (auto simp: compared_def)
  moreover from this False have "r \<noteq> 0" by (metis sgn_0 sgn_0_0)
  ultimately show ?thesis using False by simp
qed (use assms in \<open>simp add: compared_def\<close>)

text \<open>C11: \<^verbatim>\<open>sqlite3VdbeRecordCompare\<close> orders the records that \<^verbatim>\<open>OP_MakeRecord\<close> builds by their values: against a
  key with any number of fields it returns the sign of the first column that differs, in the
  collation and direction of that column and with NULLs at the end that its flags ask for, and the
  default result of the key, with \<^verbatim>\<open>eqSeen\<close> set, where no field decides; it reads nothing outside the
  record and the key and never reports corruption or an error. For collations that are comparisons,
  this order is the one a search needs: in records that are in order, all before one that is at
  most the key are at most the key, and all after one that is at least the key are at least the key.\<close>

theorem record_compare_order:
  assumes "\<forall>p \<in> set ps. cell_wf p" "ps \<noteq> []" "length ps \<le> 32767" "out_wf zMalloc pOut" "max limit (mem_szMalloc pOut) < 2 ^ 31"
    "makeRecord junk w limit file_format ps zMalloc pOut = Some (SQLITE_OK, qs, q, w1)"
    "SqlNoChange \<notin> set (map recordValue ps)" "unpacked_wf k cs" "list_all (\<lambda>(f, c). comparison c) cs"
  shows "compared (keyCmp cs (map recordValue ps) (keyValues k)) k w2
      (sqlite3VdbeRecordCompare junk2 w2 wide mem1 (length (memBlob q)) (memBlob q @ pad) k) \<and>
    (length x = length y \<and> length cs \<le> length y \<and> keyCmp cs x y \<le> 0 \<longrightarrow>
       (keyCmp cs y r \<le> 0 \<longrightarrow> keyCmp cs x r \<le> 0) \<and> (0 \<le> keyCmp cs x r \<longrightarrow> 0 \<le> keyCmp cs y r))"
proof
  note made = made_record [OF assms(1, 3, 4, 6)]
  show "compared (keyCmp cs (map recordValue ps) (keyValues k)) k w2
      (sqlite3VdbeRecordCompare junk2 w2 wide mem1 (length (memBlob q)) (memBlob q @ pad) k)"
    unfolding made(1) using made assms(2, 3, 5, 7, 8) by (intro recordCompare_order) auto
  show "length x = length y \<and> length cs \<le> length y \<and> keyCmp cs x y \<le> 0 \<longrightarrow>
       (keyCmp cs y r \<le> 0 \<longrightarrow> keyCmp cs x r \<le> 0) \<and> (0 \<le> keyCmp cs x r \<longrightarrow> 0 \<le> keyCmp cs y r)"
    using keyCmp_search [OF assms(9)] by blast
qed

definition sampleInfo :: keyinfo where
  "sampleInfo = \<lparr>ki_enc = SQLITE_UTF8, ki_nKeyField = 3, ki_nAllField = 4, ki_aSortFlags = [0, 1, 2, 0],
     ki_aColl = [None, Some \<lparr>coll_enc = SQLITE_UTF8, coll_xCmp = nocaseCollatingFunc\<rparr>, None, None]\<rparr>"

definition sampleCols :: "(u8 \<times> (u8 list \<Rightarrow> u8 list \<Rightarrow> int)) list" where
  "sampleCols = [(0, lexCmp), (1, nocaseCmp), (2, lexCmp), (0, lexCmp)]"

definition sampleKey :: unpacked_record where
  "sampleKey = \<lparr>ur_pKeyInfo = sampleInfo,
     ur_aMem = [sampleCell MEM_Int (- 300) [] 0, sampleCell MEM_Str 0 [0x48, 0x49] 0, sampleCell MEM_Int 5 [] 0], ur_nField = 3,
     ur_default_rc = 0, ur_errCode = SQLITE_OK, ur_r1 = 0, ur_r2 = 0, ur_eqSeen = False\<rparr>"

lemma sampleKey_ok:
  "unpacked_wf sampleKey sampleCols" "list_all (\<lambda>(f, c). comparison c) sampleCols"
  "keyCmp sampleCols (map recordValue sampleRow) (keyValues sampleKey) = 1"
  "\<forall>p \<in> set sampleRow. cell_wf p" "sampleRow \<noteq> []" "length sampleRow = 4" "out_wf [] sampleOut" "mem_szMalloc sampleOut = 0"
  "SqlNoChange \<notin> set (map recordValue sampleRow)"
proof -
  have "collates \<lparr>coll_enc = SQLITE_UTF8, coll_xCmp = nocaseCollatingFunc\<rparr> nocaseCmp" by (simp add: collates_def nocaseColl_cmp)
  then have "key_cols sampleInfo sampleCols"
    unfolding key_cols_def by (auto simp: sampleInfo_def sampleCols_def collCmp_def less_Suc_eq nth_Cons' split: if_splits)
  then show "unpacked_wf sampleKey sampleCols"
    by (simp add: unpacked_wf_def sampleKey_def sampleCols_def key_wf_def cmp_wf_def mem_wf_def sampleCell_def MEM_defs)
  show "list_all (\<lambda>(f, c). comparison c) sampleCols"
    by (simp add: sampleCols_def bytes.comparison_axioms nocase.comparison_axioms)
  have row: "map recordValue sampleRow = [SqlInt (- 300), SqlText [0x68, 0x69], SqlNull, SqlBlob [7, 0, 0]]" by code_simp
  have key: "keyValues sampleKey = [SqlInt (- 300), SqlText [0x48, 0x49], SqlInt 5]" by code_simp
  have "columnCmp 1 nocaseCmp (SqlText [0x68, 0x69]) (SqlText [0x48, 0x49]) = 0" by code_simp
  then show "keyCmp sampleCols (map recordValue sampleRow) (keyValues sampleKey) = 1"
    unfolding row key by (simp add: sampleCols_def columnCmp_def Let_def valueCmp_def)
  show "\<forall>p \<in> set sampleRow. cell_wf p" "sampleRow \<noteq> []" "length sampleRow = 4" "out_wf [] sampleOut" "mem_szMalloc sampleOut = 0"
    by (simp_all add: sampleRow_def sampleOut_def sampleCell_def cell_wf_def mem_wf_def out_wf_def MEM_defs)
  show "SqlNoChange \<notin> set (map recordValue sampleRow)" unfolding row by simp
qed

lemma sampleRecord:
  obtains qs q w1 where "makeRecord (\<lambda>_. 9) [True] 1000 4 sampleRow [] sampleOut = Some (SQLITE_OK, qs, q, w1)"
    "memBlob q = [5, 2, 17, 0, 18, 0xfe, 0xd4, 0x68, 0x69, 7, 0, 0]"
proof -
  have "map_option (\<lambda>(rc, qs, q, w'). (rc, memBlob q)) (makeRecord (\<lambda>_. 9) [True] 1000 4 sampleRow [] sampleOut) =
      Some (SQLITE_OK, [5, 2, 17, 0, 18, 0xfe, 0xd4, 0x68, 0x69, 7, 0, 0])"
    by code_simp
  then show thesis by (auto intro: that)
qed

theorem record_compare_order_witness:
  "unpacked_wf sampleKey sampleCols \<and> list_all cell_wf sampleRow \<and>
   (\<exists>res. sqlite3VdbeRecordCompare (\<lambda>_. 9) [] False (sampleCell 0 0 [] 0) 12
        ([5, 2, 17, 0, 18, 0xfe, 0xd4, 0x68, 0x69, 7, 0, 0] @ [1, 2]) sampleKey = Some (res, sampleKey, []) \<and> 0 < res)"
proof -
  obtain qs q w1 where m: "makeRecord (\<lambda>_. 9) [True] 1000 4 sampleRow [] sampleOut = Some (SQLITE_OK, qs, q, w1)"
    "memBlob q = [5, 2, 17, 0, 18, 0xfe, 0xd4, 0x68, 0x69, 7, 0, 0]"
    by (rule sampleRecord)
  have l: "length (memBlob q) = 12" using m(2) by simp
  have "compared 1 sampleKey [] (sqlite3VdbeRecordCompare (\<lambda>_. 9) [] False (sampleCell 0 0 [] 0) (length (memBlob q)) (memBlob q @ [1, 2]) sampleKey)"
    using record_compare_order [OF sampleKey_ok(4, 5) _ sampleKey_ok(7) _ m(1) sampleKey_ok(9, 1, 2), of "[]" "\<lambda>_. 9" False "sampleCell 0 0 [] 0" "[1, 2]"]
      sampleKey_ok(3, 6, 8) by simp
  then show ?thesis
    using sampleKey_ok(1, 4) unfolding l unfolding m(2) by (auto simp: compared_def list_all_iff sgn_if split: if_splits)
qed

text \<open>C12: The comparison that \<^verbatim>\<open>sqlite3VdbeFindCompare\<close> chooses, one of the fast ones for a first column
  that is an integer or a text in binary order or the general one, gives the result of the general
  one up to the size of the number: the same sign, the same default, the same \<^verbatim>\<open>eqSeen\<close>. The record
  has no more fields than the index and at least two where the key has more than one; it is not
  longer than the default limit of 1,000,000,000 bytes, below which every serial type is a
  positive \<^verbatim>\<open>int\<close>.\<close>

theorem record_compare_fast:
  assumes "\<forall>p \<in> set ps. cell_wf p" "ps \<noteq> []" "length ps \<le> 32767" "out_wf zMalloc pOut" "max limit (mem_szMalloc pOut) \<le> 1000000000"
    "makeRecord junk w limit file_format ps zMalloc pOut = Some (SQLITE_OK, qs, q, w1)"
    "SqlNoChange \<notin> set (map recordValue ps)" "unpacked_wf k cs"
    "length ps \<le> ki_nAllField (ur_pKeyInfo k)" "1 < ur_nField k \<longrightarrow> 1 < length ps"
  shows "\<exists>fn r1 r2 res res'. sqlite3VdbeFindCompare k = Some (fn, k\<lparr>ur_r1 := r1, ur_r2 := r2\<rparr>) \<and>
    sqlite3VdbeRecordCompare junk2 w2 wide mem1 (length (memBlob q)) (memBlob q @ pad) k =
      Some (res, if keyCmp cs (map recordValue ps) (keyValues k) = 0 then k\<lparr>ur_eqSeen := True\<rparr> else k, w2) \<and>
    runCompare fn junk2 w2 wide mem1 (length (memBlob q)) (memBlob q @ pad) (k\<lparr>ur_r1 := r1, ur_r2 := r2\<rparr>) =
      Some (res', (if keyCmp cs (map recordValue ps) (keyValues k) = 0 then k\<lparr>ur_eqSeen := True\<rparr> else k)\<lparr>ur_r1 := r1, ur_r2 := r2\<rparr>, w2) \<and>
    (if keyCmp cs (map recordValue ps) (keyValues k) = 0 then res' = res \<and> res = ur_default_rc k else sgn res' = sgn res \<and> res \<noteq> 0)"
proof -
  note made = made_record [OF assms(1, 3, 4, 6)]
  let ?o = "keyCmp cs (map recordValue ps) (keyValues k)" and ?n = "length (recordImage qs)" and ?z = "recordImage qs @ pad"
  have "compared ?o k w2 (sqlite3VdbeRecordCompare junk2 w2 wide mem1 ?n ?z k)"
    using made assms by (intro recordCompare_order) auto
  moreover have "\<exists>fn r1 r2. sqlite3VdbeFindCompare k = Some (fn, k\<lparr>ur_r1 := r1, ur_r2 := r2\<rparr>) \<and>
    compared ?o (k\<lparr>ur_r1 := r1, ur_r2 := r2\<rparr>) w2 (runCompare fn junk2 w2 wide mem1 ?n ?z (k\<lparr>ur_r1 := r1, ur_r2 := r2\<rparr>))"
    using made assms by (intro findCompare_order) auto
  then obtain fn r1 r2 where fn: "sqlite3VdbeFindCompare k = Some (fn, k\<lparr>ur_r1 := r1, ur_r2 := r2\<rparr>)"
    "compared ?o (k\<lparr>ur_r1 := r1, ur_r2 := r2\<rparr>) w2 (runCompare fn junk2 w2 wide mem1 ?n ?z (k\<lparr>ur_r1 := r1, ur_r2 := r2\<rparr>))"
    by blast
  ultimately obtain res res' where
    "sqlite3VdbeRecordCompare junk2 w2 wide mem1 ?n ?z k = Some (res, if ?o = 0 then k\<lparr>ur_eqSeen := True\<rparr> else k, w2)"
    "runCompare fn junk2 w2 wide mem1 ?n ?z (k\<lparr>ur_r1 := r1, ur_r2 := r2\<rparr>) =
      Some (res', if ?o = 0 then k\<lparr>ur_r1 := r1, ur_r2 := r2\<rparr>\<lparr>ur_eqSeen := True\<rparr> else k\<lparr>ur_r1 := r1, ur_r2 := r2\<rparr>, w2)"
    "if ?o = 0 then res = ur_default_rc k \<and> res' = ur_default_rc (k\<lparr>ur_r1 := r1, ur_r2 := r2\<rparr>) else sgn res' = sgn res \<and> res \<noteq> 0"
    using compared_same by blast
  then show ?thesis
    unfolding made(1) using fn(1)
    by (intro exI [of _ fn] exI [of _ r1] exI [of _ r2] exI [of _ res] exI [of _ res']) auto
qed

theorem record_compare_fast_witness:
  "\<exists>fn r1 r2 res. sqlite3VdbeFindCompare sampleKey = Some (fn, sampleKey\<lparr>ur_r1 := r1, ur_r2 := r2\<rparr>) \<and> fn = RecordCompareInt \<and>
    runCompare fn (\<lambda>_. 9) [] False (sampleCell 0 0 [] 0) 12 ([5, 2, 17, 0, 18, 0xfe, 0xd4, 0x68, 0x69, 7, 0, 0] @ [1, 2])
      (sampleKey\<lparr>ur_r1 := r1, ur_r2 := r2\<rparr>) = Some (res, sampleKey\<lparr>ur_r1 := r1, ur_r2 := r2\<rparr>, []) \<and> res \<noteq> 0"
proof -
  obtain qs q w1 where m: "makeRecord (\<lambda>_. 9) [True] 1000 4 sampleRow [] sampleOut = Some (SQLITE_OK, qs, q, w1)"
    "memBlob q = [5, 2, 17, 0, 18, 0xfe, 0xd4, 0x68, 0x69, 7, 0, 0]"
    by (rule sampleRecord)
  have l: "length (memBlob q) = 12" using m(2) by simp
  have "map_option fst (sqlite3VdbeFindCompare sampleKey) = Some RecordCompareInt"
    by (simp add: sqlite3VdbeFindCompare_def sampleKey_def sampleInfo_def sampleCell_def MEM_defs)
  moreover have "ki_nAllField (ur_pKeyInfo sampleKey) = 4" by (simp add: sampleKey_def sampleInfo_def)
  ultimately show ?thesis
    using record_compare_fast [OF sampleKey_ok(4, 5) _ sampleKey_ok(7) _ m(1) sampleKey_ok(9, 1), of "\<lambda>_. 9" "[]" False "sampleCell 0 0 [] 0" "[1, 2]"]
      sampleKey_ok(3, 6, 8) unfolding l m(2) [symmetric] by (auto simp: sgn_if split: if_splits)
qed

text \<open>Without the bound on the fields, the two disagree: for the record with the one field 5 and a key with
  the fields 5 and NULL, the fast comparison continues behind the header and takes the byte of the
  field for a second serial type.\<close>

definition shortKey :: unpacked_record where
  "shortKey = \<lparr>ur_pKeyInfo = \<lparr>ki_enc = SQLITE_UTF8, ki_nKeyField = 2, ki_nAllField = 2, ki_aSortFlags = [0, 0], ki_aColl = [None, None]\<rparr>,
     ur_aMem = [sampleCell MEM_Int 5 [] 0, sampleCell MEM_Null 0 [] 0], ur_nField = 2,
     ur_default_rc = 0, ur_errCode = SQLITE_OK, ur_r1 = - 1, ur_r2 = 1, ur_eqSeen = False\<rparr>"

lemma short_record_differs:
  "map_option fst (sqlite3VdbeRecordCompare (\<lambda>_. 0) [] True (sampleCell 0 0 [] 0) 3 [2, 1, 5] shortKey) = Some 0"
  "map_option fst (vdbeRecordCompareInt (\<lambda>_. 0) [] True (sampleCell 0 0 [] 0) 3 [2, 1, 5] shortKey) = Some 1"
  by code_simp+

end
