(* ===== verification/Spec2Isabelle.thy ===== *)
theory Spec2Isabelle
  imports Prelude Varint RowSet Bitvec Strings Hashtab Numeric Porter Keyword Tokenize RunParser Complete VdbeMem Utf
    Like MemJournal RecordFormat MemCompare RecordCompare
begin

text \<open>
  A verification library for the native code of the AELF daily-readings application: the SQLite
  amalgamation \<^verbatim>\<open>sqlite3/src/main/jni/sqlite/sqlite3.c\<close>, which is the C code that the application
  ships and which holds its Bible text and its full-text index. Java code calls it through the JNI
  bindings beside it. Line numbers are not repeated here; each definition has the name of the C
  function it translates, or the name of the function with the loop or the case it stands for.

  \<^bold>\<open>Parts and theories.\<close> A statement passes from text to result through the tokenizer, the parser,
  the code generators and the virtual machine, which uses the B-tree, pager and operating system
  layers; all of them rest on a layer of utilities. The library covers utilities and the front end:

  \<^item> \<open>Prelude\<close>: machine words, bounds-checked reads and writes (\<open>rd\<close>, \<open>wr\<close>; \<open>None\<close> is an access
    outside the object), the allocation oracle (\<open>alloc\<close>).
  \<^item> \<open>Varint\<close> (\<^verbatim>\<open>util.c\<close>, \<^verbatim>\<open>fts5_varint.c\<close>): the variable-length integers of the file format and of
    the full-text index. The unrolled readers decode the format, readers and writers are inverse on
    sequences, lengths are those of the format, and the 32-bit readers saturate or truncate.
  \<^item> \<open>RowSet\<close> (\<^verbatim>\<open>rowset.c\<close>): merge sort into buckets, balanced trees and the forest of batches.
    Sorting and tree building are correct and balanced, the test operation refines a set of rows per
    batch, and draining returns the rows in order once each.
  \<^item> \<open>Bitvec\<close> (\<^verbatim>\<open>bitvec.c\<close>): bitmap, hash table and radix tree forms of a set of page numbers.
    The locale \<open>index_set\<close> is the contract of such a set; its interpretation on the three forms shows
    that every run of set, clear and test refines a set, for every size and pattern of failed allocations.
  \<^item> \<open>Strings\<close> (\<^verbatim>\<open>global.c\<close>, \<^verbatim>\<open>util.c\<close>, \<^verbatim>\<open>func.c\<close>): character tables, case-insensitive comparison,
    quoting and dequoting, hexadecimal text and blobs, with their round trips.
  \<^item> \<open>Hashtab\<close> (\<^verbatim>\<open>hash.c\<close>): the hash table of the schema, whose elements are on one doubly linked
    list in an explicit store. The locale \<open>dictionary\<close> is its contract; runs of insert, delete and find
    refine a case-insensitive dictionary in which a new key is refused exactly when the allocation of
    its element fails and a failed rehash changes nothing, and clearing frees each element once.
  \<^item> \<open>Numeric\<close> (\<^verbatim>\<open>util.c\<close>): text to integer, hexadecimal literals, checked 64-bit arithmetic and
    logarithmic estimates.
  \<^item> \<open>Porter\<close> (\<^verbatim>\<open>fts5_tokenize.c\<close>): the stemmer. The conditions compute the measure of the published
    algorithm, the generated switches apply the longest matching rule of its tables, and a stem is
    never empty and never longer than the token.
  \<^item> \<open>Keyword\<close> (\<^verbatim>\<open>keywordhash.h\<close>): the generated keyword tables agree with the plain list of SQL
    keywords.
  \<^item> \<open>Tokenize\<close> (\<^verbatim>\<open>tokenize.c\<close>): \<^verbatim>\<open>sqlite3GetToken\<close> makes progress and stays in the text; words get
    the codes of the keyword list; what \<^verbatim>\<open>quote()\<close> writes is one string token (with \<open>Strings\<close>).
  \<^item> \<open>RunParser\<close> (\<^verbatim>\<open>tokenize.c\<close>): the loop that feeds the parser, for every parser engine and every
    interrupt pattern: which tokens the engine gets and in which role, the engine it ends with, and why
    the loop ends; the assertions of the loop hold.
  \<^item> \<open>Complete\<close> (\<^verbatim>\<open>complete.c\<close>): the end-of-statement machine answers yes exactly for sequences of
    whole statements, trigger definitions included, by a specification of tokens and statements of its own.
  \<^item> \<open>VdbeMem\<close> (\<^verbatim>\<open>vdbemem.c\<close>): the buffer of a value of the virtual machine. The locale \<open>mem_buffer_op\<close> is
    the contract its operations share: in bounds, the value kept, \<^verbatim>\<open>SQLITE_NOMEM\<close> the only error.
  \<^item> \<open>Utf\<close> (\<^verbatim>\<open>utf.c\<close>): UTF-8 and UTF-16 characters, conversion of a value between the encodings (on the
    buffers of \<open>VdbeMem\<close>), byte-order marks and counts. Conversion stays in its buffer on every input and
    keeps valid texts.
  \<^item> \<open>Like\<close> (\<^verbatim>\<open>func.c\<close>): the matcher of LIKE and GLOB on the characters of \<open>Utf\<close> and the case tables of
    \<open>Strings\<close> agrees with the denotation of the pattern as a sequence of wildcards and character tests.
  \<^item> \<open>MemJournal\<close> (\<^verbatim>\<open>memjournal.c\<close>): the chunked in-memory journal and its spill to a real file. The locale
    \<open>growing_file\<close> is the contract of a file that is allocated in units, which may fail; the memory journal is an
    interpretation of it. The operating system is a parameter: a successful write is taken to replace the
    bytes at its offset, and a file may have any content when it is opened.
  \<^item> \<open>RecordFormat\<close> (\<^verbatim>\<open>vdbeaux.c\<close>, \<^verbatim>\<open>OP_MakeRecord\<close> of \<^verbatim>\<open>vdbe.c\<close>): serial types and records, on the integers of
    \<open>Varint\<close> and the buffers of \<open>VdbeMem\<close>. Unpacking inverts the construction of a record, and is safe on
    arbitrary bytes.
  \<^item> \<open>MemCompare\<close> (\<^verbatim>\<open>vdbeaux.c\<close>, \<^verbatim>\<open>main.c\<close>): the comparison of two values under a collating sequence. The locale
    \<open>comparison\<close> is what a sort or a B-tree relies on, and \<open>collation\<close> what a collating sequence has to
    promise; \<^verbatim>\<open>sqlite3MemCompare\<close> is a comparison for every such sequence, the built-in ones are such
    sequences, and an integer is compared with a double exactly.
  \<^item> \<open>RecordCompare\<close> (\<^verbatim>\<open>vdbeaux.c\<close>): the comparison of a stored record with a key, the innermost step of a B-tree
    search. On the records of \<open>RecordFormat\<close> it is the lexicographic order of the columns, each in the order of
    \<open>MemCompare\<close> with its direction and its place for NULLs; the two fast variants agree with it.

  \<^bold>\<open>Conventions.\<close> A \<^verbatim>\<open>char*\<close> is the list of bytes from the pointer to the end of its object; on a
  text \<open>s @ [0]\<close> the object ends with the terminator, so a result other than \<open>None\<close> shows that nothing
  behind the terminator is read. Integers whose overflow matters are words, or integers with the
  bounds written out. Allocation failures and the interrupt flag are lists of booleans, over which
  the theorems quantify.

  \<^bold>\<open>Fuel.\<close> Loops whose end is not structural are functions with a termination proof, except for:
  the walks over the linked list of \<open>Hashtab\<close>, whose fuel is the size of the store; the probes of
  \<open>Bitvec\<close>, whose fuel is the table size and the depth of the tree; \<open>getTokenSkip\<close> and \<open>charLenLoop\<close>,
  whose fuel is the length of the text; \<open>patternCompare\<close>, whose fuel is the length of the pattern, since
  every iteration and every recursive call consumes some of it; and \<open>runLoop\<close>, which gets the length of
  the text and three more steps for the end of the input. The theorems about them show that a result is returned, so the fuel is enough.

  \<^bold>\<open>Not modelled.\<close> The Java application and the JNI bindings are not C or are pure glue. Pager,
  write-ahead log, B-tree, page cache, the bytecode interpreter, code generators, schema maintenance, the
  operating system interface and the generated LALR parser are not modelled: the first ones are
  about files, locks and crashes, the others about query semantics. Conversions between text and
  floating point are left out of \<open>Numeric\<close> because they use \<^verbatim>\<open>long double\<close>; for the same reason the
  column affinities that \<^verbatim>\<open>OP_MakeRecord\<close> applies first are left out of \<open>RecordFormat\<close>. In \<open>MemCompare\<close> the path
  that converts two texts to the encoding of a collating sequence is modelled, and the theorems are
  about texts that are in it already. The random number generator and the position lists and
  Unicode tables of the full-text index are open.
\<close>

end
